(* ===== verification/Prelude.thy ===== *)
theory Prelude
  imports Main "HOL-Library.Word" "HOL-Library.Sublist"
begin

text \<open>
  The vocabulary every component of the development shares: the machine types
  of the C sources, NUL-terminated strings as lists of characters, the loop
  "first slot that satisfies a condition" that the kernel tables use, and the
  generic facts about lists and words the component proofs rest on.

  A C string is a list of characters. The string ends at the first NUL or at
  the end of the list, whichever comes first, so a list without a NUL stands
  for the buffer that holds its characters followed by a terminator. Reading
  through a pointer that has reached the end yields NUL.
\<close>

unbundle bit_operations_syntax

type_synonym u8 = "8 word"
type_synonym u16 = "16 word"
type_synonym u32 = "32 word"
type_synonym u64 = "64 word"
type_synonym bytes = "8 word list"

datatype process_state = READY | RUNNING | BLOCKED | SLEEPING | TERMINATED | STOPPED

named_theorems kernel_inv \<open>preservation of the component invariants\<close>
named_theorems cstr_simps \<open>evaluation of C strings\<close>

text \<open>The value of an unsigned 64-bit (32-bit) expression that may have wrapped.\<close>

definition wrap64 :: "nat \<Rightarrow> nat" where
  "wrap64 n = n mod 2 ^ 64"

definition wrap32 :: "nat \<Rightarrow> nat" where
  "wrap32 n = n mod 2 ^ 32"

lemma wrap64_id: "n < 2 ^ 64 \<Longrightarrow> wrap64 n = n"
  by (simp add: wrap64_def)

lemma wrap32_id: "n < 2 ^ 32 \<Longrightarrow> wrap32 n = n"
  by (simp add: wrap32_def)

section \<open>NUL-terminated strings\<close>

abbreviation NUL :: char where
  "NUL \<equiv> CHR 0x00"

definition hd0 :: "string \<Rightarrow> char" where
  "hd0 s = (case s of [] \<Rightarrow> NUL | c # _ \<Rightarrow> c)"

definition cstr :: "string \<Rightarrow> string" where
  "cstr s = takeWhile (\<lambda>c. c \<noteq> NUL) s"

definition ucode :: "char \<Rightarrow> int" where
  "ucode c = int (of_char c :: nat)"

definition scode :: "char \<Rightarrow> int" where
  "scode c = (if ucode c < 128 then ucode c else ucode c - 256)"

lemma hd0_simps [simp, cstr_simps]:
  "hd0 [] = NUL" "hd0 (c # s) = c"
  by (simp_all add: hd0_def)

lemma cstr_simps_list [simp, cstr_simps]:
  "cstr [] = []" "cstr (c # s) = (if c = NUL then [] else c # cstr s)"
  by (simp_all add: cstr_def)

lemma hd0_not_NUL: "hd0 s \<noteq> NUL \<Longrightarrow> \<exists>c t. s = c # t \<and> c \<noteq> NUL"
  by (cases s) auto

lemma cstr_no_NUL: "NUL \<notin> set (cstr s)"
  by (induction s) auto

lemma cstr_id: "NUL \<notin> set s \<Longrightarrow> cstr s = s"
  by (induction s) auto

lemma cstr_cstr [simp]: "cstr (cstr s) = cstr s"
  by (simp add: cstr_id cstr_no_NUL)

lemma cstr_append: "NUL \<notin> set s \<Longrightarrow> cstr (s @ t) = s @ cstr t"
  by (induction s) auto

lemma length_cstr_le: "length (cstr s) \<le> length s"
  by (simp add: cstr_def length_takeWhile_le)

lemma ucode_range: "0 \<le> ucode c" "ucode c < 256"
  using nat_of_char_less_256 [of c] by (simp_all add: ucode_def)

lemma ucode_inject [simp]: "ucode c = ucode d \<longleftrightarrow> c = d"
  by (simp add: ucode_def)

lemma ucode_NUL [simp]: "ucode NUL = 0"
  by (simp add: ucode_def)

lemma ucode_eq_0 [simp]: "ucode c = 0 \<longleftrightarrow> c = NUL"
  using ucode_inject [of c NUL] by simp

section \<open>First slot of a table\<close>

text \<open>
  The tables of the kernel are scanned from slot 0 upwards and the first slot
  that satisfies a condition is taken: \<open>first_index\<close> is that loop.
\<close>

fun first_index :: "('a \<Rightarrow> bool) \<Rightarrow> 'a list \<Rightarrow> nat option" where
  "first_index P [] = None"
| "first_index P (x # xs) = (if P x then Some 0 else map_option Suc (first_index P xs))"

lemma first_index_None: "first_index P xs = None \<longleftrightarrow> (\<forall>x\<in>set xs. \<not> P x)"
  by (induction xs) auto

lemma first_index_Some:
  "first_index P xs = Some i \<longleftrightarrow> i < length xs \<and> P (xs ! i) \<and> (\<forall>j<i. \<not> P (xs ! j))"
proof (induction xs arbitrary: i)
  case (Cons x xs)
  show ?case
    by (cases i) (auto simp: Cons.IH less_Suc_eq_0_disj)
qed simp

lemma first_index_SomeD:
  assumes "first_index P xs = Some i"
  shows "i < length xs" "P (xs ! i)" "\<And>j. j < i \<Longrightarrow> \<not> P (xs ! j)"
  using assms by (auto simp: first_index_Some)

text \<open>The same loop over the indices \<open>i, \<dots>, n - 1\<close> of an array that is not a list.\<close>

definition first_in :: "(nat \<Rightarrow> bool) \<Rightarrow> nat \<Rightarrow> nat \<Rightarrow> nat option" where
  "first_in P i n = List.find P [i..<n]"

lemma find_upt_step:
  "i < n \<Longrightarrow> List.find P [i..<n] = (if P i then Some i else List.find P [Suc i..<n])"
  by (simp add: upt_conv_Cons)

lemma find_upt_Some:
  "List.find P [i..<n] = Some k \<longleftrightarrow> i \<le> k \<and> k < n \<and> P k \<and> (\<forall>j. i \<le> j \<and> j < k \<longrightarrow> \<not> P j)"
proof (induction "n - i" arbitrary: i)
  case 0
  thus ?case by auto
next
  case (Suc d)
  hence "i < n" and IH: "List.find P [Suc i..<n] = Some k \<longleftrightarrow>
    Suc i \<le> k \<and> k < n \<and> P k \<and> (\<forall>j. Suc i \<le> j \<and> j < k \<longrightarrow> \<not> P j)"
    by auto
  show ?case
  proof (cases "P i")
    case True
    thus ?thesis using \<open>i < n\<close> by (auto simp: find_upt_step intro: le_antisym leI)
  next
    case False
    hence "(\<forall>j. i \<le> j \<and> j < k \<longrightarrow> \<not> P j) \<longleftrightarrow> (\<forall>j. Suc i \<le> j \<and> j < k \<longrightarrow> \<not> P j)"
      by (metis Suc_leD le_neq_implies_less Suc_leI)
    moreover have "i \<le> k \<and> P k \<longleftrightarrow> Suc i \<le> k \<and> P k"
      using False by (metis Suc_leD le_neq_implies_less Suc_leI)
    ultimately show ?thesis using \<open>i < n\<close> False IH by (simp add: find_upt_step) blast
  qed
qed

lemma first_in_Some:
  "first_in P i n = Some k \<longleftrightarrow> i \<le> k \<and> k < n \<and> P k \<and> (\<forall>j. i \<le> j \<and> j < k \<longrightarrow> \<not> P j)"
  by (simp add: first_in_def find_upt_Some)

lemma first_in_None: "first_in P i n = None \<longleftrightarrow> (\<forall>j. i \<le> j \<and> j < n \<longrightarrow> \<not> P j)"
  by (auto simp: first_in_def find_None_iff)

lemma first_in_skip:
  assumes "i \<le> j" "\<And>r. i \<le> r \<Longrightarrow> r < j \<Longrightarrow> \<not> P r"
  shows "first_in P i n = first_in P j n"
proof (cases "first_in P j n")
  case None
  hence "first_in P i n = None"
    using assms(2) by (auto simp: first_in_None) (metis not_le)
  thus ?thesis using None by simp
next
  case (Some k)
  hence "first_in P i n = Some k"
    using assms by (auto simp: first_in_Some) (metis not_le)
  thus ?thesis using Some by simp
qed

section \<open>Enumerations\<close>

lemma distinct_concat_map:
  assumes "distinct xs" "\<And>x. x \<in> set xs \<Longrightarrow> distinct (f x)"
    and "\<And>x y. x \<in> set xs \<Longrightarrow> y \<in> set xs \<Longrightarrow> x \<noteq> y \<Longrightarrow> set (f x) \<inter> set (f y) = {}"
  shows "distinct (concat (map f xs))"
  using assms
proof (induction xs)
  case (Cons x xs)
  have "set (f x) \<inter> set (f y) = {}" if "y \<in> set xs" for y
    using Cons.prems(1) that by (intro Cons.prems(3)) auto
  thus ?case using Cons by auto
qed simp

lemma of_nat_u8_inject: "m < 256 \<Longrightarrow> n < 256 \<Longrightarrow> (of_nat m :: u8) = of_nat n \<longleftrightarrow> m = n"
  by (simp add: word_of_nat_eq_iff take_bit_nat_eq_self)

lemma of_nat_u8_image: "n \<le> 256 \<Longrightarrow> (\<exists>m. m < n \<and> x = (of_nat m :: u8)) \<longleftrightarrow> unat x < n"
proof
  assume "n \<le> 256" "\<exists>m. m < n \<and> x = of_nat m"
  thus "unat x < n" by (auto simp: unat_of_nat take_bit_nat_eq_self)
next
  assume "n \<le> 256" "unat x < n"
  thus "\<exists>m. m < n \<and> x = of_nat m" by (intro exI [of _ "unat x"]) simp
qed

lemma distinct_of_nat_u8: "k \<le> 256 \<Longrightarrow> distinct (map (of_nat :: nat \<Rightarrow> u8) [j..<k])"
  by (auto simp: distinct_map inj_on_def of_nat_u8_inject)

lemma ex_nth_list_update:
  "k < length xs \<Longrightarrow> (\<exists>i<length xs. Q (xs[k := x] ! i)) \<longleftrightarrow> Q x \<or> (\<exists>i<length xs. i \<noteq> k \<and> Q (xs ! i))"
  by (auto simp: nth_list_update)

end
