(* ===== verification/KString.thy ===== *)
theory KString
  imports Prelude
begin

text \<open>
  The kernel's memory and string routines, kernel/lib/string.c.

  The memory routines work on a byte-addressed memory \<open>mem\<close> with 64-bit
  addresses. \<open>memset\<close> and \<open>memcpy\<close> are modelled with the three loops
  of the code (bytes up to an 8-byte boundary, aligned 64-bit words, trailing
  bytes) and are shown equal to the plain byte-wise update of the region.
  The string routines walk NUL-terminated strings.
\<close>

section \<open>Memory\<close>

type_synonym mem = "u64 \<Rightarrow> u8"

text \<open>Little-endian stores and loads of the machine.\<close>

fun store_le :: "nat \<Rightarrow> mem \<Rightarrow> u64 \<Rightarrow> u64 \<Rightarrow> mem" where
  "store_le 0 m a w = m"
| "store_le (Suc k) m a w = store_le k (m(a := ucast w)) (a + 1) (drop_bit 8 w)"

fun load_le :: "nat \<Rightarrow> mem \<Rightarrow> u64 \<Rightarrow> u64" where
  "load_le 0 m a = 0"
| "load_le (Suc k) m a = ucast (m a) OR push_bit 8 (load_le k m (a + 1))"

definition store64 :: "mem \<Rightarrow> u64 \<Rightarrow> u64 \<Rightarrow> mem" where
  "store64 m a w = store_le 8 m a w"

definition load64 :: "mem \<Rightarrow> u64 \<Rightarrow> u64" where
  "load64 m a = load_le 8 m a"

text \<open>\<open>memset\<close>: the alignment prefix, the words, the tail.\<close>

fun memset_align :: "mem \<Rightarrow> u64 \<Rightarrow> u8 \<Rightarrow> nat \<Rightarrow> mem \<times> u64 \<times> nat" where
  "memset_align m p b 0 = (m, p, 0)"
| "memset_align m p b (Suc n) =
    (if p AND 7 \<noteq> 0 then memset_align (m(p := b)) (p + 1) b n else (m, p, Suc n))"

fun memset_words :: "mem \<Rightarrow> u64 \<Rightarrow> u64 \<Rightarrow> nat \<Rightarrow> mem" where
  "memset_words m pw w 0 = m"
| "memset_words m pw w (Suc k) = memset_words (store64 m pw w) (pw + 8) w k"

fun memset_bytes :: "mem \<Rightarrow> u64 \<Rightarrow> u8 \<Rightarrow> nat \<Rightarrow> mem" where
  "memset_bytes m p b 0 = m"
| "memset_bytes m p b (Suc n) = memset_bytes (m(p := b)) (p + 1) b n"

definition memset :: "mem \<Rightarrow> u64 \<Rightarrow> int \<Rightarrow> nat \<Rightarrow> mem" where
  "memset m s c n =
    (let b = word_of_int c :: u8;
         (m1, p1, n1) = memset_align m s b n
     in if n1 \<ge> 8 then
          (let word = ucast b * 0x0101010101010101;
               words = n1 div 8;
               m2 = memset_words m1 p1 word words
           in memset_bytes m2 (p1 + of_nat (words * 8)) b (n1 - words * 8))
        else memset_bytes m1 p1 b n1)"

text \<open>\<open>memcpy\<close>: word-wise only when both pointers have the same alignment.\<close>

fun memcpy_align :: "mem \<Rightarrow> u64 \<Rightarrow> u64 \<Rightarrow> nat \<Rightarrow> mem \<times> u64 \<times> u64 \<times> nat" where
  "memcpy_align m d s 0 = (m, d, s, 0)"
| "memcpy_align m d s (Suc n) =
    (if d AND 7 \<noteq> 0 then memcpy_align (m(d := m s)) (d + 1) (s + 1) n else (m, d, s, Suc n))"

fun memcpy_words :: "mem \<Rightarrow> u64 \<Rightarrow> u64 \<Rightarrow> nat \<Rightarrow> mem" where
  "memcpy_words m dw sw 0 = m"
| "memcpy_words m dw sw (Suc k) = memcpy_words (store64 m dw (load64 m sw)) (dw + 8) (sw + 8) k"

fun memcpy_bytes :: "mem \<Rightarrow> u64 \<Rightarrow> u64 \<Rightarrow> nat \<Rightarrow> mem" where
  "memcpy_bytes m d s 0 = m"
| "memcpy_bytes m d s (Suc n) = memcpy_bytes (m(d := m s)) (d + 1) (s + 1) n"

definition memcpy :: "mem \<Rightarrow> u64 \<Rightarrow> u64 \<Rightarrow> nat \<Rightarrow> mem" where
  "memcpy m dest src n =
    (if (dest XOR src) AND 7 = 0 then
       (let (m1, d1, s1, n1) = memcpy_align m dest src n
        in if n1 \<ge> 8 then
             (let words = n1 div 8;
                  m2 = memcpy_words m1 d1 s1 words
              in memcpy_bytes m2 (d1 + of_nat (words * 8)) (s1 + of_nat (words * 8)) (n1 - words * 8))
           else memcpy_bytes m1 d1 s1 n1)
     else memcpy_bytes m dest src n)"

fun memmove_back :: "mem \<Rightarrow> u64 \<Rightarrow> u64 \<Rightarrow> nat \<Rightarrow> mem" where
  "memmove_back m d s 0 = m"
| "memmove_back m d s (Suc n) = memmove_back (m(d - 1 := m (s - 1))) (d - 1) (s - 1) n"

definition memmove :: "mem \<Rightarrow> u64 \<Rightarrow> u64 \<Rightarrow> nat \<Rightarrow> mem" where
  "memmove m dest src n =
    (if dest = src \<or> n = 0 then m
     else if dest < src then memcpy_bytes m dest src n
     else memmove_back m (dest + of_nat n) (src + of_nat n) n)"

fun memcmp :: "mem \<Rightarrow> u64 \<Rightarrow> u64 \<Rightarrow> nat \<Rightarrow> int" where
  "memcmp m a b 0 = 0"
| "memcmp m a b (Suc n) =
    (if m a \<noteq> m b then uint (m a) - uint (m b) else memcmp m (a + 1) (b + 1) n)"

section \<open>Strings\<close>

fun strlen :: "string \<Rightarrow> nat" where
  "strlen [] = 0"
| "strlen (c # s) = (if c = NUL then 0 else Suc (strlen s))"

function strcmp :: "string \<Rightarrow> string \<Rightarrow> int" where
  "strcmp s1 s2 =
    (if hd0 s1 \<noteq> NUL \<and> hd0 s1 = hd0 s2 then strcmp (tl s1) (tl s2)
     else ucode (hd0 s1) - ucode (hd0 s2))"
  by pat_completeness auto
termination
  by (relation "measure (\<lambda>(s1, _). length s1)") (auto dest!: hd0_not_NUL)

fun strncmp_loop :: "string \<Rightarrow> string \<Rightarrow> nat \<Rightarrow> int" where
  "strncmp_loop s1 s2 0 = ucode (hd0 s1) - ucode (hd0 s2)"
| "strncmp_loop s1 s2 (Suc n) =
    (if hd0 s1 \<noteq> NUL \<and> hd0 s1 = hd0 s2 then strncmp_loop (tl s1) (tl s2) n
     else ucode (hd0 s1) - ucode (hd0 s2))"

definition strncmp :: "string \<Rightarrow> string \<Rightarrow> nat \<Rightarrow> int" where
  "strncmp s1 s2 n = (if n = 0 then 0 else strncmp_loop s1 s2 (n - 1))"

text \<open>
  \<open>strcpy\<close> writes into a destination buffer; \<open>None\<close> is a write past
  its end, which the C code does not guard against.
\<close>

fun strcpy :: "string \<Rightarrow> string \<Rightarrow> string option" where
  "strcpy [] src = None"
| "strcpy (d # dest) src =
    (if hd0 src = NUL then Some (NUL # dest)
     else map_option (\<lambda>r. hd0 src # r) (strcpy dest (tl src)))"

definition to_lower :: "char \<Rightarrow> char" where
  "to_lower c = (if ucode CHR ''A'' \<le> scode c \<and> scode c \<le> ucode CHR ''Z''
     then char_of (nat (ucode c + (ucode CHR ''a'' - ucode CHR ''A''))) else c)"

function strcmp_case_insensitive :: "string \<Rightarrow> string \<Rightarrow> int" where
  "strcmp_case_insensitive s1 s2 =
    (if hd0 s1 \<noteq> NUL \<and> hd0 s2 \<noteq> NUL then
       (let c1 = to_lower (hd0 s1); c2 = to_lower (hd0 s2)
        in if c1 \<noteq> c2 then scode c1 - scode c2
           else strcmp_case_insensitive (tl s1) (tl s2))
     else scode (to_lower (hd0 s1)) - scode (to_lower (hd0 s2)))"
  by pat_completeness auto
termination
  by (relation "measure (\<lambda>(s1, _). length s1)") (auto dest!: hd0_not_NUL)

definition blank :: "char \<Rightarrow> bool" where
  "blank c \<longleftrightarrow> c = CHR '' '' \<or> c = CHR 0x09"

fun skip_spaces :: "string \<Rightarrow> string" where
  "skip_spaces [] = []"
| "skip_spaces (c # s) = (if blank c then skip_spaces s else c # s)"

fun token_length :: "string \<Rightarrow> nat" where
  "token_length [] = 0"
| "token_length (c # s) = (if c \<noteq> NUL \<and> \<not> blank c then Suc (token_length s) else 0)"

function token_equals :: "string \<Rightarrow> string \<Rightarrow> bool" where
  "token_equals s word =
    (if hd0 word \<noteq> NUL \<and> hd0 s = hd0 word then token_equals (tl s) (tl word)
     else hd0 word = NUL \<and> (hd0 s = NUL \<or> blank (hd0 s)))"
  by pat_completeness auto
termination
  by (relation "measure (\<lambda>(_, w). length w)") (auto dest!: hd0_not_NUL)

definition is_help_flag :: "string option \<Rightarrow> bool" where
  "is_help_flag args = (case args of None \<Rightarrow> False
     | Some a \<Rightarrow> token_equals a ''-help'' \<or> token_equals a ''--help'' \<or> token_equals a ''-h'')"

definition is_digit :: "char \<Rightarrow> bool" where
  "is_digit c \<longleftrightarrow> ucode CHR ''0'' \<le> scode c \<and> scode c \<le> ucode CHR ''9''"

text \<open>The accumulator of \<open>atoi\<close> and \<open>hex_to_int\<close> is a 32-bit integer.\<close>

fun atoi_loop :: "u32 \<Rightarrow> string \<Rightarrow> u32" where
  "atoi_loop r [] = r"
| "atoi_loop r (c # s) =
    (if is_digit c then atoi_loop (r * 10 + word_of_int (ucode c - ucode CHR ''0'')) s else r)"

definition atoi :: "string \<Rightarrow> int" where
  "atoi s = (if hd0 s = CHR ''-'' then sint (- atoi_loop 0 (tl s)) else sint (atoi_loop 0 s))"

definition hex_digit :: "char \<Rightarrow> int option" where
  "hex_digit c =
    (if is_digit c then Some (scode c - ucode CHR ''0'')
     else if ucode CHR ''a'' \<le> scode c \<and> scode c \<le> ucode CHR ''f'' then Some (scode c - ucode CHR ''a'' + 10)
     else if ucode CHR ''A'' \<le> scode c \<and> scode c \<le> ucode CHR ''F'' then Some (scode c - ucode CHR ''A'' + 10)
     else None)"

fun hex_loop :: "u32 \<Rightarrow> string \<Rightarrow> u32" where
  "hex_loop r [] = r"
| "hex_loop r (c # s) =
    (if c = NUL then r
     else case hex_digit c of None \<Rightarrow> r | Some d \<Rightarrow> hex_loop (r * 16 + word_of_int d) s)"

definition hex_to_int :: "string \<Rightarrow> int" where
  "hex_to_int s = sint (hex_loop 0 s)"

section \<open>Region updates\<close>

definition fill :: "mem \<Rightarrow> u64 \<Rightarrow> (nat \<Rightarrow> u8) \<Rightarrow> nat \<Rightarrow> mem" where
  "fill m p f n = (\<lambda>a. if unat (a - p) < n then f (unat (a - p)) else m a)"

lemma unat_of_nat_u64: "k < 2 ^ 64 \<Longrightarrow> unat (of_nat k :: u64) = k"
  by (simp add: unat_of_nat take_bit_nat_eq_self)

lemma unat_sub_of_nat:
  assumes "k < 2 ^ 64"
  shows "unat (y - of_nat k :: u64) = (if k \<le> unat y then unat y - k else unat y + 2 ^ 64 - k)"
  using unat_sub_if_size [of y "of_nat k"]
  unfolding unat_of_nat_u64 [OF assms] word_size by simp

lemma fill_0 [simp]: "fill m p f 0 = m"
  by (simp add: fill_def)

lemma fill_1: "fill m p f (Suc 0) = m(p := f 0)"
proof
  fix a
  have "unat (a - p) < Suc 0 \<longleftrightarrow> a = p" by (simp add: unat_eq_zero)
  thus "fill m p f (Suc 0) a = (m(p := f 0)) a" by (simp add: fill_def)
qed

lemma fill_fill:
  assumes "k + n \<le> 2 ^ 64"
  shows "fill (fill m p f k) (p + of_nat k) g n =
         fill m p (\<lambda>i. if i < k then f i else g (i - k)) (k + n)"
proof (cases "n = 0")
  case True
  thus ?thesis by (auto simp: fill_def)
next
  case False
  hence k: "k < 2 ^ 64" using assms by simp
  show ?thesis
  proof
    fix a
    define x where "x = unat (a - p)"
    have "unat (a - (p + of_nat k)) = unat ((a - p) - of_nat k)"
      by (simp only: diff_diff_eq)
    hence y: "unat (a - (p + of_nat k)) = (if k \<le> x then x - k else x + 2 ^ 64 - k)"
      by (simp only: unat_sub_of_nat [OF k] x_def)
    show "fill (fill m p f k) (p + of_nat k) g n a =
        fill m p (\<lambda>i. if i < k then f i else g (i - k)) (k + n) a"
      unfolding fill_def y x_def [symmetric] using assms by auto
  qed
qed

lemma fill_cong: "(\<And>i. i < n \<Longrightarrow> f i = g i) \<Longrightarrow> fill m p f n = fill m p g n"
  by (auto simp: fill_def)

lemma fill_Suc:
  assumes "Suc n \<le> 2 ^ 64"
  shows "fill (m(p := b)) (p + 1) g n = fill m p (\<lambda>i. if i = 0 then b else g (i - 1)) (Suc n)"
  using fill_fill [of 1 n m p "\<lambda>_. b" g] assms by (simp add: fill_1)

lemma fill_const:
  "k + n \<le> 2 ^ 64 \<Longrightarrow> fill (fill m p (\<lambda>_. b) k) (p + of_nat k) (\<lambda>_. b) n = fill m p (\<lambda>_. b) (k + n)"
  by (simp add: fill_fill)

section \<open>memset\<close>

lemma store_le_fill:
  "k \<le> 2 ^ 64 \<Longrightarrow> store_le k m a w = fill m a (\<lambda>i. ucast (drop_bit (8 * i) w)) k"
proof (induction k arbitrary: m a w)
  case (Suc k)
  have "store_le (Suc k) m a w = fill (m(a := ucast w)) (a + 1) (\<lambda>i. ucast (drop_bit (8 * i) (drop_bit 8 w))) k"
    using Suc.prems by (simp only: store_le.simps Suc.IH)
  also have "\<dots> = fill m a (\<lambda>i. ucast (drop_bit (8 * i) w)) (Suc k)"
    unfolding fill_Suc [OF Suc.prems]
    by (rule fill_cong) (simp add: drop_bit_drop_bit add.commute split: nat_diff_split)
  finally show ?case .
qed simp

lemma splat_digit:
  fixes x :: nat
  assumes "x < 256" "255 * lo < D"
  shows "x * (D * (1 + 256 * hi) + lo) div D mod 256 = x"
proof -
  have "x * lo \<le> 255 * lo" using assms(1) by (intro mult_right_mono) auto
  hence "x * lo < D" using assms(2) by linarith
  moreover have "x * (D * (1 + 256 * hi) + lo) = x * lo + (x + 256 * (x * hi)) * D"
    by (simp add: algebra_simps)
  ultimately have "x * (D * (1 + 256 * hi) + lo) div D = x + 256 * (x * hi)"
    by simp
  thus ?thesis using assms(1) by simp
qed

lemma unat_ucast_byte: "unat (ucast (drop_bit k (w :: u64)) :: u8) = unat w div 2 ^ k mod 256"
  by (simp add: unsigned_ucast_eq unat_drop_bit_eq take_bit_eq_mod flip: drop_bit_eq_div)

lemma unat_splat: "unat (ucast (b :: u8) * 0x0101010101010101 :: u64) = unat b * 0x0101010101010101"
proof -
  have "unat b < 256" using unsigned_less [of b] by simp
  thus ?thesis by (simp add: unat_word_ariths unsigned_ucast_eq take_bit_nat_eq_self)
qed

lemma replicated_byte:
  fixes b :: u8
  assumes "i < 8"
  shows "ucast (drop_bit (8 * i) (ucast b * 0x0101010101010101 :: u64)) = b"
proof -
  have b: "unat b < 256" using unsigned_less [of b] by simp
  let ?c = "0x0101010101010101 :: nat"
  have E: "unat b * ?c div D mod 256 = unat b" if "?c = D * (1 + 256 * hi) + lo" "255 * lo < D" for D hi lo :: nat
    unfolding that(1) by (rule splat_digit [OF b that(2)])
  have "i = 0 \<or> i = 1 \<or> i = 2 \<or> i = 3 \<or> i = 4 \<or> i = 5 \<or> i = 6 \<or> i = 7" using assms by arith
  hence "unat b * ?c div 2 ^ (8 * i) mod 256 = unat b"
  proof (elim disjE)
    assume "i = 0"
    thus ?thesis using E [of "2 ^ 0" "0x1010101010101" "0x0"] by simp
  next
    assume "i = 1"
    thus ?thesis using E [of "2 ^ 8" "0x10101010101" "0x1"] by simp
  next
    assume "i = 2"
    thus ?thesis using E [of "2 ^ 16" "0x101010101" "0x101"] by simp
  next
    assume "i = 3"
    thus ?thesis using E [of "2 ^ 24" "0x1010101" "0x10101"] by simp
  next
    assume "i = 4"
    thus ?thesis using E [of "2 ^ 32" "0x10101" "0x1010101"] by simp
  next
    assume "i = 5"
    thus ?thesis using E [of "2 ^ 40" "0x101" "0x101010101"] by simp
  next
    assume "i = 6"
    thus ?thesis using E [of "2 ^ 48" "0x1" "0x10101010101"] by simp
  next
    assume "i = 7"
    thus ?thesis using E [of "2 ^ 56" "0x0" "0x1010101010101"] by simp
  qed
  thus ?thesis
    by (simp only: word_unat_eq_iff unat_ucast_byte unat_splat)
qed

lemma store64_splat: "store64 m p (ucast b * 0x0101010101010101) = fill m p (\<lambda>_. b) 8"
  unfolding store64_def by (subst store_le_fill, simp) (rule fill_cong, rule replicated_byte)

lemma memset_bytes_fill: "n \<le> 2 ^ 64 \<Longrightarrow> memset_bytes m p b n = fill m p (\<lambda>_. b) n"
proof (induction n arbitrary: m p)
  case (Suc n)
  thus ?case by (simp add: fill_Suc cong: if_cong)
qed simp

lemma memset_words_fill:
  "8 * k \<le> 2 ^ 64 \<Longrightarrow> memset_words m p (ucast b * 0x0101010101010101) k = fill m p (\<lambda>_. b) (8 * k)"
proof (induction k arbitrary: m p)
  case (Suc k)
  hence "memset_words m p (ucast b * 0x0101010101010101) (Suc k) =
      fill (fill m p (\<lambda>_. b) 8) (p + of_nat 8) (\<lambda>_. b) (8 * k)"
    by (simp add: store64_splat)
  also have "\<dots> = fill m p (\<lambda>_. b) (8 + 8 * k)"
    using Suc.prems by (intro fill_const) simp
  finally show ?case by simp
qed simp

lemma memset_align_fill:
  "n \<le> 2 ^ 64 \<Longrightarrow> memset_align m p b n = (m1, p1, n1) \<Longrightarrow>
   n1 \<le> n \<and> p1 = p + of_nat (n - n1) \<and> m1 = fill m p (\<lambda>_. b) (n - n1)"
proof (induction n arbitrary: m p)
  case (Suc n)
  show ?case
  proof (cases "p AND 7 \<noteq> 0")
    case True
    hence "memset_align (m(p := b)) (p + 1) b n = (m1, p1, n1)" and "n \<le> 2 ^ 64"
      using Suc.prems by auto
    note IH = Suc.IH [OF this(2,1)]
    moreover have "Suc n - n1 = Suc (n - n1)" using IH by linarith
    moreover have "Suc (n - n1) \<le> 2 ^ 64" using Suc.prems by simp
    ultimately show ?thesis using fill_Suc [of "n - n1" m p b "\<lambda>_. b"] by (simp add: add.assoc del: fun_upd_apply)
  qed (use Suc in auto)
qed auto

text \<open>C10: Filling memory word by word with an aligned prefix and a byte tail has the effect of filling
  it byte by byte: exactly the \<open>n\<close> bytes from \<open>s\<close> on (addresses wrap at \<open>2^64\<close>) hold the low byte of
  \<open>c\<close> afterwards, whatever the alignment of \<open>s\<close>, and every other byte of memory is unchanged.\<close>

theorem memset_correct:
  assumes "n \<le> 2 ^ 64"
  shows "memset m s c n = (\<lambda>a. if unat (a - s) < n then word_of_int c else m a)"
proof -
  define b :: u8 where "b = word_of_int c"
  obtain m1 p1 n1 where al: "memset_align m s b n = (m1, p1, n1)"
    by (metis prod_cases3)
  have le: "n1 \<le> n" and p1: "p1 = s + of_nat (n - n1)" and m1: "m1 = fill m s (\<lambda>_. b) (n - n1)"
    using memset_align_fill [OF assms al] by blast+
  have n1: "n1 \<le> 2 ^ 64" using le assms by (rule le_trans)
  have "fill m1 p1 (\<lambda>_. b) n1 = fill m s (\<lambda>_. b) (n - n1 + n1)"
    unfolding m1 p1 by (rule fill_const) (use le assms in simp)
  hence whole: "fill m1 p1 (\<lambda>_. b) n1 = fill m s (\<lambda>_. b) n" using le by simp
  have T: "memset_bytes (fill m1 p1 (\<lambda>_. b) k) (p1 + of_nat k) b (n1 - k) = fill m s (\<lambda>_. b) n"
    if "k \<le> n1" for k
  proof -
    have "memset_bytes (fill m1 p1 (\<lambda>_. b) k) (p1 + of_nat k) b (n1 - k) =
        fill (fill m1 p1 (\<lambda>_. b) k) (p1 + of_nat k) (\<lambda>_. b) (n1 - k)"
      by (rule memset_bytes_fill) (use n1 in simp)
    also have "\<dots> = fill m1 p1 (\<lambda>_. b) (k + (n1 - k))"
      by (rule fill_const) (use that n1 in simp)
    finally show ?thesis using that whole by simp
  qed
  have words: "8 * (n1 div 8) \<le> 2 ^ 64" by (rule le_trans [OF _ n1]) simp
  have "memset m s c n = fill m s (\<lambda>_. b) n"
  proof (cases "n1 \<ge> 8")
    case True
    have "memset_words m1 p1 (ucast b * 0x0101010101010101) (n1 div 8) = fill m1 p1 (\<lambda>_. b) (n1 div 8 * 8)"
      using memset_words_fill [OF words] by (simp only: mult.commute)
    with True T [of "n1 div 8 * 8"] show ?thesis
      unfolding memset_def Let_def b_def [symmetric] al by (simp del: of_nat_mult)
  next
    case False
    with T [of 0] show ?thesis
      unfolding memset_def Let_def b_def [symmetric] al by simp
  qed
  thus ?thesis by (simp add: fill_def b_def)
qed

theorem memset_correct_witness:
  "memset (\<lambda>_. 1) 3 0x2AA 12 3 = 0xAA \<and> memset (\<lambda>_. 1) 3 0x2AA 12 14 = 0xAA \<and>
   memset (\<lambda>_. 1) 3 0x2AA 12 2 = 1 \<and> memset (\<lambda>_. 1) 3 0x2AA 12 15 = 1"
  by (simp add: memset_correct unsigned_minus_1_eq_mask mask_eq_exp_minus_1)

section \<open>memcpy and memmove\<close>

text \<open>
  \<open>copied\<close> is the intended effect of a copy: every byte of the destination
  region gets the byte the source region had before. It is what a forward
  byte-by-byte copy does when no byte is overwritten before it is read
  (\<open>fwd_ok\<close>), and what a backward copy does under the mirrored condition.
\<close>

definition copied :: "mem \<Rightarrow> u64 \<Rightarrow> u64 \<Rightarrow> nat \<Rightarrow> mem" where
  "copied m d s n = fill m d (\<lambda>i. m (s + of_nat i)) n"

definition fwd_ok :: "u64 \<Rightarrow> u64 \<Rightarrow> nat \<Rightarrow> bool" where
  "fwd_ok d s n \<longleftrightarrow> (\<forall>i<n. \<forall>j<i. d + of_nat j \<noteq> s + of_nat i)"

lemma fill_outside:
  assumes "\<And>j. j < k \<Longrightarrow> a \<noteq> p + of_nat j"
  shows "fill m p f k a = m a"
proof -
  have "a = p + of_nat (unat (a - p))" by simp
  hence "\<not> unat (a - p) < k" using assms by blast
  thus ?thesis by (simp add: fill_def)
qed

lemma copied_copied:
  assumes "fwd_ok d s (k + n)" "k + n \<le> 2 ^ 64"
  shows "copied (copied m d s k) (d + of_nat k) (s + of_nat k) n = copied m d s (k + n)"
proof -
  have "copied m d s k (s + of_nat i) = m (s + of_nat i)" if "k \<le> i" "i < k + n" for i
    unfolding copied_def using assms(1) that
    by (intro fill_outside) (metis fwd_ok_def less_le_trans)
  hence "copied m d s k (s + of_nat k + of_nat (i - k)) = m (s + of_nat i)" if "\<not> i < k" "i < k + n" for i
    using that by (simp add: add.assoc flip: of_nat_add)
  thus ?thesis
    unfolding copied_def fill_fill [OF assms(2)]
    by (intro fill_cong) (simp add: copied_def [symmetric])
qed

lemma fwd_ok_mono: "fwd_ok d s n \<Longrightarrow> k \<le> n \<Longrightarrow> fwd_ok d s k"
  by (auto simp: fwd_ok_def)

lemma fwd_ok_shift:
  assumes "fwd_ok d s (k + n)"
  shows "fwd_ok (d + of_nat k) (s + of_nat k) n"
  unfolding fwd_ok_def
proof (intro allI impI)
  fix i j assume "i < n" "j < i"
  hence "d + of_nat (k + j) \<noteq> s + of_nat (k + i)"
    using assms unfolding fwd_ok_def by (metis add_less_cancel_left)
  thus "d + of_nat k + of_nat j \<noteq> s + of_nat k + of_nat i" by (simp add: add.assoc)
qed

lemma copied_Suc: 
  "copied m d s (Suc 0) = m(d := m s)"
  by (simp add: copied_def fill_1)

lemma memcpy_bytes_copied:
  "fwd_ok d s n \<Longrightarrow> n \<le> 2 ^ 64 \<Longrightarrow> memcpy_bytes m d s n = copied m d s n"
proof (induction n arbitrary: m d s)
  case 0
  show ?case by (simp add: copied_def)
next
  case (Suc n)
  have "fwd_ok (d + 1) (s + 1) n" using fwd_ok_shift [of d s 1 n] Suc.prems(1) by simp
  hence "memcpy_bytes m d s (Suc n) = copied (copied m d s 1) (d + of_nat 1) (s + of_nat 1) n"
    using Suc.IH Suc.prems(2) by (simp add: copied_Suc)
  also have "\<dots> = copied m d s (Suc n)"
    using copied_copied [of d s 1 n m] Suc.prems by simp
  finally show ?case .
qed

lemma load_le_byte:
  "k \<le> 8 \<Longrightarrow> i < k \<Longrightarrow> (ucast (drop_bit (8 * i) (load_le k m s)) :: u8) = m (s + of_nat i)"
proof (induction k arbitrary: s i)
  case (Suc k)
  show ?case
  proof (cases i)
    case 0
    thus ?thesis by (auto intro!: bit_word_eqI simp: bit_simps)
  next
    case (Suc j)
    have "(ucast (drop_bit (8 * i) (load_le (Suc k) m s)) :: u8) = ucast (drop_bit (8 * j) (load_le k m (s + 1)))"
      using Suc Suc.prems by (intro bit_word_eqI) (auto simp: bit_simps dest: bit_imp_le_length)
    also have "\<dots> = m (s + of_nat i)" using Suc.IH [of j "s + 1"] Suc Suc.prems by (simp add: add.assoc)
    finally show ?thesis .
  qed
qed simp

lemma copy64: "store64 m d (load64 m s) = copied m d s 8"
  unfolding store64_def load64_def copied_def
  by (subst store_le_fill, simp) (rule fill_cong, simp add: load_le_byte)

lemma memcpy_words_copied:
  "fwd_ok d s (8 * k) \<Longrightarrow> 8 * k \<le> 2 ^ 64 \<Longrightarrow> memcpy_words m d s k = copied m d s (8 * k)"
proof (induction k arbitrary: m d s)
  case 0
  show ?case by (simp add: copied_def)
next
  case (Suc k)
  have ok: "fwd_ok d s (8 + 8 * k)" "8 + 8 * k \<le> 2 ^ 64" using Suc.prems by simp_all
  have "memcpy_words m d s (Suc k) = copied (copied m d s 8) (d + of_nat 8) (s + of_nat 8) (8 * k)"
    using Suc.IH [of "d + 8" "s + 8"] fwd_ok_shift [OF ok(1)] ok(2) by (simp add: copy64)
  also have "\<dots> = copied m d s (8 * Suc k)"
    using copied_copied [OF ok] by simp
  finally show ?case .
qed

lemma memcpy_align_copied:
  "fwd_ok d s n \<Longrightarrow> n \<le> 2 ^ 64 \<Longrightarrow> memcpy_align m d s n = (m1, d1, s1, n1) \<Longrightarrow>
   n1 \<le> n \<and> d1 = d + of_nat (n - n1) \<and> s1 = s + of_nat (n - n1) \<and> m1 = copied m d s (n - n1)"
proof (induction n arbitrary: m d s)
  case 0
  thus ?case by (simp add: copied_def)
next
  case (Suc n)
  show ?case
  proof (cases "d AND 7 \<noteq> 0")
    case True
    hence eq: "memcpy_align (m(d := m s)) (d + 1) (s + 1) n = (m1, d1, s1, n1)"
      and n: "n \<le> 2 ^ 64" using Suc.prems by auto
    have ok: "fwd_ok (d + 1) (s + 1) n" using fwd_ok_shift [of d s 1 n] Suc.prems(1) by simp
    note IH = Suc.IH [OF ok n eq]
    hence S: "Suc n - n1 = Suc (n - n1)" by linarith
    have "copied (copied m d s 1) (d + of_nat 1) (s + of_nat 1) (n - n1) = copied m d s (1 + (n - n1))"
      by (rule copied_copied) (use Suc.prems in \<open>auto intro: fwd_ok_mono\<close>)
    with IH S show ?thesis by (simp add: copied_Suc add.assoc del: fun_upd_apply)
  qed (use Suc in \<open>auto simp: copied_def\<close>)
qed

lemma memcpy_tail:
  assumes "fwd_ok d s n" "n \<le> 2 ^ 64" "k \<le> n"
  shows "memcpy_bytes (copied m d s k) (d + of_nat k) (s + of_nat k) (n - k) = copied m d s n"
proof -
  have "fwd_ok (d + of_nat k) (s + of_nat k) (n - k)"
    by (rule fwd_ok_shift) (use assms in simp)
  moreover have "n - k \<le> 2 ^ 64" using assms(2) by linarith
  ultimately have "memcpy_bytes (copied m d s k) (d + of_nat k) (s + of_nat k) (n - k) =
      copied (copied m d s k) (d + of_nat k) (s + of_nat k) (n - k)"
    by (rule memcpy_bytes_copied)
  also have "\<dots> = copied m d s (k + (n - k))"
    by (rule copied_copied) (use assms in auto)
  finally show ?thesis using assms(3) by simp
qed

lemma memcpy_copied:
  assumes ok: "fwd_ok d s n" and n: "n \<le> 2 ^ 64"
  shows "memcpy m d s n = copied m d s n"
proof (cases "(d XOR s) AND 7 = 0")
  case False
  thus ?thesis using memcpy_bytes_copied [OF assms] by (simp add: memcpy_def)
next
  case True
  obtain m1 d1 s1 n1 where al: "memcpy_align m d s n = (m1, d1, s1, n1)"
    by (metis prod_cases4)
  define k where "k = n - n1"
  have le: "n1 \<le> n" and d1: "d1 = d + of_nat k" and s1: "s1 = s + of_nat k" and m1: "m1 = copied m d s k"
    using memcpy_align_copied [OF ok n al] unfolding k_def by blast+
  have nk: "n = k + n1" using le by (simp add: k_def)
  have n1: "n1 \<le> 2 ^ 64" using le n by (rule le_trans)
  have ok1: "fwd_ok d1 s1 n1" unfolding d1 s1 by (rule fwd_ok_shift) (use ok nk in simp)
  have whole: "copied m1 d1 s1 n1 = copied m d s n"
    unfolding m1 d1 s1 using copied_copied [of d s k n1 m] ok n nk by simp
  show ?thesis
  proof (cases "n1 \<ge> 8")
    case True
    let ?w = "n1 div 8 * 8"
    have "8 * (n1 div 8) \<le> n1" by simp
    hence "memcpy_words m1 d1 s1 (n1 div 8) = copied m1 d1 s1 ?w"
      using memcpy_words_copied [OF fwd_ok_mono [OF ok1] le_trans [OF _ n1], of "n1 div 8"]
      by (simp add: mult.commute)
    moreover have "memcpy_bytes (copied m1 d1 s1 ?w) (d1 + of_nat ?w) (s1 + of_nat ?w) (n1 - ?w) = copied m1 d1 s1 n1"
      by (rule memcpy_tail [OF ok1 n1]) simp
    ultimately show ?thesis
      using True \<open>(d XOR s) AND 7 = 0\<close> whole unfolding memcpy_def Let_def al by (simp del: of_nat_mult)
  next
    case False
    thus ?thesis
      using \<open>(d XOR s) AND 7 = 0\<close> whole memcpy_bytes_copied [OF ok1 n1] unfolding memcpy_def Let_def al by simp
  qed
qed

text \<open>Two regions that do not wrap around the address space.\<close>

lemma add_of_nat_no_wrap:
  assumes "unat (p :: u64) + n \<le> 2 ^ 64" "i < n"
  shows "unat (p + of_nat i) = unat p + i"
proof -
  have i: "unat (of_nat i :: u64) = i"
    by (rule unat_of_nat_u64) (use assms in linarith)
  have "unat p + unat (of_nat i :: u64) < 2 ^ LENGTH(64)"
    unfolding i using assms by simp
  hence "unat (p + of_nat i) = unat p + unat (of_nat i :: u64)"
    by (simp only: unat_add_lem)
  thus ?thesis by (simp only: i)
qed

lemma fwd_ok_less:
  assumes "d < s" "unat d + n \<le> 2 ^ 64" "unat s + n \<le> 2 ^ 64"
  shows "fwd_ok d s n"
  unfolding fwd_ok_def
proof (intro allI impI notI)
  fix i j assume ij: "i < n" "j < i" and eq: "d + of_nat j = s + of_nat i"
  have "unat d + j = unat s + i"
    using arg_cong [OF eq, of unat] add_of_nat_no_wrap [OF assms(2), of j] add_of_nat_no_wrap [OF assms(3), of i] ij
    by simp
  moreover have "unat d < unat s" using assms(1) by (simp add: word_less_nat_alt)
  ultimately show False using ij by simp
qed

lemma fwd_ok_disjoint:
  assumes "unat d + n \<le> unat s \<or> unat s + n \<le> unat d" "unat d + n \<le> 2 ^ 64" "unat s + n \<le> 2 ^ 64"
  shows "fwd_ok d s n"
  unfolding fwd_ok_def
proof (intro allI impI notI)
  fix i j assume ij: "i < n" "j < i" and eq: "d + of_nat j = s + of_nat i"
  have "unat d + j = unat s + i"
    using arg_cong [OF eq, of unat] add_of_nat_no_wrap [OF assms(2), of j] add_of_nat_no_wrap [OF assms(3), of i] ij
    by simp
  thus False using assms(1) ij by linarith
qed

lemma memmove_back_copied:
  assumes "\<And>i j. i < j \<Longrightarrow> j < n \<Longrightarrow> d + of_nat j \<noteq> s + of_nat i" "n \<le> 2 ^ 64"
  shows "memmove_back m (d + of_nat n) (s + of_nat n) n = copied m d s n"
  using assms
proof (induction n arbitrary: m)
  case 0
  show ?case by (simp add: copied_def)
next
  case (Suc n)
  let ?m = "m(d + of_nat n := m (s + of_nat n))"
  have "memmove_back m (d + of_nat (Suc n)) (s + of_nat (Suc n)) (Suc n) =
      memmove_back ?m (d + of_nat n) (s + of_nat n) n"
    by simp
  also have "\<dots> = copied ?m d s n"
    by (rule Suc.IH) (use Suc.prems in auto)
  also have "\<dots> = fill ?m d (\<lambda>i. m (s + of_nat i)) n"
    unfolding copied_def using Suc.prems(1) by (intro fill_cong) (metis fun_upd_other lessI)
  also have "\<dots> = copied m d s (Suc n)"
    unfolding copied_def
  proof
    fix a
    have n: "n < 2 ^ 64" using Suc.prems(2) by simp
    have "a = d + of_nat n \<longleftrightarrow> unat (a - d) = n"
      using unat_of_nat_u64 [OF n]
      by (metis add_diff_cancel_left' diff_add_cancel add.commute word_unat_eq_iff)
    thus "fill ?m d (\<lambda>i. m (s + of_nat i)) n a = fill m d (\<lambda>i. m (s + of_nat i)) (Suc n) a"
      by (auto simp: fill_def less_Suc_eq)
  qed
  finally show ?case .
qed

lemma copied_apply: "copied m d s n = (\<lambda>a. if unat (a - d) < n then m (s + (a - d)) else m a)"
  by (auto simp: copied_def fill_def)

lemma memcpy_correct:
  assumes "unat d + n \<le> 2 ^ 64" "unat s + n \<le> 2 ^ 64"
    and "unat d + n \<le> unat s \<or> unat s + n \<le> unat d"
  shows "memcpy m d s n = (\<lambda>a. if unat (a - d) < n then m (s + (a - d)) else m a)"
proof -
  have "n \<le> 2 ^ 64" using assms(1) by linarith
  thus ?thesis
    using memcpy_copied [OF fwd_ok_disjoint [OF assms(3,1,2)]] by (simp only: copied_apply)
qed

lemma memmove_correct:
  assumes d: "unat d + n \<le> 2 ^ 64" and s: "unat s + n \<le> 2 ^ 64"
  shows "memmove m d s n = (\<lambda>a. if unat (a - d) < n then m (s + (a - d)) else m a)"
proof -
  consider "d = s \<or> n = 0" | "d \<noteq> s" "n \<noteq> 0" "d < s" | "d \<noteq> s" "n \<noteq> 0" "s < d"
    by (meson linorder_less_linear)
  hence "memmove m d s n = copied m d s n"
  proof cases
    case 1
    thus ?thesis by (auto simp: memmove_def copied_def fill_def)
  next
    case 2
    hence "memcpy_bytes m d s n = copied m d s n"
      using d by (intro memcpy_bytes_copied fwd_ok_less s) auto
    thus ?thesis using 2 by (simp add: memmove_def)
  next
    case 3
    have "d + of_nat j \<noteq> s + of_nat i" if "i < j" "j < n" for i j
      using fwd_ok_less [OF 3(3) s d] that by (metis fwd_ok_def)
    hence "memmove_back m (d + of_nat n) (s + of_nat n) n = copied m d s n"
      by (rule memmove_back_copied) (use d in auto)
    thus ?thesis using 3 by (auto simp: memmove_def)
  qed
  thus ?thesis by (simp only: copied_apply)
qed

text \<open>C9: A copy gives every byte of the destination the byte the source had before and changes nothing
  else: \<open>memcpy\<close>, which copies words when source and destination are equally aligned, for regions that do
  not overlap, and \<open>memmove\<close> for any two regions that do not run past the end of the address space.\<close>

theorem memcpy_memmove_correct:
  assumes "unat d + n \<le> 2 ^ 64" and "unat s + n \<le> 2 ^ 64"
  shows "(unat d + n \<le> unat s \<or> unat s + n \<le> unat d \<longrightarrow>
           memcpy m d s n = (\<lambda>a. if unat (a - d) < n then m (s + (a - d)) else m a)) \<and>
         memmove m d s n = (\<lambda>a. if unat (a - d) < n then m (s + (a - d)) else m a)"
  using memcpy_correct [OF assms] memmove_correct [OF assms] by blast

theorem memcpy_memmove_correct_witness:
  "memcpy (\<lambda>a. ucast a) 64 16 20 83 = 35 \<and> memmove (\<lambda>a. ucast a) 20 16 20 39 = 35"
proof -
  have "memcpy (\<lambda>a. ucast a) 64 16 20 = (\<lambda>a. if unat (a - 64) < 20 then ucast (16 + (a - 64)) else ucast a)"
    using memcpy_memmove_correct [of 64 20 16 "\<lambda>a. ucast a"] by simp
  moreover have "memmove (\<lambda>a. ucast a) 20 16 20 = (\<lambda>a. if unat (a - 20) < 20 then ucast (16 + (a - 20)) else ucast a)"
    using memcpy_memmove_correct [of 20 20 16 "\<lambda>a. ucast a"] by simp
  ultimately show ?thesis by simp
qed

lemma memcmp_eq_0:
  "memcmp m a b n = 0 \<longleftrightarrow> (\<forall>i<n. m (a + of_nat i) = m (b + of_nat i))"
proof (induction n arbitrary: a b)
  case (Suc n)
  have "(\<forall>i<Suc n. m (a + of_nat i) = m (b + of_nat i)) \<longleftrightarrow>
      m a = m b \<and> (\<forall>i<n. m (a + 1 + of_nat i) = m (b + 1 + of_nat i))"
    by (simp add: All_less_Suc2 add.assoc)
  thus ?case using Suc.IH [of "a + 1" "b + 1"] by (simp add: word_uint_eq_iff)
qed simp

section \<open>What the string routines compute\<close>

lemma strlen_cstr: "strlen s = length (cstr s)"
  by (induction s) auto

declare strcmp.simps [simp del] strcmp_case_insensitive.simps [simp del] token_equals.simps [simp del]

lemma ucode_pos: "0 < ucode c \<longleftrightarrow> c \<noteq> NUL"
  using ucode_range(1) [of c] ucode_eq_0 [of c] by linarith

lemma strcmp_step [simp]:
  "strcmp [] t = - ucode (hd0 t)"
  "strcmp (c # s) [] = ucode c"
  "strcmp (c # s) (d # t) = (if c \<noteq> NUL \<and> c = d then strcmp s t else ucode c - ucode d)"
  by (subst strcmp.simps; simp)+

lemma strcmp_eq_0:
  "strcmp s t = 0 \<longleftrightarrow> cstr s = cstr t"
proof (induction s arbitrary: t)
  case Nil
  show ?case by (cases t) auto
next
  case (Cons c s)
  show ?case by (cases t) (auto simp: Cons.IH)
qed

lemma ucode_le: "\<not> ucode c < 0"
  using ucode_range(1) [of c] by linarith

lemma strcmp_order:
  "strcmp s t < 0 \<longleftrightarrow> ord_class.lexordp (map ucode (cstr s)) (map ucode (cstr t))"
proof (induction s arbitrary: t)
  case Nil
  show ?case by (cases t) (auto simp: ucode_pos)
next
  case (Cons c s)
  show ?case by (cases t) (auto simp: Cons.IH ucode_le ucode_pos not_less le_less)
qed

text \<open>C11: \<open>strcmp\<close> is the lexicographic comparison of the two strings up to their terminators, by unsigned
  byte values: zero exactly for equal strings, negative exactly when the first is smaller, and swapping the
  arguments swaps the sign.\<close>

theorem strcmp_lexicographic:
  "(strcmp s t = 0 \<longleftrightarrow> cstr s = cstr t) \<and>
   (strcmp s t < 0 \<longleftrightarrow> ord_class.lexordp (map ucode (cstr s)) (map ucode (cstr t))) \<and>
   strcmp t s = - strcmp s t"
proof -
  have "strcmp t s = - strcmp s t"
  proof (induction s arbitrary: t)
    case Nil
    show ?case by (cases t) auto
  next
    case (Cons c s)
    show ?case by (cases t) (auto simp: Cons.IH)
  qed
  thus ?thesis by (simp add: strcmp_eq_0 strcmp_order)
qed

lemma strncmp_loop_eq_0:
  "strncmp_loop s t n = 0 \<longleftrightarrow> take (Suc n) (cstr s) = take (Suc n) (cstr t)"
proof (induction n arbitrary: s t)
  case 0
  show ?case by (cases s; cases t) auto
next
  case (Suc n)
  show ?case using Suc.IH [of "tl s" "tl t"] by (cases s; cases t) auto
qed

lemma strncmp_eq_0: "strncmp s t n = 0 \<longleftrightarrow> take n (cstr s) = take n (cstr t)"
  by (cases n) (simp_all add: strncmp_def strncmp_loop_eq_0)

lemma strcpy_room:
  "strcpy dest src = (if length (cstr src) < length dest
     then Some (cstr src @ NUL # drop (Suc (length (cstr src))) dest) else None)"
proof (induction dest arbitrary: src)
  case (Cons d dest)
  show ?case using Cons.IH [of "tl src"] by (cases src) auto
qed simp

lemma scode_inject [simp]: "scode c = scode d \<longleftrightarrow> c = d"
proof
  assume "scode c = scode d"
  hence "ucode c = ucode d"
    using ucode_range [of c] ucode_range [of d] by (simp add: scode_def split: if_splits)
  thus "c = d" by simp
qed simp

lemma ucode_char_of: "n < 256 \<Longrightarrow> ucode (char_of n) = int n"
  by (simp add: ucode_def)

lemma ucode_to_lower:
  "ucode (to_lower c) = (if 65 \<le> ucode c \<and> ucode c \<le> 90 then ucode c + 32 else ucode c)"
proof -
  have [simp]: "ucode CHR ''A'' = 65" "ucode CHR ''Z'' = 90" "ucode CHR ''a'' = 97"
    by (simp_all add: ucode_def)
  have "(65 \<le> scode c \<and> scode c \<le> 90) = (65 \<le> ucode c \<and> ucode c \<le> 90)"
    using ucode_range [of c] by (auto simp: scode_def)
  thus ?thesis using ucode_range [of c] by (auto simp: to_lower_def ucode_char_of)
qed

lemma to_lower_NUL [simp]: "to_lower c = NUL \<longleftrightarrow> c = NUL"
  using ucode_to_lower [of c] ucode_eq_0 [of "to_lower c"] ucode_eq_0 [of c] by (auto split: if_splits)

lemma to_lower_at_NUL: "to_lower NUL = NUL" "NUL = to_lower c \<longleftrightarrow> c = NUL"
  by (metis to_lower_NUL)+

lemma scode_eq_0 [simp]: "scode c = 0 \<longleftrightarrow> c = NUL"
  using scode_inject [of c NUL] by (simp add: scode_def)

lemma strcmp_case_insensitive_step [simp]:
  "strcmp_case_insensitive [] t = - scode (to_lower (hd0 t))"
  "strcmp_case_insensitive (c # s) [] = scode (to_lower c)"
  "strcmp_case_insensitive (c # s) (d # t) =
     (if c \<noteq> NUL \<and> d \<noteq> NUL \<and> to_lower c = to_lower d then strcmp_case_insensitive s t
      else scode (to_lower c) - scode (to_lower d))"
  by (subst strcmp_case_insensitive.simps; simp add: Let_def to_lower_at_NUL)+

lemma strcmp_case_insensitive_eq_0:
  "strcmp_case_insensitive s t = 0 \<longleftrightarrow> map to_lower (cstr s) = map to_lower (cstr t)"
proof (induction s arbitrary: t)
  case Nil
  show ?case by (cases t) (auto simp: to_lower_at_NUL)
next
  case (Cons c s)
  show ?case by (cases t) (auto simp: Cons.IH to_lower_at_NUL)
qed

definition token :: "string \<Rightarrow> string" where
  "token s = takeWhile (\<lambda>c. c \<noteq> NUL \<and> \<not> blank c) s"

lemma token_length_token: "token_length s = length (token s)"
  by (induction s) (auto simp: token_def)

lemma blank_NUL [simp]: "\<not> blank NUL"
  by (simp add: blank_def)

lemma token_equals_step [simp]:
  "token_equals s [] \<longleftrightarrow> hd0 s = NUL \<or> blank (hd0 s)"
  "token_equals [] (d # w) \<longleftrightarrow> d = NUL"
  "token_equals (c # s) (d # w) \<longleftrightarrow>
     (if d = NUL then c = NUL \<or> blank c else c = d \<and> token_equals s w)"
  by (subst token_equals.simps; auto)+

lemma token_equals_token:
  "\<forall>c\<in>set (cstr w). \<not> blank c \<Longrightarrow> token_equals s w \<longleftrightarrow> token s = cstr w"
proof (induction w arbitrary: s)
  case Nil
  show ?case by (cases s) (auto simp: token_def)
next
  case (Cons d w)
  thus ?case by (cases s) (auto simp: token_def split: if_splits)
qed

section \<open>Numbers\<close>

fun dec_value :: "nat \<Rightarrow> string \<Rightarrow> nat" where
  "dec_value v [] = v"
| "dec_value v (c # s) = (if is_digit c then dec_value (v * 10 + nat (ucode c - 48)) s else v)"

fun hex_value :: "nat \<Rightarrow> string \<Rightarrow> nat" where
  "hex_value v [] = v"
| "hex_value v (c # s) = (case hex_digit c of None \<Rightarrow> v | Some d \<Rightarrow> hex_value (v * 16 + nat d) s)"

lemma ucode_literals [simp]:
  "ucode CHR ''0'' = 48" "ucode CHR ''9'' = 57" "ucode CHR ''A'' = 65" "ucode CHR ''F'' = 70"
  "ucode CHR ''a'' = 97" "ucode CHR ''f'' = 102" "ucode CHR ''-'' = 45"
  by (simp_all add: ucode_def)

lemma is_digit_range: "is_digit c \<longleftrightarrow> 48 \<le> ucode c \<and> ucode c \<le> 57"
  using ucode_range [of c] by (auto simp: is_digit_def scode_def)

lemma hex_digit_range: "hex_digit c = Some d \<Longrightarrow> 0 \<le> d \<and> d < 16"
  by (auto simp: hex_digit_def is_digit_def split: if_splits)

lemma hex_digit_NUL [simp]: "hex_digit NUL = None"
  by (simp add: hex_digit_def is_digit_def scode_def)

lemma atoi_loop_value: "atoi_loop (of_nat v) s = of_nat (dec_value v s)"
proof (induction s arbitrary: v)
  case (Cons c s)
  have "of_nat v * 10 + word_of_int (ucode c - 48) = (of_nat (v * 10 + nat (ucode c - 48)) :: u32)"
    if "is_digit c" using that by (simp add: is_digit_range of_nat_nat)
  thus ?case by (simp add: Cons.IH del: of_nat_add of_nat_mult)
qed simp

lemma hex_loop_value: "hex_loop (of_nat v) s = of_nat (hex_value v s)"
proof (induction s arbitrary: v)
  case (Cons c s)
  have "of_nat v * 16 + word_of_int d = (of_nat (v * 16 + nat d) :: u32)" if "hex_digit c = Some d" for d
    using hex_digit_range [OF that] by (simp add: of_nat_nat)
  thus ?case by (auto simp: Cons.IH simp del: of_nat_add of_nat_mult split: option.split)
qed simp

lemma sint_small: "n < 2 ^ 31 \<Longrightarrow> sint (of_nat n :: u32) = int n"
  by (simp add: signed_of_nat signed_take_bit_int_eq_self)

lemma sint_minus_small:
  assumes "n < 2 ^ 31"
  shows "sint (- of_nat n :: u32) = - int n"
proof -
  have "sint (word_of_int (- int n) :: u32) = signed_take_bit 31 (- int n)"
    by (simp only: signed_of_int) simp
  also have "\<dots> = - int n" using assms by (intro signed_take_bit_int_eq_self) auto
  finally show ?thesis by simp
qed

lemma atoi_value:
  assumes "dec_value 0 s < 2 ^ 31"
  shows "hd0 s \<noteq> CHR ''-'' \<Longrightarrow> atoi s = int (dec_value 0 s)"
    and "atoi (CHR ''-'' # s) = - int (dec_value 0 s)"
  using sint_small [OF assms] sint_minus_small [OF assms] atoi_loop_value [of 0 s]
  unfolding atoi_def by simp_all

lemma hex_to_int_value: "hex_value 0 s < 2 ^ 31 \<Longrightarrow> hex_to_int s = int (hex_value 0 s)"
  using sint_small [of "hex_value 0 s"] hex_loop_value [of 0 s] unfolding hex_to_int_def by simp

end
