(* ===== verification/Sha256.thy ===== *)
theory Sha256
  imports Prelude
begin

text \<open>
  The kernel's SHA-256, kernel/lib/sha256.c. The context collects input in a
  64-byte block and compresses every full block; the model keeps the three
  parts of \<open>sha256_update\<close> (complete a pending block, run over whole blocks
  of the input in place, keep the tail) and the two-block padding of
  \<open>sha256_final\<close>. The reference is the one of FIPS 180-4: pad the whole
  message, cut it into blocks, fold the compression function over them.
\<close>

section \<open>The code\<close>

definition K_table :: "u32 list" where
  "K_table =
  concat
   [[0x428a2f98, 0x71374491, 0xb5c0fbcf, 0xe9b5dba5],
    [0x3956c25b, 0x59f111f1, 0x923f82a4, 0xab1c5ed5],
    [0xd807aa98, 0x12835b01, 0x243185be, 0x550c7dc3],
    [0x72be5d74, 0x80deb1fe, 0x9bdc06a7, 0xc19bf174],
    [0xe49b69c1, 0xefbe4786, 0x0fc19dc6, 0x240ca1cc],
    [0x2de92c6f, 0x4a7484aa, 0x5cb0a9dc, 0x76f988da],
    [0x983e5152, 0xa831c66d, 0xb00327c8, 0xbf597fc7],
    [0xc6e00bf3, 0xd5a79147, 0x06ca6351, 0x14292967],
    [0x27b70a85, 0x2e1b2138, 0x4d2c6dfc, 0x53380d13],
    [0x650a7354, 0x766a0abb, 0x81c2c92e, 0x92722c85],
    [0xa2bfe8a1, 0xa81a664b, 0xc24b8b70, 0xc76c51a3],
    [0xd192e819, 0xd6990624, 0xf40e3585, 0x106aa070],
    [0x19a4c116, 0x1e376c08, 0x2748774c, 0x34b0bcb5],
    [0x391c0cb3, 0x4ed8aa4a, 0x5b9cca4f, 0x682e6ff3],
    [0x748f82ee, 0x78a5636f, 0x84c87814, 0x8cc70208],
    [0x90befffa, 0xa4506ceb, 0xbef9a3f7, 0xc67178f2]]"

definition rotr32 :: "u32 \<Rightarrow> nat \<Rightarrow> u32" where
  "rotr32 v n = drop_bit n v OR push_bit (32 - n) v"

definition load_be32 :: "bytes \<Rightarrow> nat \<Rightarrow> u32" where
  "load_be32 bl i =
     push_bit 24 (ucast (bl ! (i * 4))) OR push_bit 16 (ucast (bl ! (i * 4 + 1))) OR
     push_bit 8 (ucast (bl ! (i * 4 + 2))) OR ucast (bl ! (i * 4 + 3))"

definition extend_schedule :: "nat \<Rightarrow> u32 list \<Rightarrow> u32 list" where
  "extend_schedule i w =
    (let s0 = rotr32 (w ! (i - 15)) 7 XOR rotr32 (w ! (i - 15)) 18 XOR drop_bit 3 (w ! (i - 15));
         s1 = rotr32 (w ! (i - 2)) 17 XOR rotr32 (w ! (i - 2)) 19 XOR drop_bit 10 (w ! (i - 2))
     in w @ [w ! (i - 16) + s0 + w ! (i - 7) + s1])"

definition schedule :: "bytes \<Rightarrow> u32 list" where
  "schedule bl = fold extend_schedule [16..<64] (map (load_be32 bl) [0..<16])"

type_synonym working = "u32 \<times> u32 \<times> u32 \<times> u32 \<times> u32 \<times> u32 \<times> u32 \<times> u32"

definition sha_round :: "u32 list \<Rightarrow> nat \<Rightarrow> working \<Rightarrow> working" where
  "sha_round w i = (\<lambda>(a, b, c, d, e, f, g, h).
    let S1 = rotr32 e 6 XOR rotr32 e 11 XOR rotr32 e 25;
        ch = (e AND f) XOR (NOT e AND g);
        t1 = h + S1 + ch + K_table ! i + w ! i;
        S0 = rotr32 a 2 XOR rotr32 a 13 XOR rotr32 a 22;
        maj = (a AND b) XOR (a AND c) XOR (b AND c);
        t2 = S0 + maj
    in (t1 + t2, a, b, c, d + t1, e, f, g))"

definition sha256_compress :: "u32 list \<Rightarrow> bytes \<Rightarrow> u32 list" where
  "sha256_compress st bl =
    (let w = schedule bl;
         (a, b, c, d, e, f, g, h) =
           fold (sha_round w) [0..<64]
             (st ! 0, st ! 1, st ! 2, st ! 3, st ! 4, st ! 5, st ! 6, st ! 7)
     in [st ! 0 + a, st ! 1 + b, st ! 2 + c, st ! 3 + d,
         st ! 4 + e, st ! 5 + f, st ! 6 + g, st ! 7 + h])"

record sha256_ctx =
  sha_state :: "u32 list"
  sha_total_len :: u64
  sha_block :: bytes
  sha_block_len :: nat

definition H0 :: "u32 list" where
  "H0 = [0x6a09e667, 0xbb67ae85, 0x3c6ef372, 0xa54ff53a,
         0x510e527f, 0x9b05688c, 0x1f83d9ab, 0x5be0cd19]"

definition sha256_init :: "sha256_ctx \<Rightarrow> sha256_ctx" where
  "sha256_init ctx = ctx\<lparr>sha_state := H0, sha_total_len := 0, sha_block_len := 0\<rparr>"

text \<open>\<open>memcpy(dst + off, p, n)\<close> and \<open>memset(dst + off, 0, n)\<close> on the block array.\<close>

definition write_at :: "bytes \<Rightarrow> nat \<Rightarrow> bytes \<Rightarrow> bytes" where
  "write_at buf off p = take off buf @ p @ drop (off + length p) buf"

text \<open>The loop over whole blocks of the input; it returns the unread rest.\<close>

function sha256_blocks :: "sha256_ctx \<Rightarrow> bytes \<Rightarrow> sha256_ctx \<times> bytes" where
  "sha256_blocks ctx p =
    (if length p \<ge> 64
     then sha256_blocks (ctx\<lparr>sha_state := sha256_compress (sha_state ctx) (take 64 p)\<rparr>) (drop 64 p)
     else (ctx, p))"
  by pat_completeness auto
termination
  by (relation "measure (\<lambda>(_, p). length p)") auto

definition sha256_update_tail :: "sha256_ctx \<Rightarrow> bytes \<Rightarrow> sha256_ctx" where
  "sha256_update_tail ctx p =
    (let (ctx1, rest) = sha256_blocks ctx p
     in if length rest > 0
        then ctx1\<lparr>sha_block := write_at (sha_block ctx1) 0 rest, sha_block_len := length rest\<rparr>
        else ctx1)"

definition sha256_update :: "sha256_ctx \<Rightarrow> bytes \<Rightarrow> sha256_ctx" where
  "sha256_update ctx0 p =
    (let ctx = ctx0\<lparr>sha_total_len := sha_total_len ctx0 + of_nat (length p)\<rparr>
     in if sha_block_len ctx > 0 then
          (let need = 64 - sha_block_len ctx;
               tk = (if length p < need then length p else need);
               ctx1 = ctx\<lparr>sha_block := write_at (sha_block ctx) (sha_block_len ctx) (take tk p),
                          sha_block_len := sha_block_len ctx + tk\<rparr>
           in if sha_block_len ctx1 < 64 then ctx1
              else sha256_update_tail
                     (ctx1\<lparr>sha_state := sha256_compress (sha_state ctx1) (sha_block ctx1),
                           sha_block_len := 0\<rparr>) (drop tk p))
        else sha256_update_tail ctx p)"

definition be64 :: "u64 \<Rightarrow> bytes" where
  "be64 v = map (\<lambda>i. ucast (drop_bit (56 - i * 8) v)) [0..<8]"

definition be32 :: "u32 \<Rightarrow> bytes" where
  "be32 v = [ucast (drop_bit 24 v), ucast (drop_bit 16 v), ucast (drop_bit 8 v), ucast v]"

definition sha256_final :: "sha256_ctx \<Rightarrow> bytes" where
  "sha256_final ctx0 =
    (let bit_len = sha_total_len ctx0 * 8;
         ctx1 = ctx0\<lparr>sha_block := write_at (sha_block ctx0) (sha_block_len ctx0) [0x80],
                     sha_block_len := sha_block_len ctx0 + 1\<rparr>;
         ctx2 = (if sha_block_len ctx1 > 56
                 then (let bl = write_at (sha_block ctx1) (sha_block_len ctx1) (replicate (64 - sha_block_len ctx1) 0)
                       in ctx1\<lparr>sha_block := bl, sha_state := sha256_compress (sha_state ctx1) bl, sha_block_len := 0\<rparr>)
                 else ctx1);
         bl1 = write_at (sha_block ctx2) (sha_block_len ctx2) (replicate (56 - sha_block_len ctx2) 0);
         bl2 = write_at bl1 56 (be64 bit_len);
         st = sha256_compress (sha_state ctx2) bl2
     in concat (map (\<lambda>i. be32 (st ! i)) [0..<8]))"

text \<open>The context is a stack variable: its block starts with arbitrary contents.\<close>

definition sha256 :: "sha256_ctx \<Rightarrow> bytes \<Rightarrow> bytes" where
  "sha256 ctx p = sha256_final (sha256_update (sha256_init ctx) p)"

section \<open>The reference\<close>

function hash_blocks :: "u32 list \<Rightarrow> bytes \<Rightarrow> u32 list" where
  "hash_blocks st p =
    (if length p \<ge> 64 then hash_blocks (sha256_compress st (take 64 p)) (drop 64 p) else st)"
  by pat_completeness auto
termination
  by (relation "measure (\<lambda>(_, p). length p)") auto

definition pad_zeros :: "nat \<Rightarrow> nat" where
  "pad_zeros n = (119 - n mod 64) mod 64"

definition fips_pad :: "bytes \<Rightarrow> bytes" where
  "fips_pad msg = msg @ [0x80] @ replicate (pad_zeros (length msg)) 0 @ be64 (of_nat (8 * length msg))"

definition fips_sha256 :: "bytes \<Rightarrow> bytes" where
  "fips_sha256 msg = concat (map be32 (hash_blocks H0 (fips_pad msg)))"

declare sha256_blocks.simps [simp del] hash_blocks.simps [simp del]

definition represents :: "sha256_ctx \<Rightarrow> bytes \<Rightarrow> bool" where
  "represents ctx msg \<longleftrightarrow>
     sha_total_len ctx = of_nat (length msg) \<and>
     sha_block_len ctx = length msg mod 64 \<and>
     length (sha_block ctx) = 64 \<and>
     take (length msg mod 64) (sha_block ctx) = drop (64 * (length msg div 64)) msg \<and>
     sha_state ctx = hash_blocks H0 msg"

lemma length_write_at [simp]: "off + length p \<le> length buf \<Longrightarrow> length (write_at buf off p) = length buf"
  by (simp add: write_at_def)

lemma take_write_at: "off \<le> length buf \<Longrightarrow> take (off + length p) (write_at buf off p) = take off buf @ p"
  by (simp add: write_at_def)

lemma write_at_full: "length buf = off + length p \<Longrightarrow> write_at buf off p = take off buf @ p"
  by (simp add: write_at_def)

lemma take_write_at_eq:
  "off \<le> length buf \<Longrightarrow> n = off + length p \<Longrightarrow> take n (write_at buf off p) = take off buf @ p"
  by (simp add: take_write_at)

lemma hash_blocks_short [simp]: "length p < 64 \<Longrightarrow> hash_blocks st p = st"
  by (subst hash_blocks.simps) simp

lemma hash_blocks_step:
  "64 \<le> length p \<Longrightarrow> hash_blocks st p = hash_blocks (sha256_compress st (take 64 p)) (drop 64 p)"
  by (subst hash_blocks.simps) simp

lemma hash_block_then: "length a = 64 \<Longrightarrow> hash_blocks st (a @ b) = hash_blocks (sha256_compress st a) b"
  by (simp add: hash_blocks_step)

lemma hash_blocks_append:
  "64 dvd length a \<Longrightarrow> hash_blocks st (a @ b) = hash_blocks (hash_blocks st a) b"
proof (induction st a rule: hash_blocks.induct)
  case (1 st a)
  show ?case
  proof (cases "length a \<ge> 64")
    case True
    hence "64 dvd length (drop 64 a)" using "1.prems" by (simp add: dvd_diff_nat)
    with True show ?thesis
      using "1.IH" by (simp add: hash_blocks_step [of a] hash_blocks_step [of "a @ b"])
  next
    case False
    hence "a = []" using "1.prems" by (auto dest: dvd_imp_le)
    thus ?thesis by simp
  qed
qed

lemma hash_blocks_tail: "hash_blocks st msg = hash_blocks st (take (64 * (length msg div 64)) msg)"
proof -
  let ?k = "64 * (length msg div 64)"
  have "hash_blocks st (take ?k msg @ drop ?k msg) = hash_blocks (hash_blocks st (take ?k msg)) (drop ?k msg)"
    by (rule hash_blocks_append) (simp add: min_absorb2)
  moreover have "length (drop ?k msg) < 64" by (simp add: minus_mult_div_eq_mod)
  ultimately show ?thesis by simp
qed

lemma sha256_blocks_eq:
  "sha256_blocks ctx p = (ctx\<lparr>sha_state := hash_blocks (sha_state ctx) p\<rparr>, drop (64 * (length p div 64)) p)"
proof (induction ctx p rule: sha256_blocks.induct)
  case (1 ctx p)
  show ?case
  proof (cases "length p \<ge> 64")
    case True
    hence "length p div 64 = Suc (length (drop 64 p) div 64)" by (simp add: le_div_geq)
    with True 1 show ?thesis
      by (subst sha256_blocks.simps) (simp add: hash_blocks_step [of p] add.commute)
  next
    case False
    thus ?thesis by (subst sha256_blocks.simps) simp
  qed
qed

text \<open>Feeding the rest after the message so far has filled whole blocks.\<close>

lemma update_tail_represents:
  assumes "64 dvd length m0" "sha_state ctx = hash_blocks H0 m0" "sha_block_len ctx = 0"
    "length (sha_block ctx) = 64" "sha_total_len ctx = of_nat (length (m0 @ p))"
  shows "represents (sha256_update_tail ctx p) (m0 @ p)"
proof -
  let ?r = "drop (64 * (length p div 64)) p"
  have r: "length ?r = length p mod 64" by (simp add: minus_mult_div_eq_mod)
  obtain k where k: "length m0 = 64 * k" using assms(1) by blast
  have st: "hash_blocks (hash_blocks H0 m0) p = hash_blocks H0 (m0 @ p)"
    by (simp add: hash_blocks_append [OF assms(1)])
  have d: "drop (64 * (length (m0 @ p) div 64)) (m0 @ p) = ?r" by (simp add: k)
  show ?thesis
    using assms r st d by (auto simp: represents_def sha256_update_tail_def sha256_blocks_eq k write_at_def)
qed

lemma filled_block:
  assumes "length b = 64 - length msg mod 64" "length msg mod 64 \<noteq> 0"
  shows "64 dvd length (msg @ b)"
    and "hash_blocks st (msg @ b) =
         sha256_compress (hash_blocks st msg) (drop (64 * (length msg div 64)) msg @ b)"
proof -
  let ?k = "64 * (length msg div 64)"
  have len: "length (drop ?k msg) = length msg mod 64" by (simp add: minus_mult_div_eq_mod)
  have "length (msg @ b) = ?k + 64"
    using assms(1) mult_div_mod_eq [of 64 "length msg"] mod_less_divisor [of 64 "length msg"]
    unfolding length_append by linarith
  thus "64 dvd length (msg @ b)" by simp
  have "hash_blocks st (msg @ b) = hash_blocks st (take ?k msg @ (drop ?k msg @ b))"
    by (simp flip: append_assoc)
  also have "\<dots> = hash_blocks (hash_blocks st (take ?k msg)) (drop ?k msg @ b)"
    by (rule hash_blocks_append) (simp add: min_absorb2)
  also have "\<dots> = sha256_compress (hash_blocks st msg) (drop ?k msg @ b)"
    using len assms mod_less_divisor [of 64 "length msg"]
    by (simp add: hash_blocks_step hash_blocks_tail [of st msg])
  finally show "hash_blocks st (msg @ b) = sha256_compress (hash_blocks st msg) (drop ?k msg @ b)" .
qed

lemma mod_div_no_carry:
  fixes a b :: nat
  assumes "a mod 64 + b < 64"
  shows "(a + b) mod 64 = a mod 64 + b" "(a + b) div 64 = a div 64"
proof -
  have "a + b = 64 * (a div 64) + (a mod 64 + b)" by simp
  thus "(a + b) mod 64 = a mod 64 + b" "(a + b) div 64 = a div 64"
    using assms by (metis mod_mult_self4 mod_less, metis div_mult_self4 div_less add_0_right zero_neq_numeral)
qed

lemma represents_init: "length (sha_block ctx) = 64 \<Longrightarrow> represents (sha256_init ctx) []"
  by (simp add: represents_def sha256_init_def)

lemma update_represents:
  assumes "represents ctx msg"
  shows "represents (sha256_update ctx p) (msg @ p)"
proof -
  define r where "r = length msg mod 64"
  have r: "r < 64" by (simp add: r_def)
  have blk: "sha_block_len ctx = r" "take r (sha_block ctx) = drop (64 * (length msg div 64)) msg"
    "length (sha_block ctx) = 64" "sha_total_len ctx = of_nat (length msg)" "sha_state ctx = hash_blocks H0 msg"
    using assms unfolding represents_def r_def by simp_all
  consider "r = 0" | "r > 0" "length p < 64 - r" | "r > 0" "length p \<ge> 64 - r" by linarith
  thus ?thesis
  proof cases
    case 1
    hence dvd: "64 dvd length msg" by (simp add: r_def mod_0_imp_dvd)
    let ?ctx = "ctx\<lparr>sha_total_len := sha_total_len ctx + of_nat (length p)\<rparr>"
    have "represents (sha256_update_tail ?ctx p) (msg @ p)"
      by (rule update_tail_represents [OF dvd]) (simp_all add: blk 1 del: take_0)
    moreover have "sha256_update ctx p = sha256_update_tail ?ctx p"
      using blk(1) 1 by (simp add: sha256_update_def)
    ultimately show ?thesis by simp
  next
    case 2
    have "(length msg + length p) mod 64 = r + length p" "(length msg + length p) div 64 = length msg div 64"
      using 2 mod_div_no_carry [of "length msg" "length p"] by (simp_all add: r_def)
    moreover from this(2) have "hash_blocks H0 (msg @ p) = hash_blocks H0 msg"
      using hash_blocks_tail [of H0 "msg @ p"] hash_blocks_tail [of H0 msg] by simp
    moreover have "sha256_update ctx p = ctx\<lparr>sha_total_len := sha_total_len ctx + of_nat (length p),
        sha_block := write_at (sha_block ctx) r p, sha_block_len := r + length p\<rparr>"
      using 2 blk(1) by (simp add: sha256_update_def Let_def)
    ultimately show ?thesis
      using 2 r by (simp add: represents_def take_write_at blk(2-5))
  next
    case 3
    let ?b = "take (64 - r) p"
    have b: "length ?b = 64 - length msg mod 64" using 3 by (simp add: r_def)
    have nz: "length msg mod 64 \<noteq> 0" using 3 by (simp add: r_def)
    note F = filled_block [OF b nz]
    have w: "write_at (sha_block ctx) r ?b = drop (64 * (length msg div 64)) msg @ ?b"
      using 3 blk r by (simp add: write_at_def)
    let ?ctx = "ctx\<lparr>sha_total_len := of_nat (length (msg @ p)), sha_block := write_at (sha_block ctx) r ?b,
        sha_state := hash_blocks H0 (msg @ ?b), sha_block_len := 0\<rparr>"
    have "sha256_update ctx p = sha256_update_tail ?ctx (drop (64 - r) p)"
      using 3 r by (simp add: sha256_update_def Let_def blk(1,4,5) w F(2))
    moreover have "represents (sha256_update_tail ?ctx (drop (64 - r) p)) ((msg @ ?b) @ drop (64 - r) p)"
      by (rule update_tail_represents) (use 3 F(1) blk(3) r in simp_all)
    ultimately have "represents (sha256_update ctx p) ((msg @ ?b) @ drop (64 - r) p)" by simp
    thus ?thesis by simp
  qed
qed

lemma length_be64 [simp]: "length (be64 v) = 8"
  by (simp add: be64_def)

lemma length_compress [simp]: "length (sha256_compress st bl) = 8"
  by (simp add: sha256_compress_def Let_def split: prod.split)

lemma pad_zeros_cases:
  "n mod 64 < 56 \<Longrightarrow> pad_zeros n = 55 - n mod 64"
  "56 \<le> n mod 64 \<Longrightarrow> pad_zeros n = (63 - n mod 64) + 56"
proof -
  assume "n mod 64 < 56"
  hence "119 - n mod 64 = 55 - n mod 64 + 64" by simp
  thus "pad_zeros n = 55 - n mod 64" unfolding pad_zeros_def by (simp only: mod_add_self2) simp
next
  assume "56 \<le> n mod 64"
  moreover have "n mod 64 < 64" by simp
  ultimately show "pad_zeros n = (63 - n mod 64) + 56" unfolding pad_zeros_def by simp
qed

text \<open>The two layouts of the padded message: one closing block, or two.\<close>

lemma hash_padded:
  fixes msg :: bytes
  defines "rest \<equiv> drop (64 * (length msg div 64)) msg"
  shows "length rest < 56 \<Longrightarrow> hash_blocks st (fips_pad msg) =
      sha256_compress (hash_blocks st msg) (rest @ [0x80] @ replicate (55 - length rest) 0 @ be64 (of_nat (8 * length msg)))"
    and "56 \<le> length rest \<Longrightarrow> hash_blocks st (fips_pad msg) =
      sha256_compress (sha256_compress (hash_blocks st msg) (rest @ [0x80] @ replicate (63 - length rest) 0))
        (replicate 56 0 @ be64 (of_nat (8 * length msg)))"
proof -
  let ?k = "64 * (length msg div 64)"
  have len: "length rest = length msg mod 64" by (simp add: rest_def minus_mult_div_eq_mod)
  have "hash_blocks st (take ?k msg @ rest @ p) = hash_blocks (hash_blocks st msg) (rest @ p)" for p
    by (subst hash_blocks_append) (simp_all add: min_absorb2 hash_blocks_tail [of st msg])
  hence H: "hash_blocks st (fips_pad msg) = hash_blocks (hash_blocks st msg)
      (rest @ [0x80] @ replicate (pad_zeros (length msg)) 0 @ be64 (of_nat (8 * length msg)))"
    by (metis fips_pad_def append.assoc append_take_drop_id rest_def)
  { assume "length rest < 56"
    thus "hash_blocks st (fips_pad msg) =
      sha256_compress (hash_blocks st msg) (rest @ [0x80] @ replicate (55 - length rest) 0 @ be64 (of_nat (8 * length msg)))"
      using len unfolding H by (simp add: pad_zeros_cases hash_blocks_step) }
  { assume ge: "56 \<le> length rest"
    let ?A = "rest @ [0x80] @ replicate (63 - length rest) 0"
    have lt: "length rest < 64" by (simp add: len)
    have "pad_zeros (length msg) = (63 - length rest) + 56" using ge by (simp only: len pad_zeros_cases(2))
    hence eq: "rest @ [0x80] @ replicate (pad_zeros (length msg)) 0 @ L = ?A @ (replicate 56 0 @ L)" for L :: bytes
      by (simp only: replicate_add append_assoc)
    have "length ?A = 64" using lt by simp
    thus "hash_blocks st (fips_pad msg) =
      sha256_compress (sha256_compress (hash_blocks st msg) ?A) (replicate 56 0 @ be64 (of_nat (8 * length msg)))"
      unfolding H eq by (simp only: hash_block_then) (simp add: hash_blocks_step) }
qed

lemma final_represents:
  assumes "represents ctx msg"
  shows "sha256_final ctx = fips_sha256 msg"
proof -
  define rest where "rest = drop (64 * (length msg div 64)) msg"
  have len: "length rest = length msg mod 64" by (simp add: rest_def minus_mult_div_eq_mod)
  have blk: "sha_block_len ctx = length rest" "take (length rest) (sha_block ctx) = rest" "length (sha_block ctx) = 64"
    "sha_total_len ctx * 8 = of_nat (8 * length msg)" "sha_state ctx = hash_blocks H0 msg"
    using assms unfolding represents_def rest_def by (simp_all add: minus_mult_div_eq_mod)
  have out: "concat (map (\<lambda>i. be32 (sha256_compress st bl ! i)) [0..<8]) = concat (map be32 (sha256_compress st bl))" for st bl
  proof -
    have "map (\<lambda>i. be32 (sha256_compress st bl ! i)) [0..<length (sha256_compress st bl)] = map be32 (sha256_compress st bl)"
      by (rule nth_equalityI) simp_all
    thus ?thesis by simp
  qed
  have lt: "length rest < 64" by (simp add: len)
  note P = hash_padded [of msg H0, folded rest_def]
  show ?thesis
  proof (cases "length rest < 56")
    case True
    have "write_at (write_at (write_at (sha_block ctx) (length rest) [0x80]) (Suc (length rest)) (replicate (55 - length rest) 0)) 56
        (be64 v) = rest @ [0x80] @ replicate (55 - length rest) 0 @ be64 v" for v
      using True blk(2,3) by (simp add: write_at_full take_write_at_eq)
    thus ?thesis
      using True P(1) by (simp add: sha256_final_def fips_sha256_def Let_def blk(1,4,5) out)
  next
    case False
    have w1: "write_at (write_at (sha_block ctx) (length rest) [0x80]) (Suc (length rest)) (replicate (63 - length rest) 0) =
        rest @ [0x80] @ replicate (63 - length rest) 0"
      using lt blk(2,3) by (simp add: write_at_full take_write_at_eq)
    have w2: "length bl = 64 \<Longrightarrow> write_at (write_at bl 0 (replicate 56 0)) 56 (be64 v) = replicate 56 0 @ be64 v" for bl v
      by (simp add: write_at_def)
    show ?thesis
      using False lt P(2) by (simp add: sha256_final_def fips_sha256_def Let_def blk(1,4,5) w1 w2 out)
  qed
qed

lemma sha256_fips:
  assumes "length (sha_block ctx) = 64"
  shows "sha256 ctx msg = fips_sha256 msg"
  using final_represents [OF update_represents [OF represents_init [OF assms]]] by (simp add: sha256_def)

text \<open>C8: Feeding a message to the hash in parts of any sizes, the empty one included, gives the SHA-256 of
  FIPS 180-4 of their concatenation: the running block buffer never loses, repeats or reorders a byte, and
  the padding is right for every message length. The one-shot \<open>sha256\<close> is the case of a single part.\<close>

theorem sha256_streaming:
  assumes "length (sha_block ctx) = 64"
  shows "sha256_final (foldl sha256_update (sha256_init ctx) parts) = fips_sha256 (concat parts) \<and>
         sha256 ctx msg = fips_sha256 msg"
proof -
  have "represents c m \<Longrightarrow> represents (foldl sha256_update c parts) (m @ concat parts)" for c m
  proof (induction parts arbitrary: c m)
    case (Cons p ps)
    show ?case using Cons.IH [OF update_represents [OF Cons.prems]] by simp
  qed simp
  from this [OF represents_init [OF assms]] show ?thesis
    by (simp add: final_represents sha256_fips [OF assms])
qed

theorem sha256_streaming_witness:
  "sha256_final (foldl sha256_update
     (sha256_init \<lparr>sha_state = [], sha_total_len = 0, sha_block = replicate 64 0, sha_block_len = 0\<rparr>)
     [replicate 63 1, [], [2, 3]]) = fips_sha256 (replicate 63 1 @ [2, 3])"
  using sha256_streaming
    [of "\<lparr>sha_state = [], sha_total_len = 0, sha_block = replicate 64 0, sha_block_len = 0\<rparr>"
        "[replicate 63 1, [], [2, 3]]", THEN conjunct1]
  by (simp del: replicate.simps)

end
