(* ===== verification/Sha256_Vectors.thy ===== *)
theory Sha256_Vectors
  imports Sha256
begin

text \<open>
  The model of kernel/lib/sha256.c evaluated on the one-block test message of
  FIPS 180-4, \<open>abc\<close>: the constants and the rounds are those of the standard.
\<close>

definition stack_ctx :: sha256_ctx where
  "stack_ctx = \<lparr>sha_state = [], sha_total_len = 0, sha_block = replicate 64 0xAA, sha_block_len = 7\<rparr>"

text \<open>The model computes the published digest of the message \<open>abc\<close>, from a context whose fields hold
  left-over values: \<open>sha256_init\<close> resets all that matters.\<close>

theorem sha256_abc:
  "sha256 stack_ctx [0x61, 0x62, 0x63] =
   [0xba, 0x78, 0x16, 0xbf, 0x8f, 0x01, 0xcf, 0xea, 0x41, 0x41, 0x40, 0xde, 0x5d, 0xae, 0x22, 0x23,
    0xb0, 0x03, 0x61, 0xa3, 0x96, 0x17, 0x7a, 0x9c, 0xb4, 0x10, 0xff, 0x61, 0xf2, 0x00, 0x15, 0xad]"
  by code_simp

end
