(* ===== verification/Interfaces.thy ===== *)
theory Interfaces
  imports Prelude
begin

text \<open>
  The contracts between components, as locales: what a provider promises about
  its operations and what its clients conclude from the promises alone. Each
  locale is interpreted in the theory of the component that provides it.
\<close>

section \<open>A page allocator\<close>

text \<open>
  Clients of the physical allocator take several pages in a loop and give back
  what they got when the loop fails half-way. \<open>alloc_pages\<close> and
  \<open>release_pages\<close> are those loops.
\<close>

fun alloc_pages :: "('s \<Rightarrow> nat \<times> 's) \<Rightarrow> nat \<Rightarrow> 's \<Rightarrow> nat list \<times> 's" where
  "alloc_pages al 0 s = ([], s)"
| "alloc_pages al (Suc n) s =
    (case al s of (a, s1) \<Rightarrow>
       if a = 0 then ([], s1)
       else case alloc_pages al n s1 of (as, s2) \<Rightarrow> (a # as, s2))"

definition release_pages :: "('s \<Rightarrow> nat \<Rightarrow> 's) \<Rightarrow> nat list \<Rightarrow> 's \<Rightarrow> 's" where
  "release_pages rel as s = fold (\<lambda>a s. rel s a) as s"

locale page_allocator =
  fixes inv :: "'s \<Rightarrow> bool"
    and managed :: "'s \<Rightarrow> nat set"
    and avail :: "'s \<Rightarrow> nat set"
    and al :: "'s \<Rightarrow> nat \<times> 's"
    and rel :: "'s \<Rightarrow> nat \<Rightarrow> 's"
  assumes finite_avail: "finite (avail s)"
    and avail_managed: "avail s \<subseteq> managed s"
    and al_fail: "inv s \<Longrightarrow> avail s = {} \<Longrightarrow> al s = (0, s)"
    and al_page: "inv s \<Longrightarrow> avail s \<noteq> {} \<Longrightarrow>
        \<exists>p s'. al s = (p * 4096, s') \<and> p \<in> avail s \<and> p \<noteq> 0 \<and> inv s' \<and>
          avail s' = avail s - {p} \<and> managed s' = managed s"
    and rel_page: "inv s \<Longrightarrow> p \<in> managed s \<Longrightarrow>
        inv (rel s (p * 4096)) \<and> managed (rel s (p * 4096)) = managed s \<and>
        avail (rel s (p * 4096)) = insert p (avail s)"
begin

lemma alloc_pages_props:
  assumes "inv s" "alloc_pages al n s = (as, s')"
  shows "\<exists>ps. as = map (\<lambda>p. p * 4096) ps \<and> distinct ps \<and> set ps \<subseteq> avail s \<and>
           length ps = min n (card (avail s)) \<and> avail s' = avail s - set ps \<and>
           inv s' \<and> managed s' = managed s"
  using assms
proof (induction n arbitrary: s as)
  case 0
  thus ?case by auto
next
  case (Suc n)
  show ?case
  proof (cases "avail s = {}")
    case True
    thus ?thesis using Suc.prems by (auto simp: al_fail)
  next
    case False
    then obtain p s1 where p: "al s = (p * 4096, s1)" "p \<in> avail s" "p \<noteq> 0" "inv s1"
      "avail s1 = avail s - {p}" "managed s1 = managed s"
      using al_page [OF Suc.prems(1)] by metis
    obtain as1 where as1: "alloc_pages al n s1 = (as1, s')" "as = p * 4096 # as1"
      using Suc.prems(2) p by (auto split: prod.splits)
    from Suc.IH [OF p(4) as1(1)] obtain ps where
      ps: "as1 = map (\<lambda>p. p * 4096) ps" "distinct ps" "set ps \<subseteq> avail s1"
        "length ps = min n (card (avail s1))" "avail s' = avail s1 - set ps" "inv s'" "managed s' = managed s1"
      by metis
    have "card (avail s) = Suc (card (avail s1))"
      unfolding p(5) using p(2) finite_avail by (rule card.remove [rotated])
    thus ?thesis
      using ps p as1 by (intro exI [of _ "p # ps"]) auto
  qed
qed

lemma release_pages_props:
  "inv s \<Longrightarrow> set ps \<subseteq> managed s \<Longrightarrow>
   inv (release_pages rel (map (\<lambda>p. p * 4096) ps) s) \<and>
   avail (release_pages rel (map (\<lambda>p. p * 4096) ps) s) = avail s \<union> set ps"
proof (induction ps arbitrary: s)
  case (Cons p ps)
  thus ?case using rel_page [of s p] Cons.IH [of "rel s (p * 4096)"]
    by (auto simp: release_pages_def)
qed (simp add: release_pages_def)

lemma rollback:
  assumes "inv s" "alloc_pages al n s = (as, s')"
  shows "inv (release_pages rel as s') \<and> avail (release_pages rel as s') = avail s"
proof -
  obtain ps where ps: "as = map (\<lambda>p. p * 4096) ps" "set ps \<subseteq> avail s" "avail s' = avail s - set ps"
    "inv s'" "managed s' = managed s"
    using alloc_pages_props [OF assms] by metis
  have "set ps \<subseteq> managed s'" using ps avail_managed by blast
  from release_pages_props [OF ps(4) this] show ?thesis using ps by auto
qed

end

section \<open>An allocator of memory regions\<close>

text \<open>
  Clients of an allocator hold regions (pointer and requested length). A
  history is a sequence of successful requests and of releases of held
  pointers; \<open>al\<close> returns the pointer (0 on failure) and the new state.
\<close>

inductive region_reach ::
  "('s \<Rightarrow> nat \<Rightarrow> (nat \<times> 's) option) \<Rightarrow> ('s \<Rightarrow> nat \<Rightarrow> 's) \<Rightarrow> nat \<Rightarrow> 's \<Rightarrow> 's \<Rightarrow> (nat \<times> nat) set \<Rightarrow> bool"
  for al fr limit s0 where
  start: "region_reach al fr limit s0 s0 {}"
| get: "region_reach al fr limit s0 s held \<Longrightarrow> 0 < n \<Longrightarrow> n < limit \<Longrightarrow> al s n = Some (p, s') \<Longrightarrow> p \<noteq> 0 \<Longrightarrow>
    region_reach al fr limit s0 s' (insert (p, n) held)"
| put: "region_reach al fr limit s0 s held \<Longrightarrow> (p, n) \<in> held \<Longrightarrow>
    region_reach al fr limit s0 (fr s p) (held - {(p, n)})"

locale region_allocator =
  fixes inv :: "'s \<Rightarrow> bool"
    and live :: "'s \<Rightarrow> (nat \<times> nat) set"
    and al :: "'s \<Rightarrow> nat \<Rightarrow> (nat \<times> 's) option"
    and fr :: "'s \<Rightarrow> nat \<Rightarrow> 's"
    and limit lo hi :: nat
  assumes live_disjoint: "inv s \<Longrightarrow> (p, m) \<in> live s \<Longrightarrow> (q, n) \<in> live s \<Longrightarrow> p \<noteq> q \<Longrightarrow>
        p + m \<le> q \<or> q + n \<le> p"
    and live_unique: "inv s \<Longrightarrow> (p, m) \<in> live s \<Longrightarrow> (p, n) \<in> live s \<Longrightarrow> m = n"
    and live_bounds: "inv s \<Longrightarrow> (p, m) \<in> live s \<Longrightarrow> lo \<le> p \<and> p + m \<le> hi"
    and al_law: "inv s \<Longrightarrow> 0 < n \<Longrightarrow> n < limit \<Longrightarrow> \<exists>p s'. al s n = Some (p, s') \<and> inv s' \<and>
        (p = 0 \<and> s' = s \<or> p \<noteq> 0 \<and> (\<exists>m\<ge>n. (p, m) \<notin> live s \<and> live s' = insert (p, m) (live s)))"
    and fr_law: "inv s \<Longrightarrow> (p, m) \<in> live s \<Longrightarrow> inv (fr s p) \<and> live (fr s p) = live s - {(p, m)}"
begin

lemma reach_backed:
  assumes "region_reach al fr limit s0 s held" "inv s0" "live s0 = {}"
  shows "inv s \<and> (\<forall>(p, n)\<in>held. 0 < n \<and> (\<exists>m\<ge>n. (p, m) \<in> live s)) \<and> inj_on fst held \<and>
         fst ` live s = fst ` held"
  using assms
proof (induction rule: region_reach.induct)
  case (get s held n p s')
  hence inv: "inv s" and bk: "\<forall>(p, n)\<in>held. 0 < n \<and> (\<exists>m\<ge>n. (p, m) \<in> live s)" and inj: "inj_on fst held"
    and fs: "fst ` live s = fst ` held"
    by auto
  from al_law [OF inv get(2,3)] get(4,5) obtain m where
    m: "m \<ge> n" "(p, m) \<notin> live s" "live s' = insert (p, m) (live s)" "inv s'" by auto
  have new: "p \<notin> fst ` held"
  proof
    assume "p \<in> fst ` held"
    then obtain m' where m': "(p, m') \<in> live s" unfolding fs [symmetric] by auto
    hence "m' = m" using m by (intro live_unique [OF m(4)]) auto
    thus False using m' m(2) by simp
  qed
  have "\<exists>m\<ge>k. (q, m) \<in> live s'" "0 < k" if "(q, k) \<in> insert (p, n) held" for q k
    using that bk m get(2) by blast+
  thus ?case using m inj fs new by auto
next
  case (put s held p n)
  hence inv: "inv s" and bk: "\<forall>(p, n)\<in>held. 0 < n \<and> (\<exists>m\<ge>n. (p, m) \<in> live s)" and inj: "inj_on fst held"
    and fs: "fst ` live s = fst ` held"
    by auto
  obtain m where m: "m \<ge> n" "(p, m) \<in> live s" using bk put.hyps(2) by blast
  note F = fr_law [OF inv m(2)]
  have other: "q \<noteq> p" if "(q, k) \<in> held - {(p, n)}" for q k
    using inj_onD [OF inj, of "(q, k)" "(p, n)"] that put.hyps(2) by auto
  have "0 < k \<and> (\<exists>m\<ge>k. (q, m) \<in> live (fr s p))" if "(q, k) \<in> held - {(p, n)}" for q k
  proof -
    have "(q, k) \<in> held" using that by simp
    from bspec [OF bk this] obtain m' where "0 < k" "m' \<ge> k" "(q, m') \<in> live s" by auto
    moreover have "(q, m') \<in> live (fr s p)" if "(q, m') \<in> live s" for m'
      using that other [OF \<open>(q, k) \<in> held - {(p, n)}\<close>] F by simp
    ultimately show ?thesis by blast
  qed
  hence bk': "\<forall>(q, k)\<in>held - {(p, n)}. 0 < k \<and> (\<exists>m\<ge>k. (q, m) \<in> live (fr s p))" by blast
  have "fst ` live (fr s p) = fst ` live s - {p}"
  proof (intro set_eqI iffI)
    fix q assume "q \<in> fst ` live (fr s p)"
    then obtain m' where "(q, m') \<in> live (fr s p)" by auto
    hence "(q, m') \<in> live s" "(q, m') \<noteq> (p, m)" using F by simp_all
    thus "q \<in> fst ` live s - {p}" using live_unique [OF inv m(2), of m'] by force
  next
    fix q assume "q \<in> fst ` live s - {p}"
    then obtain m' where "(q, m') \<in> live s" "q \<noteq> p" by auto
    thus "q \<in> fst ` live (fr s p)" using F by force
  qed
  moreover have "fst ` (held - {(p, n)}) = fst ` held - {p}"
  proof (intro set_eqI iffI)
    fix q assume "q \<in> fst ` (held - {(p, n)})"
    then obtain k where "(q, k) \<in> held - {(p, n)}" by (metis imageE prod.collapse)
    thus "q \<in> fst ` held - {p}" using other [of q k] by force
  qed auto
  moreover have "inj_on fst (held - {(p, n)})" using inj by (rule inj_on_diff)
  ultimately show ?case using F fs bk' by simp
qed auto

lemma reach_disjoint:
  assumes "region_reach al fr limit s0 s held" "inv s0" "live s0 = {}"
    and "(p, n) \<in> held" "(q, k) \<in> held" "(p, n) \<noteq> (q, k)"
  shows "p + n \<le> q \<or> q + k \<le> p"
proof -
  note B = reach_backed [OF assms(1-3)]
  obtain m where m: "m \<ge> n" "(p, m) \<in> live s" using B assms(4) by blast
  obtain m' where m': "m' \<ge> k" "(q, m') \<in> live s" using B assms(5) by blast
  have "p \<noteq> q" using B inj_onD [of fst held "(p, n)" "(q, k)"] assms(4-6) by auto
  hence "p + m \<le> q \<or> q + m' \<le> p" using live_disjoint m(2) m'(2) B by blast
  thus ?thesis using m(1) m'(1) by linarith
qed

lemma reach_bounds:
  assumes "region_reach al fr limit s0 s held" "inv s0" "live s0 = {}" "(p, n) \<in> held"
  shows "lo \<le> p \<and> p + n \<le> hi"
proof -
  note B = reach_backed [OF assms(1-3)]
  obtain m where m: "m \<ge> n" "(p, m) \<in> live s" using B assms(4) by blast
  thus ?thesis using live_bounds [of s p m] B by linarith
qed

end

end
