(* ===== verification/Pmm.thy ===== *)
theory Pmm
  imports Interfaces
begin

text \<open>
  The physical page allocator, kernel/system/mm/pmm.c: a bitmap with one bit
  per 4 KiB page, filled at boot from the firmware memory map and searched
  upwards from a roving pointer. The bitmap is a function from byte offsets to
  bytes, because \<open>pmm_init\<close> may set bits past the bitmap's own size.
  Page numbers, sizes and addresses are natural numbers; where the code adds
  or multiplies values that come from the firmware the 64-bit wrap-around is
  written out. The interrupt lock around every operation makes each of them
  one atomic step.
\<close>

section \<open>The code\<close>

type_synonym bitmap = "nat \<Rightarrow> u8"

definition bitmap_set :: "bitmap \<Rightarrow> nat \<Rightarrow> bitmap" where
  "bitmap_set bm page = bm(page div 8 := bm (page div 8) OR push_bit (page mod 8) 1)"

definition bitmap_clear :: "bitmap \<Rightarrow> nat \<Rightarrow> bitmap" where
  "bitmap_clear bm page = bm(page div 8 := bm (page div 8) AND NOT (push_bit (page mod 8) 1))"

definition bitmap_test :: "bitmap \<Rightarrow> nat \<Rightarrow> bool" where
  "bitmap_test bm page \<longleftrightarrow> bm (page div 8) AND push_bit (page mod 8) 1 \<noteq> 0"

record pmm =
  pmm_bitmap :: bitmap
  total_pages :: nat
  used_pages :: nat
  next_free_page :: nat

record efi_desc =
  desc_type :: nat
  phys_start :: nat
  num_pages :: nat

definition conventional :: "efi_desc \<Rightarrow> bool" where
  "conventional d \<longleftrightarrow> desc_type d = 7"

definition desc_size_bytes :: "efi_desc \<Rightarrow> nat" where
  "desc_size_bytes d = wrap64 (num_pages d * 4096)"

definition desc_end :: "efi_desc \<Rightarrow> nat" where
  "desc_end d = wrap64 (phys_start d + desc_size_bytes d)"

definition max_phys :: "efi_desc list \<Rightarrow> nat" where
  "max_phys ds = fold (\<lambda>d m. if conventional d \<and> desc_end d > m then desc_end d else m) ds 0"

definition pages_of_memory :: "nat \<Rightarrow> nat" where
  "pages_of_memory mp = mp div 4096 + (if mp mod 4096 \<noteq> 0 then 1 else 0)"

definition bitmap_bytes :: "nat \<Rightarrow> nat" where
  "bitmap_bytes npages = (npages + 7) div 8"

text \<open>
  The largest conventional block that holds the bitmap and does not touch the
  kernel image: \<open>Some (block_size, block_start)\<close> once one has been found.
\<close>

definition bitmap_candidate :: "nat \<Rightarrow> nat \<Rightarrow> nat \<Rightarrow> efi_desc \<Rightarrow> bool" where
  "bitmap_candidate bsize kernel_base kernel_end d \<longleftrightarrow>
     conventional d \<and>
     (desc_end d \<le> kernel_base \<or> phys_start d \<ge> kernel_end) \<and>
     desc_size_bytes d \<ge> bsize"

definition find_bitmap :: "nat \<Rightarrow> nat \<Rightarrow> nat \<Rightarrow> efi_desc list \<Rightarrow> (nat \<times> nat) option" where
  "find_bitmap bsize kernel_base kernel_end ds =
    fold (\<lambda>d best.
      if bitmap_candidate bsize kernel_base kernel_end d \<and>
         desc_size_bytes d > (case best of None \<Rightarrow> 0 | Some (sz, _) \<Rightarrow> sz)
      then Some (desc_size_bytes d, phys_start d) else best) ds None"

definition set_pages :: "nat \<Rightarrow> nat \<Rightarrow> bitmap \<Rightarrow> bitmap" where
  "set_pages start n bm = fold (\<lambda>p bm. bitmap_set bm (start + p)) [0..<n] bm"

definition clear_pages :: "nat \<Rightarrow> nat \<Rightarrow> bitmap \<Rightarrow> bitmap" where
  "clear_pages start n bm = fold (\<lambda>p bm. bitmap_clear bm (start + p)) [0..<n] bm"

definition free_descriptors :: "efi_desc list \<Rightarrow> bitmap \<Rightarrow> bitmap" where
  "free_descriptors ds bm =
    fold (\<lambda>d bm. if conventional d then clear_pages (phys_start d div 4096) (num_pages d) bm else bm) ds bm"

definition page_round_up :: "nat \<Rightarrow> nat" where
  "page_round_up n = wrap64 (n + 4095) div 4096"

definition count_used :: "bitmap \<Rightarrow> nat \<Rightarrow> nat" where
  "count_used bm npages = length (filter (bitmap_test bm) [0..<npages])"

text \<open>
  The passes over the bitmap at boot: everything used, conventional memory
  free, then the first 2 MiB, the bitmap itself, the kernel image and the extra
  region used again. The memory \<open>mem0\<close> found at the bitmap's place is arbitrary.
\<close>

definition boot_bitmap ::
  "bitmap \<Rightarrow> efi_desc list \<Rightarrow> nat \<Rightarrow> nat \<Rightarrow> nat \<Rightarrow> nat \<Rightarrow> nat \<Rightarrow> nat \<Rightarrow> bitmap" where
  "boot_bitmap mem0 ds npages bitmap_phys kernel_base kernel_size reserved_base reserved_size =
    (let bsize = bitmap_bytes npages;
         b0 = (\<lambda>i. if i < bsize then 0 else mem0 i);
         b1 = set_pages 0 npages b0;
         b2 = free_descriptors ds b1;
         b3 = set_pages 0 256 b2;
         b4 = set_pages 0 512 b3;
         b5 = set_pages (bitmap_phys div 4096) (page_round_up bsize) b4;
         b6 = set_pages (kernel_base div 4096) (page_round_up kernel_size) b5
     in if reserved_base \<noteq> 0 \<and> reserved_size \<noteq> 0
        then set_pages (reserved_base div 4096) (page_round_up reserved_size) b6 else b6)"

text \<open>\<open>None\<close> is the endless halt when no block can hold the bitmap.\<close>

definition pmm_init ::
  "bitmap \<Rightarrow> efi_desc list \<Rightarrow> nat \<Rightarrow> nat \<Rightarrow> nat \<Rightarrow> nat \<Rightarrow> pmm option" where
  "pmm_init mem0 ds kernel_base kernel_size reserved_base reserved_size =
    (let npages = pages_of_memory (max_phys ds)
     in case find_bitmap (bitmap_bytes npages) kernel_base (wrap64 (kernel_base + kernel_size)) ds of
          None \<Rightarrow> None
        | Some (_, bitmap_phys) \<Rightarrow>
            (let bm = boot_bitmap mem0 ds npages bitmap_phys kernel_base kernel_size reserved_base reserved_size
             in Some \<lparr>pmm_bitmap = bm, total_pages = npages, used_pages = count_used bm npages,
                      next_free_page = 512\<rparr>))"

definition take_page :: "pmm \<Rightarrow> nat \<Rightarrow> pmm" where
  "take_page s i = s\<lparr>pmm_bitmap := bitmap_set (pmm_bitmap s) i, used_pages := used_pages s + 1,
                    next_free_page := i + 1\<rparr>"

definition pmm_alloc_page :: "pmm \<Rightarrow> nat \<times> pmm" where
  "pmm_alloc_page s =
    (case first_in (\<lambda>i. \<not> bitmap_test (pmm_bitmap s) i) (next_free_page s) (total_pages s) of
       Some i \<Rightarrow> (i * 4096, take_page s i)
     | None \<Rightarrow>
         (case first_in (\<lambda>i. \<not> bitmap_test (pmm_bitmap s) i) 512 (next_free_page s) of
            Some i \<Rightarrow> (i * 4096, take_page s i)
          | None \<Rightarrow> (0, s)))"

text \<open>The scan for \<open>count\<close> free pages in a row, from page \<open>i\<close> on.\<close>

function contig_scan :: "(nat \<Rightarrow> bool) \<Rightarrow> nat \<Rightarrow> nat \<Rightarrow> nat \<Rightarrow> nat \<Rightarrow> nat \<Rightarrow> nat option" where
  "contig_scan used count n i run_start run_len =
    (if i \<ge> n then None
     else if \<not> used i then
       (let rs = (if run_len = 0 then i else run_start); rl = run_len + 1
        in if rl = count then Some rs else contig_scan used count n (i + 1) rs rl)
     else contig_scan used count n (i + 1) run_start 0)"
  by pat_completeness auto
termination
  by (relation "measure (\<lambda>(_, _, n, i, _, _). n - i)") auto

definition pmm_alloc_contiguous_pages :: "pmm \<Rightarrow> nat \<Rightarrow> nat \<times> pmm" where
  "pmm_alloc_contiguous_pages s count =
    (if count = 0 then (0, s)
     else case contig_scan (bitmap_test (pmm_bitmap s)) count (total_pages s) 0 0 0 of
            None \<Rightarrow> (0, s)
          | Some run_start \<Rightarrow>
              (run_start * 4096,
               s\<lparr>pmm_bitmap := set_pages run_start count (pmm_bitmap s),
                 used_pages := used_pages s + count\<rparr>))"

definition pmm_free_page :: "pmm \<Rightarrow> nat \<Rightarrow> pmm" where
  "pmm_free_page s phys =
    (let page = phys div 4096
     in if page \<ge> total_pages s then s
        else if \<not> bitmap_test (pmm_bitmap s) page then s
        else s\<lparr>pmm_bitmap := bitmap_clear (pmm_bitmap s) page, used_pages := used_pages s - 1\<rparr>)"

definition pmm_get_total_pages :: "pmm \<Rightarrow> nat" where
  "pmm_get_total_pages s = total_pages s"

definition pmm_get_used_pages :: "pmm \<Rightarrow> nat" where
  "pmm_get_used_pages s = used_pages s"

declare contig_scan.simps [simp del]

section \<open>The bitmap as a set of pages\<close>

lemma bitmap_test_bit: "bitmap_test bm p \<longleftrightarrow> bit (bm (p div 8)) (p mod 8)"
  by (simp add: bitmap_test_def push_bit_eq_mult and_exp_eq_0_iff_not_bit)

lemma same_bit: "p mod 8 = q mod 8 \<longleftrightarrow> p = q" if "p div 8 = q div 8" for p q :: nat
  using that by (metis div_mult_mod_eq)

lemma bit_set_one: "n < 8 \<Longrightarrow> bit ((x :: u8) OR 2 ^ k) n \<longleftrightarrow> bit x n \<or> n = k"
  by (auto simp: bit_simps)

lemma bit_clear_one: "n < 8 \<Longrightarrow> bit ((x :: u8) AND NOT (2 ^ k)) n \<longleftrightarrow> bit x n \<and> n \<noteq> k"
  by (auto simp: bit_simps)

lemma bitmap_test_set [simp]: "bitmap_test (bitmap_set bm p) q \<longleftrightarrow> q = p \<or> bitmap_test bm q"
proof (cases "q div 8 = p div 8")
  case True
  thus ?thesis
    using same_bit [OF True] by (auto simp: bitmap_test_bit bitmap_set_def bit_set_one)
qed (auto simp: bitmap_test_bit bitmap_set_def)

lemma bitmap_test_clear [simp]: "bitmap_test (bitmap_clear bm p) q \<longleftrightarrow> q \<noteq> p \<and> bitmap_test bm q"
proof (cases "q div 8 = p div 8")
  case True
  thus ?thesis
    using same_bit [OF True] by (auto simp: bitmap_test_bit bitmap_clear_def bit_clear_one)
qed (auto simp: bitmap_test_bit bitmap_clear_def)

lemma set_pages_test [simp]:
  "bitmap_test (set_pages start n bm) q \<longleftrightarrow> start \<le> q \<and> q < start + n \<or> bitmap_test bm q"
proof -
  have "bitmap_test (fold (\<lambda>p bm. bitmap_set bm (start + p)) ps bm) q \<longleftrightarrow>
      (\<exists>p\<in>set ps. q = start + p) \<or> bitmap_test bm q" for ps
    by (induction ps arbitrary: bm) auto
  thus ?thesis unfolding set_pages_def by (auto simp: nat_le_iff_add)
qed

lemma clear_pages_test [simp]:
  "bitmap_test (clear_pages start n bm) q \<longleftrightarrow> \<not> (start \<le> q \<and> q < start + n) \<and> bitmap_test bm q"
proof -
  have "bitmap_test (fold (\<lambda>p bm. bitmap_clear bm (start + p)) ps bm) q \<longleftrightarrow>
      \<not> (\<exists>p\<in>set ps. q = start + p) \<and> bitmap_test bm q" for ps
    by (induction ps arbitrary: bm) auto
  thus ?thesis unfolding clear_pages_def by (auto simp: nat_le_iff_add)
qed

definition covers :: "efi_desc \<Rightarrow> nat \<Rightarrow> bool" where
  "covers d q \<longleftrightarrow> conventional d \<and> phys_start d div 4096 \<le> q \<and> q < phys_start d div 4096 + num_pages d"

lemma free_descriptors_test [simp]:
  "bitmap_test (free_descriptors ds bm) q \<longleftrightarrow> \<not> (\<exists>d\<in>set ds. covers d q) \<and> bitmap_test bm q"
  unfolding free_descriptors_def by (induction ds arbitrary: bm) (auto simp: covers_def)

definition used_set :: "pmm \<Rightarrow> nat set" where
  "used_set s = {p. p < total_pages s \<and> bitmap_test (pmm_bitmap s) p}"

definition free_set :: "pmm \<Rightarrow> nat set" where
  "free_set s = {p. p < total_pages s \<and> \<not> bitmap_test (pmm_bitmap s) p}"

lemma count_used_card: "count_used bm n = card {p. p < n \<and> bitmap_test bm p}"
proof -
  have "distinct (filter (bitmap_test bm) [0..<n])" by simp
  hence "card (set (filter (bitmap_test bm) [0..<n])) = count_used bm n"
    by (simp only: distinct_card count_used_def)
  moreover have "set (filter (bitmap_test bm) [0..<n]) = {p. p < n \<and> bitmap_test bm p}" by auto
  ultimately show ?thesis by simp
qed

lemma finite_used_set [simp]: "finite (used_set s)" "finite (free_set s)"
  by (simp_all add: used_set_def free_set_def)

definition pmm_inv :: "pmm \<Rightarrow> bool" where
  "pmm_inv s \<longleftrightarrow> used_pages s = card (used_set s) \<and>
     512 \<le> next_free_page s \<and> next_free_page s \<le> max 512 (total_pages s)"

section \<open>Allocation and release of single pages\<close>

definition allocatable :: "pmm \<Rightarrow> nat set" where
  "allocatable s = {p. 512 \<le> p \<and> p < total_pages s}"

definition avail_pages :: "pmm \<Rightarrow> nat set" where
  "avail_pages s = free_set s \<inter> allocatable s"

lemma take_page_simps [simp]:
  "total_pages (take_page s p) = total_pages s"
  "used_pages (take_page s p) = used_pages s + 1"
  "next_free_page (take_page s p) = p + 1"
  "bitmap_test (pmm_bitmap (take_page s p)) q \<longleftrightarrow> q = p \<or> bitmap_test (pmm_bitmap s) q"
  by (simp_all add: take_page_def)

lemma take_page_sets:
  assumes "p \<in> free_set s"
  shows "used_set (take_page s p) = insert p (used_set s)" "p \<notin> used_set s"
    "free_set (take_page s p) = free_set s - {p}" "allocatable (take_page s p) = allocatable s"
  using assms by (auto simp: used_set_def free_set_def allocatable_def)

lemma take_page_inv [kernel_inv]:
  assumes "pmm_inv s" "p \<in> free_set s" "512 \<le> p"
  shows "pmm_inv (take_page s p)"
  using assms take_page_sets [OF assms(2)] by (auto simp: pmm_inv_def free_set_def)

lemma pmm_alloc_page_cases:
  assumes "pmm_inv s"
  shows "if avail_pages s = {} then pmm_alloc_page s = (0, s)
         else \<exists>p. p \<in> avail_pages s \<and> pmm_alloc_page s = (p * 4096, take_page s p)"
proof -
  let ?free = "\<lambda>i. \<not> bitmap_test (pmm_bitmap s) i"
  have nf: "512 \<le> next_free_page s" "next_free_page s \<le> max 512 (total_pages s)"
    using assms by (simp_all add: pmm_inv_def)
  show ?thesis
  proof (cases "first_in ?free (next_free_page s) (total_pages s)")
    case (Some i)
    hence "i \<in> avail_pages s"
      using nf by (auto simp: first_in_Some avail_pages_def free_set_def allocatable_def)
    thus ?thesis using Some by (auto simp: pmm_alloc_page_def)
  next
    case None
    show ?thesis
    proof (cases "first_in ?free 512 (next_free_page s)")
      case (Some i)
      hence "i \<in> avail_pages s"
        using nf by (auto simp: first_in_Some avail_pages_def free_set_def allocatable_def)
      thus ?thesis using Some None by (auto simp: pmm_alloc_page_def)
    next
      case None
      with \<open>first_in ?free (next_free_page s) (total_pages s) = None\<close> have "avail_pages s = {}"
        by (auto simp: first_in_None avail_pages_def free_set_def allocatable_def not_le)
           (metis not_le)
      thus ?thesis using None \<open>first_in ?free (next_free_page s) (total_pages s) = None\<close>
        by (simp add: pmm_alloc_page_def)
    qed
  qed
qed

lemma pmm_free_page_sets:
  assumes "p < total_pages s"
  shows "used_set (pmm_free_page s (p * 4096)) = used_set s - {p}"
    "free_set (pmm_free_page s (p * 4096)) = insert p (free_set s)"
    "total_pages (pmm_free_page s phys) = total_pages s"
    "next_free_page (pmm_free_page s phys) = next_free_page s"
  using assms by (auto simp: pmm_free_page_def used_set_def free_set_def Let_def)

lemma pmm_free_page_inv [kernel_inv]:
  assumes "pmm_inv s"
  shows "pmm_inv (pmm_free_page s phys)"
proof (cases "phys div 4096 < total_pages s \<and> bitmap_test (pmm_bitmap s) (phys div 4096)")
  case True
  let ?p = "phys div 4096"
  have "?p \<in> used_set s" using True by (simp add: used_set_def)
  moreover have "used_set (pmm_free_page s phys) = used_set s - {?p}"
    using True by (auto simp: pmm_free_page_def used_set_def Let_def)
  moreover have "used_pages (pmm_free_page s phys) = used_pages s - 1"
    "next_free_page (pmm_free_page s phys) = next_free_page s" "total_pages (pmm_free_page s phys) = total_pages s"
    using True by (auto simp: pmm_free_page_def Let_def)
  ultimately show ?thesis using assms by (simp add: pmm_inv_def)
next
  case False
  hence "pmm_free_page s phys = s" by (auto simp: pmm_free_page_def Let_def)
  thus ?thesis using assms by simp
qed

interpretation pages: page_allocator pmm_inv allocatable avail_pages pmm_alloc_page pmm_free_page
proof unfold_locales
  fix s :: pmm
  show "finite (avail_pages s)" by (simp add: avail_pages_def)
  show "avail_pages s \<subseteq> allocatable s" by (simp add: avail_pages_def)
  { assume "pmm_inv s" "avail_pages s = {}"
    thus "pmm_alloc_page s = (0, s)" using pmm_alloc_page_cases [of s] by simp }
  { assume inv: "pmm_inv s" and "avail_pages s \<noteq> {}"
    then obtain p where p: "p \<in> avail_pages s" "pmm_alloc_page s = (p * 4096, take_page s p)"
      using pmm_alloc_page_cases [of s] by auto
    hence f: "p \<in> free_set s" "512 \<le> p" by (auto simp: avail_pages_def allocatable_def)
    show "\<exists>p s'. pmm_alloc_page s = (p * 4096, s') \<and> p \<in> avail_pages s \<and> p \<noteq> 0 \<and> pmm_inv s' \<and>
        avail_pages s' = avail_pages s - {p} \<and> allocatable s' = allocatable s"
      using p f take_page_inv [OF inv f] take_page_sets [OF f(1)]
      by (intro exI [of _ p] exI [of _ "take_page s p"]) (auto simp: avail_pages_def) }
  { fix p assume "pmm_inv s" "p \<in> allocatable s"
    thus "pmm_inv (pmm_free_page s (p * 4096)) \<and> allocatable (pmm_free_page s (p * 4096)) = allocatable s \<and>
        avail_pages (pmm_free_page s (p * 4096)) = insert p (avail_pages s)"
      using pmm_free_page_sets [of p s] by (auto simp: avail_pages_def allocatable_def pmm_free_page_inv) }
qed

section \<open>Runs of pages\<close>

definition free_run :: "(nat \<Rightarrow> bool) \<Rightarrow> nat \<Rightarrow> nat \<Rightarrow> nat \<Rightarrow> bool" where
  "free_run used count n r \<longleftrightarrow> r + count \<le> n \<and> (\<forall>p. r \<le> p \<and> p < r + count \<longrightarrow> \<not> used p)"

lemma contig_scan_first:
  assumes "rl < count" "rl \<le> i" "rl > 0 \<Longrightarrow> rs = i - rl" "\<And>p. i - rl \<le> p \<Longrightarrow> p < i \<Longrightarrow> \<not> used p"
  shows "contig_scan used count n i rs rl = first_in (free_run used count n) (i - rl) n"
  using assms
proof (induction used count n i rs rl rule: contig_scan.induct)
  case (1 used count n i rs rl)
  show ?case
  proof (cases "i \<ge> n")
    case True
    hence "first_in (free_run used count n) (i - rl) n = None"
      using "1.prems"(1,2) by (auto simp: first_in_None free_run_def)
    thus ?thesis using True by (subst contig_scan.simps) simp
  next
    case False
    show ?thesis
    proof (cases "used i")
      case True
      have "contig_scan used count n (i + 1) rs 0 = first_in (free_run used count n) (i + 1) n"
        using "1.IH"(2) False True "1.prems"(1) by simp
      moreover have "\<not> free_run used count n r" if "i - rl \<le> r" "r \<le> i" for r
        using that True "1.prems"(1) by (force simp: free_run_def)
      hence "first_in (free_run used count n) (i - rl) n = first_in (free_run used count n) (i + 1) n"
        by (intro first_in_skip) auto
      ultimately show ?thesis using False True by (subst contig_scan.simps) simp
    next
      case free: False
      have all: "\<not> used p" if "i - rl \<le> p" "p < i + 1" for p
        using that free "1.prems"(4) by (cases "p = i") auto
      have rs: "(if rl = 0 then i else rs) = i - rl" using "1.prems"(3) by simp
      show ?thesis
      proof (cases "rl + 1 = count")
        case True
        hence "free_run used count n (i - rl)" using all False "1.prems"(2) by (auto simp: free_run_def)
        hence "first_in (free_run used count n) (i - rl) n = Some (i - rl)"
          using False by (auto simp: first_in_Some)
        thus ?thesis using False free True rs by (subst contig_scan.simps) (simp add: Let_def)
      next
        case more: False
        have "contig_scan used count n (i + 1) (i - rl) (rl + 1) = first_in (free_run used count n) (i + 1 - (rl + 1)) n"
          using "1.IH"(1) [OF False free refl refl] more all rs "1.prems"(1,2) by simp
        thus ?thesis using False free more rs by (subst contig_scan.simps) (simp add: Let_def)
      qed
    qed
  qed
qed

lemma contig_scan_start:
  "0 < count \<Longrightarrow> contig_scan used count n 0 0 0 = first_in (free_run used count n) 0 n"
  using contig_scan_first [of 0 count 0 0 used n] by simp

lemma pmm_alloc_contiguous_inv [kernel_inv]:
  assumes "pmm_inv s"
  shows "pmm_inv (snd (pmm_alloc_contiguous_pages s count))"
proof (cases "count = 0 \<or> contig_scan (bitmap_test (pmm_bitmap s)) count (total_pages s) 0 0 0 = None")
  case True
  thus ?thesis using assms by (auto simp: pmm_alloc_contiguous_pages_def)
next
  case False
  then obtain r where r: "contig_scan (bitmap_test (pmm_bitmap s)) count (total_pages s) 0 0 0 = Some r" by auto
  hence run: "free_run (bitmap_test (pmm_bitmap s)) count (total_pages s) r"
    using False by (auto simp: contig_scan_start first_in_Some)
  let ?s = "snd (pmm_alloc_contiguous_pages s count)"
  have "used_set ?s = used_set s \<union> {r..<r + count}"
    using False r run by (auto simp: pmm_alloc_contiguous_pages_def used_set_def free_run_def)
  moreover have "used_set s \<inter> {r..<r + count} = {}"
    using run by (auto simp: used_set_def free_run_def)
  ultimately have "card (used_set ?s) = card (used_set s) + count" by (simp add: card_Un_disjoint)
  thus ?thesis using assms False r by (simp add: pmm_alloc_contiguous_pages_def pmm_inv_def)
qed

section \<open>Boot\<close>

definition in_pages :: "nat \<Rightarrow> nat \<Rightarrow> nat \<Rightarrow> bool" where
  "in_pages start n p \<longleftrightarrow> start \<le> p \<and> p < start + n"

definition best_size :: "(nat \<times> nat) option \<Rightarrow> nat" where
  "best_size b = (case b of None \<Rightarrow> 0 | Some (sz, _) \<Rightarrow> sz)"

lemma find_bitmap_props:
  fixes bsize kb ke ds
  defines "cand \<equiv> bitmap_candidate bsize kb ke"
  shows "find_bitmap bsize kb ke ds = Some (sz, bp) \<Longrightarrow>
           \<exists>d\<in>set ds. cand d \<and> sz = desc_size_bytes d \<and> bp = phys_start d"
    and "d \<in> set ds \<Longrightarrow> cand d \<Longrightarrow> desc_size_bytes d \<le> best_size (find_bitmap bsize kb ke ds)"
proof -
  define step where "step d best = (if cand d \<and> desc_size_bytes d > best_size best
      then Some (desc_size_bytes d, phys_start d) else best)" for d and best :: "(nat \<times> nat) option"
  have F: "find_bitmap bsize kb ke ds = fold step ds None"
    by (simp add: find_bitmap_def step_def [abs_def] cand_def best_size_def)
  have mono: "best_size b \<le> best_size (fold step es b)" for es b
  proof (induction es arbitrary: b)
    case (Cons e es)
    have "best_size b \<le> best_size (step e b)" by (simp add: step_def best_size_def)
    thus ?case using Cons.IH [of "step e b"] by simp
  qed simp
  have "fold step es b = Some (sz, bp) \<Longrightarrow>
      b = Some (sz, bp) \<or> (\<exists>d\<in>set es. cand d \<and> sz = desc_size_bytes d \<and> bp = phys_start d)" for es b
    by (induction es arbitrary: b) (fastforce simp: step_def split: if_splits)+
  thus "find_bitmap bsize kb ke ds = Some (sz, bp) \<Longrightarrow>
      \<exists>d\<in>set ds. cand d \<and> sz = desc_size_bytes d \<and> bp = phys_start d"
    unfolding F by fastforce
  have "d \<in> set es \<Longrightarrow> cand d \<Longrightarrow> desc_size_bytes d \<le> best_size (fold step es b)" for es b
  proof (induction es arbitrary: b)
    case (Cons e es)
    have "desc_size_bytes d \<le> best_size (step d b)" using Cons.prems(2) by (simp add: step_def best_size_def)
    thus ?case using Cons mono [of "step e b" es] by (auto intro: order_trans)
  qed simp
  thus "d \<in> set ds \<Longrightarrow> cand d \<Longrightarrow> desc_size_bytes d \<le> best_size (find_bitmap bsize kb ke ds)"
    unfolding F by simp
qed

definition bitmap_home :: "efi_desc list \<Rightarrow> nat \<Rightarrow> nat \<Rightarrow> (nat \<times> nat) option" where
  "bitmap_home ds kb ks =
     find_bitmap (bitmap_bytes (pages_of_memory (max_phys ds))) kb (wrap64 (kb + ks)) ds"

lemma pmm_init_None: "pmm_init mem0 ds kb ks rb rs = None \<longleftrightarrow> bitmap_home ds kb ks = None"
  by (simp add: pmm_init_def bitmap_home_def Let_def split: option.split)

lemma boot_bitmap_test:
  "p < npages \<Longrightarrow> bitmap_test (boot_bitmap mem0 ds npages bp kb ks rb rs) p \<longleftrightarrow>
     p < 512 \<or> \<not> (\<exists>d\<in>set ds. covers d p) \<or>
     in_pages (bp div 4096) (page_round_up (bitmap_bytes npages)) p \<or>
     in_pages (kb div 4096) (page_round_up ks) p \<or>
     rb \<noteq> 0 \<and> rs \<noteq> 0 \<and> in_pages (rb div 4096) (page_round_up rs) p"
  unfolding boot_bitmap_def Let_def in_pages_def by (cases "rb \<noteq> 0 \<and> rs \<noteq> 0") auto

lemma pmm_init_state:
  assumes "pmm_init mem0 ds kb ks rb rs = Some s" "bitmap_home ds kb ks = Some (sz, bp)"
  shows "total_pages s = pages_of_memory (max_phys ds)"
    and "pmm_inv s"
    and "free_set s = {p. 512 \<le> p \<and> p < total_pages s \<and> (\<exists>d\<in>set ds. covers d p) \<and>
           \<not> in_pages (bp div 4096) (page_round_up (bitmap_bytes (total_pages s))) p \<and>
           \<not> in_pages (kb div 4096) (page_round_up ks) p \<and>
           \<not> (rb \<noteq> 0 \<and> rs \<noteq> 0 \<and> in_pages (rb div 4096) (page_round_up rs) p)}"
proof -
  let ?np = "pages_of_memory (max_phys ds)"
  have s: "s = \<lparr>pmm_bitmap = boot_bitmap mem0 ds ?np bp kb ks rb rs, total_pages = ?np,
      used_pages = count_used (boot_bitmap mem0 ds ?np bp kb ks rb rs) ?np, next_free_page = 512\<rparr>"
    using assms by (simp add: pmm_init_def bitmap_home_def Let_def)
  show t: "total_pages s = ?np" by (simp add: s)
  show "pmm_inv s" by (simp add: s pmm_inv_def count_used_card used_set_def)
  show "free_set s = {p. 512 \<le> p \<and> p < total_pages s \<and> (\<exists>d\<in>set ds. covers d p) \<and>
           \<not> in_pages (bp div 4096) (page_round_up (bitmap_bytes (total_pages s))) p \<and>
           \<not> in_pages (kb div 4096) (page_round_up ks) p \<and>
           \<not> (rb \<noteq> 0 \<and> rs \<noteq> 0 \<and> in_pages (rb div 4096) (page_round_up rs) p)}"
    unfolding free_set_def t by (auto simp: s boot_bitmap_test)
qed

section \<open>Every history of the allocator\<close>

text \<open>
  The pages in use by clients, as a ghost set \<open>held\<close>: they come from the two
  allocation routines and only held pages are released.
\<close>

inductive pmm_reach :: "pmm \<Rightarrow> pmm \<Rightarrow> nat set \<Rightarrow> bool" for s0 where
  start: "pmm_reach s0 s0 {}"
| alloc: "pmm_reach s0 s held \<Longrightarrow> pmm_alloc_page s = (a, s') \<Longrightarrow> a \<noteq> 0 \<Longrightarrow>
    pmm_reach s0 s' (insert (a div 4096) held)"
| contiguous: "pmm_reach s0 s held \<Longrightarrow> pmm_alloc_contiguous_pages s n = (a, s') \<Longrightarrow> a \<noteq> 0 \<Longrightarrow>
    pmm_reach s0 s' (held \<union> {a div 4096 ..< a div 4096 + n})"
| release: "pmm_reach s0 s held \<Longrightarrow> p \<in> held \<Longrightarrow> pmm_reach s0 (pmm_free_page s (p * 4096)) (held - {p})"

lemma contiguous_free_set:
  assumes "pmm_alloc_contiguous_pages s n = (a, s')" "a \<noteq> 0"
  shows "{a div 4096 ..< a div 4096 + n} \<subseteq> free_set s"
    and "free_set s' = free_set s - {a div 4096 ..< a div 4096 + n}"
    and "total_pages s' = total_pages s"
proof -
  have n: "n > 0" using assms by (auto simp: pmm_alloc_contiguous_pages_def split: if_splits)
  then obtain r where r: "contig_scan (bitmap_test (pmm_bitmap s)) n (total_pages s) 0 0 0 = Some r"
    and a: "a = r * 4096" and s': "s' = s\<lparr>pmm_bitmap := set_pages r n (pmm_bitmap s), used_pages := used_pages s + n\<rparr>"
    using assms by (auto simp: pmm_alloc_contiguous_pages_def split: option.splits)
  have run: "free_run (bitmap_test (pmm_bitmap s)) n (total_pages s) r"
    using r n by (auto simp: contig_scan_start first_in_Some)
  show "{a div 4096 ..< a div 4096 + n} \<subseteq> free_set s"
    using run by (auto simp: a free_run_def free_set_def)
  show "free_set s' = free_set s - {a div 4096 ..< a div 4096 + n}"
    by (auto simp: a s' free_set_def)
  show "total_pages s' = total_pages s" by (simp add: s')
qed

lemma used_free_card: "card (used_set s) + card (free_set s) = total_pages s"
proof -
  have "used_set s \<union> free_set s = {..<total_pages s}" "used_set s \<inter> free_set s = {}"
    by (auto simp: used_set_def free_set_def)
  thus ?thesis by (metis card_Un_disjoint card_lessThan finite_used_set)
qed

lemma pmm_reach_props:
  assumes "pmm_reach s0 s held" "pmm_inv s0"
  shows "pmm_inv s \<and> held \<subseteq> free_set s0 \<and> free_set s = free_set s0 - held \<and> total_pages s = total_pages s0"
  using assms
proof (induction rule: pmm_reach.induct)
  case (alloc s held a s')
  hence inv: "pmm_inv s" by simp
  then obtain p where p: "p \<in> avail_pages s" "a = p * 4096" "s' = take_page s p"
    using pmm_alloc_page_cases [OF inv] alloc by (auto split: if_splits)
  hence f: "p \<in> free_set s" "512 \<le> p" by (auto simp: avail_pages_def allocatable_def)
  thus ?case
    using alloc p take_page_inv [OF inv f] take_page_sets [OF f(1)] by auto
next
  case (contiguous s held n a s')
  thus ?case
    using pmm_alloc_contiguous_inv [of s n] contiguous_free_set [of s n a s'] by auto
next
  case (release s held p)
  hence "p < total_pages s" by (auto simp: free_set_def)
  thus ?case
    using release pmm_free_page_inv [of s] pmm_free_page_sets [of p s] by auto
qed simp

section \<open>Properties\<close>

text \<open>A machine with 34 MiB: low memory, the kernel image at 1 MiB, 32 MiB of free memory above it.\<close>

definition demo_map :: "efi_desc list" where
  "demo_map = [\<lparr>desc_type = 7, phys_start = 0, num_pages = 159\<rparr>,
               \<lparr>desc_type = 2, phys_start = 0x100000, num_pages = 256\<rparr>,
               \<lparr>desc_type = 7, phys_start = 0x200000, num_pages = 8192\<rparr>]"

lemma demo_pages: "pages_of_memory (max_phys demo_map) = 8704"
  by (simp add: demo_map_def max_phys_def pages_of_memory_def conventional_def desc_end_def
      desc_size_bytes_def wrap64_def)

lemma demo_home: "bitmap_home demo_map 0x100000 0x100000 = Some (0x2000000, 0x200000)"
  unfolding bitmap_home_def demo_pages
  by (simp add: demo_map_def find_bitmap_def bitmap_candidate_def conventional_def desc_end_def
      desc_size_bytes_def wrap64_def bitmap_bytes_def)

lemma demo_boot:
  obtains s0 where "pmm_init (\<lambda>_. 0xFF) demo_map 0x100000 0x100000 0 0 = Some s0"
    "pmm_inv s0" "{513..<8704} \<subseteq> avail_pages s0" "600 \<in> avail_pages s0"
proof -
  obtain s0 where s0: "pmm_init (\<lambda>_. 0xFF) demo_map 0x100000 0x100000 0 0 = Some s0"
    using pmm_init_None [of "\<lambda>_. 0xFF" demo_map "0x100000" "0x100000" 0 0] demo_home by auto
  note st = pmm_init_state [OF s0 demo_home]
  have "\<exists>d\<in>set demo_map. covers d p" if "513 \<le> p" "p < 8704" for p
    using that by (simp add: demo_map_def covers_def conventional_def)
  hence "{513..<8704} \<subseteq> avail_pages s0"
    unfolding avail_pages_def st(3) allocatable_def
    by (auto simp: st(1) demo_pages in_pages_def page_round_up_def wrap64_def bitmap_bytes_def)
  moreover have "600 \<in> {513..<8704 :: nat}" by simp
  ultimately show ?thesis using that s0 st(2) by blast
qed

text \<open>C4: Whatever sequence of single-page allocations, contiguous allocations and releases follows
  boot, a page in a client's hands is conventional memory at or above 2 MiB, never a page of the
  kernel image, of the bitmap or of the extra reserved region; the next page handed out is in nobody's
  hands; and the counter of used pages is the count at boot plus the pages held.\<close>

theorem pmm_held_pages_safe:
  assumes "pmm_init mem0 ds kb ks rb rs = Some s0" and "bitmap_home ds kb ks = Some (sz, bp)"
    and "pmm_reach s0 s held"
  shows "(\<forall>p\<in>held. 512 \<le> p \<and> p < total_pages s0 \<and> (\<exists>d\<in>set ds. covers d p) \<and>
            \<not> in_pages (kb div 4096) (page_round_up ks) p \<and>
            \<not> in_pages (bp div 4096) (page_round_up (bitmap_bytes (total_pages s0))) p \<and>
            \<not> (rb \<noteq> 0 \<and> rs \<noteq> 0 \<and> in_pages (rb div 4096) (page_round_up rs) p)) \<and>
         (fst (pmm_alloc_page s) \<noteq> 0 \<longrightarrow> fst (pmm_alloc_page s) div 4096 \<notin> held) \<and>
         used_pages s = used_pages s0 + card held"
proof -
  note init = pmm_init_state [OF assms(1,2)]
  note r = pmm_reach_props [OF assms(3) init(2)]
  have "fst (pmm_alloc_page s) \<noteq> 0 \<longrightarrow> fst (pmm_alloc_page s) div 4096 \<notin> held"
    using pmm_alloc_page_cases [of s] r by (auto simp: avail_pages_def split: if_splits)
  moreover have "used_pages s = used_pages s0 + card held"
  proof -
    have "card (free_set s) = card (free_set s0) - card held" "card held \<le> card (free_set s0)"
      using r by (auto simp: card_Diff_subset finite_subset card_mono)
    thus ?thesis
      using r init(2) used_free_card [of s] used_free_card [of s0] by (simp add: pmm_inv_def)
  qed
  moreover have "held \<subseteq> free_set s0" using r by blast
  ultimately show ?thesis unfolding init(3) by blast
qed

theorem pmm_held_pages_safe_witness:
  "\<exists>s0 s held. pmm_init (\<lambda>_. 0xFF) demo_map 0x100000 0x100000 0 0 = Some s0 \<and>
     pmm_reach s0 s held \<and> held \<noteq> {} \<and> used_pages s = used_pages s0 + card held"
proof -
  obtain s0 where s0: "pmm_init (\<lambda>_. 0xFF) demo_map 0x100000 0x100000 0 0 = Some s0"
    "pmm_inv s0" "600 \<in> avail_pages s0" by (rule demo_boot)
  then obtain p where p: "p \<in> avail_pages s0" "pmm_alloc_page s0 = (p * 4096, take_page s0 p)"
    using pmm_alloc_page_cases [of s0] by (auto split: if_splits)
  have "pmm_reach s0 (take_page s0 p) (insert (p * 4096 div 4096) {})"
    by (rule pmm_reach.alloc [OF pmm_reach.start p(2)]) (use p(1) in \<open>auto simp: avail_pages_def allocatable_def\<close>)
  from pmm_held_pages_safe [OF s0(1) demo_home this] s0(1) this show ?thesis by blast
qed

text \<open>C5: The single-page allocator returns 0 exactly when no page at or above 2 MiB is free, although
  it scans from the roving pointer; otherwise it returns the address of a page that was free and marks
  exactly that page used. Releasing the page restores the set of used pages. The count of used pages
  stays equal to the number of set bits.\<close>

theorem pmm_alloc_page_complete:
  assumes "pmm_inv s" and "pmm_alloc_page s = (a, s')"
  shows "(a = 0 \<longleftrightarrow> (\<forall>p. 512 \<le> p \<and> p < total_pages s \<longrightarrow> bitmap_test (pmm_bitmap s) p)) \<and>
         (a = 0 \<longrightarrow> s' = s) \<and>
         (a \<noteq> 0 \<longrightarrow> a div 4096 \<in> avail_pages s \<and> used_set s' = insert (a div 4096) (used_set s) \<and>
            used_set (pmm_free_page s' a) = used_set s) \<and>
         pmm_inv s'"
proof (cases "avail_pages s = {}")
  case True
  hence "a = 0" "s' = s" using pmm_alloc_page_cases [OF assms(1)] assms(2) by auto
  thus ?thesis using True assms(1) by (auto simp: avail_pages_def free_set_def allocatable_def)
next
  case False
  then obtain p where p: "p \<in> avail_pages s" "a = p * 4096" "s' = take_page s p"
    using pmm_alloc_page_cases [OF assms(1)] assms(2) by auto
  hence f: "p \<in> free_set s" "512 \<le> p" "p < total_pages s'"
    by (auto simp: avail_pages_def allocatable_def)
  have "\<exists>p. 512 \<le> p \<and> p < total_pages s \<and> \<not> bitmap_test (pmm_bitmap s) p"
    using p(1) by (auto simp: avail_pages_def free_set_def allocatable_def)
  thus ?thesis
    using p f take_page_inv [OF assms(1) f(1,2)] take_page_sets [OF f(1)] pmm_free_page_sets(1) [OF f(3)] by auto
qed

theorem pmm_alloc_page_complete_witness:
  "\<exists>s a s'. pmm_alloc_page s = (a, s') \<and> a \<noteq> 0 \<and> a div 4096 \<in> avail_pages s \<and> pmm_inv s'"
proof -
  obtain s0 where s0: "pmm_inv s0" "600 \<in> avail_pages s0" by (rule demo_boot)
  obtain a s' where a: "pmm_alloc_page s0 = (a, s')" by fastforce
  have "600 \<in> free_set s0" "600 \<in> allocatable s0" using s0(2) by (auto simp: avail_pages_def)
  hence "a \<noteq> 0"
    using pmm_alloc_page_complete [OF s0(1) a] by (auto simp: free_set_def allocatable_def)
  with pmm_alloc_page_complete [OF s0(1) a] a show ?thesis by blast
qed

text \<open>C6: The contiguous allocator returns the start of the lowest run of \<open>count\<close> free pages, marks
  exactly that run, and fails without touching the bitmap when there is no such run.\<close>

theorem pmm_contiguous_first_fit:
  assumes "0 < count" and "pmm_alloc_contiguous_pages s count = (a, s')"
  shows "(\<forall>r. \<not> free_run (bitmap_test (pmm_bitmap s)) count (total_pages s) r) \<and> a = 0 \<and> s' = s \<or>
         (\<exists>r. a = r * 4096 \<and> free_run (bitmap_test (pmm_bitmap s)) count (total_pages s) r \<and>
            (\<forall>r'<r. \<not> free_run (bitmap_test (pmm_bitmap s)) count (total_pages s) r') \<and>
            free_set s' = free_set s - {r..<r + count} \<and> used_pages s' = used_pages s + count)"
proof (cases "contig_scan (bitmap_test (pmm_bitmap s)) count (total_pages s) 0 0 0")
  case None
  hence "\<not> free_run (bitmap_test (pmm_bitmap s)) count (total_pages s) r" for r
    using assms(1) by (cases "r < total_pages s") (auto simp: contig_scan_start first_in_None, auto simp: free_run_def)
  thus ?thesis using None assms by (simp add: pmm_alloc_contiguous_pages_def)
next
  case (Some r)
  hence "free_run (bitmap_test (pmm_bitmap s)) count (total_pages s) r"
    "\<forall>r'<r. \<not> free_run (bitmap_test (pmm_bitmap s)) count (total_pages s) r'"
    using assms(1) by (auto simp: contig_scan_start first_in_Some)
  moreover have "a = r * 4096" "used_pages s' = used_pages s + count" "free_set s' = free_set s - {r..<r + count}"
    using Some assms by (auto simp: pmm_alloc_contiguous_pages_def free_set_def)
  ultimately show ?thesis by blast
qed

theorem pmm_contiguous_first_fit_witness:
  "fst (pmm_alloc_contiguous_pages \<lparr>pmm_bitmap = (\<lambda>_. 0xEF), total_pages = 16, used_pages = 14, next_free_page = 512\<rparr> 1) = 4 * 4096"
  (is "fst (pmm_alloc_contiguous_pages ?s 1) = _")
proof -
  obtain a s' where a: "pmm_alloc_contiguous_pages ?s 1 = (a, s')" by fastforce
  have used: "bitmap_test (\<lambda>_. 0xEF) p \<longleftrightarrow> p mod 8 \<noteq> 4" for p :: nat
  proof -
    have "p mod 8 \<in> {0, 1, 2, 3, 4, 5, 6, 7}" by auto
    thus ?thesis by (auto simp: bitmap_test_def)
  qed
  have run: "free_run (bitmap_test (pmm_bitmap ?s)) 1 16 r \<longleftrightarrow> r < 16 \<and> r mod 8 = 4" for r
    by (auto simp: free_run_def used) (metis le_antisym less_Suc_eq_le)
  have tp: "total_pages ?s = 16" by simp
  have "\<not> (\<forall>r. \<not> free_run (bitmap_test (pmm_bitmap ?s)) 1 16 r)" using run [of 4] by auto
  then obtain r where
    r: "a = r * 4096" "r mod 8 = 4" "\<forall>r'<r. \<not> free_run (bitmap_test (pmm_bitmap ?s)) 1 16 r'"
    using pmm_contiguous_first_fit [OF zero_less_one a, unfolded tp] run by blast
  have "\<not> 4 < r" using r(3) run [of 4] by auto
  moreover have "\<not> r < 4" using r(2) by auto
  ultimately show ?thesis using a r(1) by simp
qed

text \<open>C7: A client that allocates up to \<open>n\<close> pages in a loop and releases what it got after a
  failure leaves the set of available pages and the accounting as they were; the pages it got were
  distinct.\<close>

theorem pmm_alloc_rollback:
  assumes "pmm_inv s" and "alloc_pages pmm_alloc_page n s = (as, s')"
  shows "distinct as \<and> length as = min n (card (avail_pages s)) \<and>
         avail_pages (release_pages pmm_free_page as s') = avail_pages s \<and>
         pmm_inv (release_pages pmm_free_page as s')"
proof -
  obtain ps where "as = map (\<lambda>p. p * 4096) ps" "distinct ps" "length ps = min n (card (avail_pages s))"
    using pages.alloc_pages_props [OF assms] by metis
  moreover from this have "distinct as" by (simp add: distinct_map inj_on_def)
  ultimately show ?thesis using pages.rollback [OF assms] by simp
qed

theorem pmm_alloc_rollback_witness:
  "\<exists>s as s'. alloc_pages pmm_alloc_page 3 s = (as, s') \<and> as \<noteq> [] \<and>
     avail_pages (release_pages pmm_free_page as s') = avail_pages s"
proof -
  obtain s0 where s0: "pmm_inv s0" "600 \<in> avail_pages s0" by (rule demo_boot)
  obtain as s' where as: "alloc_pages pmm_alloc_page 3 s0 = (as, s')" by fastforce
  have "card (avail_pages s0) \<noteq> 0" using s0(2) pages.finite_avail by auto
  hence "as \<noteq> []" using pmm_alloc_rollback [OF s0(1) as] by auto
  with pmm_alloc_rollback [OF s0(1) as] as show ?thesis by blast
qed

end
