(* ===== verification/Kheap.thy ===== *)
theory Kheap
  imports Pmm
begin

text \<open>
  The kernel heap, kernel/system/mm/heap.c: 16 MiB cut into blocks, each with a
  header (magic, size, next, prev), allocated first-fit with splitting and
  freed with coalescing. The memory is the map from addresses to the header
  stored there; addresses and sizes are natural numbers and the wrap-around of
  \<open>size_t\<close> and \<open>uint32_t\<close> is written out. The loops follow the next
  pointers and are \<open>partial_function\<close>s, so that a cyclic chain is the value
  \<open>None\<close>. The abstract heap is the list of block sizes with a used flag,
  laid out one after the other from the heap's start.
\<close>

section \<open>The code\<close>

record block_header =
  hdr_magic :: u32
  hdr_size :: nat
  hdr_next :: nat
  hdr_prev :: nat

type_synonym hdrs = "nat \<Rightarrow> block_header"

record kheap =
  heap_hdrs :: hdrs
  heap_start :: nat
  heap_initialized :: bool

definition HEAP_MAGIC_FREE :: u32 where "HEAP_MAGIC_FREE = 0xDEADBEE1"
definition HEAP_MAGIC_USED :: u32 where "HEAP_MAGIC_USED = 0xDEADBEE2"
definition KERNEL_HEAP_START :: nat where "KERNEL_HEAP_START = 0xFFFF900000000000"
definition KERNEL_HEAP_SIZE :: nat where "KERNEL_HEAP_SIZE = 0x1000000"

text \<open>
  The mapping loop of \<open>heap_init\<close>; \<open>mp\<close> is \<open>map_page\<close> on the page
  tables. \<open>None\<close> is the endless halt after a failure.
\<close>

fun heap_map :: "('m \<Rightarrow> nat \<Rightarrow> nat \<Rightarrow> int \<times> 'm) \<Rightarrow> nat list \<Rightarrow> pmm \<Rightarrow> 'm \<Rightarrow> (pmm \<times> 'm) option" where
  "heap_map mp [] s m = Some (s, m)"
| "heap_map mp (virt # vs) s m =
    (case pmm_alloc_page s of (phys, s1) \<Rightarrow>
       if phys = 0 then None
       else (case mp m virt phys of (r, m1) \<Rightarrow> if r \<noteq> 0 then None else heap_map mp vs s1 m1))"

definition heap_init ::
  "('m \<Rightarrow> nat \<Rightarrow> nat \<Rightarrow> int \<times> 'm) \<Rightarrow> pmm \<Rightarrow> 'm \<Rightarrow> kheap \<Rightarrow> (pmm \<times> 'm \<times> kheap) option" where
  "heap_init mp s m k =
    (case heap_map mp (map (\<lambda>i. KERNEL_HEAP_START + i * 4096) [0..<KERNEL_HEAP_SIZE div 4096]) s m of
       None \<Rightarrow> None
     | Some (s1, m1) \<Rightarrow>
         Some (s1, m1, k\<lparr>heap_start := KERNEL_HEAP_START,
                         heap_hdrs := (heap_hdrs k)(KERNEL_HEAP_START :=
                           \<lparr>hdr_magic = HEAP_MAGIC_FREE, hdr_size = KERNEL_HEAP_SIZE, hdr_next = 0, hdr_prev = 0\<rparr>),
                         heap_initialized := True\<rparr>))"

text \<open>The walk returns \<open>Some 0\<close> (NULL) when no block fits.\<close>

partial_function (option) find_free_block :: "hdrs \<Rightarrow> nat \<Rightarrow> nat \<Rightarrow> nat option" where
  "find_free_block h n current =
    (if current = 0 then Some 0
     else if hdr_magic (h current) = HEAP_MAGIC_FREE \<and> hdr_size (h current) \<ge> n then Some current
     else find_free_block h n (hdr_next (h current)))"

definition split_block :: "hdrs \<Rightarrow> nat \<Rightarrow> nat \<Rightarrow> hdrs" where
  "split_block h block n =
    (if hdr_size (h block) \<ge> wrap64 (n + 24 + 32) then
       (let nb = block + n;
            h1 = h(nb := \<lparr>hdr_magic = HEAP_MAGIC_FREE, hdr_size = hdr_size (h block) - n,
                          hdr_next = hdr_next (h block), hdr_prev = block\<rparr>);
            h2 = (if hdr_next (h1 block) \<noteq> 0
                  then h1(hdr_next (h1 block) := (h1 (hdr_next (h1 block)))\<lparr>hdr_prev := nb\<rparr>) else h1);
            h3 = h2(block := (h2 block)\<lparr>hdr_next := nb\<rparr>)
        in h3(block := (h3 block)\<lparr>hdr_size := n\<rparr>))
     else h)"

definition merge_next :: "hdrs \<Rightarrow> nat \<Rightarrow> hdrs" where
  "merge_next h block =
    (if hdr_next (h block) \<noteq> 0 \<and> hdr_magic (h (hdr_next (h block))) = HEAP_MAGIC_FREE then
       (let nx = hdr_next (h block);
            h1 = h(block := (h block)\<lparr>hdr_size := wrap32 (hdr_size (h block) + hdr_size (h nx))\<rparr>);
            h2 = h1(block := (h1 block)\<lparr>hdr_next := hdr_next (h1 nx)\<rparr>)
        in if hdr_next (h2 block) \<noteq> 0
           then h2(hdr_next (h2 block) := (h2 (hdr_next (h2 block)))\<lparr>hdr_prev := block\<rparr>) else h2)
     else h)"

definition merge_prev :: "hdrs \<Rightarrow> nat \<Rightarrow> hdrs" where
  "merge_prev h block =
    (if hdr_prev (h block) \<noteq> 0 \<and> hdr_magic (h (hdr_prev (h block))) = HEAP_MAGIC_FREE then
       (let pv = hdr_prev (h block);
            h1 = h(pv := (h pv)\<lparr>hdr_size := wrap32 (hdr_size (h pv) + hdr_size (h block))\<rparr>);
            h2 = h1(pv := (h1 pv)\<lparr>hdr_next := hdr_next (h1 block)\<rparr>)
        in if hdr_next (h2 block) \<noteq> 0
           then h2(hdr_next (h2 block) := (h2 (hdr_next (h2 block)))\<lparr>hdr_prev := hdr_prev (h2 block)\<rparr>) else h2)
     else h)"

definition merge_blocks :: "hdrs \<Rightarrow> nat \<Rightarrow> hdrs" where
  "merge_blocks h block = merge_prev (merge_next h block) block"

definition heap_request :: "nat \<Rightarrow> nat" where
  "heap_request n = wrap64 (wrap64 (n + 7) div 8 * 8 + 24)"

text \<open>The result is the pointer (0 for NULL) and the new heap; \<open>None\<close> if the walk never ends.\<close>

definition kmalloc :: "kheap \<Rightarrow> nat \<Rightarrow> (nat \<times> kheap) option" where
  "kmalloc k n =
    (if \<not> heap_initialized k \<or> n = 0 then Some (0, k)
     else (let total_size = heap_request n
           in case find_free_block (heap_hdrs k) total_size (heap_start k) of
                None \<Rightarrow> None
              | Some block \<Rightarrow>
                  if block = 0 then Some (0, k)
                  else (let h1 = split_block (heap_hdrs k) block total_size;
                            h2 = h1(block := (h1 block)\<lparr>hdr_magic := HEAP_MAGIC_USED\<rparr>)
                        in Some (block + 24, k\<lparr>heap_hdrs := h2\<rparr>))))"

definition kfree :: "kheap \<Rightarrow> nat \<Rightarrow> kheap" where
  "kfree k ptr =
    (if ptr = 0 then k
     else (let block = ptr - 24
           in if hdr_magic (heap_hdrs k block) \<noteq> HEAP_MAGIC_USED then k
              else k\<lparr>heap_hdrs := merge_blocks
                       ((heap_hdrs k)(block := (heap_hdrs k block)\<lparr>hdr_magic := HEAP_MAGIC_FREE\<rparr>)) block\<rparr>))"

text \<open>Used and free bytes, in this order.\<close>

partial_function (option) heap_stats_walk :: "hdrs \<Rightarrow> nat \<Rightarrow> nat \<Rightarrow> nat \<Rightarrow> (nat \<times> nat) option" where
  "heap_stats_walk h used free_bytes current =
    (if current = 0 then Some (used, free_bytes)
     else if hdr_magic (h current) = HEAP_MAGIC_FREE
     then heap_stats_walk h used (free_bytes + hdr_size (h current)) (hdr_next (h current))
     else heap_stats_walk h (used + hdr_size (h current)) free_bytes (hdr_next (h current)))"

definition heap_get_stats :: "kheap \<Rightarrow> (nat \<times> nat) option" where
  "heap_get_stats k = heap_stats_walk (heap_hdrs k) 0 0 (heap_start k)"

section \<open>The abstract heap\<close>

type_synonym blk = "nat \<times> bool"

definition bytes_of :: "blk list \<Rightarrow> nat" where
  "bytes_of bs = sum_list (map fst bs)"

fun spec_alloc :: "nat \<Rightarrow> nat \<Rightarrow> blk list \<Rightarrow> (nat \<times> blk list) option" where
  "spec_alloc n a [] = None"
| "spec_alloc n a ((sz, u) # bs) =
    (if \<not> u \<and> n \<le> sz
     then Some (a, if n + 56 \<le> sz then (n, True) # (sz - n, False) # bs else (sz, True) # bs)
     else map_option (\<lambda>(r, bs'). (r, (sz, u) # bs')) (spec_alloc n (a + sz) bs))"

text \<open>Freeing marks the block and joins every pair of neighbouring free blocks.\<close>

fun mark_free :: "nat \<Rightarrow> nat \<Rightarrow> blk list \<Rightarrow> blk list" where
  "mark_free x a [] = []"
| "mark_free x a ((sz, u) # bs) = (if x = a then (sz, False) # bs else (sz, u) # mark_free x (a + sz) bs)"

fun coalesce :: "blk list \<Rightarrow> blk list" where
  "coalesce [] = []"
| "coalesce [b] = [b]"
| "coalesce ((s1, u1) # (s2, u2) # bs) =
    (if \<not> u1 \<and> \<not> u2 then coalesce ((s1 + s2, False) # bs) else (s1, u1) # coalesce ((s2, u2) # bs))"

definition spec_free :: "nat \<Rightarrow> nat \<Rightarrow> blk list \<Rightarrow> blk list" where
  "spec_free x a bs = coalesce (mark_free x a bs)"

fun no_adjacent_free :: "blk list \<Rightarrow> bool" where
  "no_adjacent_free (b1 # b2 # bs) \<longleftrightarrow> (snd b1 \<or> snd b2) \<and> no_adjacent_free (b2 # bs)"
| "no_adjacent_free _ \<longleftrightarrow> True"

definition blocks_ok :: "blk list \<Rightarrow> bool" where
  "blocks_ok bs \<longleftrightarrow> bytes_of bs = KERNEL_HEAP_SIZE \<and> (\<forall>b\<in>set bs. 24 \<le> fst b \<and> 8 dvd fst b) \<and>
     no_adjacent_free bs"

text \<open>
  \<open>heap_at h p a bs nx\<close>: from address \<open>a\<close> on, the headers of \<open>bs\<close> are stored one
  after the other, linked to \<open>p\<close> before them and \<open>nx\<close> after them.
\<close>

fun heap_at :: "hdrs \<Rightarrow> nat \<Rightarrow> nat \<Rightarrow> blk list \<Rightarrow> nat \<Rightarrow> bool" where
  "heap_at h p a [] nx \<longleftrightarrow> True"
| "heap_at h p a ((sz, u) # bs) nx \<longleftrightarrow>
    h a = \<lparr>hdr_magic = (if u then HEAP_MAGIC_USED else HEAP_MAGIC_FREE), hdr_size = sz,
           hdr_next = (if bs = [] then nx else a + sz), hdr_prev = p\<rparr> \<and>
    heap_at h a (a + sz) bs nx"

definition kheap_inv :: "kheap \<Rightarrow> blk list \<Rightarrow> bool" where
  "kheap_inv k bs \<longleftrightarrow> heap_initialized k \<and> heap_start k = KERNEL_HEAP_START \<and>
     heap_at (heap_hdrs k) 0 KERNEL_HEAP_START bs 0 \<and> blocks_ok bs"

section \<open>Layout lemmas\<close>

lemma bytes_of_simps [simp]:
  "bytes_of [] = 0" "bytes_of (b # bs) = fst b + bytes_of bs" "bytes_of (xs @ ys) = bytes_of xs + bytes_of ys"
  by (simp_all add: bytes_of_def)

fun last_addr :: "nat \<Rightarrow> nat \<Rightarrow> blk list \<Rightarrow> nat" where
  "last_addr p a [] = p"
| "last_addr p a (b # bs) = last_addr a (a + fst b) bs"

definition positive :: "blk list \<Rightarrow> bool" where
  "positive bs \<longleftrightarrow> (\<forall>b\<in>set bs. 0 < fst b)"

lemma positive_simps [simp]:
  "positive []" "positive (b # bs) \<longleftrightarrow> 0 < fst b \<and> positive bs" "positive (xs @ ys) \<longleftrightarrow> positive xs \<and> positive ys"
  by (auto simp: positive_def)

lemma heap_at_append:
  "heap_at h p a (xs @ ys) nx \<longleftrightarrow>
     heap_at h p a xs (if ys = [] then nx else a + bytes_of xs) \<and>
     heap_at h (last_addr p a xs) (a + bytes_of xs) ys nx"
  by (induction xs arbitrary: p a) (auto simp: add.assoc)

lemma heap_at_frame:
  assumes "heap_at h p a bs nx" "positive bs" "\<And>x. a \<le> x \<Longrightarrow> x < a + bytes_of bs \<Longrightarrow> h' x = h x"
  shows "heap_at h' p a bs nx"
  using assms
proof (induction bs arbitrary: p a)
  case (Cons b bs)
  obtain sz u where b: "b = (sz, u)" by (cases b)
  have "heap_at h' a (a + sz) bs nx"
    using Cons.IH [of a "a + sz"] Cons.prems by (simp add: b)
  moreover have "h' a = h a" using Cons.prems by (simp add: b)
  ultimately show ?case using Cons.prems(1) by (simp add: b)
qed simp

text \<open>The same blocks, linked back to another predecessor.\<close>

lemma heap_at_relink:
  assumes "heap_at h p a bs nx" "positive bs"
    "bs \<noteq> [] \<Longrightarrow> h' a = (h a)\<lparr>hdr_prev := q\<rparr>" "\<And>x. a < x \<Longrightarrow> x < a + bytes_of bs \<Longrightarrow> h' x = h x"
  shows "heap_at h' q a bs nx"
proof (cases bs)
  case (Cons b cs)
  obtain sz u where b: "b = (sz, u)" by (cases b)
  have "heap_at h' a (a + sz) cs nx"
    by (rule heap_at_frame [of h]) (use assms Cons in \<open>simp_all add: b\<close>)
  thus ?thesis using assms Cons by (simp add: b)
qed simp

lemma last_addr_less:
  "positive xs \<Longrightarrow> xs \<noteq> [] \<Longrightarrow> a \<le> last_addr p a xs \<and> last_addr p a xs < a + bytes_of xs"
proof (induction xs arbitrary: p a)
  case (Cons b bs)
  show ?case using Cons.IH [of "a + fst b" a] Cons.prems by (cases "bs = []") auto
qed simp

lemma blocks_ok_positive: "blocks_ok bs \<Longrightarrow> positive bs"
  by (fastforce simp: blocks_ok_def positive_def)

section \<open>The walks end\<close>

lemma find_free_block_chain:
  "heap_at h p a bs 0 \<Longrightarrow> positive bs \<Longrightarrow> a \<noteq> 0 \<Longrightarrow>
   find_free_block h n (if bs = [] then 0 else a) =
     Some (case spec_alloc n a bs of None \<Rightarrow> 0 | Some (r, _) \<Rightarrow> r)"
proof (induction bs arbitrary: p a)
  case Nil
  show ?case by (subst find_free_block.simps) simp
next
  case (Cons b bs)
  obtain sz u where b: "b = (sz, u)" by (cases b)
  have "HEAP_MAGIC_USED \<noteq> HEAP_MAGIC_FREE" by (simp add: HEAP_MAGIC_USED_def HEAP_MAGIC_FREE_def)
  moreover have "find_free_block h n (if bs = [] then 0 else a + sz) =
      Some (case spec_alloc n (a + sz) bs of None \<Rightarrow> 0 | Some (r, _) \<Rightarrow> r)"
    by (rule Cons.IH [of a]) (use Cons.prems in \<open>simp_all add: b\<close>)
  ultimately show ?case using Cons.prems
    by (subst find_free_block.simps) (auto simp: b split: option.split)
qed

lemma heap_stats_chain:
  "heap_at h p a bs 0 \<Longrightarrow> positive bs \<Longrightarrow> a \<noteq> 0 \<Longrightarrow>
   heap_stats_walk h us fr (if bs = [] then 0 else a) =
     Some (us + bytes_of (filter snd bs), fr + bytes_of (filter (\<lambda>b. \<not> snd b) bs))"
proof (induction bs arbitrary: p a us fr)
  case Nil
  show ?case by (subst heap_stats_walk.simps) simp
next
  case (Cons b bs)
  obtain sz u where b: "b = (sz, u)" by (cases b)
  have "HEAP_MAGIC_USED \<noteq> HEAP_MAGIC_FREE" by (simp add: HEAP_MAGIC_USED_def HEAP_MAGIC_FREE_def)
  moreover have "heap_stats_walk h us fr (if bs = [] then 0 else a + sz) =
      Some (us + bytes_of (filter snd bs), fr + bytes_of (filter (\<lambda>b. \<not> snd b) bs))" for us fr
    by (rule Cons.IH [of a]) (use Cons.prems in \<open>simp_all add: b\<close>)
  ultimately show ?case using Cons.prems
    by (subst heap_stats_walk.simps) (auto simp: b)
qed

section \<open>Allocation\<close>

lemma spec_alloc_Some:
  "spec_alloc n a bs = Some (r, bs') \<Longrightarrow>
   \<exists>xs sz ys. bs = xs @ (sz, False) # ys \<and> r = a + bytes_of xs \<and> n \<le> sz \<and>
     (\<forall>b\<in>set xs. snd b \<or> fst b < n) \<and>
     bs' = xs @ (if n + 56 \<le> sz then (n, True) # (sz - n, False) # ys else (sz, True) # ys)"
proof (induction bs arbitrary: a bs')
  case (Cons b bs)
  obtain sz u where b: "b = (sz, u)" by (cases b)
  show ?case
  proof (cases "\<not> u \<and> n \<le> sz")
    case True
    thus ?thesis using Cons.prems by (intro exI [of _ "[]"] exI [of _ sz] exI [of _ bs]) (simp add: b)
  next
    case False
    then obtain bs1 where rec: "spec_alloc n (a + sz) bs = Some (r, bs1)" and bs': "bs' = (sz, u) # bs1"
      using Cons.prems by (auto simp: b)
    from Cons.IH [OF rec] obtain xs sz' ys where
      "bs = xs @ (sz', False) # ys" "r = a + sz + bytes_of xs" "n \<le> sz'" "\<forall>b\<in>set xs. snd b \<or> fst b < n"
      "bs1 = xs @ (if n + 56 \<le> sz' then (n, True) # (sz' - n, False) # ys else (sz', True) # ys)" by blast
    thus ?thesis using False bs' by (intro exI [of _ "(sz, u) # xs"] exI [of _ sz'] exI [of _ ys]) (auto simp: b)
  qed
qed simp

lemma spec_alloc_None: "spec_alloc n a bs = None \<longleftrightarrow> (\<forall>b\<in>set bs. snd b \<or> fst b < n)"
  by (induction n a bs rule: spec_alloc.induct) auto

lemma heap_at_middle:
  assumes "heap_at h p a (xs @ (sz, u) # ys) 0"
  shows "heap_at h p a xs (a + bytes_of xs)"
    "h (a + bytes_of xs) = \<lparr>hdr_magic = (if u then HEAP_MAGIC_USED else HEAP_MAGIC_FREE), hdr_size = sz,
       hdr_next = (if ys = [] then 0 else a + bytes_of xs + sz), hdr_prev = last_addr p a xs\<rparr>"
    "heap_at h (a + bytes_of xs) (a + bytes_of xs + sz) ys 0"
  using assms by (auto simp: heap_at_append)

text \<open>Replacing the blocks in the middle of the heap by others of the same total size.\<close>

lemma heap_at_replace:
  assumes "heap_at h p a xs (a + bytes_of xs)" "positive xs" "zs \<noteq> []"
    and "\<And>x. x < a + bytes_of xs \<Longrightarrow> h' x = h x"
    and "heap_at h' (last_addr p a xs) (a + bytes_of xs) zs 0"
  shows "heap_at h' p a (xs @ zs) 0"
proof -
  have "heap_at h' p a xs (a + bytes_of xs)"
    by (rule heap_at_frame [OF assms(1,2)]) (use assms(4) in simp)
  thus ?thesis using assms(3,5) by (simp add: heap_at_append)
qed

lemma split_block_small:
  "n < 2 ^ 32 \<Longrightarrow> hdr_size (h r) < n + 56 \<Longrightarrow> split_block h r n = h"
  by (simp add: split_block_def wrap64_def)

lemma split_block_large:
  assumes "n < 2 ^ 32" "n + 56 \<le> hdr_size (h r)" "0 < n" "hdr_next (h r) \<noteq> r"
  shows "split_block h r n =
    (\<lambda>x. if x = r then (h r)\<lparr>hdr_next := r + n, hdr_size := n\<rparr>
         else if hdr_next (h r) \<noteq> 0 \<and> x = hdr_next (h r) then
           (if x = r + n then \<lparr>hdr_magic = HEAP_MAGIC_FREE, hdr_size = hdr_size (h r) - n, hdr_next = hdr_next (h r), hdr_prev = r + n\<rparr>
            else (h x)\<lparr>hdr_prev := r + n\<rparr>)
         else if x = r + n then \<lparr>hdr_magic = HEAP_MAGIC_FREE, hdr_size = hdr_size (h r) - n, hdr_next = hdr_next (h r), hdr_prev = r\<rparr>
         else h x)"
proof -
  have "wrap64 (n + 24 + 32) = n + 56" using assms(1) by (simp add: wrap64_def)
  thus ?thesis using assms by (auto simp: split_block_def Let_def fun_eq_iff)
qed

lemma kmalloc_block:
  assumes heap: "heap_at h p a (xs @ (sz, False) # ys) 0" and pos: "positive (xs @ (sz, False) # ys)"
    and a: "a \<noteq> 0" and n: "0 < n" "n \<le> sz" "sz < 2 ^ 32"
  defines "r \<equiv> a + bytes_of xs"
  shows "heap_at ((split_block h r n)(r := (split_block h r n r)\<lparr>hdr_magic := HEAP_MAGIC_USED\<rparr>)) p a
           (xs @ (if n + 56 \<le> sz then (n, True) # (sz - n, False) # ys else (sz, True) # ys)) 0"
    (is "heap_at ?h' p a (xs @ ?zs) 0")
proof -
  note M = heap_at_middle [OF heap, folded r_def]
  have px: "positive xs" and py: "positive ys" and sz: "0 < sz" and n32: "n < 2 ^ 32" using pos n by auto
  have "heap_at ?h' (last_addr p a xs) r ?zs 0 \<and> (\<forall>x<r. ?h' x = h x)"
  proof (cases "n + 56 \<le> sz")
    case False
    hence h': "?h' = h(r := (h r)\<lparr>hdr_magic := HEAP_MAGIC_USED\<rparr>)"
      using n32 M(2) by (simp add: split_block_small)
    have "heap_at ?h' r (r + sz) ys 0"
      by (rule heap_at_frame [OF M(3) py]) (use sz in \<open>simp add: h'\<close>)
    thus ?thesis using False M(2) by (simp add: h')
  next
    case True
    define k where "k = ?h'"
    have h': "k x = (if x = r then \<lparr>hdr_magic = HEAP_MAGIC_USED, hdr_size = n, hdr_next = r + n, hdr_prev = last_addr p a xs\<rparr>
        else if x = r + n then \<lparr>hdr_magic = HEAP_MAGIC_FREE, hdr_size = sz - n,
                                hdr_next = (if ys = [] then 0 else r + sz), hdr_prev = r\<rparr>
        else if ys \<noteq> [] \<and> x = r + sz then (h x)\<lparr>hdr_prev := r + n\<rparr> else h x)" for x
      using split_block_large [of n h r, OF n32] True n a M(2) by (auto simp: r_def k_def)
    have "heap_at k (r + n) (r + sz) ys 0"
      by (rule heap_at_relink [OF M(3) py]) (use True n in \<open>auto simp: h'\<close>)
    thus ?thesis using True n unfolding k_def [symmetric] by (simp add: h')
  qed
  thus ?thesis
    using M(1) px by (intro heap_at_replace [of h]) (auto simp: r_def [symmetric])
qed

lemma bytes_in_heap: "blocks_ok bs \<Longrightarrow> (sz, u) \<in> set bs \<Longrightarrow> sz \<le> KERNEL_HEAP_SIZE"
  using member_le_sum_list [of sz "map fst bs"] by (force simp: blocks_ok_def bytes_of_def)

lemma no_adjacent_append:
  "no_adjacent_free (xs @ b # ys) \<longleftrightarrow>
     no_adjacent_free (xs @ [b]) \<and> no_adjacent_free (b # ys)"
  by (induction xs rule: no_adjacent_free.induct) auto

lemma no_adjacent_used: "no_adjacent_free (xs @ [(s, True)]) \<longleftrightarrow> no_adjacent_free xs"
  by (induction xs rule: no_adjacent_free.induct) auto

lemma no_adjacent_Cons_used [simp]: "no_adjacent_free ((s, True) # ys) \<longleftrightarrow> no_adjacent_free ys"
  by (cases ys) auto

lemma no_adjacent_Cons_free:
  "no_adjacent_free ((s, False) # ys) \<longleftrightarrow> no_adjacent_free ((t, False) # ys)"
  by (cases ys) auto

lemma no_adjacent_prefix: "no_adjacent_free (xs @ [b]) \<Longrightarrow> no_adjacent_free xs"
  by (induction xs rule: no_adjacent_free.induct) auto

lemma spec_alloc_ok:
  assumes "blocks_ok bs" "spec_alloc n a bs = Some (r, bs')" "24 \<le> n" "8 dvd n"
  shows "blocks_ok bs'"
proof -
  obtain xs sz ys where s: "bs = xs @ (sz, False) # ys" "n \<le> sz"
    "bs' = xs @ (if n + 56 \<le> sz then (n, True) # (sz - n, False) # ys else (sz, True) # ys)"
    using spec_alloc_Some [OF assms(2)] by blast
  have "no_adjacent_free (xs @ (sz, False) # ys)" using assms(1) by (simp add: blocks_ok_def s)
  hence "no_adjacent_free (xs @ [(sz, False)])" and y: "no_adjacent_free ((sz, False) # ys)"
    by (simp_all only: no_adjacent_append [of xs _ ys])
  hence x: "no_adjacent_free (xs @ [(t, True)])" for t
    by (simp only: no_adjacent_used) (rule no_adjacent_prefix)
  have y': "no_adjacent_free ((t, False) # ys)" "no_adjacent_free ys" for t
    using y by (cases ys; simp)+
  have "no_adjacent_free bs'"
    using x [of n] x [of sz] y'(1) [of "sz - n"] y'(2) no_adjacent_append [of xs "(n, True)" "(sz - n, False) # ys"]
      no_adjacent_append [of xs "(sz, True)" ys]
    unfolding s(3) by (simp split: if_splits)
  thus ?thesis using assms s by (auto simp: blocks_ok_def dvd_diff_nat)
qed


lemma heap_request_ok:
  assumes "n + 31 < 2 ^ 64"
  shows "n + 24 \<le> heap_request n" "heap_request n \<le> n + 31" "8 dvd heap_request n"
proof -
  have "heap_request n = (n + 7) div 8 * 8 + 24"
    using assms unfolding heap_request_def wrap64_def by simp
  moreover have "(n + 7) div 8 * 8 \<le> n + 7" "n \<le> (n + 7) div 8 * 8" by linarith+
  ultimately show "n + 24 \<le> heap_request n" "heap_request n \<le> n + 31" "8 dvd heap_request n"
    by simp_all
qed

lemma heap_request_aligned: "8 dvd heap_request n"
proof -
  have "8 dvd (x :: nat) mod 2 ^ 64" if "8 dvd x" for x
    using that by (intro dvd_mod) simp_all
  thus ?thesis unfolding heap_request_def wrap64_def by (simp add: dvd_add)
qed

lemma kmalloc_cases:
  assumes inv: "kheap_inv k bs" and "0 < n" and req: "24 \<le> heap_request n"
  shows "case spec_alloc (heap_request n) KERNEL_HEAP_START bs of
           None \<Rightarrow> kmalloc k n = Some (0, k)
         | Some (r, bs') \<Rightarrow> \<exists>k'. kmalloc k n = Some (r + 24, k') \<and> kheap_inv k' bs'"
proof -
  have heap: "heap_at (heap_hdrs k) 0 KERNEL_HEAP_START bs 0" and ok: "blocks_ok bs"
    and st: "heap_initialized k" "heap_start k = KERNEL_HEAP_START"
    using inv by (auto simp: kheap_inv_def)
  have S: "KERNEL_HEAP_START \<noteq> 0" by (simp add: KERNEL_HEAP_START_def)
  have ne: "bs \<noteq> []" using ok by (auto simp: blocks_ok_def KERNEL_HEAP_SIZE_def)
  have find: "find_free_block (heap_hdrs k) (heap_request n) (heap_start k) =
      Some (case spec_alloc (heap_request n) KERNEL_HEAP_START bs of None \<Rightarrow> 0 | Some (r, _) \<Rightarrow> r)"
    using find_free_block_chain [OF heap blocks_ok_positive [OF ok] S] ne st by simp
  show ?thesis
  proof (cases "spec_alloc (heap_request n) KERNEL_HEAP_START bs")
    case None
    thus ?thesis using find \<open>0 < n\<close> by (simp add: kmalloc_def Let_def)
  next
    case (Some rb)
    then obtain r bs' where rb: "spec_alloc (heap_request n) KERNEL_HEAP_START bs = Some (r, bs')" by (cases rb) auto
    obtain xs sz ys where s: "bs = xs @ (sz, False) # ys" "r = KERNEL_HEAP_START + bytes_of xs" "heap_request n \<le> sz"
      "bs' = xs @ (if heap_request n + 56 \<le> sz then (heap_request n, True) # (sz - heap_request n, False) # ys
                   else (sz, True) # ys)"
      using spec_alloc_Some [OF rb] by blast
    have sz: "sz < 2 ^ 32" using bytes_in_heap [OF ok, of sz False] by (simp add: s(1) KERNEL_HEAP_SIZE_def)
    have r0: "r \<noteq> 0" using S s(2) by simp
    let ?h1 = "split_block (heap_hdrs k) r (heap_request n)"
    let ?k = "k\<lparr>heap_hdrs := ?h1(r := (?h1 r)\<lparr>hdr_magic := HEAP_MAGIC_USED\<rparr>)\<rparr>"
    have "kmalloc k n = Some (r + 24, ?k)"
      using find rb \<open>0 < n\<close> st r0 by (simp add: kmalloc_def Let_def)
    moreover have "heap_at (heap_hdrs ?k) 0 KERNEL_HEAP_START bs' 0"
      using kmalloc_block [of "heap_hdrs k" 0 KERNEL_HEAP_START xs sz ys "heap_request n"]
        heap blocks_ok_positive [OF ok] S req s sz by simp
    moreover have "blocks_ok bs'"
      by (rule spec_alloc_ok [OF ok rb req heap_request_aligned])
    ultimately show ?thesis using rb st by (simp add: kheap_inv_def)
  qed
qed

section \<open>Release\<close>

lemma mark_free_middle:
  "positive xs \<Longrightarrow> mark_free (a + bytes_of xs) a (xs @ (sz, u) # ys) = xs @ (sz, False) # ys"
proof (induction xs arbitrary: a)
  case (Cons b xs)
  show ?case using Cons.IH [of "a + fst b"] Cons.prems by (cases b) (auto simp: add.assoc)
qed simp

lemma coalesce_id: "no_adjacent_free bs \<Longrightarrow> coalesce bs = bs"
  by (induction bs rule: coalesce.induct) auto

lemma coalesce_free_Cons:
  "no_adjacent_free ys \<Longrightarrow> coalesce ((sz, False) # ys) =
     (case ys of (s2, False) # ys' \<Rightarrow> (sz + s2, False) # ys' | _ \<Rightarrow> (sz, False) # ys)"
proof (cases ys)
  case (Cons b zs)
  assume "no_adjacent_free ys"
  moreover obtain s2 u2 where "b = (s2, u2)" by (cases b)
  moreover have "no_adjacent_free ((s2, False) # zs) \<Longrightarrow> no_adjacent_free ((sz + s2, False) # zs)"
    by (cases zs) auto
  ultimately show ?thesis using Cons by (cases u2) (auto simp: coalesce_id)
qed simp

definition ends_used :: "blk list \<Rightarrow> bool" where
  "ends_used xs \<longleftrightarrow> xs = [] \<or> snd (last xs)"

lemma coalesce_prefix:
  "no_adjacent_free xs \<Longrightarrow> ends_used xs \<Longrightarrow> coalesce (xs @ b # zs) = xs @ coalesce (b # zs)"
proof (induction xs rule: coalesce.induct)
  case (2 b')
  thus ?case by (cases b; cases b') (auto simp: ends_used_def)
next
  case (3 s1 u1 s2 u2 bs)
  thus ?case by (auto simp: ends_used_def)
qed simp

lemma no_adjacent_snoc_free:
  "no_adjacent_free (xs @ [(s, False)]) \<Longrightarrow> no_adjacent_free xs \<and> ends_used xs"
  by (induction xs rule: no_adjacent_free.induct) (auto simp: ends_used_def)

text \<open>Joining the free block at \<open>q\<close> with the free block of size \<open>sz\<close> right behind it.\<close>

definition joined :: "hdrs \<Rightarrow> nat \<Rightarrow> nat \<Rightarrow> nat \<Rightarrow> hdrs" where
  "joined h q s1 nx = (\<lambda>x. if x = q then (h q)\<lparr>hdr_size := s1, hdr_next := nx\<rparr>
     else if nx \<noteq> 0 \<and> x = nx then (h x)\<lparr>hdr_prev := q\<rparr> else h x)"

lemma joined_heap_at:
  assumes heap: "heap_at h p a (xs @ (s1, False) # (s2, False) # ys) 0"
    and pos: "positive (xs @ (s1, False) # (s2, False) # ys)"
  defines "q \<equiv> a + bytes_of xs"
  shows "heap_at (joined h q (s1 + s2) (hdr_next (h (q + s1)))) p a (xs @ (s1 + s2, False) # ys) 0"
proof -
  note M = heap_at_middle [OF heap, folded q_def]
  have Y: "heap_at h (q + s1) (q + s1 + s2) ys 0" using M(3) by simp
  have nx: "hdr_next (h (q + s1)) = (if ys = [] then 0 else q + s1 + s2)" using M(3) by simp
  define k where "k = joined h q (s1 + s2) (hdr_next (h (q + s1)))"
  have k: "k x = (if x = q then (h q)\<lparr>hdr_size := s1 + s2, hdr_next := (if ys = [] then 0 else q + s1 + s2)\<rparr>
      else if ys \<noteq> [] \<and> x = q + s1 + s2 then (h x)\<lparr>hdr_prev := q\<rparr> else h x)" for x
    using pos unfolding k_def joined_def nx by auto
  have "heap_at k q (q + s1 + s2) ys 0"
    by (rule heap_at_relink [OF Y]) (use pos in \<open>auto simp: k\<close>)
  hence "heap_at k (last_addr p a xs) q ((s1 + s2, False) # ys) 0"
    using M(2) by (simp add: k add.assoc)
  moreover have "k x = h x" if "x < q" for x using that by (simp add: k)
  ultimately have "heap_at k p a (xs @ (s1 + s2, False) # ys) 0"
    using M(1) pos by (intro heap_at_replace [of h]) (auto simp: q_def)
  thus ?thesis by (simp add: k_def)
qed

lemma merge_next_joined:
  assumes "hdr_next (h q) = r" "r \<noteq> 0" "hdr_magic (h r) = HEAP_MAGIC_FREE" "q \<noteq> r" "hdr_next (h r) \<noteq> q"
    "hdr_size (h q) + hdr_size (h r) < 2 ^ 32"
  shows "merge_next h q = joined h q (hdr_size (h q) + hdr_size (h r)) (hdr_next (h r))"
  using assms by (auto simp: merge_next_def joined_def wrap32_def Let_def fun_eq_iff)

lemma merge_prev_joined:
  assumes "hdr_prev (h r) = q" "q \<noteq> 0" "hdr_magic (h q) = HEAP_MAGIC_FREE" "q \<noteq> r"
    "hdr_next (h r) \<noteq> q" "hdr_next (h r) \<noteq> r" "hdr_size (h q) + hdr_size (h r) < 2 ^ 32"
  shows "merge_prev h r = joined h q (hdr_size (h q) + hdr_size (h r)) (hdr_next (h r))"
  using assms by (auto simp: merge_prev_def joined_def wrap32_def Let_def fun_eq_iff)

lemma merge_next_heap_at:
  assumes heap: "heap_at h p a (xs @ (sz, False) # ys) 0" and pos: "positive (xs @ (sz, False) # ys)"
    and a: "a \<noteq> 0" and small: "bytes_of (xs @ (sz, False) # ys) < 2 ^ 32" and na: "no_adjacent_free ys"
  defines "r \<equiv> a + bytes_of xs"
  shows "\<exists>sz' ys'. coalesce ((sz, False) # ys) = (sz', False) # ys' \<and>
           heap_at (merge_next h r) p a (xs @ (sz', False) # ys') 0 \<and> sz + bytes_of ys = sz' + bytes_of ys' \<and>
           positive ((sz', False) # ys')"
proof (cases "\<exists>s2 ys'. ys = (s2, False) # ys'")
  case True
  then obtain s2 ys' where ys: "ys = (s2, False) # ys'" by blast
  note M = heap_at_middle [OF heap, folded r_def]
  have cells: "hdr_next (h r) = r + sz" "hdr_size (h r) = sz" "hdr_magic (h (r + sz)) = HEAP_MAGIC_FREE"
    "hdr_size (h (r + sz)) = s2" "hdr_next (h (r + sz)) = (if ys' = [] then 0 else r + sz + s2)"
    using M by (simp_all add: ys)
  have "merge_next h r = joined h r (sz + s2) (hdr_next (h (r + sz)))"
    using merge_next_joined [of h r "r + sz"] cells pos a small by (simp add: ys r_def split: if_splits)
  moreover have "heap_at (joined h r (sz + s2) (hdr_next (h (r + sz)))) p a (xs @ (sz + s2, False) # ys') 0"
    using joined_heap_at [of h p a xs sz s2 ys'] heap pos by (simp add: ys r_def)
  ultimately show ?thesis
    using coalesce_free_Cons [OF na, of sz] pos by (simp add: ys)
next
  case False
  hence used: "ys = [] \<or> (\<exists>s2 ys'. ys = (s2, True) # ys')" by (cases ys) auto
  have "HEAP_MAGIC_USED \<noteq> HEAP_MAGIC_FREE" by (simp add: HEAP_MAGIC_USED_def HEAP_MAGIC_FREE_def)
  hence "merge_next h r = h"
    using heap_at_middle [OF heap, folded r_def] used by (auto simp: merge_next_def)
  thus ?thesis using used coalesce_free_Cons [OF na, of sz] heap pos by (auto simp: coalesce_id)
qed

lemma last_addr_snoc: "last_addr p a (xs @ [b]) = a + bytes_of xs"
  by (induction xs arbitrary: p a) (auto simp: add.assoc)

lemma merge_prev_heap_at:
  assumes heap: "heap_at h 0 a (xs @ (sz, False) # ys) 0" and pos: "positive (xs @ (sz, False) # ys)"
    and a: "a \<noteq> 0" and small: "bytes_of (xs @ (sz, False) # ys) < 2 ^ 32"
  defines "r \<equiv> a + bytes_of xs"
  shows "ends_used xs \<Longrightarrow> merge_prev h r = h"
    and "xs = vs @ [(s1, False)] \<Longrightarrow> heap_at (merge_prev h r) 0 a (vs @ (s1 + sz, False) # ys) 0"
proof -
  note M = heap_at_middle [OF heap, folded r_def]
  have ne: "HEAP_MAGIC_USED \<noteq> HEAP_MAGIC_FREE" by (simp add: HEAP_MAGIC_USED_def HEAP_MAGIC_FREE_def)
  show "merge_prev h r = h" if "ends_used xs"
  proof (cases xs rule: rev_cases)
    case Nil
    thus ?thesis using M(2) by (simp add: merge_prev_def)
  next
    case (snoc vs b)
    hence "snd b" using that by (simp add: ends_used_def)
    then obtain s1 where b: "b = (s1, True)" by (cases b) auto
    have "hdr_magic (h (a + bytes_of vs)) = HEAP_MAGIC_USED"
      using heap_at_middle(2) [of h 0 a vs s1 True "(sz, False) # ys"] heap by (simp add: snoc b)
    moreover have "hdr_prev (h r) = a + bytes_of vs" using M(2) by (simp add: snoc last_addr_snoc)
    ultimately show ?thesis using ne by (simp add: merge_prev_def)
  qed
  assume xs: "xs = vs @ [(s1, False)]"
  let ?q = "a + bytes_of vs"
  have r: "r = ?q + s1" by (simp add: r_def xs)
  have heap': "heap_at h 0 a (vs @ (s1, False) # (sz, False) # ys) 0" using heap by (simp add: xs)
  note Q = heap_at_middle [OF heap']
  have cells: "hdr_prev (h r) = ?q" "hdr_magic (h ?q) = HEAP_MAGIC_FREE" "hdr_size (h ?q) = s1" "hdr_size (h r) = sz"
    "hdr_next (h r) = (if ys = [] then 0 else r + sz)"
    using Q(2) M(2) by (simp_all add: xs last_addr_snoc)
  have "merge_prev h r = joined h ?q (s1 + sz) (hdr_next (h r))"
    using merge_prev_joined [of h r ?q] cells pos a small by (simp add: xs r split: if_splits)
  thus "heap_at (merge_prev h r) 0 a (vs @ (s1 + sz, False) # ys) 0"
    using joined_heap_at [OF heap'] pos by (simp add: xs r)
qed

lemma no_adjacent_Cons:
  "snd b \<or> snd (hd cs) \<Longrightarrow> no_adjacent_free cs \<Longrightarrow> no_adjacent_free (b # cs)"
  by (cases cs) auto

lemma coalesce_no_adjacent: "no_adjacent_free (coalesce bs)"
proof (induction bs rule: coalesce.induct)
  case (3 s1 u1 s2 u2 bs)
  have hd: "u2 \<longrightarrow> snd (hd (coalesce ((s2, u2) # bs)))" by (cases bs) auto
  show ?case
  proof (cases "\<not> u1 \<and> \<not> u2")
    case True
    thus ?thesis using "3.IH"(1) by simp
  next
    case False
    hence "no_adjacent_free ((s1, u1) # coalesce ((s2, u2) # bs))"
      using "3.IH"(2) hd by (intro no_adjacent_Cons) auto
    thus ?thesis using False by auto
  qed
qed auto

lemma coalesce_bytes: "bytes_of (coalesce bs) = bytes_of bs"
  by (induction bs rule: coalesce.induct) auto

lemma coalesce_sizes:
  "\<forall>b\<in>set bs. 24 \<le> fst b \<and> 8 dvd fst b \<Longrightarrow> \<forall>b\<in>set (coalesce bs). 24 \<le> fst b \<and> 8 dvd fst b"
  by (induction bs rule: coalesce.induct) auto

lemma kfree_refines:
  assumes inv: "kheap_inv k bs" and bs: "bs = xs @ (sz, True) # ys"
  defines "r \<equiv> KERNEL_HEAP_START + bytes_of xs"
  shows "kheap_inv (kfree k (r + 24)) (spec_free r KERNEL_HEAP_START bs)"
proof -
  let ?S = KERNEL_HEAP_START
  have heap: "heap_at (heap_hdrs k) 0 ?S (xs @ (sz, True) # ys) 0" and ok: "blocks_ok bs"
    and st: "heap_initialized k" "heap_start k = ?S"
    using inv by (auto simp: kheap_inv_def bs)
  have S: "?S \<noteq> 0" by (simp add: KERNEL_HEAP_START_def)
  have pos: "positive (xs @ (sz, False) # ys)" using blocks_ok_positive [OF ok] by (simp add: bs)
  have small: "bytes_of (xs @ (sz, False) # ys) < 2 ^ 32"
    using ok by (simp add: blocks_ok_def bs KERNEL_HEAP_SIZE_def)
  have na: "no_adjacent_free (xs @ [(sz, True)])" "no_adjacent_free ((sz, True) # ys)"
    using ok no_adjacent_append [of xs "(sz, True)" ys] by (simp_all add: blocks_ok_def bs)
  hence nax: "no_adjacent_free xs" and nay: "no_adjacent_free ys" by (simp_all add: no_adjacent_used)
  note M = heap_at_middle [OF heap, folded r_def]
  define h0 where "h0 = (heap_hdrs k)(r := (heap_hdrs k r)\<lparr>hdr_magic := HEAP_MAGIC_FREE\<rparr>)"
  have "heap_at h0 r (r + sz) ys 0"
    by (rule heap_at_frame [OF M(3)]) (use pos in \<open>auto simp: h0_def\<close>)
  hence "heap_at h0 (last_addr 0 ?S xs) r ((sz, False) # ys) 0" using M(2) by (simp add: h0_def)
  hence heap0: "heap_at h0 0 ?S (xs @ (sz, False) # ys) 0"
    using M(1) pos by (intro heap_at_replace [of "heap_hdrs k"]) (auto simp: r_def h0_def)
  obtain sz' ys' where n: "coalesce ((sz, False) # ys) = (sz', False) # ys'"
    "heap_at (merge_next h0 r) 0 ?S (xs @ (sz', False) # ys') 0" "sz + bytes_of ys = sz' + bytes_of ys'"
    "positive ((sz', False) # ys')"
    using merge_next_heap_at [OF heap0 pos S small nay, folded r_def] by blast
  have pos': "positive (xs @ (sz', False) # ys')" and small': "bytes_of (xs @ (sz', False) # ys') < 2 ^ 32"
    using n(3,4) pos small by auto
  have K: "kfree k (r + 24) = k\<lparr>heap_hdrs := merge_prev (merge_next h0 r) r\<rparr>"
    using M(2) by (simp add: kfree_def merge_blocks_def h0_def Let_def)
  have F: "spec_free r ?S bs = coalesce (xs @ (sz, False) # ys)"
    using pos by (simp add: spec_free_def bs r_def mark_free_middle)
  have "heap_at (merge_prev (merge_next h0 r) r) 0 ?S (coalesce (xs @ (sz, False) # ys)) 0"
  proof (cases "ends_used xs")
    case True
    thus ?thesis using n merge_prev_heap_at(1) [OF n(2) pos' S small', folded r_def] nax
      by (simp add: coalesce_prefix)
  next
    case False
    then obtain vs s1 where xs: "xs = vs @ [(s1, False)]"
      by (cases xs rule: rev_cases) (auto simp: ends_used_def)
    have vs: "no_adjacent_free vs" "ends_used vs" using no_adjacent_snoc_free [of vs s1] nax by (auto simp: xs)
    have "coalesce ((s1 + sz, False) # ys) = (s1 + sz', False) # ys'"
      using n(1) coalesce_free_Cons [OF nay, of sz] coalesce_free_Cons [OF nay, of "s1 + sz"]
      by (auto split: list.splits bool.splits prod.splits)
    hence "coalesce (xs @ (sz, False) # ys) = vs @ (s1 + sz', False) # ys'"
      using coalesce_prefix [OF vs, of "(s1, False)" "(sz, False) # ys"] by (simp add: xs)
    thus ?thesis using merge_prev_heap_at(2) [OF n(2) pos' S small' xs, folded r_def] by simp
  qed
  moreover have "blocks_ok (coalesce (xs @ (sz, False) # ys))"
    unfolding blocks_ok_def coalesce_bytes
    by (intro conjI coalesce_no_adjacent coalesce_sizes) (use ok in \<open>auto simp: blocks_ok_def bs\<close>)
  ultimately show ?thesis using st by (simp add: kheap_inv_def K F)
qed

section \<open>Live regions\<close>

partial_function (option) heap_walk :: "hdrs \<Rightarrow> nat \<Rightarrow> blk list option" where
  "heap_walk h current =
    (if current = 0 then Some []
     else Option.bind (heap_walk h (hdr_next (h current)))
            (\<lambda>bs. Some ((hdr_size (h current), hdr_magic (h current) = HEAP_MAGIC_USED) # bs)))"

definition heap_blocks :: "kheap \<Rightarrow> blk list" where
  "heap_blocks k = (case heap_walk (heap_hdrs k) (heap_start k) of None \<Rightarrow> [] | Some bs \<Rightarrow> bs)"

fun regions :: "nat \<Rightarrow> blk list \<Rightarrow> (nat \<times> nat) list" where
  "regions a [] = []"
| "regions a ((sz, u) # bs) = (if u then [(a + 24, sz - 24)] else []) @ regions (a + sz) bs"

definition heap_live :: "kheap \<Rightarrow> (nat \<times> nat) set" where
  "heap_live k = set (regions KERNEL_HEAP_START (heap_blocks k))"

definition kheap_ok :: "kheap \<Rightarrow> bool" where
  "kheap_ok k \<longleftrightarrow> kheap_inv k (heap_blocks k)"

lemma heap_walk_chain:
  "heap_at h p a bs 0 \<Longrightarrow> positive bs \<Longrightarrow> a \<noteq> 0 \<Longrightarrow> heap_walk h (if bs = [] then 0 else a) = Some bs"
proof (induction bs arbitrary: p a)
  case Nil
  show ?case by (subst heap_walk.simps) simp
next
  case (Cons b bs)
  obtain sz u where b: "b = (sz, u)" by (cases b)
  have "HEAP_MAGIC_USED \<noteq> HEAP_MAGIC_FREE" by (simp add: HEAP_MAGIC_USED_def HEAP_MAGIC_FREE_def)
  moreover have "heap_walk h (if bs = [] then 0 else a + sz) = Some bs"
    by (rule Cons.IH [of a]) (use Cons.prems in \<open>simp_all add: b\<close>)
  ultimately show ?case using Cons.prems by (subst heap_walk.simps) (auto simp: b)
qed

lemma kheap_inv_blocks: "kheap_inv k bs \<Longrightarrow> heap_blocks k = bs"
proof -
  assume inv: "kheap_inv k bs"
  hence "bs \<noteq> []" by (auto simp: kheap_inv_def blocks_ok_def KERNEL_HEAP_SIZE_def)
  thus ?thesis
    using heap_walk_chain [of "heap_hdrs k" 0 KERNEL_HEAP_START bs] inv blocks_ok_positive [of bs]
    by (simp add: heap_blocks_def kheap_inv_def) (simp add: KERNEL_HEAP_START_def)
qed

lemma kheap_inv_ok: "kheap_inv k bs \<Longrightarrow> kheap_ok k \<and> heap_live k = set (regions KERNEL_HEAP_START bs)"
  by (simp add: kheap_ok_def heap_live_def kheap_inv_blocks)

lemma regions_append: "regions a (xs @ ys) = regions a xs @ regions (a + bytes_of xs) ys"
  by (induction xs arbitrary: a) (auto simp: add.assoc)

definition min_sizes :: "blk list \<Rightarrow> bool" where
  "min_sizes bs \<longleftrightarrow> (\<forall>b\<in>set bs. 24 \<le> fst b)"

lemma regions_bounds:
  "min_sizes bs \<Longrightarrow> (p, m) \<in> set (regions a bs) \<Longrightarrow> a + 24 \<le> p \<and> p + m \<le> a + bytes_of bs"
proof (induction bs arbitrary: a)
  case (Cons b bs)
  obtain sz u where b: "b = (sz, u)" by (cases b)
  show ?case using Cons.IH [of "a + sz"] Cons.prems by (fastforce simp: b min_sizes_def)
qed simp

lemma regions_disjoint:
  "min_sizes bs \<Longrightarrow> (p, m) \<in> set (regions a bs) \<Longrightarrow> (q, n) \<in> set (regions a bs) \<Longrightarrow>
   (p = q \<and> m = n) \<or> p \<noteq> q \<and> (p + m \<le> q \<or> q + n \<le> p)"
proof (induction bs arbitrary: a)
  case (Cons b bs)
  obtain sz u where b: "b = (sz, u)" by (cases b)
  have ms: "min_sizes bs" "24 \<le> sz" using Cons.prems(1) by (auto simp: b min_sizes_def)
  have beyond: "a + sz + 24 \<le> x" if "(x, y) \<in> set (regions (a + sz) bs)" for x y
    using regions_bounds [OF ms(1) that] by simp
  show ?case
    using Cons.IH [OF ms(1), of "a + sz"] Cons.prems(2,3) beyond [of p m] beyond [of q n] ms(2)
    by (auto simp: b split: if_splits)
qed simp

lemma regions_middle:
  "(p, m) \<in> set (regions a bs) \<Longrightarrow> \<exists>xs sz ys. bs = xs @ (sz, True) # ys \<and> p = a + bytes_of xs + 24 \<and> m = sz - 24"
proof (induction bs arbitrary: a)
  case (Cons b bs)
  obtain sz u where b: "b = (sz, u)" by (cases b)
  show ?case
  proof (cases "(p, m) \<in> set (regions (a + sz) bs)")
    case True
    from Cons.IH [OF True] obtain xs sz' ys where
      "bs = xs @ (sz', True) # ys" "p = a + sz + bytes_of xs + 24" "m = sz' - 24" by blast
    thus ?thesis by (intro exI [of _ "b # xs"]) (auto simp: b)
  next
    case False
    thus ?thesis using Cons.prems by (intro exI [of _ "[]"]) (auto simp: b split: if_splits)
  qed
qed simp

lemma regions_coalesce: "regions a (coalesce bs) = regions a bs"
  by (induction bs arbitrary: a rule: coalesce.induct) (auto simp: add.assoc)

lemma regions_alloc:
  assumes "spec_alloc n a bs = Some (r, bs')" "24 \<le> n"
  shows "\<exists>m. n - 24 \<le> m \<and> set (regions a bs') = insert (r + 24, m) (set (regions a bs))"
proof -
  obtain xs sz ys where s: "bs = xs @ (sz, False) # ys" "r = a + bytes_of xs" "n \<le> sz"
    "bs' = xs @ (if n + 56 \<le> sz then (n, True) # (sz - n, False) # ys else (sz, True) # ys)"
    using spec_alloc_Some [OF assms(1)] by blast
  show ?thesis
  proof (cases "n + 56 \<le> sz")
    case True
    thus ?thesis by (intro exI [of _ "n - 24"]) (auto simp: s regions_append add.assoc)
  next
    case False
    thus ?thesis using s(3) by (intro exI [of _ "sz - 24"]) (auto simp: s(1,2,4) regions_append add.assoc)
  qed
qed

lemma regions_free:
  assumes "bs = xs @ (sz, True) # ys" "positive bs" "min_sizes bs"
  shows "set (regions a (spec_free (a + bytes_of xs) a bs)) =
         set (regions a bs) - {(a + bytes_of xs + 24, sz - 24)}"
proof -
  let ?x = "(a + bytes_of xs + 24, sz - 24)"
  have ms: "min_sizes xs" "min_sizes ys" "24 \<le> sz" using assms(1,3) by (auto simp: min_sizes_def)
  have "?x \<notin> set (regions a xs)" using regions_bounds [OF ms(1), of _ _ a] by fastforce
  moreover have "?x \<notin> set (regions (a + bytes_of xs + sz) ys)"
    using regions_bounds [OF ms(2), of _ _ "a + bytes_of xs + sz"] ms(3) by fastforce
  moreover have "positive xs" using assms(1,2) by simp
  ultimately show ?thesis
    by (auto simp: spec_free_def regions_coalesce assms(1) mark_free_middle regions_append)
qed


lemma blocks_ok_min: "blocks_ok bs \<Longrightarrow> min_sizes bs"
  by (auto simp: blocks_ok_def min_sizes_def)

definition heap_limit :: nat where
  "heap_limit = 2 ^ 64 - 31"

lemma kmalloc_law:
  assumes ok: "kheap_ok k" and n: "0 < n" "n < heap_limit"
  shows "\<exists>p k'. kmalloc k n = Some (p, k') \<and> kheap_ok k' \<and>
     (p = 0 \<and> k' = k \<or> p \<noteq> 0 \<and> (\<exists>m\<ge>n. (p, m) \<notin> heap_live k \<and> heap_live k' = insert (p, m) (heap_live k)))"
proof -
  let ?bs = "heap_blocks k" and ?S = KERNEL_HEAP_START
  have inv: "kheap_inv k ?bs" using ok by (simp add: kheap_ok_def)
  have bok: "blocks_ok ?bs" using inv by (simp add: kheap_inv_def)
  have lim: "n + 31 < 2 ^ 64" using n(2) by (simp add: heap_limit_def)
  note R = heap_request_ok [OF lim]
  have r24: "24 \<le> heap_request n" using R(1) by simp
  note K = kmalloc_cases [OF inv n(1) r24]
  show ?thesis
  proof (cases "spec_alloc (heap_request n) ?S ?bs")
    case None
    thus ?thesis using K ok by auto
  next
    case (Some rb)
    then obtain r bs' k' where rb: "spec_alloc (heap_request n) ?S ?bs = Some (r, bs')"
      and k': "kmalloc k n = Some (r + 24, k')" "kheap_inv k' bs'" using K by (cases rb) auto
    obtain m where m: "heap_request n - 24 \<le> m" "set (regions ?S bs') = insert (r + 24, m) (set (regions ?S ?bs))"
      using regions_alloc [OF rb r24] by blast
    obtain xs sz ys where s: "?bs = xs @ (sz, False) # ys" "r = ?S + bytes_of xs"
      using spec_alloc_Some [OF rb] by blast
    have "(r + 24, m) \<notin> set (regions ?S ?bs)"
    proof
      assume a: "(r + 24, m) \<in> set (regions ?S ?bs)"
      have ms: "min_sizes xs" "min_sizes ys" "24 \<le> sz" using blocks_ok_min [OF bok] by (auto simp: s(1) min_sizes_def)
      show False
        using a regions_bounds [OF ms(1), of "r + 24" m ?S] regions_bounds [OF ms(2), of "r + 24" m "r + sz"] ms(3)
        by (auto simp: s regions_append)
    qed
    moreover have "n \<le> m" using m(1) R(1) by linarith
    ultimately show ?thesis
      using k' m(2) kheap_inv_ok [OF k'(2)] unfolding heap_live_def [of k] by auto
  qed
qed

lemma kfree_law:
  assumes ok: "kheap_ok k" and live: "(p, m) \<in> heap_live k"
  shows "kheap_ok (kfree k p) \<and> heap_live (kfree k p) = heap_live k - {(p, m)}"
proof -
  let ?bs = "heap_blocks k" and ?S = KERNEL_HEAP_START
  have inv: "kheap_inv k ?bs" using ok by (simp add: kheap_ok_def)
  hence bok: "blocks_ok ?bs" by (simp add: kheap_inv_def)
  obtain xs sz ys where s: "?bs = xs @ (sz, True) # ys" "p = ?S + bytes_of xs + 24" "m = sz - 24"
    using regions_middle live unfolding heap_live_def by blast
  have "kheap_inv (kfree k p) (spec_free (?S + bytes_of xs) ?S ?bs)"
    using kfree_refines [OF inv s(1)] by (simp add: s(2))
  from kheap_inv_ok [OF this] regions_free [OF s(1) blocks_ok_positive [OF bok] blocks_ok_min [OF bok], of ?S]
  show ?thesis by (simp add: heap_live_def [of k] s(2,3))
qed

interpretation kernel_heap: region_allocator kheap_ok heap_live kmalloc kfree heap_limit
  "KERNEL_HEAP_START + 24" "KERNEL_HEAP_START + KERNEL_HEAP_SIZE"
proof unfold_locales
  fix k p m q n
  assume ok: "kheap_ok k"
  hence ms: "min_sizes (heap_blocks k)" and sz: "bytes_of (heap_blocks k) = KERNEL_HEAP_SIZE"
    using blocks_ok_min by (auto simp: kheap_ok_def kheap_inv_def blocks_ok_def)
  { assume "(p, m) \<in> heap_live k" "(q, n) \<in> heap_live k" "p \<noteq> q"
    thus "p + m \<le> q \<or> q + n \<le> p" using regions_disjoint [OF ms] unfolding heap_live_def by blast }
  { assume "(p, m) \<in> heap_live k" "(p, n) \<in> heap_live k"
    thus "m = n" using regions_disjoint [OF ms] unfolding heap_live_def by blast }
  { assume "(p, m) \<in> heap_live k"
    thus "KERNEL_HEAP_START + 24 \<le> p \<and> p + m \<le> KERNEL_HEAP_START + KERNEL_HEAP_SIZE"
      using regions_bounds [OF ms] unfolding heap_live_def sz by blast }
  { assume "0 < n" "n < heap_limit"
    thus "\<exists>p s'. kmalloc k n = Some (p, s') \<and> kheap_ok s' \<and>
        (p = 0 \<and> s' = k \<or> p \<noteq> 0 \<and> (\<exists>m\<ge>n. (p, m) \<notin> heap_live k \<and> heap_live s' = insert (p, m) (heap_live k)))"
      by (rule kmalloc_law [OF ok]) }
  { assume "(p, m) \<in> heap_live k"
    thus "kheap_ok (kfree k p) \<and> heap_live (kfree k p) = heap_live k - {(p, m)}" by (rule kfree_law [OF ok]) }
qed

section \<open>Properties\<close>

lemma heap_init_inv:
  assumes "heap_init mp s m k = Some (s1, m1, k1)"
  shows "kheap_inv k1 [(KERNEL_HEAP_SIZE, False)]"
  using assms by (auto simp: heap_init_def kheap_inv_def blocks_ok_def KERNEL_HEAP_SIZE_def split: option.splits)

definition fresh_heap :: kheap where
  "fresh_heap = \<lparr>heap_hdrs = (\<lambda>a. \<lparr>hdr_magic = (if a = KERNEL_HEAP_START then HEAP_MAGIC_FREE else 0),
       hdr_size = KERNEL_HEAP_SIZE, hdr_next = 0, hdr_prev = 0\<rparr>),
     heap_start = KERNEL_HEAP_START, heap_initialized = True\<rparr>"

lemma fresh_heap_inv: "kheap_inv fresh_heap [(KERNEL_HEAP_SIZE, False)]"
  by (simp add: fresh_heap_def kheap_inv_def blocks_ok_def KERNEL_HEAP_SIZE_def)

lemma fresh_heap_ok: "kheap_ok fresh_heap" "heap_live fresh_heap = {}"
  using kheap_inv_ok [OF fresh_heap_inv] by simp_all

lemma fresh_heap_alloc:
  assumes "0 < n" "n < 1000"
  obtains k where "kmalloc fresh_heap n = Some (KERNEL_HEAP_START + 24, k)"
proof -
  have "n + 31 < 2 ^ 64" using assms by simp
  note R = heap_request_ok [OF this]
  show ?thesis
    using kmalloc_cases [OF fresh_heap_inv assms(1)] R assms that by (auto simp: KERNEL_HEAP_SIZE_def)
qed

text \<open>C2: On a well-formed heap \<open>kmalloc\<close> terminates and does what first-fit on the abstract list
  of blocks does: it returns NULL and changes nothing when no free block is large enough, and otherwise
  takes the first one, splits off the rest when it is worth a block of its own, and returns the address
  behind the header. The headers stay a well-formed chain.\<close>

theorem kmalloc_refines_first_fit:
  assumes "kheap_inv k bs" and "0 < n" and "n < heap_limit"
  shows "\<exists>ptr k' bs'. kmalloc k n = Some (ptr, k') \<and> kheap_inv k' bs' \<and>
           (case spec_alloc (heap_request n) KERNEL_HEAP_START bs of
              None \<Rightarrow> ptr = 0 \<and> bs' = bs
            | Some (r, bs2) \<Rightarrow> ptr = r + 24 \<and> bs' = bs2)"
proof -
  have "n + 31 < 2 ^ 64" using assms(3) by (simp add: heap_limit_def)
  hence "24 \<le> heap_request n" using heap_request_ok(1) [of n] by simp
  from kmalloc_cases [OF assms(1,2) this] assms(1) show ?thesis
    by (cases "spec_alloc (heap_request n) KERNEL_HEAP_START bs") auto
qed

theorem kmalloc_refines_first_fit_witness:
  "\<exists>k'. kmalloc fresh_heap 100 = Some (KERNEL_HEAP_START + 24, k') \<and>
        kheap_inv k' [(128, True), (KERNEL_HEAP_SIZE - 128, False)]"
proof -
  have "spec_alloc (heap_request 100) KERNEL_HEAP_START [(KERNEL_HEAP_SIZE, False)] =
      Some (KERNEL_HEAP_START, [(128, True), (KERNEL_HEAP_SIZE - 128, False)])"
    by (simp add: heap_request_def wrap64_def KERNEL_HEAP_SIZE_def)
  with kmalloc_refines_first_fit [OF fresh_heap_inv, of 100] show ?thesis
    by (simp add: heap_limit_def)
qed

text \<open>C3: Freeing a live pointer marks its block free and joins it with its free neighbours on both
  sides; the result is the abstract heap with every run of free blocks joined, so no two free blocks are
  ever adjacent, and the headers stay a well-formed chain.\<close>

theorem kfree_coalesces:
  assumes "kheap_ok k" and "(p, m) \<in> heap_live k"
  shows "kheap_inv (kfree k p) (spec_free (p - 24) KERNEL_HEAP_START (heap_blocks k)) \<and>
         no_adjacent_free (spec_free (p - 24) KERNEL_HEAP_START (heap_blocks k))"
proof -
  obtain xs sz ys where s: "heap_blocks k = xs @ (sz, True) # ys" "p = KERNEL_HEAP_START + bytes_of xs + 24"
    using regions_middle assms(2) unfolding heap_live_def by blast
  thus ?thesis
    using kfree_refines [of k "heap_blocks k", OF _ s(1)] assms(1)
    by (simp add: kheap_ok_def spec_free_def coalesce_no_adjacent)
qed

theorem kfree_coalesces_witness:
  "\<exists>k. kmalloc fresh_heap 100 = Some (KERNEL_HEAP_START + 24, k) \<and>
       kheap_inv (kfree k (KERNEL_HEAP_START + 24)) [(KERNEL_HEAP_SIZE, False)]"
proof -
  have R: "spec_alloc (heap_request 100) KERNEL_HEAP_START [(KERNEL_HEAP_SIZE, False)] =
      Some (KERNEL_HEAP_START, [(128, True), (KERNEL_HEAP_SIZE - 128, False)])"
    by (simp add: heap_request_def wrap64_def KERNEL_HEAP_SIZE_def)
  have "24 \<le> heap_request 100" by (simp add: heap_request_def wrap64_def)
  then obtain k where k: "kmalloc fresh_heap 100 = Some (KERNEL_HEAP_START + 24, k)"
    "kheap_inv k [(128, True), (KERNEL_HEAP_SIZE - 128, False)]"
    using kmalloc_cases [OF fresh_heap_inv, of 100] R by auto
  have "(KERNEL_HEAP_START + 24, 104) \<in> heap_live k" using kheap_inv_ok [OF k(2)] by simp
  with kfree_coalesces [of k "KERNEL_HEAP_START + 24" 104] kheap_inv_ok [OF k(2)]
  have "kheap_inv (kfree k (KERNEL_HEAP_START + 24))
      (spec_free KERNEL_HEAP_START KERNEL_HEAP_START [(128, True), (KERNEL_HEAP_SIZE - 128, False)])"
    by (simp add: kheap_inv_blocks [OF k(2)])
  thus ?thesis using k(1) by (simp add: spec_free_def) (simp add: KERNEL_HEAP_SIZE_def)
qed

lemma regions_empty: "regions a bs = [] \<longleftrightarrow> (\<forall>b\<in>set bs. \<not> snd b)"
  by (induction a bs rule: regions.induct) auto

text \<open>C1: Whatever sequence of requests and releases of held pointers follows \<open>heap_init\<close>, the
  regions in clients' hands are pairwise disjoint and lie inside the 16 MiB of the heap, behind a header;
  when everything has been released the heap is one free block again.\<close>

theorem kheap_history_safe:
  assumes "heap_init mp s m k = Some (s1, m1, k1)" and "region_reach kmalloc kfree heap_limit k1 k2 held"
  shows "(\<forall>(p, n)\<in>held. KERNEL_HEAP_START + 24 \<le> p \<and> p + n \<le> KERNEL_HEAP_START + KERNEL_HEAP_SIZE) \<and>
         (\<forall>(p, n)\<in>held. \<forall>(q, l)\<in>held. (p, n) = (q, l) \<or> p + n \<le> q \<or> q + l \<le> p) \<and>
         (held = {} \<longrightarrow> heap_blocks k2 = [(KERNEL_HEAP_SIZE, False)])"
proof -
  note init = kheap_inv_ok [OF heap_init_inv [OF assms(1)]]
  have ok: "kheap_ok k1" "heap_live k1 = {}" using init by simp_all
  have "heap_blocks k2 = [(KERNEL_HEAP_SIZE, False)]" if "held = {}"
  proof -
    have "heap_live k2 = {}" and k2: "kheap_ok k2"
      using kernel_heap.reach_backed [OF assms(2) ok] that by auto
    hence none: "\<forall>b\<in>set (heap_blocks k2). \<not> snd b"
      unfolding heap_live_def by (simp add: regions_empty)
    have b: "blocks_ok (heap_blocks k2)" using k2 by (simp add: kheap_ok_def kheap_inv_def)
    show ?thesis
    proof (cases "heap_blocks k2")
      case Nil
      thus ?thesis using b by (simp add: blocks_ok_def KERNEL_HEAP_SIZE_def)
    next
      case (Cons b1 bs)
      thus ?thesis using b none by (cases b1; cases bs) (auto simp: blocks_ok_def)
    qed
  qed
  thus ?thesis
    using kernel_heap.reach_disjoint [OF assms(2) ok] kernel_heap.reach_bounds [OF assms(2) ok] by blast
qed

lemma heap_map_enough:
  assumes "pmm_inv s" "length vs \<le> card (avail_pages s)" "\<And>m v a. fst (mp m v a) = 0"
  shows "\<exists>s1 m1. heap_map mp vs s m = Some (s1, m1)"
  using assms(1,2)
proof (induction vs arbitrary: s m)
  case (Cons v vs)
  hence "avail_pages s \<noteq> {}" by auto
  then obtain p s' where p: "pmm_alloc_page s = (p * 4096, s')" "p \<in> avail_pages s" "p \<noteq> 0" "pmm_inv s'"
    "avail_pages s' = avail_pages s - {p}"
    using pages.al_page [OF Cons.prems(1)] by metis
  have "length vs \<le> card (avail_pages s')" using Cons.prems(2) p(2,5) pages.finite_avail by simp
  with Cons.IH [OF p(4)] p(1,3) assms(3) show ?case
    by (auto simp: case_prod_beta)
qed simp

theorem kheap_history_safe_witness:
  "\<exists>s s1 k1 k2. heap_init (\<lambda>m _ _. (0, m)) s () fresh_heap = Some (s1, (), k1) \<and>
     region_reach kmalloc kfree heap_limit k1 k2 {(KERNEL_HEAP_START + 24, 100)} \<and>
     KERNEL_HEAP_START + 24 + 100 \<le> KERNEL_HEAP_START + KERNEL_HEAP_SIZE"
proof -
  obtain s0 where s0: "pmm_inv s0" "{513..<8704} \<subseteq> avail_pages s0" by (rule demo_boot)
  have "card {513..<8704 :: nat} \<le> card (avail_pages s0)" using s0(2) pages.finite_avail by (rule card_mono [rotated])
  then obtain s1 k1 where i: "heap_init (\<lambda>m _ _. (0, m)) s0 () fresh_heap = Some (s1, (), k1)"
    using heap_map_enough [OF s0(1), of "map (\<lambda>i. KERNEL_HEAP_START + i * 4096) [0..<KERNEL_HEAP_SIZE div 4096]"
        "\<lambda>m _ _. (0, m)" "()"]
    by (auto simp: heap_init_def KERNEL_HEAP_SIZE_def)
  note inv = heap_init_inv [OF i]
  have "24 \<le> heap_request 100" "heap_request 100 < 1000" by (simp_all add: heap_request_def wrap64_def)
  then obtain k2 where k2: "kmalloc k1 100 = Some (KERNEL_HEAP_START + 24, k2)"
    using kmalloc_cases [OF inv, of 100] by (auto simp: KERNEL_HEAP_SIZE_def)
  have r: "region_reach kmalloc kfree heap_limit k1 k2 {(KERNEL_HEAP_START + 24, 100)}"
    by (rule region_reach.get [where s = k1 and al = kmalloc])
       (use k2 in \<open>simp_all add: heap_limit_def region_reach.start\<close>)
  from kheap_history_safe [OF i r] i r show ?thesis by auto
qed

text \<open>C18: The statistics of the \<open>free\<close> command are exact: the walk ends and used plus free bytes
  are always the 16 MiB of the heap.\<close>

theorem heap_stats_exact:
  assumes "kheap_inv k bs"
  shows "heap_get_stats k = Some (bytes_of (filter snd bs), bytes_of (filter (\<lambda>b. \<not> snd b) bs)) \<and>
         bytes_of (filter snd bs) + bytes_of (filter (\<lambda>b. \<not> snd b) bs) = KERNEL_HEAP_SIZE"
proof -
  have ok: "blocks_ok bs" and heap: "heap_at (heap_hdrs k) 0 KERNEL_HEAP_START bs 0"
    and st: "heap_start k = KERNEL_HEAP_START"
    using assms by (auto simp: kheap_inv_def)
  have "bs \<noteq> []" using ok by (auto simp: blocks_ok_def KERNEL_HEAP_SIZE_def)
  moreover have "KERNEL_HEAP_START \<noteq> 0" by (simp add: KERNEL_HEAP_START_def)
  moreover have "bytes_of (filter snd xs) + bytes_of (filter (\<lambda>b. \<not> snd b) xs) = bytes_of xs" for xs
    by (induction xs) auto
  ultimately show ?thesis
    using heap_stats_chain [OF heap blocks_ok_positive [OF ok], of 0 0] ok st
    by (simp add: heap_get_stats_def blocks_ok_def)
qed

theorem heap_stats_exact_witness:
  "heap_get_stats fresh_heap = Some (0, KERNEL_HEAP_SIZE)"
  using heap_stats_exact [OF fresh_heap_inv] by simp

text \<open>C19: The size computation of \<open>kmalloc\<close> is not guarded against wrap-around: a request of
  \<open>2 ^ 64 - 1\<close> bytes succeeds on a fresh heap with a block that has no room behind its header.\<close>

theorem kmalloc_huge_request_wraps:
  "\<exists>k. kmalloc fresh_heap 0xFFFFFFFFFFFFFFFF = Some (KERNEL_HEAP_START + 24, k) \<and>
       heap_live k = {(KERNEL_HEAP_START + 24, 0)}"
proof -
  define N :: nat where "N = 0xFFFFFFFFFFFFFFFF"
  have r: "heap_request N = 24" by (simp add: N_def heap_request_def wrap64_def)
  have "spec_alloc (heap_request N) KERNEL_HEAP_START [(KERNEL_HEAP_SIZE, False)] =
      Some (KERNEL_HEAP_START, [(24, True), (KERNEL_HEAP_SIZE - 24, False)])"
    unfolding r by (simp add: KERNEL_HEAP_SIZE_def)
  moreover have "0 < N" by (simp add: N_def)
  ultimately obtain k where k: "kmalloc fresh_heap N = Some (KERNEL_HEAP_START + 24, k)"
    "kheap_inv k [(24, True), (KERNEL_HEAP_SIZE - 24, False)]"
    using kmalloc_cases [OF fresh_heap_inv, of N] unfolding r by (simp only: option.case prod.case order_refl) blast
  thus ?thesis using kheap_inv_ok [OF k(2)] unfolding N_def by auto
qed

end
