(* ===== verification/Ring.thy ===== *)
theory Ring
  imports Prelude
begin

text \<open>
  Fixed-size ring buffers. The kernel has three of them (process mailboxes,
  pipes, the console input buffer), each with its own choice of which two of
  start, end and count it stores. Here are the contents of a ring as a list,
  the effect of writing behind its end and of advancing its start, and the
  contract of a bounded first-in first-out queue they all satisfy.
\<close>

section \<open>Contents of a ring\<close>

definition ring_contents :: "'a list \<Rightarrow> nat \<Rightarrow> nat \<Rightarrow> 'a list" where
  "ring_contents buf start n = map (\<lambda>i. buf ! ((start + i) mod length buf)) [0..<n]"

lemma length_ring_contents [simp]: "length (ring_contents buf start n) = n"
  by (simp add: ring_contents_def)

lemma ring_contents_0 [simp]: "ring_contents buf start 0 = []"
  by (simp add: ring_contents_def)

lemma ring_push:
  assumes "n < length buf"
  shows "ring_contents (buf[(start + n) mod length buf := x]) start (Suc n) = ring_contents buf start n @ [x]"
proof -
  have ne: "(start + n) mod length buf \<noteq> (start + i) mod length buf" if "i < n" for i
  proof
    assume "(start + n) mod length buf = (start + i) mod length buf"
    hence "length buf dvd (start + n) - (start + i)"
      using that by (metis mod_eq_dvd_iff_nat add_le_cancel_left less_imp_le)
    thus False using that assms nat_dvd_not_less [of "n - i" "length buf"] by simp
  qed
  have pos: "0 < length buf" using assms by linarith
  have "(start + n) mod length buf < length buf" using pos by simp
  thus ?thesis using ne by (simp add: ring_contents_def)
qed

lemma ring_pop:
  assumes "0 < n"
  shows "ring_contents buf start n =
         buf ! (start mod length buf) # ring_contents buf ((start + 1) mod length buf) (n - 1)"
proof -
  obtain k where n: "n = Suc k" using assms by (cases n) auto
  have "[0..<Suc k] = 0 # map Suc [0..<k]" by (simp add: upt_conv_Cons map_Suc_upt del: upt_Suc)
  thus ?thesis
    by (simp add: ring_contents_def n mod_add_left_eq del: upt_Suc)
qed

lemma ring_start_mod: "ring_contents buf (start mod length buf) n = ring_contents buf start n"
  by (simp add: ring_contents_def mod_add_left_eq)

lemma ring_split:
  assumes "k \<le> n"
  shows "ring_contents buf start n = ring_contents buf start k @ ring_contents buf ((start + k) mod length buf) (n - k)"
proof -
  have "[0..<n] = [0..<k] @ [k..<n]" using assms upt_add_eq_append [of 0 k "n - k"] by simp
  also have "[k..<n] = map (\<lambda>i. i + k) [0..<n - k]" using assms by (simp add: map_add_upt)
  finally have "[0..<n] = [0..<k] @ map (\<lambda>i. i + k) [0..<n - k]" .
  then show ?thesis unfolding ring_start_mod by (simp add: ring_contents_def comp_def ac_simps)
qed

section \<open>A bounded first-in first-out queue\<close>

datatype 'a fifo_op = Push 'a | Pop

text \<open>
  Running a sequence of operations: the elements accepted, the elements
  delivered (both in order), and the final state. A push on a full queue is
  refused and a pop on an empty one delivers nothing.
\<close>

fun fifo_run ::
  "('s \<Rightarrow> 'a \<Rightarrow> 's option) \<Rightarrow> ('s \<Rightarrow> ('a \<times> 's) option) \<Rightarrow> 's \<Rightarrow> 'a fifo_op list \<Rightarrow> 'a list \<times> 'a list \<times> 's" where
  "fifo_run psh pp s [] = ([], [], s)"
| "fifo_run psh pp s (Push x # ops) =
    (case psh s x of None \<Rightarrow> fifo_run psh pp s ops
     | Some s1 \<Rightarrow> (case fifo_run psh pp s1 ops of (acc, del, s2) \<Rightarrow> (x # acc, del, s2)))"
| "fifo_run psh pp s (Pop # ops) =
    (case pp s of None \<Rightarrow> fifo_run psh pp s ops
     | Some (x, s1) \<Rightarrow> (case fifo_run psh pp s1 ops of (acc, del, s2) \<Rightarrow> (acc, x # del, s2)))"

locale bounded_fifo =
  fixes inv :: "'s \<Rightarrow> bool"
    and items :: "'s \<Rightarrow> 'a list"
    and fits :: "'a \<Rightarrow> bool"
    and cap :: nat
    and psh :: "'s \<Rightarrow> 'a \<Rightarrow> 's option"
    and pp :: "'s \<Rightarrow> ('a \<times> 's) option"
  assumes capacity: "inv s \<Longrightarrow> length (items s) \<le> cap"
    and psh_full: "inv s \<Longrightarrow> fits x \<Longrightarrow> psh s x = None \<longleftrightarrow> length (items s) = cap"
    and psh_ok: "inv s \<Longrightarrow> fits x \<Longrightarrow> psh s x = Some s' \<Longrightarrow> inv s' \<and> items s' = items s @ [x]"
    and pp_empty: "inv s \<Longrightarrow> pp s = None \<longleftrightarrow> items s = []"
    and pp_ok: "inv s \<Longrightarrow> pp s = Some (x, s') \<Longrightarrow> inv s' \<and> items s = x # items s'"
begin

lemma run_order:
  "inv s \<Longrightarrow> (\<forall>x. Push x \<in> set ops \<longrightarrow> fits x) \<Longrightarrow> fifo_run psh pp s ops = (acc, del, s') \<Longrightarrow>
   inv s' \<and> items s @ acc = del @ items s'"
proof (induction ops arbitrary: s acc del s')
  case (Cons opn ops)
  show ?case
  proof (cases opn)
    case (Push x)
    show ?thesis
    proof (cases "psh s x")
      case None
      thus ?thesis using Cons Push by simp
    next
      case (Some s1)
      obtain acc1 del1 s2 where r: "fifo_run psh pp s1 ops = (acc1, del1, s2)" by (metis prod_cases3)
      have "inv s1" "items s1 = items s @ [x]" using psh_ok [OF Cons.prems(1) _ Some] Cons.prems(2) Push by auto
      thus ?thesis using Cons.IH [OF _ _ r] Cons.prems(2,3) Push Some r by auto
    qed
  next
    case Pop
    show ?thesis
    proof (cases "pp s")
      case None
      thus ?thesis using Cons Pop by simp
    next
      case (Some xs1)
      then obtain x s1 where x: "pp s = Some (x, s1)" by (cases xs1) auto
      obtain acc1 del1 s2 where r: "fifo_run psh pp s1 ops = (acc1, del1, s2)" by (metis prod_cases3)
      have "inv s1" "items s = x # items s1" using pp_ok [OF Cons.prems(1) x] by auto
      thus ?thesis using Cons.IH [OF _ _ r] Cons.prems(2,3) Pop x r by auto
    qed
  qed
qed simp

text \<open>From an empty queue: what is delivered is, in order, the first part of what was accepted.\<close>

lemma run_fifo:
  assumes "inv s" "items s = []" "\<forall>x. Push x \<in> set ops \<longrightarrow> fits x" "fifo_run psh pp s ops = (acc, del, s')"
  shows "acc = del @ items s'" "length acc \<le> length del + cap"
  using run_order [OF assms(1,3,4)] assms(2) capacity [of s'] by auto

end

end
