(* ===== verification/Mailbox.thy ===== *)
theory Mailbox
  imports Ring
begin

text \<open>
  Message passing between processes, kernel/system/ipc/mailbox.c: one ring of
  32 messages per process. The process table is a map from pids to what the
  mailbox code touches of a process, its mailbox and its scheduling state. A
  call of \<open>mailbox_recv\<close> is a sequence of passes through its loop; each pass
  runs with interrupts off, and between two passes other processes and
  interrupt handlers may send.
\<close>

section \<open>The code\<close>

record ipc_msg =
  msg_sender :: u32
  msg_len :: nat
  msg_payload :: bytes

record mailbox =
  mb_slots :: "ipc_msg list"
  mb_head :: nat
  mb_tail :: nat
  mb_count :: nat
  mb_waiter :: "nat option"

record ipc_proc =
  ip_mailbox :: mailbox
  ip_state :: process_state

type_synonym procs = "nat \<Rightarrow> ipc_proc option"

definition mailbox_init :: "mailbox \<Rightarrow> mailbox" where
  "mailbox_init mb = mb\<lparr>mb_head := 0, mb_tail := 0, mb_count := 0, mb_waiter := None\<rparr>"

text \<open>Filling the slot at the tail; \<open>memcpy\<close> overwrites only the first \<open>len\<close> payload bytes.\<close>

definition fill_slot :: "ipc_msg \<Rightarrow> u32 \<Rightarrow> bytes \<Rightarrow> ipc_msg" where
  "fill_slot slot sender data =
     slot\<lparr>msg_sender := sender, msg_len := length data,
          msg_payload := data @ drop (length data) (msg_payload slot)\<rparr>"

definition mailbox_put :: "mailbox \<Rightarrow> u32 \<Rightarrow> bytes \<Rightarrow> mailbox" where
  "mailbox_put mb sender data =
     mb\<lparr>mb_slots := (mb_slots mb)[mb_tail mb := fill_slot (mb_slots mb ! mb_tail mb) sender data],
        mb_tail := (mb_tail mb + 1) mod 32,
        mb_count := mb_count mb + 1\<rparr>"

definition set_state :: "process_state \<Rightarrow> ipc_proc \<Rightarrow> ipc_proc" where
  "set_state st p = p\<lparr>ip_state := st\<rparr>"

definition mailbox_send :: "procs \<Rightarrow> nat \<Rightarrow> u32 \<Rightarrow> bytes \<Rightarrow> int \<times> procs" where
  "mailbox_send ps dest_pid sender data =
    (if length data > 96 then (- 1, ps)
     else case ps dest_pid of
       None \<Rightarrow> (- 1, ps)
     | Some dest \<Rightarrow>
         let mb = ip_mailbox dest
         in if mb_count mb \<ge> 32 then (- 2, ps)
            else (let mb1 = (mailbox_put mb sender data)\<lparr>mb_waiter := None\<rparr>;
                      ps1 = ps(dest_pid \<mapsto> dest\<lparr>ip_mailbox := mb1\<rparr>)
                  in (0, case mb_waiter mb of
                           None \<Rightarrow> ps1
                         | Some w \<Rightarrow> ps1(w := map_option (set_state READY) (ps1 w)))))"

datatype recv_result = RecvMsg ipc_msg | RecvFail | RecvSleep | RecvBlock

definition mailbox_take :: "mailbox \<Rightarrow> (ipc_msg \<times> mailbox) option" where
  "mailbox_take mb =
    (if mb_count mb > 0
     then Some (mb_slots mb ! mb_head mb,
                mb\<lparr>mb_head := (mb_head mb + 1) mod 32, mb_count := mb_count mb - 1\<rparr>)
     else None)"

text \<open>One pass through the loop of \<open>mailbox_recv\<close> by process \<open>me\<close>.\<close>

definition mailbox_recv_pass :: "procs \<Rightarrow> nat \<Rightarrow> int \<Rightarrow> nat \<Rightarrow> recv_result \<times> procs" where
  "mailbox_recv_pass ps me timeout_ms elapsed_ms =
    (case ps me of
       None \<Rightarrow> (RecvFail, ps)
     | Some p \<Rightarrow>
         (case mailbox_take (ip_mailbox p) of
            Some (msg, mb1) \<Rightarrow> (RecvMsg msg, ps(me \<mapsto> p\<lparr>ip_mailbox := mb1\<rparr>))
          | None \<Rightarrow>
              if timeout_ms = 0 then (RecvFail, ps)
              else if timeout_ms > 0 then
                (if int elapsed_ms \<ge> timeout_ms then (RecvFail, ps) else (RecvSleep, ps))
              else (RecvBlock,
                    ps(me \<mapsto> p\<lparr>ip_mailbox := (ip_mailbox p)\<lparr>mb_waiter := Some me\<rparr>, ip_state := BLOCKED\<rparr>))))"

text \<open>
  The whole call: \<open>env i\<close> is what the rest of the system does while the caller
  sleeps for the \<open>i\<close>-th time. \<open>RecvBlock\<close> is the suspension of an unlimited
  wait in \<open>schedule()\<close>. A pass asks to sleep only while the time is not up, so
  the guard of the recursive call always holds there; it is the loop's variant.
\<close>

function mailbox_recv :: "(nat \<Rightarrow> procs \<Rightarrow> procs) \<Rightarrow> procs \<Rightarrow> nat \<Rightarrow> int \<Rightarrow> nat \<Rightarrow> recv_result \<times> procs" where
  "mailbox_recv env ps me timeout_ms i =
    (case mailbox_recv_pass ps me timeout_ms (10 * i) of
       (RecvSleep, ps1) \<Rightarrow>
         (if timeout_ms > 0 \<and> int (10 * i) < timeout_ms
          then mailbox_recv env (env i ps1) me timeout_ms (i + 1) else (RecvFail, ps1))
     | (r, ps1) \<Rightarrow> (r, ps1))"
  by pat_completeness auto
termination
  by (relation "measure (\<lambda>(_, _, _, t, i). nat t - 10 * i)") auto

declare mailbox_recv.simps [simp del]

section \<open>The mailbox is a queue\<close>

definition msg_ok :: "ipc_msg \<Rightarrow> bool" where
  "msg_ok m \<longleftrightarrow> length (msg_payload m) = 96 \<and> msg_len m \<le> 96"

definition mb_inv :: "mailbox \<Rightarrow> bool" where
  "mb_inv mb \<longleftrightarrow> length (mb_slots mb) = 32 \<and> mb_head mb < 32 \<and> mb_count mb \<le> 32 \<and>
     mb_tail mb = (mb_head mb + mb_count mb) mod 32 \<and> (\<forall>m\<in>set (mb_slots mb). msg_ok m)"

definition msg_view :: "ipc_msg \<Rightarrow> u32 \<times> bytes" where
  "msg_view m = (msg_sender m, take (msg_len m) (msg_payload m))"

definition mb_items :: "mailbox \<Rightarrow> (u32 \<times> bytes) list" where
  "mb_items mb = map msg_view (ring_contents (mb_slots mb) (mb_head mb) (mb_count mb))"

definition mb_push :: "mailbox \<Rightarrow> u32 \<times> bytes \<Rightarrow> mailbox option" where
  "mb_push mb x = (if mb_count mb \<ge> 32 then None else Some (mailbox_put mb (fst x) (snd x)))"

definition mb_pop :: "mailbox \<Rightarrow> ((u32 \<times> bytes) \<times> mailbox) option" where
  "mb_pop mb = map_option (\<lambda>(m, mb1). (msg_view m, mb1)) (mailbox_take mb)"

lemma fill_slot_view: "msg_view (fill_slot m sender data) = (sender, data)"
  by (simp add: msg_view_def fill_slot_def)

lemma fill_slot_ok: "msg_ok m \<Longrightarrow> length data \<le> 96 \<Longrightarrow> msg_ok (fill_slot m sender data)"
  by (simp add: msg_ok_def fill_slot_def)

lemma length_mb_items [simp]: "length (mb_items mb) = mb_count mb"
  by (simp add: mb_items_def)

lemma mailbox_put_props:
  assumes inv: "mb_inv mb" and room: "mb_count mb < 32" and len: "length data \<le> 96"
  shows "mb_inv (mailbox_put mb sender data)"
    and "mb_items (mailbox_put mb sender data) = mb_items mb @ [(sender, data)]"
proof -
  let ?x = "fill_slot (mb_slots mb ! mb_tail mb) sender data"
  have tail: "mb_tail mb = (mb_head mb + mb_count mb) mod length (mb_slots mb)" and L: "length (mb_slots mb) = 32"
    using inv by (simp_all add: mb_inv_def)
  have t32: "mb_tail mb < 32" using tail L by simp
  have "msg_ok ?x" using inv t32 len by (auto simp: mb_inv_def intro!: fill_slot_ok)
  hence "\<forall>m\<in>set ((mb_slots mb)[mb_tail mb := ?x]). msg_ok m"
    using inv by (auto simp: mb_inv_def dest: set_update_subset_insert [THEN subsetD])
  thus "mb_inv (mailbox_put mb sender data)"
    using inv room by (simp add: mb_inv_def mailbox_put_def mod_Suc_eq)
  have "ring_contents ((mb_slots mb)[mb_tail mb := ?x]) (mb_head mb) (Suc (mb_count mb)) =
      ring_contents (mb_slots mb) (mb_head mb) (mb_count mb) @ [?x]"
    unfolding tail by (rule ring_push) (use room L in simp)
  thus "mb_items (mailbox_put mb sender data) = mb_items mb @ [(sender, data)]"
    by (simp add: mb_items_def mailbox_put_def fill_slot_view)
qed

lemma mailbox_take_props:
  assumes inv: "mb_inv mb" and t: "mailbox_take mb = Some (m, mb1)"
  shows "mb_inv mb1" and "mb_items mb = msg_view m # mb_items mb1" and "msg_ok m"
proof -
  have L: "length (mb_slots mb) = 32" and h: "mb_head mb < 32" using inv by (simp_all add: mb_inv_def)
  have c: "0 < mb_count mb" and m: "m = mb_slots mb ! mb_head mb"
    and mb1: "mb1 = mb\<lparr>mb_head := (mb_head mb + 1) mod 32, mb_count := mb_count mb - 1\<rparr>"
    using t by (auto simp: mailbox_take_def split: if_splits)
  have "((mb_head mb + 1) mod 32 + (mb_count mb - 1)) mod 32 = (mb_head mb + 1 + (mb_count mb - 1)) mod 32"
    by (rule mod_add_left_eq)
  moreover have "mb_count mb - 1 \<le> 32" using inv by (auto simp: mb_inv_def)
  ultimately show "mb_inv mb1" using inv c by (simp add: mb_inv_def mb1)
  show "mb_items mb = msg_view m # mb_items mb1"
    using ring_pop [OF c, of "mb_slots mb" "mb_head mb"] L h by (simp add: mb_items_def mb1 m)
  show "msg_ok m" using inv h L by (simp add: mb_inv_def m)
qed

interpretation mailbox_queue: bounded_fifo mb_inv mb_items "\<lambda>x. length (snd x) \<le> 96" 32 mb_push mb_pop
proof unfold_locales
  fix mb :: mailbox and x s'
  assume inv: "mb_inv mb"
  thus "length (mb_items mb) \<le> 32" by (simp add: mb_inv_def)
  show "mb_push mb x = None \<longleftrightarrow> length (mb_items mb) = 32" using inv by (auto simp: mb_push_def mb_inv_def)
  { assume "length (snd x) \<le> 96" "mb_push mb x = Some s'"
    thus "mb_inv s' \<and> mb_items s' = mb_items mb @ [x]"
      using mailbox_put_props [OF inv] by (auto simp: mb_push_def split: if_splits) }
  show "mb_pop mb = None \<longleftrightarrow> mb_items mb = []"
    by (auto simp: mb_pop_def mailbox_take_def mb_items_def ring_contents_def)
  { assume "mb_pop mb = Some (x, s')"
    thus "mb_inv s' \<and> mb_items mb = x # mb_items s'"
      using mailbox_take_props [OF inv] by (auto simp: mb_pop_def) }
qed

section \<open>Sleeping and waking\<close>

text \<open>
  The steps of the system that the mailbox code takes part in: sends by anyone
  (interrupt handlers included), passes of the receive loop by a process that is
  not blocked, and the scheduler moving a process between states without ever
  ending a blocked wait by itself.
\<close>

inductive ipc_step :: "procs \<Rightarrow> procs \<Rightarrow> bool" where
  send: "mailbox_send ps d sender data = (r, ps') \<Longrightarrow> ipc_step ps ps'"
| recv: "ps me = Some p \<Longrightarrow> ip_state p \<noteq> BLOCKED \<Longrightarrow> mailbox_recv_pass ps me t e = (r, ps') \<Longrightarrow> ipc_step ps ps'"
| sched: "ps q = Some p \<Longrightarrow> ip_state p \<noteq> BLOCKED \<Longrightarrow> st \<noteq> BLOCKED \<Longrightarrow> ipc_step ps (ps(q \<mapsto> set_state st p))"

definition ipc_inv :: "procs \<Rightarrow> bool" where
  "ipc_inv ps \<longleftrightarrow> (\<forall>q p. ps q = Some p \<longrightarrow> mb_inv (ip_mailbox p) \<and>
     (mb_waiter (ip_mailbox p) = None \<or> mb_waiter (ip_mailbox p) = Some q) \<and>
     (ip_state p = BLOCKED \<longrightarrow> mb_waiter (ip_mailbox p) = Some q \<and> mb_count (ip_mailbox p) = 0))"

lemma ipc_invD:
  assumes "ipc_inv ps" "ps q = Some p"
  shows "mb_inv (ip_mailbox p)" "mb_waiter (ip_mailbox p) = None \<or> mb_waiter (ip_mailbox p) = Some q"
    "ip_state p = BLOCKED \<Longrightarrow> mb_waiter (ip_mailbox p) = Some q \<and> mb_count (ip_mailbox p) = 0"
  using assms by (auto simp: ipc_inv_def)

lemma ipc_inv_update:
  assumes "ipc_inv ps" "mb_inv (ip_mailbox p)"
    "mb_waiter (ip_mailbox p) = None \<or> mb_waiter (ip_mailbox p) = Some q"
    "ip_state p = BLOCKED \<Longrightarrow> mb_waiter (ip_mailbox p) = Some q \<and> mb_count (ip_mailbox p) = 0"
  shows "ipc_inv (ps(q \<mapsto> p))"
  using assms by (simp add: ipc_inv_def)

lemma mb_inv_waiter [simp]: "mb_inv (mb\<lparr>mb_waiter := w\<rparr>) = mb_inv mb"
  by (simp add: mb_inv_def)

lemma mailbox_put_waiter [simp]: "mb_waiter (mailbox_put mb sender data) = mb_waiter mb"
  by (simp add: mailbox_put_def)

definition delivered :: "ipc_proc \<Rightarrow> u32 \<Rightarrow> bytes \<Rightarrow> ipc_proc" where
  "delivered p sender data =
     p\<lparr>ip_mailbox := (mailbox_put (ip_mailbox p) sender data)\<lparr>mb_waiter := None\<rparr>,
       ip_state := (if mb_waiter (ip_mailbox p) = None then ip_state p else READY)\<rparr>"

text \<open>A send to an existing process with room: the queue grows and the receiver is not left blocked.\<close>

lemma mailbox_send_ok:
  assumes inv: "ipc_inv ps" and d: "ps d = Some p" and len: "length data \<le> 96" and room: "mb_count (ip_mailbox p) < 32"
  shows "mailbox_send ps d sender data = (0, ps(d \<mapsto> delivered p sender data))"
    and "ip_state (delivered p sender data) \<noteq> BLOCKED"
proof -
  show "mailbox_send ps d sender data = (0, ps(d \<mapsto> delivered p sender data))"
    using ipc_invD(2) [OF inv d] d len room by (auto simp: mailbox_send_def Let_def delivered_def set_state_def)
  show "ip_state (delivered p sender data) \<noteq> BLOCKED" using ipc_invD(3) [OF inv d] by (auto simp: delivered_def)
qed

lemma mailbox_send_inv [kernel_inv]:
  assumes inv: "ipc_inv ps" and s: "mailbox_send ps d sender data = (r, ps')"
  shows "ipc_inv ps'"
proof (cases "length data \<le> 96 \<and> (\<exists>p. ps d = Some p \<and> mb_count (ip_mailbox p) < 32)")
  case True
  then obtain p where p: "ps d = Some p" "length data \<le> 96" "mb_count (ip_mailbox p) < 32" by auto
  note S = mailbox_send_ok [OF inv p, of sender]
  show ?thesis
    using S s inv mailbox_put_props(1) [OF ipc_invD(1) [OF inv p(1)] p(3,2)]
    by (auto simp: delivered_def intro!: ipc_inv_update split: if_splits)
next
  case False
  hence "ps' = ps" using s by (auto simp: mailbox_send_def Let_def split: option.splits if_splits)
  thus ?thesis using inv by simp
qed

lemma mailbox_take_None: "mailbox_take mb = None \<longleftrightarrow> mb_count mb = 0"
  by (simp add: mailbox_take_def)

lemma mailbox_recv_pass_inv [kernel_inv]:
  assumes inv: "ipc_inv ps" and me: "ps me = Some p" "ip_state p \<noteq> BLOCKED"
    and r: "mailbox_recv_pass ps me t e = (r, ps')"
  shows "ipc_inv ps'"
proof (cases "mailbox_take (ip_mailbox p)")
  case None
  hence "mb_count (ip_mailbox p) = 0" by (simp add: mailbox_take_None)
  with None me r inv ipc_invD(1) [OF inv me(1)] show ?thesis
    by (auto simp: mailbox_recv_pass_def split: if_splits intro!: ipc_inv_update)
next
  case (Some x)
  then obtain m mb1 where x: "mailbox_take (ip_mailbox p) = Some (m, mb1)" by (cases x) auto
  hence "mb_waiter mb1 = mb_waiter (ip_mailbox p)" by (auto simp: mailbox_take_def split: if_splits)
  with x me r inv ipc_invD(2) [OF inv me(1)] mailbox_take_props(1) [OF ipc_invD(1) [OF inv me(1)] x] show ?thesis
    by (auto simp: mailbox_recv_pass_def intro!: ipc_inv_update)
qed

lemma ipc_step_inv [kernel_inv]: "ipc_step ps ps' \<Longrightarrow> ipc_inv ps \<Longrightarrow> ipc_inv ps'"
proof (induction rule: ipc_step.induct)
  case (sched ps q p st)
  show ?case
    by (rule ipc_inv_update [OF sched.prems])
       (use ipc_invD [OF sched.prems sched.hyps(1)] sched.hyps in \<open>auto simp: set_state_def\<close>)
qed (auto intro: mailbox_send_inv mailbox_recv_pass_inv)

lemma ipc_steps_inv: "ipc_step\<^sup>*\<^sup>* ps ps' \<Longrightarrow> ipc_inv ps \<Longrightarrow> ipc_inv ps'"
  by (induction rule: rtranclp_induct) (auto intro: ipc_step_inv)


section \<open>Properties\<close>

definition blank_msg :: ipc_msg where
  "blank_msg = \<lparr>msg_sender = 0, msg_len = 0, msg_payload = replicate 96 0\<rparr>"

definition blank_mailbox :: mailbox where
  "blank_mailbox = mailbox_init \<lparr>mb_slots = replicate 32 blank_msg, mb_head = 5, mb_tail = 6, mb_count = 7, mb_waiter = Some 9\<rparr>"

lemma blank_mailbox_inv: "mb_inv blank_mailbox" "mb_items blank_mailbox = []"
  by (auto simp: blank_mailbox_def mailbox_init_def mb_inv_def mb_items_def blank_msg_def msg_ok_def)



text \<open>C13: No wake-up is lost. In every state the system reaches by sends, receive passes and scheduling,
  a process that is blocked in an unlimited receive has an empty mailbox and is registered as its waiter,
  so the next accepted send makes it runnable again.\<close>

theorem mailbox_no_lost_wakeup:
  assumes "ipc_inv ps0" and "ipc_step\<^sup>*\<^sup>* ps0 ps" and "ps q = Some p" and "ip_state p = BLOCKED"
  shows "mb_items (ip_mailbox p) = [] \<and> mb_waiter (ip_mailbox p) = Some q \<and>
         (\<forall>sender data. length data \<le> 96 \<longrightarrow>
            (\<exists>p'. mailbox_send ps q sender data = (0, ps(q \<mapsto> p')) \<and> ip_state p' = READY \<and>
                  mb_items (ip_mailbox p') = [(sender, data)]))"
proof -
  have inv: "ipc_inv ps" by (rule ipc_steps_inv [OF assms(2,1)])
  note D = ipc_invD [OF inv assms(3)]
  have c: "mb_count (ip_mailbox p) < 32" and e: "mb_items (ip_mailbox p) = []"
    using D(3) [OF assms(4)] by (simp_all add: mb_items_def)
  have "\<exists>p'. mailbox_send ps q sender data = (0, ps(q \<mapsto> p')) \<and> ip_state p' = READY \<and>
      mb_items (ip_mailbox p') = [(sender, data)]" if "length data \<le> 96" for sender data
    using mailbox_send_ok(1) [OF inv assms(3) that c, of sender] mailbox_put_props(2) [OF D(1) c that, of sender]
      D(3) [OF assms(4)] e
    by (intro exI [of _ "delivered p sender data"]) (auto simp: delivered_def mb_items_def)
  thus ?thesis using D(3) [OF assms(4)] e by blast
qed

theorem mailbox_no_lost_wakeup_witness:
  "\<exists>ps0 ps p. ipc_inv ps0 \<and> ipc_step\<^sup>*\<^sup>* ps0 ps \<and> ps 3 = Some p \<and> ip_state p = BLOCKED \<and>
     mb_waiter (ip_mailbox p) = Some 3"
proof -
  let ?run = "\<lparr>ip_mailbox = blank_mailbox, ip_state = RUNNING\<rparr>"
  let ?blk = "\<lparr>ip_mailbox = blank_mailbox\<lparr>mb_waiter := Some 3\<rparr>, ip_state = BLOCKED\<rparr>"
  let ?sys = "[3 \<mapsto> ?run] :: procs"
  have inv: "ipc_inv ?sys"
    using blank_mailbox_inv by (simp add: ipc_inv_def) (simp add: blank_mailbox_def mailbox_init_def)
  have "mailbox_recv_pass ?sys 3 (- 1) 0 = (RecvBlock, ?sys(3 \<mapsto> ?blk))"
    by (simp add: mailbox_recv_pass_def mailbox_take_def blank_mailbox_def mailbox_init_def)
  hence "ipc_step ?sys (?sys(3 \<mapsto> ?blk))" by (rule ipc_step.recv [where p = ?run, rotated 2]) simp_all
  hence step: "ipc_step\<^sup>*\<^sup>* ?sys (?sys(3 \<mapsto> ?blk))" by simp
  have "(?sys(3 \<mapsto> ?blk)) 3 = Some ?blk" "ip_state ?blk = BLOCKED" by simp_all
  with mailbox_no_lost_wakeup [OF inv step this] inv step show ?thesis by blast
qed

text \<open>C14: A receive with a time limit ends: whatever the other processes do meanwhile, a call with
  \<open>timeout_ms \<ge> 0\<close> returns a message or \<open>-1\<close>, never suspends; and when a message is waiting it
  returns the oldest one at once and removes exactly that one.\<close>

theorem mailbox_recv_bounded:
  assumes "0 \<le> timeout_ms"
  shows "(fst (mailbox_recv env ps me timeout_ms i) = RecvFail \<or>
          (\<exists>m. fst (mailbox_recv env ps me timeout_ms i) = RecvMsg m)) \<and>
         (\<forall>p. ps me = Some p \<and> mb_inv (ip_mailbox p) \<and> mb_items (ip_mailbox p) \<noteq> [] \<longrightarrow>
            (\<exists>m p'. mailbox_recv env ps me timeout_ms i = (RecvMsg m, ps(me \<mapsto> p')) \<and>
               mb_items (ip_mailbox p) = msg_view m # mb_items (ip_mailbox p')))"
proof -
  have "fst (mailbox_recv env ps me timeout_ms i) = RecvFail \<or>
      (\<exists>m. fst (mailbox_recv env ps me timeout_ms i) = RecvMsg m)"
    using assms
  proof (induction env ps me timeout_ms i rule: mailbox_recv.induct)
    case (1 env ps me t i)
    obtain r ps1 where r: "mailbox_recv_pass ps me t (10 * i) = (r, ps1)" by fastforce
    have "r \<noteq> RecvBlock"
      using r "1.prems" by (auto simp: mailbox_recv_pass_def split: option.splits if_splits)
    thus ?case using 1 r by (subst (1 2) mailbox_recv.simps) (cases r; simp)
  qed
  moreover have "\<exists>m p'. mailbox_recv env ps me timeout_ms i = (RecvMsg m, ps(me \<mapsto> p')) \<and>
      mb_items (ip_mailbox p) = msg_view m # mb_items (ip_mailbox p')"
    if p: "ps me = Some p" "mb_inv (ip_mailbox p)" "mb_items (ip_mailbox p) \<noteq> []" for p
  proof -
    have "mb_count (ip_mailbox p) \<noteq> 0" using p(3) by (metis length_mb_items length_0_conv)
    then obtain m mb1 where t: "mailbox_take (ip_mailbox p) = Some (m, mb1)"
      using mailbox_take_None [of "ip_mailbox p"] by fastforce
    note T = mailbox_take_props [OF p(2) t]
    show ?thesis
      using t p(1) T(2)
      by (intro exI [of _ m] exI [of _ "p\<lparr>ip_mailbox := mb1\<rparr>"])
         (subst mailbox_recv.simps, simp add: mailbox_recv_pass_def)
  qed
  ultimately show ?thesis by blast
qed

theorem mailbox_recv_bounded_witness:
  "\<exists>r ps'. mailbox_recv (\<lambda>_ ps. ps) [3 \<mapsto> \<lparr>ip_mailbox = blank_mailbox, ip_state = RUNNING\<rparr>] 3 25 0 = (r, ps') \<and>
     (r = RecvFail \<or> (\<exists>m. r = RecvMsg m))"
  using mailbox_recv_bounded [of 25 "\<lambda>_ ps. ps" "[3 \<mapsto> \<lparr>ip_mailbox = blank_mailbox, ip_state = RUNNING\<rparr>]" 3 0]
  by (metis prod.collapse zero_le_numeral)

end
