(* ===== verification/Pipe.thy ===== *)
theory Pipe
  imports Ring
begin

text \<open>
  Anonymous pipes, the pipe section of kernel/fs/vfs/vfs.c. A pipe is a ring of
  bytes with the numbers of open read and write ends and one slot each for a
  waiting reader and a waiting writer. A read or write runs until it returns or
  has to wait; a wait is an outcome of its own, after which the call goes on
  with what it has not transferred yet.
\<close>

section \<open>The code\<close>

record pipe =
  pipe_buffer :: bytes
  pipe_size :: nat
  read_pos :: nat
  write_pos :: nat
  pipe_count :: nat
  readers :: int
  writers :: int
  read_waiter :: "nat option"
  write_waiter :: "nat option"

text \<open>What a pipe operation sees of the system: the pipe, the processes' states, whether it is freed.\<close>

record pipe_sys =
  the_pipe :: pipe
  proc_states :: "nat \<Rightarrow> process_state"
  pipe_freed :: bool

definition PIPE_BUF_SIZE :: nat where "PIPE_BUF_SIZE = 4096"

definition new_pipe :: "bytes \<Rightarrow> pipe" where
  "new_pipe buf = \<lparr>pipe_buffer = buf, pipe_size = PIPE_BUF_SIZE, read_pos = 0, write_pos = 0, pipe_count = 0,
     readers = 1, writers = 1, read_waiter = None, write_waiter = None\<rparr>"

definition wake :: "nat option \<Rightarrow> (nat \<Rightarrow> process_state) \<Rightarrow> nat \<Rightarrow> process_state" where
  "wake slot sts = (case slot of None \<Rightarrow> sts | Some w \<Rightarrow> sts(w := READY))"

definition wake_reader :: "pipe_sys \<Rightarrow> pipe_sys" where
  "wake_reader s = s\<lparr>the_pipe := (the_pipe s)\<lparr>read_waiter := None\<rparr>,
                     proc_states := wake (read_waiter (the_pipe s)) (proc_states s)\<rparr>"

definition wake_writer :: "pipe_sys \<Rightarrow> pipe_sys" where
  "wake_writer s = s\<lparr>the_pipe := (the_pipe s)\<lparr>write_waiter := None\<rparr>,
                     proc_states := wake (write_waiter (the_pipe s)) (proc_states s)\<rparr>"

definition pipe_free_if_orphaned :: "pipe_sys \<Rightarrow> pipe_sys" where
  "pipe_free_if_orphaned s =
    (if readers (the_pipe s) = 0 \<and> writers (the_pipe s) = 0 then s\<lparr>pipe_freed := True\<rparr> else s)"

text \<open>One byte out of and into the ring.\<close>

definition pipe_take :: "pipe \<Rightarrow> u8 \<times> pipe" where
  "pipe_take p = (pipe_buffer p ! read_pos p,
     p\<lparr>read_pos := (read_pos p + 1) mod pipe_size p, pipe_count := pipe_count p - 1\<rparr>)"

definition pipe_put :: "pipe \<Rightarrow> u8 \<Rightarrow> pipe" where
  "pipe_put p b = p\<lparr>pipe_buffer := (pipe_buffer p)[write_pos p := b],
     write_pos := (write_pos p + 1) mod pipe_size p, pipe_count := pipe_count p + 1\<rparr>"

datatype read_result = ReadDone bytes | ReadBlocked

text \<open>The loop of \<open>pipe_read\<close> with \<open>n\<close> bytes still wanted and \<open>got\<close> read so far.\<close>

fun pipe_read_loop :: "pipe_sys \<Rightarrow> nat \<Rightarrow> nat \<Rightarrow> bytes \<Rightarrow> read_result \<times> pipe_sys" where
  "pipe_read_loop s me 0 got = (ReadDone got, s)"
| "pipe_read_loop s me (Suc n) got =
    (if pipe_count (the_pipe s) = 0 then
       (if writers (the_pipe s) = 0 then (ReadDone got, s)
        else if got \<noteq> [] then (ReadDone got, s)
        else (ReadBlocked, s\<lparr>the_pipe := (the_pipe s)\<lparr>read_waiter := Some me\<rparr>,
                             proc_states := (proc_states s)(me := BLOCKED)\<rparr>))
     else (case pipe_take (the_pipe s) of
             (b, p1) \<Rightarrow> pipe_read_loop (wake_writer (s\<lparr>the_pipe := p1\<rparr>)) me n (got @ [b])))"

definition pipe_read :: "pipe_sys \<Rightarrow> nat \<Rightarrow> nat \<Rightarrow> read_result \<times> pipe_sys" where
  "pipe_read s me count = pipe_read_loop s me count []"

text \<open>A write that ends has transferred some bytes; a blocked one has a rest to go on with.\<close>

datatype write_result = WriteDone nat | WriteBlocked bytes nat

fun pipe_write_loop :: "pipe_sys \<Rightarrow> nat \<Rightarrow> bytes \<Rightarrow> nat \<Rightarrow> write_result \<times> pipe_sys" where
  "pipe_write_loop s me [] sofar = (WriteDone sofar, s)"
| "pipe_write_loop s me (b # bs) sofar =
    (if readers (the_pipe s) = 0 then (WriteDone sofar, s)
     else if pipe_count (the_pipe s) = pipe_size (the_pipe s)
     then (WriteBlocked (b # bs) sofar,
           s\<lparr>the_pipe := (the_pipe s)\<lparr>write_waiter := Some me\<rparr>, proc_states := (proc_states s)(me := BLOCKED)\<rparr>)
     else pipe_write_loop (wake_reader (s\<lparr>the_pipe := pipe_put (the_pipe s) b\<rparr>)) me bs (sofar + 1))"

text \<open>The return value of \<open>pipe_write\<close> once its loop has ended after \<open>written\<close> bytes.\<close>

definition pipe_write_return :: "nat \<Rightarrow> nat \<Rightarrow> int" where
  "pipe_write_return written count = (if written = 0 \<and> count > 0 then - 1 else int written)"

definition pipe_seek :: "pipe_sys \<Rightarrow> int" where
  "pipe_seek s = - 1"

definition pipe_close_read :: "pipe_sys \<Rightarrow> pipe_sys" where
  "pipe_close_read s =
    pipe_free_if_orphaned (wake_writer (s\<lparr>the_pipe := (the_pipe s)\<lparr>readers := readers (the_pipe s) - 1\<rparr>\<rparr>))"

definition pipe_close_write :: "pipe_sys \<Rightarrow> pipe_sys" where
  "pipe_close_write s =
    pipe_free_if_orphaned (wake_reader (s\<lparr>the_pipe := (the_pipe s)\<lparr>writers := writers (the_pipe s) - 1\<rparr>\<rparr>))"

text \<open>The readiness conditions of \<open>vfs_poll_check\<close> for the two ends.\<close>

definition pipe_readable :: "pipe \<Rightarrow> bool" where
  "pipe_readable p \<longleftrightarrow> pipe_count p > 0 \<or> writers p = 0"

definition pipe_writable :: "pipe \<Rightarrow> bool" where
  "pipe_writable p \<longleftrightarrow> pipe_count p < pipe_size p \<or> readers p = 0"

section \<open>The ring of a pipe\<close>

definition pipe_inv :: "pipe \<Rightarrow> bool" where
  "pipe_inv p \<longleftrightarrow> 0 < pipe_size p \<and> length (pipe_buffer p) = pipe_size p \<and> read_pos p < pipe_size p \<and>
     pipe_count p \<le> pipe_size p \<and> write_pos p = (read_pos p + pipe_count p) mod pipe_size p"

definition pipe_bytes :: "pipe \<Rightarrow> bytes" where
  "pipe_bytes p = ring_contents (pipe_buffer p) (read_pos p) (pipe_count p)"

lemma length_pipe_bytes [simp]: "length (pipe_bytes p) = pipe_count p"
  by (simp add: pipe_bytes_def)

lemma pipe_put_props:
  assumes "pipe_inv p" "pipe_count p < pipe_size p"
  shows "pipe_inv (pipe_put p b)" "pipe_bytes (pipe_put p b) = pipe_bytes p @ [b]"
proof -
  have L: "length (pipe_buffer p) = pipe_size p" and w: "write_pos p = (read_pos p + pipe_count p) mod length (pipe_buffer p)"
    using assms(1) by (simp_all add: pipe_inv_def)
  show "pipe_inv (pipe_put p b)"
    using assms by (simp add: pipe_inv_def pipe_put_def mod_Suc_eq)
  show "pipe_bytes (pipe_put p b) = pipe_bytes p @ [b]"
    using ring_push [of "pipe_count p" "pipe_buffer p" "read_pos p" b] assms(2) L w
    by (simp add: pipe_bytes_def pipe_put_def)
qed

lemma pipe_take_props:
  assumes inv: "pipe_inv p" and c: "0 < pipe_count p" and t: "pipe_take p = (b, p1)"
  shows "pipe_inv p1" "pipe_bytes p = b # pipe_bytes p1"
proof -
  have b: "b = pipe_buffer p ! read_pos p"
    and p1: "p1 = p\<lparr>read_pos := (read_pos p + 1) mod pipe_size p, pipe_count := pipe_count p - 1\<rparr>"
    using t by (simp_all add: pipe_take_def)
  have "((read_pos p + 1) mod pipe_size p + (pipe_count p - 1)) mod pipe_size p =
      (read_pos p + 1 + (pipe_count p - 1)) mod pipe_size p" by (rule mod_add_left_eq)
  moreover have "pipe_count p - 1 \<le> pipe_size p" using inv by (auto simp: pipe_inv_def)
  ultimately show "pipe_inv p1" using inv c by (simp add: pipe_inv_def p1)
  show "pipe_bytes p = b # pipe_bytes p1"
    using ring_pop [OF c, of "pipe_buffer p" "read_pos p"] inv by (simp add: pipe_bytes_def p1 b pipe_inv_def)
qed

text \<open>The pipe as a queue of bytes.\<close>

definition pipe_push :: "pipe \<Rightarrow> u8 \<Rightarrow> pipe option" where
  "pipe_push p b = (if pipe_count p = pipe_size p then None else Some (pipe_put p b))"

definition pipe_pop :: "pipe \<Rightarrow> (u8 \<times> pipe) option" where
  "pipe_pop p = (if pipe_count p = 0 then None else Some (pipe_take p))"

interpretation pipe_queue: bounded_fifo "\<lambda>p. pipe_inv p \<and> pipe_size p = n" pipe_bytes "\<lambda>_. True" n pipe_push pipe_pop
  for n :: nat
proof unfold_locales
  fix p b p'
  assume inv: "pipe_inv p \<and> pipe_size p = n"
  thus "length (pipe_bytes p) \<le> n" by (simp add: pipe_inv_def)
  show "pipe_push p b = None \<longleftrightarrow> length (pipe_bytes p) = n" using inv by (simp add: pipe_push_def)
  { assume "pipe_push p b = Some p'"
    thus "(pipe_inv p' \<and> pipe_size p' = n) \<and> pipe_bytes p' = pipe_bytes p @ [b]"
      using inv pipe_put_props [of p b] by (auto simp: pipe_push_def pipe_inv_def pipe_put_def split: if_splits) }
  show "pipe_pop p = None \<longleftrightarrow> pipe_bytes p = []"
    by (auto simp: pipe_pop_def pipe_bytes_def ring_contents_def)
  { assume "pipe_pop p = Some (b, p')"
    thus "(pipe_inv p' \<and> pipe_size p' = n) \<and> pipe_bytes p = b # pipe_bytes p'"
      using inv pipe_take_props [of p b p'] by (auto simp: pipe_pop_def pipe_take_def split: if_splits) }
qed

section \<open>One reading and one writing process\<close>

text \<open>
  A blocked process is registered in its waiter slot and its condition to wait
  still holds: an empty pipe with an open write end for the reader \<open>r\<close>, a full
  one with an open read end for the writer \<open>w\<close>.
\<close>

definition psys_inv :: "nat \<Rightarrow> nat \<Rightarrow> pipe_sys \<Rightarrow> bool" where
  "psys_inv r w s \<longleftrightarrow> r \<noteq> w \<and> pipe_inv (the_pipe s) \<and>
     (read_waiter (the_pipe s) = None \<or> read_waiter (the_pipe s) = Some r) \<and>
     (write_waiter (the_pipe s) = None \<or> write_waiter (the_pipe s) = Some w) \<and>
     (proc_states s r = BLOCKED \<longrightarrow>
        read_waiter (the_pipe s) = Some r \<and> pipe_count (the_pipe s) = 0 \<and> writers (the_pipe s) \<noteq> 0) \<and>
     (proc_states s w = BLOCKED \<longrightarrow>
        write_waiter (the_pipe s) = Some w \<and> pipe_count (the_pipe s) = pipe_size (the_pipe s) \<and>
        readers (the_pipe s) \<noteq> 0)"

lemma wake_simps [simp]:
  "the_pipe (wake_writer s) = (the_pipe s)\<lparr>write_waiter := None\<rparr>"
  "the_pipe (wake_reader s) = (the_pipe s)\<lparr>read_waiter := None\<rparr>"
  "pipe_freed (wake_writer s) = pipe_freed s" "pipe_freed (wake_reader s) = pipe_freed s"
  by (simp_all add: wake_writer_def wake_reader_def)

lemma pipe_inv_waiters [simp]:
  "pipe_inv (p\<lparr>write_waiter := x\<rparr>) = pipe_inv p" "pipe_inv (p\<lparr>read_waiter := x\<rparr>) = pipe_inv p"
  "pipe_bytes (p\<lparr>write_waiter := x\<rparr>) = pipe_bytes p" "pipe_bytes (p\<lparr>read_waiter := x\<rparr>) = pipe_bytes p"
  "pipe_inv (p\<lparr>readers := i\<rparr>) = pipe_inv p" "pipe_inv (p\<lparr>writers := i\<rparr>) = pipe_inv p"
  "pipe_bytes (p\<lparr>readers := i\<rparr>) = pipe_bytes p" "pipe_bytes (p\<lparr>writers := i\<rparr>) = pipe_bytes p"
  by (simp_all add: pipe_inv_def pipe_bytes_def)

lemma pipe_take_fields:
  "pipe_take p = (b, p1) \<Longrightarrow> readers p1 = readers p \<and> writers p1 = writers p \<and> pipe_size p1 = pipe_size p \<and>
     read_waiter p1 = read_waiter p \<and> write_waiter p1 = write_waiter p \<and> pipe_count p1 = pipe_count p - 1"
  by (auto simp: pipe_take_def)

lemma pipe_put_fields [simp]:
  "readers (pipe_put p b) = readers p" "writers (pipe_put p b) = writers p" "pipe_size (pipe_put p b) = pipe_size p"
  "read_waiter (pipe_put p b) = read_waiter p" "write_waiter (pipe_put p b) = write_waiter p"
  "pipe_count (pipe_put p b) = pipe_count p + 1"
  by (simp_all add: pipe_put_def)

text \<open>One byte read by \<open>r\<close>, with the wake-up of the writer; one byte written by \<open>w\<close>.\<close>

lemma psys_take:
  assumes inv: "psys_inv r w s" and run: "proc_states s r \<noteq> BLOCKED" and c: "pipe_count (the_pipe s) \<noteq> 0"
    and t: "pipe_take (the_pipe s) = (b, p1)"
  shows "psys_inv r w (wake_writer (s\<lparr>the_pipe := p1\<rparr>))" "proc_states (wake_writer (s\<lparr>the_pipe := p1\<rparr>)) r \<noteq> BLOCKED"
proof -
  have "pipe_inv p1" using pipe_take_props(1) [OF _ _ t] inv c by (simp add: psys_inv_def)
  moreover note F = pipe_take_fields [OF t]
  ultimately show "psys_inv r w (wake_writer (s\<lparr>the_pipe := p1\<rparr>))"
    using inv run by (auto simp: psys_inv_def wake_writer_def wake_def)
  show "proc_states (wake_writer (s\<lparr>the_pipe := p1\<rparr>)) r \<noteq> BLOCKED"
    using inv run F by (auto simp: psys_inv_def wake_writer_def wake_def)
qed

lemma psys_put:
  assumes inv: "psys_inv r w s" and run: "proc_states s w \<noteq> BLOCKED"
    and c: "pipe_count (the_pipe s) \<noteq> pipe_size (the_pipe s)"
  shows "psys_inv r w (wake_reader (s\<lparr>the_pipe := pipe_put (the_pipe s) b\<rparr>))"
    "proc_states (wake_reader (s\<lparr>the_pipe := pipe_put (the_pipe s) b\<rparr>)) w \<noteq> BLOCKED"
proof -
  have "pipe_inv (pipe_put (the_pipe s) b)" using pipe_put_props(1) inv c by (simp add: psys_inv_def pipe_inv_def)
  thus "psys_inv r w (wake_reader (s\<lparr>the_pipe := pipe_put (the_pipe s) b\<rparr>))"
    using inv run by (auto simp: psys_inv_def wake_reader_def wake_def)
  show "proc_states (wake_reader (s\<lparr>the_pipe := pipe_put (the_pipe s) b\<rparr>)) w \<noteq> BLOCKED"
    using inv run by (auto simp: psys_inv_def wake_reader_def wake_def)
qed

lemma pipe_read_loop_props:
  assumes "psys_inv r w s" "proc_states s r \<noteq> BLOCKED" "pipe_read_loop s r n got = (res, s')"
  shows "psys_inv r w s' \<and> pipe_freed s' = pipe_freed s \<and> readers (the_pipe s') = readers (the_pipe s) \<and>
         writers (the_pipe s') = writers (the_pipe s) \<and> pipe_size (the_pipe s') = pipe_size (the_pipe s) \<and>
         (case res of
            ReadDone out \<Rightarrow> out = got @ take n (pipe_bytes (the_pipe s)) \<and>
                             pipe_bytes (the_pipe s') = drop n (pipe_bytes (the_pipe s)) \<and>
                             (n = 0 \<or> out \<noteq> [] \<or> pipe_bytes (the_pipe s) = [] \<and> writers (the_pipe s) = 0)
          | ReadBlocked \<Rightarrow> got = [] \<and> pipe_bytes (the_pipe s) = [] \<and> pipe_bytes (the_pipe s') = [] \<and>
                          writers (the_pipe s) \<noteq> 0 \<and> proc_states s' r = BLOCKED)"
  using assms
proof (induction n arbitrary: s got)
  case 0
  thus ?case by auto
next
  case (Suc n)
  show ?case
  proof (cases "pipe_count (the_pipe s) = 0")
    case True
    hence "pipe_bytes (the_pipe s) = []" by (simp add: pipe_bytes_def)
    thus ?thesis using True Suc.prems
      by (auto simp: psys_inv_def split: if_splits)
  next
    case False
    obtain b p1 where t: "pipe_take (the_pipe s) = (b, p1)" by fastforce
    let ?s1 = "wake_writer (s\<lparr>the_pipe := p1\<rparr>)"
    have r1: "pipe_read_loop ?s1 r n (got @ [b]) = (res, s')" using Suc.prems(3) False t by simp
    have S: "pipe_bytes (the_pipe ?s1) = pipe_bytes p1" "readers (the_pipe ?s1) = readers (the_pipe s)"
      "writers (the_pipe ?s1) = writers (the_pipe s)" "pipe_size (the_pipe ?s1) = pipe_size (the_pipe s)"
      "pipe_freed ?s1 = pipe_freed s"
      using pipe_take_fields [OF t] by simp_all
    note IH = Suc.IH [OF psys_take [OF Suc.prems(1,2) False t] r1, unfolded S append_assoc append.simps]
    have bs: "pipe_bytes (the_pipe s) = b # pipe_bytes p1"
      using pipe_take_props(2) [OF _ _ t] Suc.prems(1) False by (simp add: psys_inv_def)
    show ?thesis
      using IH by (cases res) (auto simp: bs)
  qed
qed

lemma pipe_write_loop_props:
  assumes "psys_inv r w s" "proc_states s w \<noteq> BLOCKED" "pipe_write_loop s w data k = (res, s')"
  shows "psys_inv r w s' \<and> pipe_freed s' = pipe_freed s \<and> readers (the_pipe s') = readers (the_pipe s) \<and>
         writers (the_pipe s') = writers (the_pipe s) \<and> pipe_size (the_pipe s') = pipe_size (the_pipe s) \<and>
         (case res of
            WriteDone m \<Rightarrow> k \<le> m \<and> m \<le> k + length data \<and>
              pipe_bytes (the_pipe s') = pipe_bytes (the_pipe s) @ take (m - k) data \<and>
              (m < k + length data \<longrightarrow> readers (the_pipe s) = 0)
          | WriteBlocked rest m \<Rightarrow> k \<le> m \<and> rest \<noteq> [] \<and> take (m - k) data @ rest = data \<and>
              pipe_bytes (the_pipe s') = pipe_bytes (the_pipe s) @ take (m - k) data \<and>
              readers (the_pipe s) \<noteq> 0 \<and> proc_states s' w = BLOCKED)"
  using assms
proof (induction data arbitrary: s k)
  case (Cons b bs)
  consider "readers (the_pipe s) = 0"
    | "readers (the_pipe s) \<noteq> 0" "pipe_count (the_pipe s) = pipe_size (the_pipe s)"
    | "readers (the_pipe s) \<noteq> 0" "pipe_count (the_pipe s) \<noteq> pipe_size (the_pipe s)" by blast
  thus ?case
  proof cases
    case 1
    thus ?thesis using Cons.prems by auto
  next
    case 2
    thus ?thesis using Cons.prems by (auto simp: psys_inv_def)
  next
    case 3
    let ?s1 = "wake_reader (s\<lparr>the_pipe := pipe_put (the_pipe s) b\<rparr>)"
    have r1: "pipe_write_loop ?s1 w bs (k + 1) = (res, s')" using Cons.prems(3) 3 by simp
    note IH = Cons.IH [OF psys_put [OF Cons.prems(1,2) 3(2)] r1]
    have bs: "pipe_bytes (pipe_put (the_pipe s) b) = pipe_bytes (the_pipe s) @ [b]"
      using pipe_put_props(2) Cons.prems(1) 3(2) by (simp add: psys_inv_def pipe_inv_def)
    show ?thesis
    proof (cases res)
      case (WriteDone m)
      hence "Suc k \<le> m" using IH by simp
      hence "m - k = Suc (m - Suc k)" by simp
      hence "take (m - k) (b # bs) = b # take (m - Suc k) bs" by simp
      thus ?thesis using IH WriteDone bs by auto
    next
      case (WriteBlocked rest m)
      hence "Suc k \<le> m" using IH by simp
      hence "m - k = Suc (m - Suc k)" by simp
      hence "take (m - k) (b # bs) = b # take (m - Suc k) bs" by simp
      thus ?thesis using IH WriteBlocked bs by auto
    qed
  qed
qed auto


section \<open>Histories of a pipe\<close>

text \<open>
  A state of the machine: the system, all bytes the writer has put into the pipe
  and all bytes the reader has got out of it. Each end may be closed once.
\<close>

inductive pipe_step :: "nat \<Rightarrow> nat \<Rightarrow> pipe_sys \<times> bytes \<times> bytes \<Rightarrow> pipe_sys \<times> bytes \<times> bytes \<Rightarrow> bool" for r w where
  reads: "proc_states s r \<noteq> BLOCKED \<Longrightarrow> readers (the_pipe s) > 0 \<Longrightarrow> pipe_read s r n = (ReadDone out, s') \<Longrightarrow>
    pipe_step r w (s, sent, got) (s', sent, got @ out)"
| read_wait: "proc_states s r \<noteq> BLOCKED \<Longrightarrow> readers (the_pipe s) > 0 \<Longrightarrow> pipe_read s r n = (ReadBlocked, s') \<Longrightarrow>
    pipe_step r w (s, sent, got) (s', sent, got)"
| writes: "proc_states s w \<noteq> BLOCKED \<Longrightarrow> writers (the_pipe s) > 0 \<Longrightarrow>
    pipe_write_loop s w data k = (WriteDone m, s') \<Longrightarrow>
    pipe_step r w (s, sent, got) (s', sent @ take (m - k) data, got)"
| write_wait: "proc_states s w \<noteq> BLOCKED \<Longrightarrow> writers (the_pipe s) > 0 \<Longrightarrow>
    pipe_write_loop s w data k = (WriteBlocked rest m, s') \<Longrightarrow>
    pipe_step r w (s, sent, got) (s', sent @ take (m - k) data, got)"
| close_read: "proc_states s r \<noteq> BLOCKED \<Longrightarrow> readers (the_pipe s) > 0 \<Longrightarrow>
    pipe_step r w (s, sent, got) (pipe_close_read s, sent, got)"
| close_write: "proc_states s w \<noteq> BLOCKED \<Longrightarrow> writers (the_pipe s) > 0 \<Longrightarrow>
    pipe_step r w (s, sent, got) (pipe_close_write s, sent, got)"

definition phist_inv :: "nat \<Rightarrow> nat \<Rightarrow> pipe_sys \<times> bytes \<times> bytes \<Rightarrow> bool" where
  "phist_inv r w st \<longleftrightarrow> (case st of (s, sent, got) \<Rightarrow>
     psys_inv r w s \<and> pipe_size (the_pipe s) = PIPE_BUF_SIZE \<and> sent = got @ pipe_bytes (the_pipe s) \<and>
     readers (the_pipe s) \<ge> 0 \<and> writers (the_pipe s) \<ge> 0 \<and>
     (pipe_freed s \<longleftrightarrow> readers (the_pipe s) = 0 \<and> writers (the_pipe s) = 0))"

lemma close_read_inv:
  assumes "psys_inv r w s" "proc_states s r \<noteq> BLOCKED"
  shows "psys_inv r w (pipe_close_read s)"
  using assms by (auto simp: pipe_close_read_def pipe_free_if_orphaned_def psys_inv_def wake_writer_def wake_def)

lemma close_write_inv:
  assumes "psys_inv r w s" "proc_states s w \<noteq> BLOCKED"
  shows "psys_inv r w (pipe_close_write s)"
  using assms by (auto simp: pipe_close_write_def pipe_free_if_orphaned_def psys_inv_def wake_reader_def wake_def)

lemma close_fields:
  "pipe_bytes (the_pipe (pipe_close_read s)) = pipe_bytes (the_pipe s)"
  "pipe_bytes (the_pipe (pipe_close_write s)) = pipe_bytes (the_pipe s)"
  "readers (the_pipe (pipe_close_read s)) = readers (the_pipe s) - 1" "writers (the_pipe (pipe_close_read s)) = writers (the_pipe s)"
  "writers (the_pipe (pipe_close_write s)) = writers (the_pipe s) - 1" "readers (the_pipe (pipe_close_write s)) = readers (the_pipe s)"
  "pipe_size (the_pipe (pipe_close_read s)) = pipe_size (the_pipe s)"
  "pipe_size (the_pipe (pipe_close_write s)) = pipe_size (the_pipe s)"
  "pipe_freed (pipe_close_read s) \<longleftrightarrow> pipe_freed s \<or> readers (the_pipe s) = 1 \<and> writers (the_pipe s) = 0"
  "pipe_freed (pipe_close_write s) \<longleftrightarrow> pipe_freed s \<or> writers (the_pipe s) = 1 \<and> readers (the_pipe s) = 0"
  by (auto simp: pipe_close_read_def pipe_close_write_def pipe_free_if_orphaned_def)

lemma pipe_step_inv [kernel_inv]:
  "pipe_step r w st st' \<Longrightarrow> phist_inv r w st \<Longrightarrow> phist_inv r w st'"
proof (induction rule: pipe_step.induct)
  case (reads s n out s' sent got)
  hence inv: "psys_inv r w s" by (simp add: phist_inv_def)
  from pipe_read_loop_props [OF inv reads.hyps(1) reads.hyps(3) [unfolded pipe_read_def]] reads.prems
  show ?case by (simp add: phist_inv_def)
next
  case (read_wait s n s' sent got)
  hence inv: "psys_inv r w s" by (simp add: phist_inv_def)
  from pipe_read_loop_props [OF inv read_wait.hyps(1) read_wait.hyps(3) [unfolded pipe_read_def]] read_wait.prems
  show ?case by (simp add: phist_inv_def)
next
  case (writes s data k m s' sent got)
  hence inv: "psys_inv r w s" by (simp add: phist_inv_def)
  from pipe_write_loop_props [OF inv writes.hyps(1,3)] writes.prems show ?case by (simp add: phist_inv_def)
next
  case (write_wait s data k rest m s' sent got)
  hence inv: "psys_inv r w s" by (simp add: phist_inv_def)
  from pipe_write_loop_props [OF inv write_wait.hyps(1,3)] write_wait.prems show ?case by (simp add: phist_inv_def)
next
  case (close_read s sent got)
  thus ?case using close_read_inv [of r w s] by (auto simp: phist_inv_def close_fields)
next
  case (close_write s sent got)
  thus ?case using close_write_inv [of r w s] by (auto simp: phist_inv_def close_fields)
qed

lemma pipe_steps_inv: "(pipe_step r w)\<^sup>*\<^sup>* st st' \<Longrightarrow> phist_inv r w st \<Longrightarrow> phist_inv r w st'"
  by (induction rule: rtranclp_induct) (auto intro: pipe_step_inv)

definition fresh_psys :: "bytes \<Rightarrow> pipe_sys" where
  "fresh_psys buf = \<lparr>the_pipe = new_pipe buf, proc_states = (\<lambda>_. RUNNING), pipe_freed = False\<rparr>"

lemma fresh_psys_inv:
  "length buf = PIPE_BUF_SIZE \<Longrightarrow> r \<noteq> w \<Longrightarrow> phist_inv r w (fresh_psys buf, [], [])"
  by (simp add: phist_inv_def psys_inv_def fresh_psys_def new_pipe_def pipe_inv_def pipe_bytes_def PIPE_BUF_SIZE_def)

section \<open>Properties\<close>

text \<open>C15: A pipe is a lossless byte stream. Whatever reads, writes, waits and closes its two processes
  perform, the bytes read so far followed by the bytes in the buffer are exactly the bytes written, in
  order; the two processes are never both asleep; a sleeping process has a true reason to sleep and is the
  registered waiter; and the pipe's memory is released exactly when both ends are closed.\<close>

theorem pipe_stream_safe:
  assumes "length buf = PIPE_BUF_SIZE" and "r \<noteq> w"
    and "(pipe_step r w)\<^sup>*\<^sup>* (fresh_psys buf, [], []) (s, sent, got)"
  shows "sent = got @ pipe_bytes (the_pipe s) \<and>
         \<not> (proc_states s r = BLOCKED \<and> proc_states s w = BLOCKED) \<and>
         (proc_states s r = BLOCKED \<longrightarrow> pipe_bytes (the_pipe s) = [] \<and> writers (the_pipe s) > 0 \<and>
            read_waiter (the_pipe s) = Some r) \<and>
         (proc_states s w = BLOCKED \<longrightarrow> length (pipe_bytes (the_pipe s)) = PIPE_BUF_SIZE \<and> readers (the_pipe s) > 0 \<and>
            write_waiter (the_pipe s) = Some w) \<and>
         (pipe_freed s \<longleftrightarrow> readers (the_pipe s) = 0 \<and> writers (the_pipe s) = 0)"
proof -
  have inv: "phist_inv r w (s, sent, got)"
    by (rule pipe_steps_inv [OF assms(3) fresh_psys_inv [OF assms(1,2)]])
  moreover have "pipe_bytes (the_pipe s) = []" if "pipe_count (the_pipe s) = 0"
    using that by (simp add: pipe_bytes_def)
  moreover have "PIPE_BUF_SIZE \<noteq> 0" by (simp add: PIPE_BUF_SIZE_def)
  ultimately show ?thesis unfolding phist_inv_def psys_inv_def by auto
qed

theorem pipe_stream_safe_witness:
  "\<exists>s. (pipe_step 1 2)\<^sup>*\<^sup>* (fresh_psys (replicate PIPE_BUF_SIZE 0), [], []) (s, [10, 20], []) \<and>
       pipe_bytes (the_pipe s) = [10, 20]"
proof -
  let ?s = "fresh_psys (replicate PIPE_BUF_SIZE 0)"
  obtain s' where "pipe_write_loop ?s 2 [10, 20] 0 = (WriteDone 2, s')"
    by (simp add: fresh_psys_def new_pipe_def pipe_put_def PIPE_BUF_SIZE_def wake_reader_def numeral_2_eq_2)
  hence "pipe_step 1 2 (?s, [], []) (s', [] @ take (2 - 0) [10, 20], [])"
    by (intro pipe_step.writes) (simp_all add: fresh_psys_def new_pipe_def)
  hence "(pipe_step 1 2)\<^sup>*\<^sup>* (?s, [], []) (s', [10, 20], [])" by simp
  with pipe_stream_safe [OF _ _ this] show ?thesis by auto
qed

text \<open>C16: A read returns between one and \<open>count\<close> bytes as soon as there is at least one, in order; it
  returns 0 (end of file) only when the pipe is empty and no write end is open; it sleeps only when the pipe
  is empty and a write end is open. A finished write has stored all its bytes unless no read end is open.\<close>

theorem pipe_read_write_results:
  assumes "psys_inv r w s" and "proc_states s r \<noteq> BLOCKED" and "proc_states s w \<noteq> BLOCKED" and "0 < count"
  shows "(case pipe_read s r count of
            (ReadDone out, s') \<Rightarrow> out = take count (pipe_bytes (the_pipe s)) \<and>
               pipe_bytes (the_pipe s') = drop count (pipe_bytes (the_pipe s)) \<and>
               (out = [] \<longrightarrow> pipe_bytes (the_pipe s) = [] \<and> writers (the_pipe s) = 0)
          | (ReadBlocked, s') \<Rightarrow> pipe_bytes (the_pipe s) = [] \<and> writers (the_pipe s) \<noteq> 0) \<and>
         (case pipe_write_loop s w data 0 of
            (WriteDone m, s') \<Rightarrow> pipe_bytes (the_pipe s') = pipe_bytes (the_pipe s) @ take m data \<and>
               (m < length data \<longrightarrow> readers (the_pipe s) = 0)
          | (WriteBlocked rest m, s') \<Rightarrow> take m data @ rest = data \<and> rest \<noteq> [] \<and>
               pipe_bytes (the_pipe s') = pipe_bytes (the_pipe s) @ take m data)"
proof -
  obtain res s' where r: "pipe_read_loop s r count [] = (res, s')" by fastforce
  obtain wres s2 where w: "pipe_write_loop s w data 0 = (wres, s2)" by fastforce
  note R = pipe_read_loop_props [OF assms(1,2) r] and W = pipe_write_loop_props [OF assms(1,3) w]
  show ?thesis
  proof (rule conjI, goal_cases)
    case 1
    show ?case
    proof (cases res)
      case (ReadDone out)
      note R' = R [unfolded ReadDone read_result.case append.simps]
      have "out = take count (pipe_bytes (the_pipe s))"
        "pipe_bytes (the_pipe s') = drop count (pipe_bytes (the_pipe s))"
        "count = 0 \<or> out \<noteq> [] \<or> pipe_bytes (the_pipe s) = [] \<and> writers (the_pipe s) = 0"
        using R' by blast+
      thus ?thesis using r ReadDone assms(4) by (auto simp: pipe_read_def)
    next
      case ReadBlocked
      thus ?thesis using R r by (simp add: pipe_read_def)
    qed
  next
    case 2
    show ?case using W w by (cases wres) auto
  qed
qed

theorem pipe_read_write_results_witness:
  "case pipe_write_loop (fresh_psys (replicate PIPE_BUF_SIZE 0)) 2 [7] 0 of
     (WriteDone m, s') \<Rightarrow> pipe_bytes (the_pipe s') = take m [7]
   | (WriteBlocked rest m, s') \<Rightarrow> take m [7] @ rest = [7] \<and> rest \<noteq> [] \<and> pipe_bytes (the_pipe s') = take m [7]"
proof -
  let ?s = "fresh_psys (replicate PIPE_BUF_SIZE 0)"
  have inv: "psys_inv 1 2 ?s" and e: "pipe_bytes (the_pipe ?s) = []"
    using fresh_psys_inv [of "replicate PIPE_BUF_SIZE 0" 1 2] by (simp_all add: phist_inv_def)
  have "proc_states ?s 1 \<noteq> BLOCKED" "proc_states ?s 2 \<noteq> BLOCKED" by (simp_all add: fresh_psys_def)
  from pipe_read_write_results [OF inv this, of 5 "[7]", THEN conjunct2] e
  show ?thesis by (auto simp del: pipe_write_loop.simps split: prod.splits write_result.splits)
qed


end
