(* ===== verification/Pci.thy ===== *)
theory Pci
  imports Prelude
begin

unbundle bit_operations_syntax

text \<open>
  The PCI bus driver, kernel/drivers/pci/pci.c: configuration space access,
  enumeration of the bus, sizing of base address registers and the command
  register. The hardware behind the two configuration ports is the state
  \<open>pci_hw\<close>: the address latch, the configuration registers of all functions
  (by configuration address) and how each register reacts to a write, which is
  a parameter of everything below. Out parameters are returned values; a
  pointer the code compares with NULL is an option.
\<close>

section \<open>The code: configuration space\<close>

record pci_hw =
  config_address :: u32
  config_regs :: "u32 \<Rightarrow> u32"
  config_react :: "u32 \<Rightarrow> u32 \<Rightarrow> u32 \<Rightarrow> u32"

definition PCI_CONFIG_ADDRESS :: u16 where "PCI_CONFIG_ADDRESS = 0xCF8"
definition PCI_CONFIG_DATA :: u16 where "PCI_CONFIG_DATA = 0xCFC"

text \<open>
  The two ports: the first is a latch, the second a window on the register the
  latch selects. No other port is used here; nothing answers on it.
\<close>

definition outl :: "u16 \<Rightarrow> u32 \<Rightarrow> pci_hw \<Rightarrow> pci_hw" where
  "outl port v hw =
    (if port = PCI_CONFIG_ADDRESS then hw\<lparr>config_address := v\<rparr>
     else if port = PCI_CONFIG_DATA then
       (let a = config_address hw
        in hw\<lparr>config_regs := (config_regs hw)(a := config_react hw a (config_regs hw a) v)\<rparr>)
     else hw)"

definition inl :: "u16 \<Rightarrow> pci_hw \<Rightarrow> u32" where
  "inl port hw =
    (if port = PCI_CONFIG_ADDRESS then config_address hw
     else if port = PCI_CONFIG_DATA then config_regs hw (config_address hw) else 0xFFFFFFFF)"

definition pci_make_address :: "u8 \<Rightarrow> u8 \<Rightarrow> u8 \<Rightarrow> u8 \<Rightarrow> u32" where
  "pci_make_address b d f offset =
     0x80000000 OR push_bit 16 (ucast b) OR push_bit 11 (ucast d) OR push_bit 8 (ucast f) OR
     ucast (offset AND 0xFC)"

definition pci_config_read32 :: "pci_hw \<Rightarrow> u8 \<Rightarrow> u8 \<Rightarrow> u8 \<Rightarrow> u8 \<Rightarrow> u32 \<times> pci_hw" where
  "pci_config_read32 hw b d f offset =
    (let hw1 = outl PCI_CONFIG_ADDRESS (pci_make_address b d f offset) hw
     in (inl PCI_CONFIG_DATA hw1, hw1))"

definition pci_config_read16 :: "pci_hw \<Rightarrow> u8 \<Rightarrow> u8 \<Rightarrow> u8 \<Rightarrow> u8 \<Rightarrow> u16 \<times> pci_hw" where
  "pci_config_read16 hw b d f offset =
    (case pci_config_read32 hw b d f offset of (v, hw1) \<Rightarrow>
       (ucast (drop_bit (unat (offset AND 2) * 8) v AND 0xFFFF), hw1))"

definition pci_config_read8 :: "pci_hw \<Rightarrow> u8 \<Rightarrow> u8 \<Rightarrow> u8 \<Rightarrow> u8 \<Rightarrow> u8 \<times> pci_hw" where
  "pci_config_read8 hw b d f offset =
    (case pci_config_read32 hw b d f offset of (v, hw1) \<Rightarrow>
       (ucast (drop_bit (unat (offset AND 3) * 8) v AND 0xFF), hw1))"

definition pci_config_write32 :: "pci_hw \<Rightarrow> u8 \<Rightarrow> u8 \<Rightarrow> u8 \<Rightarrow> u8 \<Rightarrow> u32 \<Rightarrow> pci_hw" where
  "pci_config_write32 hw b d f offset v =
    outl PCI_CONFIG_DATA v (outl PCI_CONFIG_ADDRESS (pci_make_address b d f offset) hw)"

definition pci_config_write16 :: "pci_hw \<Rightarrow> u8 \<Rightarrow> u8 \<Rightarrow> u8 \<Rightarrow> u8 \<Rightarrow> u16 \<Rightarrow> pci_hw" where
  "pci_config_write16 hw b d f offset v =
    (case pci_config_read32 hw b d f offset of (old, hw1) \<Rightarrow>
       let shift = unat (offset AND 2) * 8;
           mask = push_bit shift 0xFFFF
       in pci_config_write32 hw1 b d f offset (old AND NOT mask OR push_bit shift (ucast v)))"

definition pci_config_write8 :: "pci_hw \<Rightarrow> u8 \<Rightarrow> u8 \<Rightarrow> u8 \<Rightarrow> u8 \<Rightarrow> u8 \<Rightarrow> pci_hw" where
  "pci_config_write8 hw b d f offset v =
    (case pci_config_read32 hw b d f offset of (old, hw1) \<Rightarrow>
       let shift = unat (offset AND 3) * 8;
           mask = push_bit shift 0xFF
       in pci_config_write32 hw1 b d f offset (old AND NOT mask OR push_bit shift (ucast v)))"

section \<open>The code: enumeration\<close>

record pci_device =
  bus :: u8
  device :: u8
  func :: u8
  vendor_id :: u16
  device_id :: u16
  command :: u16
  status :: u16
  revision_id :: u8
  prog_if :: u8
  sub_class :: u8
  class_code :: u8
  header_type :: u8
  interrupt_line :: u8
  interrupt_pin :: u8

text \<open>The table of found devices is the list of its filled entries; the count is its length.\<close>

record pci =
  hw :: pci_hw
  pci_devices :: "pci_device list"

definition PCI_MAX_DEVICES :: nat where "PCI_MAX_DEVICES = 256"

definition pci_function_exists :: "pci_hw \<Rightarrow> u8 \<Rightarrow> u8 \<Rightarrow> u8 \<Rightarrow> bool \<times> pci_hw" where
  "pci_function_exists h b d f =
    (case pci_config_read16 h b d f 0x00 of (vendor, h1) \<Rightarrow> (vendor \<noteq> 0xFFFF, h1))"

definition pci_register_device :: "pci \<Rightarrow> u8 \<Rightarrow> u8 \<Rightarrow> u8 \<Rightarrow> pci" where
  "pci_register_device s b d f =
    (if length (pci_devices s) \<ge> PCI_MAX_DEVICES then s
     else
       case pci_config_read16 (hw s) b d f 0x00 of (vid, h1) \<Rightarrow>
       case pci_config_read16 h1 b d f 0x02 of (did, h2) \<Rightarrow>
       case pci_config_read16 h2 b d f 0x04 of (cmd, h3) \<Rightarrow>
       case pci_config_read16 h3 b d f 0x06 of (st, h4) \<Rightarrow>
       case pci_config_read8 h4 b d f 0x08 of (revid, h5) \<Rightarrow>
       case pci_config_read8 h5 b d f 0x09 of (pif, h6) \<Rightarrow>
       case pci_config_read8 h6 b d f 0x0A of (sub, h7) \<Rightarrow>
       case pci_config_read8 h7 b d f 0x0B of (cls, h8) \<Rightarrow>
       case pci_config_read8 h8 b d f 0x0E of (ht, h9) \<Rightarrow>
       case pci_config_read8 h9 b d f 0x3C of (line, h10) \<Rightarrow>
       case pci_config_read8 h10 b d f 0x3D of (pin, h11) \<Rightarrow>
         s\<lparr>hw := h11,
           pci_devices := pci_devices s @
             [\<lparr>bus = b, device = d, func = f, vendor_id = vid, device_id = did, command = cmd, status = st,
               revision_id = revid, prog_if = pif, sub_class = sub, class_code = cls, header_type = ht,
               interrupt_line = line, interrupt_pin = pin\<rparr>]\<rparr>)"

definition pci_scan_function :: "pci \<Rightarrow> u8 \<Rightarrow> u8 \<Rightarrow> u8 \<Rightarrow> pci" where
  "pci_scan_function s b d f =
    (case pci_function_exists (hw s) b d f of (ex, h1) \<Rightarrow>
       if \<not> ex then s\<lparr>hw := h1\<rparr> else pci_register_device (s\<lparr>hw := h1\<rparr>) b d f)"

definition pci_scan_device :: "pci \<Rightarrow> u8 \<Rightarrow> u8 \<Rightarrow> pci" where
  "pci_scan_device s b d =
    (case pci_function_exists (hw s) b d 0 of (ex, h1) \<Rightarrow>
       if \<not> ex then s\<lparr>hw := h1\<rparr>
       else
         case pci_config_read8 h1 b d 0 0x0E of (ht, h2) \<Rightarrow>
         let s1 = pci_scan_function (s\<lparr>hw := h2\<rparr>) b d 0
         in if ht AND 0x80 \<noteq> 0
            then fold (\<lambda>f s. pci_scan_function s b d (of_nat f)) [1..<8] s1
            else s1)"

definition pci_scan_bus :: "pci \<Rightarrow> u8 \<Rightarrow> pci" where
  "pci_scan_bus s b = fold (\<lambda>d s. pci_scan_device s b (of_nat d)) [0..<32] s"

definition pci_scan :: "pci \<Rightarrow> pci" where
  "pci_scan s = fold (\<lambda>b s. pci_scan_bus s (of_nat b)) [0..<256] (s\<lparr>pci_devices := []\<rparr>)"

definition pci_init :: "pci \<Rightarrow> pci" where
  "pci_init s = pci_scan (s\<lparr>pci_devices := []\<rparr>)"

definition pci_get_device_count :: "pci \<Rightarrow> nat" where
  "pci_get_device_count s = length (pci_devices s)"

definition pci_get_device :: "pci \<Rightarrow> nat \<Rightarrow> pci_device option" where
  "pci_get_device s index = (if index \<ge> length (pci_devices s) then None else Some (pci_devices s ! index))"

definition pci_find_device :: "pci \<Rightarrow> u16 \<Rightarrow> u16 \<Rightarrow> pci_device option" where
  "pci_find_device s vendor dev = find (\<lambda>d. vendor_id d = vendor \<and> device_id d = dev) (pci_devices s)"

definition pci_find_class :: "pci \<Rightarrow> u8 \<Rightarrow> u8 \<Rightarrow> pci_device option" where
  "pci_find_class s cls sub = find (\<lambda>d. class_code d = cls \<and> sub_class d = sub) (pci_devices s)"

definition pci_find_class_if :: "pci \<Rightarrow> u8 \<Rightarrow> u8 \<Rightarrow> u8 \<Rightarrow> pci_device option" where
  "pci_find_class_if s cls sub pif =
    find (\<lambda>d. class_code d = cls \<and> sub_class d = sub \<and> prog_if d = pif) (pci_devices s)"

section \<open>The code: base address registers\<close>

record pci_bar =
  bar_address :: u64
  bar_size :: u64
  is_io :: bool
  is_64bit :: bool
  prefetchable :: bool

text \<open>Writing all ones to a register, reading it back and writing the old value again.\<close>

definition pci_probe :: "pci_hw \<Rightarrow> pci_device \<Rightarrow> u8 \<Rightarrow> u32 \<Rightarrow> u32 \<times> pci_hw" where
  "pci_probe h dev offset original =
    (let h1 = pci_config_write32 h (bus dev) (device dev) (func dev) offset 0xFFFFFFFF
     in case pci_config_read32 h1 (bus dev) (device dev) (func dev) offset of (probe, h2) \<Rightarrow>
          (probe, pci_config_write32 h2 (bus dev) (device dev) (func dev) offset original))"

definition pci_bar_io :: "pci_hw \<Rightarrow> pci_device \<Rightarrow> u8 \<Rightarrow> u32 \<Rightarrow> pci_bar \<times> pci_hw" where
  "pci_bar_io h dev offset original =
    (case pci_probe h dev offset original of (probe, h1) \<Rightarrow>
       let base = original AND NOT 3; mask = probe AND NOT 3
       in (\<lparr>bar_address = ucast base,
            bar_size = (if mask = 0 \<or> mask = 0xFFFFFFFF then 0 else ucast (NOT mask + 1)),
            is_io = True, is_64bit = False, prefetchable = False\<rparr>, h1))"

definition bar_join :: "u32 \<Rightarrow> u32 \<Rightarrow> u64" where
  "bar_join upper low = push_bit 32 (ucast upper) OR (ucast low AND NOT 0xF)"

definition pci_bar_mem64 :: "pci_hw \<Rightarrow> pci_device \<Rightarrow> u8 \<Rightarrow> u32 \<Rightarrow> pci_bar \<times> pci_hw" where
  "pci_bar_mem64 h dev offset original =
    (let rd = (\<lambda>h off. pci_config_read32 h (bus dev) (device dev) (func dev) off);
         wr = (\<lambda>h off v. pci_config_write32 h (bus dev) (device dev) (func dev) off v)
     in case rd h (offset + 4) of (upper, h1) \<Rightarrow>
        let original_address = bar_join upper original;
            h2 = wr h1 offset 0xFFFFFFFF;
            h3 = wr h2 (offset + 4) 0xFFFFFFFF
        in case rd h3 offset of (probe_low, h4) \<Rightarrow>
           case rd h4 (offset + 4) of (probe_high, h5) \<Rightarrow>
           let h6 = wr h5 offset original;
               h7 = wr h6 (offset + 4) upper;
               probe_address = bar_join probe_high probe_low
           in (\<lparr>bar_address = original_address,
                bar_size = (if probe_address = 0 \<or> probe_address = 0xFFFFFFFFFFFFFFFF then 0
                            else NOT probe_address + 1),
                is_io = False, is_64bit = True, prefetchable = original AND 0x08 \<noteq> 0\<rparr>, h7))"

definition pci_bar_mem32 :: "pci_hw \<Rightarrow> pci_device \<Rightarrow> u8 \<Rightarrow> u32 \<Rightarrow> pci_bar \<times> pci_hw" where
  "pci_bar_mem32 h dev offset original =
    (case pci_probe h dev offset original of (probe, h1) \<Rightarrow>
       let base = original AND NOT 0xF; mask = probe AND NOT 0xF
       in (\<lparr>bar_address = ucast base,
            bar_size = (if mask = 0 \<or> mask = 0xFFFFFFFF then 0 else ucast (NOT mask + 1)),
            is_io = False, is_64bit = False, prefetchable = original AND 0x08 \<noteq> 0\<rparr>, h1))"

definition no_bar :: pci_bar where
  "no_bar = \<lparr>bar_address = 0, bar_size = 0, is_io = False, is_64bit = False, prefetchable = False\<rparr>"

text \<open>The result code, the structure \<open>*bar\<close> (which held \<open>bar0\<close> before) and the hardware afterwards.\<close>

definition pci_get_bar :: "pci_hw \<Rightarrow> pci_device option \<Rightarrow> u8 \<Rightarrow> pci_bar \<Rightarrow> int \<times> pci_bar \<times> pci_hw" where
  "pci_get_bar h dv bar_index bar0 =
    (case dv of None \<Rightarrow> (-1, bar0, h)
     | Some dev \<Rightarrow>
       if bar_index \<ge> 6 then (-2, bar0, h)
       else let offset = 0x10 + bar_index * 4
        in case pci_config_read32 h (bus dev) (device dev) (func dev) offset of (original, h1) \<Rightarrow>
           if original = 0 then (1, no_bar, h1)
           else if original AND 1 \<noteq> 0 then (case pci_bar_io h1 dev offset original of (bar, h2) \<Rightarrow> (0, bar, h2))
           else if original AND 0x06 = 0x04 then
             (if bar_index \<ge> 5 then (-3, no_bar\<lparr>prefetchable := original AND 0x08 \<noteq> 0\<rparr>, h1)
              else case pci_bar_mem64 h1 dev offset original of (bar, h2) \<Rightarrow> (0, bar, h2))
           else (case pci_bar_mem32 h1 dev offset original of (bar, h2) \<Rightarrow> (0, bar, h2)))"

section \<open>The code: the command register\<close>

definition pci_get_command :: "pci_hw \<Rightarrow> pci_device option \<Rightarrow> u16 \<times> pci_hw" where
  "pci_get_command h dv =
    (case dv of None \<Rightarrow> (0, h)
     | Some dev \<Rightarrow> pci_config_read16 h (bus dev) (device dev) (func dev) 0x04)"

definition pci_set_command :: "pci_hw \<Rightarrow> pci_device option \<Rightarrow> u16 \<Rightarrow> pci_hw" where
  "pci_set_command h dv cmd =
    (case dv of None \<Rightarrow> h
     | Some dev \<Rightarrow> pci_config_write16 h (bus dev) (device dev) (func dev) 0x04 cmd)"

definition pci_enable_io :: "pci_hw \<Rightarrow> pci_device option \<Rightarrow> pci_hw" where
  "pci_enable_io h dv = (case pci_get_command h dv of (cmd, h1) \<Rightarrow> pci_set_command h1 dv (cmd OR 1))"

definition pci_enable_memory :: "pci_hw \<Rightarrow> pci_device option \<Rightarrow> pci_hw" where
  "pci_enable_memory h dv = (case pci_get_command h dv of (cmd, h1) \<Rightarrow> pci_set_command h1 dv (cmd OR 2))"

definition pci_enable_bus_master :: "pci_hw \<Rightarrow> pci_device option \<Rightarrow> pci_hw" where
  "pci_enable_bus_master h dv = (case pci_get_command h dv of (cmd, h1) \<Rightarrow> pci_set_command h1 dv (cmd OR 4))"

definition pci_disable_interrupts :: "pci_hw \<Rightarrow> pci_device option \<Rightarrow> pci_hw" where
  "pci_disable_interrupts h dv =
    (case pci_get_command h dv of (cmd, h1) \<Rightarrow> pci_set_command h1 dv (cmd OR 0x400))"

definition pci_enable_interrupts :: "pci_hw \<Rightarrow> pci_device option \<Rightarrow> pci_hw" where
  "pci_enable_interrupts h dv =
    (case pci_get_command h dv of (cmd, h1) \<Rightarrow> pci_set_command h1 dv (cmd AND NOT 0x400))"

section \<open>What configuration accesses do\<close>

lemma config_ports [simp]: "PCI_CONFIG_DATA \<noteq> PCI_CONFIG_ADDRESS"
  by (simp add: PCI_CONFIG_ADDRESS_def PCI_CONFIG_DATA_def)

lemma pci_config_read32_eq:
  "pci_config_read32 h b d f offset =
     (config_regs h (pci_make_address b d f offset), h\<lparr>config_address := pci_make_address b d f offset\<rparr>)"
  by (simp add: pci_config_read32_def outl_def inl_def)

lemma pci_config_write32_eq:
  "pci_config_write32 h b d f offset v =
     (let a = pci_make_address b d f offset
      in h\<lparr>config_address := a, config_regs := (config_regs h)(a := config_react h a (config_regs h a) v)\<rparr>)"
  by (simp add: pci_config_write32_def outl_def Let_def)

definition cfg16 :: "(u32 \<Rightarrow> u32) \<Rightarrow> u8 \<Rightarrow> u8 \<Rightarrow> u8 \<Rightarrow> u8 \<Rightarrow> u16" where
  "cfg16 regs b d f offset =
     ucast (drop_bit (unat (offset AND 2) * 8) (regs (pci_make_address b d f offset)) AND 0xFFFF)"

definition cfg8 :: "(u32 \<Rightarrow> u32) \<Rightarrow> u8 \<Rightarrow> u8 \<Rightarrow> u8 \<Rightarrow> u8 \<Rightarrow> u8" where
  "cfg8 regs b d f offset =
     ucast (drop_bit (unat (offset AND 3) * 8) (regs (pci_make_address b d f offset)) AND 0xFF)"

lemma pci_config_read16_eq:
  "pci_config_read16 h b d f offset =
     (cfg16 (config_regs h) b d f offset, h\<lparr>config_address := pci_make_address b d f offset\<rparr>)"
  by (simp add: pci_config_read16_def pci_config_read32_eq cfg16_def)

lemma pci_config_read8_eq:
  "pci_config_read8 h b d f offset =
     (cfg8 (config_regs h) b d f offset, h\<lparr>config_address := pci_make_address b d f offset\<rparr>)"
  by (simp add: pci_config_read8_def pci_config_read32_eq cfg8_def)

lemmas config_eqs = pci_config_read32_eq pci_config_write32_eq pci_config_read16_eq pci_config_read8_eq

section \<open>Enumeration against its specification\<close>

definition present :: "(u32 \<Rightarrow> u32) \<Rightarrow> u8 \<Rightarrow> u8 \<Rightarrow> u8 \<Rightarrow> bool" where
  "present regs b d f \<longleftrightarrow> cfg16 regs b d f 0x00 \<noteq> 0xFFFF"

definition multifunction :: "(u32 \<Rightarrow> u32) \<Rightarrow> u8 \<Rightarrow> u8 \<Rightarrow> bool" where
  "multifunction regs b d \<longleftrightarrow> cfg8 regs b d 0 0x0E AND 0x80 \<noteq> 0"

definition device_functions :: "(u32 \<Rightarrow> u32) \<Rightarrow> u8 \<Rightarrow> u8 \<Rightarrow> u8 list" where
  "device_functions regs b d =
    (if present regs b d 0
     then 0 # (if multifunction regs b d then filter (present regs b d) (map of_nat [1..<8]) else [])
     else [])"

definition bus_functions :: "(u32 \<Rightarrow> u32) \<Rightarrow> u8 \<Rightarrow> (u8 \<times> u8 \<times> u8) list" where
  "bus_functions regs b =
    concat (map (\<lambda>d. map (\<lambda>f. (b, of_nat d, f)) (device_functions regs b (of_nat d))) [0..<32])"

definition all_functions :: "(u32 \<Rightarrow> u32) \<Rightarrow> (u8 \<times> u8 \<times> u8) list" where
  "all_functions regs = concat (map (\<lambda>b. bus_functions regs (of_nat b)) [0..<256])"

definition device_info :: "(u32 \<Rightarrow> u32) \<Rightarrow> u8 \<times> u8 \<times> u8 \<Rightarrow> pci_device" where
  "device_info regs = (\<lambda>(b, d, f).
     \<lparr>bus = b, device = d, func = f, vendor_id = cfg16 regs b d f 0x00, device_id = cfg16 regs b d f 0x02,
      command = cfg16 regs b d f 0x04, status = cfg16 regs b d f 0x06, revision_id = cfg8 regs b d f 0x08,
      prog_if = cfg8 regs b d f 0x09, sub_class = cfg8 regs b d f 0x0A, class_code = cfg8 regs b d f 0x0B,
      header_type = cfg8 regs b d f 0x0E, interrupt_line = cfg8 regs b d f 0x3C,
      interrupt_pin = cfg8 regs b d f 0x3D\<rparr>)"

definition scanned :: "(u32 \<Rightarrow> u32) \<Rightarrow> (u8 \<times> u8 \<times> u8) list \<Rightarrow> pci \<Rightarrow> bool" where
  "scanned regs fs s \<longleftrightarrow>
     config_regs (hw s) = regs \<and> pci_devices s = take PCI_MAX_DEVICES (map (device_info regs) fs)"

lemma scanned_function:
  assumes "scanned regs fs s"
  shows "scanned regs (fs @ (if present regs b d f then [(b, d, f)] else [])) (pci_scan_function s b d f)"
  using assms
  by (auto simp: scanned_def pci_scan_function_def pci_function_exists_def pci_register_device_def config_eqs
      present_def device_info_def)

lemma scanned_functions:
  assumes "scanned regs fs s"
  shows "scanned regs (fs @ map (\<lambda>f. (b, d, f)) (filter (present regs b d) (map of_nat ns)))
          (fold (\<lambda>f s. pci_scan_function s b d (of_nat f)) ns s)"
  using assms
proof (induction ns arbitrary: fs s)
  case (Cons n ns)
  from Cons.IH [OF scanned_function [OF Cons.prems, of b d "of_nat n"]] show ?case
    by (cases "present regs b d (of_nat n)") simp_all
qed simp

lemma scanned_device:
  assumes "scanned regs fs s"
  shows "scanned regs (fs @ map (\<lambda>f. (b, d, f)) (device_functions regs b d)) (pci_scan_device s b d)"
proof -
  have latch: "scanned regs fs (s\<lparr>hw := (hw s)\<lparr>config_address := a\<rparr>\<rparr>)" for a
    using assms by (simp add: scanned_def)
  have regs: "config_regs (hw s) = regs" using assms by (simp add: scanned_def)
  let ?s = "s\<lparr>hw := (hw s)\<lparr>config_address := pci_make_address b d 0 0x0E\<rparr>\<rparr>"
  note one = scanned_function [OF latch, of b d 0 "pci_make_address b d 0 0x0E"]
  show ?thesis
    using one scanned_functions [OF one, of b d "[1..<8]"] latch
    unfolding pci_scan_device_def device_functions_def
    by (auto simp: pci_function_exists_def config_eqs regs present_def multifunction_def Let_def simp del: upt_rec_numeral)
qed

lemma scanned_bus:
  assumes "scanned regs fs s"
  shows "scanned regs (fs @ bus_functions regs b) (pci_scan_bus s b)"
proof -
  have "scanned regs (fs @ concat (map (\<lambda>d. map (\<lambda>f. (b, of_nat d, f)) (device_functions regs b (of_nat d))) ds))
      (fold (\<lambda>d s. pci_scan_device s b (of_nat d)) ds s)" for ds
    using assms
  proof (induction ds arbitrary: fs s)
    case (Cons d ds)
    from Cons.IH [OF scanned_device [OF Cons.prems, of b "of_nat d"]] show ?case by simp
  qed simp
  thus ?thesis by (simp only: pci_scan_bus_def bus_functions_def)
qed

lemma scanned_all: "scanned (config_regs (hw s)) (all_functions (config_regs (hw s))) (pci_scan s)"
proof -
  let ?regs = "config_regs (hw s)"
  have "scanned ?regs (fs @ concat (map (\<lambda>b. bus_functions ?regs (of_nat b)) bs))
      (fold (\<lambda>b s. pci_scan_bus s (of_nat b)) bs s')" if "scanned ?regs fs s'" for bs fs s'
    using that
  proof (induction bs arbitrary: fs s')
    case (Cons b bs)
    from Cons.IH [OF scanned_bus [OF Cons.prems, of "of_nat b"]] show ?case by simp
  qed simp
  from this [of "[]" "s\<lparr>pci_devices := []\<rparr>"] show ?thesis
    by (simp only: pci_scan_def all_functions_def) (simp add: scanned_def)
qed

lemma distinct_all_functions: "distinct (all_functions regs)"
proof -
  have fs: "distinct (device_functions regs b d)" for b d
    using distinct_of_nat_u8 [of 8 1]
    by (auto simp: device_functions_def of_nat_u8_inject [of 0, simplified] simp del: upt_rec_numeral intro: distinct_filter)
  have "distinct (bus_functions regs b)" for b
    unfolding bus_functions_def
    by (rule distinct_concat_map) (auto simp: distinct_map inj_on_def fs of_nat_u8_inject)
  thus ?thesis unfolding all_functions_def
    by (intro distinct_concat_map) (auto simp: bus_functions_def of_nat_u8_inject)
qed

lemma mem_all_functions:
  "(b, d, f) \<in> set (all_functions regs) \<longleftrightarrow>
     unat d < 32 \<and> unat f < 8 \<and> present regs b d 0 \<and> (f = 0 \<or> multifunction regs b d \<and> present regs b d f)"
proof -
  have b: "\<exists>m<256. b = (of_nat m :: u8)"
  proof (intro exI conjI)
    show "unat b < 256" using unsigned_less [of b] by simp
    show "b = of_nat (unat b)" by simp
  qed
  have "f \<in> set (device_functions regs b d) \<longleftrightarrow>
      unat f < 8 \<and> present regs b d 0 \<and> (f = 0 \<or> multifunction regs b d \<and> present regs b d f)"
  proof -
    have "(\<exists>m\<in>{1..<8}. f = of_nat m) \<longleftrightarrow> unat f < 8 \<and> f \<noteq> 0"
    proof
      assume "\<exists>m\<in>{1..<8}. f = of_nat m"
      thus "unat f < 8 \<and> f \<noteq> 0"
        using of_nat_u8_image [of 8 f] by (auto simp: of_nat_u8_inject [of _ 0, simplified])
    next
      assume "unat f < 8 \<and> f \<noteq> 0"
      hence "unat f \<in> {1..<8}" "f = of_nat (unat f)" by (auto simp: Suc_le_eq unat_gt_0)
      thus "\<exists>m\<in>{1..<8}. f = of_nat m" by blast
    qed
    thus ?thesis by (auto simp: device_functions_def simp del: upt_rec_numeral)
  qed
  moreover have bus: "(b, d, f) \<in> set (bus_functions regs b') \<longleftrightarrow>
      b' = b \<and> unat d < 32 \<and> f \<in> set (device_functions regs b d)" for b'
    by (auto simp: bus_functions_def image_iff unat_of_nat take_bit_nat_eq_self intro!: bexI [of _ "unat d"])
  moreover have "(b, d, f) \<in> set (all_functions regs) \<longleftrightarrow> unat d < 32 \<and> f \<in> set (device_functions regs b d)"
    using b by (auto simp: all_functions_def bus)
  ultimately show ?thesis by blast
qed

text \<open>C34: Enumeration only reads configuration space, and the device table afterwards is exactly the functions
  that answer, in bus order, cut off at 256: function 0 of each of the 32 devices of each bus, and functions
  1 to 7 where function 0 is there and announces more; each one once, with the fields of its header.\<close>

theorem pci_scan_complete:
  "config_regs (hw (pci_scan s)) = config_regs (hw s) \<and>
   pci_devices (pci_scan s) =
     take 256 (map (device_info (config_regs (hw s))) (all_functions (config_regs (hw s)))) \<and>
   distinct (map (\<lambda>d. (bus d, device d, func d)) (pci_devices (pci_scan s))) \<and>
   (\<forall>b d f. (b, d, f) \<in> set (all_functions (config_regs (hw s))) \<longleftrightarrow>
      unat d < 32 \<and> unat f < 8 \<and> present (config_regs (hw s)) b d 0 \<and>
      (f = 0 \<or> multifunction (config_regs (hw s)) b d \<and> present (config_regs (hw s)) b d f))"
proof -
  let ?regs = "config_regs (hw s)"
  have s: "config_regs (hw (pci_scan s)) = ?regs"
    "pci_devices (pci_scan s) = take 256 (map (device_info ?regs) (all_functions ?regs))"
    using scanned_all [of s] by (simp_all add: scanned_def PCI_MAX_DEVICES_def)
  have "map (\<lambda>d. (bus d, device d, func d)) (map (device_info ?regs) fs) = fs" for fs
    by (induction fs) (auto simp: device_info_def)
  hence "map (\<lambda>d. (bus d, device d, func d)) (pci_devices (pci_scan s)) = take 256 (all_functions ?regs)"
    by (simp only: s(2) take_map [symmetric])
  thus ?thesis using s mem_all_functions by (auto simp: distinct_all_functions)
qed

section \<open>Writes to parts of a register\<close>

lemma and_low_bytes [simp]: "(x :: u32) AND 0xFF = take_bit 8 x" "(x :: u32) AND 0xFFFF = take_bit 16 x"
  by (simp_all add: take_bit_eq_mask mask_eq_exp_minus_1)

lemma bit_cfg8:
  "n < 8 \<Longrightarrow>
   bit (cfg8 regs b d f offset) n \<longleftrightarrow> bit (regs (pci_make_address b d f offset)) (unat (offset AND 3) * 8 + n)"
  by (simp add: cfg8_def bit_simps)

lemma bit_cfg16:
  "n < 16 \<Longrightarrow>
   bit (cfg16 regs b d f offset) n \<longleftrightarrow> bit (regs (pci_make_address b d f offset)) (unat (offset AND 2) * 8 + n)"
  by (simp add: cfg16_def bit_simps)

lemma bit_patched:
  fixes old :: u32 and v :: "'w::len word"
  assumes "LENGTH('w) = w" "n < 32"
  shows "bit (old AND NOT (push_bit s (mask w)) OR push_bit s (ucast v)) n \<longleftrightarrow>
    (if s \<le> n \<and> n < s + w then bit v (n - s) else bit old n)"
  using assms by (auto simp: bit_simps dest: bit_imp_le_length)

lemma low_offset: "unat ((x :: u8) AND 3) \<le> 3" "unat ((x :: u8) AND 2) \<le> 2"
  using word_and_le2 [of 3 x] word_and_le2 [of 2 x] word_and_le1 [of x 3] word_and_le1 [of x 2]
  by (simp_all add: word_le_nat_alt and.commute)

lemma bit_make_address:
  assumes "n < 8"
  shows "bit (pci_make_address b d f x) n \<longleftrightarrow> bit (x AND 0xFC) n"
proof -
  have "\<not> bit (push_bit 31 1 :: u32) n" using assms by (subst bit_push_bit_iff) simp
  moreover have "push_bit 31 1 = (0x80000000 :: u32)" by simp
  ultimately have "\<not> bit (0x80000000 :: u32) n" by (simp only: not_False_eq_True)
  thus ?thesis using assms by (auto simp: pci_make_address_def bit_push_bit_iff bit_or_iff bit_ucast_iff)
qed

lemma offset_parts: "(x :: u8) AND 0xFC = y AND 0xFC \<Longrightarrow> x AND 3 = y AND 3 \<Longrightarrow> x = y"
proof -
  have "(x AND 0xFC) OR (x AND 3) = x AND 0xFF" for x :: u8 by (simp flip: bit.conj_disj_distrib)
  also have "x AND 0xFF = x" for x :: u8
  proof -
    have "x AND mask 8 = x" by (simp add: take_bit_word_eq_self flip: take_bit_eq_mask)
    moreover have "mask 8 = (0xFF :: u8)" by (simp add: mask_eq_exp_minus_1)
    ultimately show ?thesis by (simp only:)
  qed
  finally have "(x AND 0xFC) OR (x AND 3) = x" for x :: u8 .
  thus "x AND 0xFC = y AND 0xFC \<Longrightarrow> x AND 3 = y AND 3 \<Longrightarrow> x = y" by metis
qed

lemma even_offset_parts:
  assumes "(x :: u8) AND 0xFC = y AND 0xFC" "x AND 2 = y AND 2" "x AND 1 = 0" "y AND 1 = 0"
  shows "x = y"
proof (rule offset_parts [OF assms(1)])
  have "z AND 3 = (z AND 2) OR (z AND 1)" for z :: u8 by (simp flip: bit.conj_disj_distrib)
  thus "x AND 3 = y AND 3" using assms by simp
qed

lemma make_address_eq:
  "pci_make_address b d f x = pci_make_address b d f y \<longleftrightarrow> x AND 0xFC = y AND 0xFC"
proof
  assume eq: "pci_make_address b d f x = pci_make_address b d f y"
  show "x AND 0xFC = y AND 0xFC"
  proof (rule bit_word_eqI)
    fix n assume "n < LENGTH(8)"
    hence "n < 8" by simp
    thus "bit (x AND 0xFC) n = bit (y AND 0xFC) n" using bit_make_address eq by metis
  qed
qed (simp add: pci_make_address_def)

text \<open>A register that keeps what is written to it.\<close>

definition plain_register :: "pci_hw \<Rightarrow> u32 \<Rightarrow> bool" where
  "plain_register h a \<longleftrightarrow> (\<forall>old v. config_react h a old v = v)"

lemma cfg8_after_write8:
  assumes "plain_register h (pci_make_address b d f x)"
  shows "cfg8 (config_regs (pci_config_write8 h b d f x v)) b d f y =
    (if y = x then v else cfg8 (config_regs h) b d f y)"
proof (rule bit_word_eqI)
  fix n assume "n < LENGTH(8)"
  hence n: "n < 8" by simp
  let ?s = "unat (x AND 3) * 8" and ?t = "unat (y AND 3) * 8"
  have M: "push_bit ?s 0xFF = push_bit ?s (mask 8 :: u32)" by (simp add: mask_eq_exp_minus_1)
  have t: "?t + n < 32" using low_offset(1) [of y] n by linarith
  show "bit (cfg8 (config_regs (pci_config_write8 h b d f x v)) b d f y) n \<longleftrightarrow>
      bit (if y = x then v else cfg8 (config_regs h) b d f y) n"
  proof (cases "pci_make_address b d f y = pci_make_address b d f x")
    case True
    hence "y \<noteq> x \<Longrightarrow> unat (x AND 3) \<noteq> unat (y AND 3)"
      using offset_parts [of y x] by (metis make_address_eq word_unat_eq_iff)
    thus ?thesis
      using True assms n t
      by (auto simp: bit_cfg8 pci_config_write8_def config_eqs plain_register_def Let_def M bit_patched [of 8])
  qed (use n in \<open>auto simp: bit_cfg8 pci_config_write8_def config_eqs Let_def\<close>)
qed

lemma cfg16_after_write16:
  assumes "plain_register h (pci_make_address b d f x)" "x AND 1 = 0" "y AND 1 = 0"
  shows "cfg16 (config_regs (pci_config_write16 h b d f x v)) b d f y =
    (if y = x then v else cfg16 (config_regs h) b d f y)"
proof (rule bit_word_eqI)
  fix n assume "n < LENGTH(16)"
  hence n: "n < 16" by simp
  let ?s = "unat (x AND 2) * 8" and ?t = "unat (y AND 2) * 8"
  have two: "unat (z AND 2) = 0 \<or> unat (z AND 2) = 2" for z :: u8
  proof -
    have "z AND 2 = (if bit z 1 then 2 else 0)"
      by (rule bit_word_eqI) (auto simp: bit_and_iff bit_2_iff)
    thus ?thesis by simp
  qed
  have M: "push_bit ?s 0xFFFF = push_bit ?s (mask 16 :: u32)" by (simp add: mask_eq_exp_minus_1)
  have t: "?t + n < 32" using low_offset(2) [of y] n by linarith
  show "bit (cfg16 (config_regs (pci_config_write16 h b d f x v)) b d f y) n \<longleftrightarrow>
      bit (if y = x then v else cfg16 (config_regs h) b d f y) n"
  proof (cases "pci_make_address b d f y = pci_make_address b d f x")
    case True
    hence "y \<noteq> x \<Longrightarrow> unat (x AND 2) \<noteq> unat (y AND 2)"
      using even_offset_parts [of y x] assms by (metis make_address_eq word_unat_eq_iff)
    thus ?thesis
      using True assms n t two [of x] two [of y]
      by (auto simp: bit_cfg16 pci_config_write16_def config_eqs plain_register_def Let_def M bit_patched [of 16])
  qed (use n in \<open>auto simp: bit_cfg16 pci_config_write16_def config_eqs Let_def\<close>)
qed



section \<open>Sizing a base address register\<close>

text \<open>
  A register of a region of \<open>2^k\<close> bytes: its low \<open>k\<close> address bits are wired to
  zero except for the type flags, which read as they are whatever is written.
\<close>

definition sized_register :: "pci_hw \<Rightarrow> u32 \<Rightarrow> u32 \<Rightarrow> nat \<Rightarrow> u32 \<Rightarrow> bool" where
  "sized_register h a flags k base \<longleftrightarrow>
     config_regs h a = base OR flags \<and> base AND mask k = 0 \<and>
     (\<forall>old v. config_react h a old v = v AND NOT (mask k) OR flags)"

lemma probe_mask:
  assumes "k < 32" "l \<le> k" "(flags :: u32) AND NOT (mask l) = 0"
  shows "(NOT (mask k) OR flags) AND NOT (mask l) = NOT (mask k)"
proof -
  have "flags AND NOT (mask l) = 0" by fact
  moreover have "NOT (mask k) AND NOT (mask l) = (NOT (mask k) :: u32)"
    using assms(2) by (intro bit_word_eqI) (auto simp: bit_simps)
  ultimately show ?thesis by (simp add: bit.conj_disj_distrib2)
qed

lemma size_from_mask:
  assumes "k < 32" "0 < k"
  shows "NOT (mask k) \<noteq> (0 :: u32)" "NOT (mask k) \<noteq> (0xFFFFFFFF :: u32)"
    "ucast (NOT (NOT (mask k) :: u32) + 1) = (2 ^ k :: u64)"
proof -
  have "bit (NOT (mask k) :: u32) 31" using assms by (simp add: bit_simps)
  thus "NOT (mask k) \<noteq> (0 :: u32)" by force
  have "\<not> bit (NOT (mask k) :: u32) 0" using assms by (simp add: bit_simps)
  moreover have "bit (0xFFFFFFFF :: u32) 0" by simp
  ultimately show "NOT (mask k) \<noteq> (0xFFFFFFFF :: u32)" by metis
  have "NOT (NOT (mask k) :: u32) + 1 = 2 ^ k" by (simp add: mask_eq_exp_minus_1)
  moreover have "ucast (2 ^ k :: u32) = (2 ^ k :: u64)"
    using assms by (intro bit_word_eqI) (auto simp: bit_simps)
  ultimately show "ucast (NOT (NOT (mask k) :: u32) + 1) = (2 ^ k :: u64)" by (simp only:)
qed

lemma keep_base:
  assumes "(base :: u32) AND mask k = 0" "flags AND NOT (mask l) = 0" "l \<le> k"
  shows "(base OR flags) AND NOT (mask k) OR flags = base OR flags" "(base OR flags) AND NOT (mask l) = base"
proof -
  have b: "\<not> (bit base n \<and> n < k)" for n
    using assms(1) by (metis bit_and_iff bit_mask_iff bit_0_eq bot_apply possible_bit_word bit_imp_le_length bot_bool_def)
  have f: "bit flags n \<Longrightarrow> n < l" for n
    using assms(2) by (metis bit_and_iff bit_not_iff bit_mask_iff bit_0_eq bot_apply possible_bit_word bit_imp_le_length bot_bool_def)
  show "(base OR flags) AND NOT (mask k) OR flags = base OR flags"
    using b by (intro bit_word_eqI) (auto simp: bit_simps)
  show "(base OR flags) AND NOT (mask l) = base"
  proof -
    have "\<not> (bit base n \<and> n < l)" for n using b [of n] assms(3) by linarith
    thus ?thesis by (intro bit_word_eqI) (auto simp: bit_simps dest: f)
  qed
qed

lemma all_ones [simp]: "0xFFFFFFFF AND x = (x :: u32)"
proof -
  have "mask 32 AND x = x" by (simp add: take_bit_word_eq_self and.commute flip: take_bit_eq_mask)
  moreover have "mask 32 = (0xFFFFFFFF :: u32)" by (simp add: mask_eq_exp_minus_1)
  ultimately show ?thesis by (simp only:)
qed

lemma pci_probe_sized:
  assumes "a = pci_make_address (bus dev) (device dev) (func dev) x" "sized_register h a flags k base"
    and "flags AND NOT (mask l) = 0" "l \<le> k"
  shows "pci_probe h dev x (base OR flags) = (NOT (mask k) OR flags, h\<lparr>config_address := a\<rparr>)"
proof -
  have "(config_regs h)(a := base OR flags) = config_regs h"
    using assms(2) by (auto simp: sized_register_def)
  thus ?thesis
    using assms keep_base(1) [OF _ assms(3,4), of base]
    by (simp add: pci_probe_def config_eqs sized_register_def Let_def)
qed

lemma pci_bar_mem32_sized:
  assumes "a = pci_make_address (bus dev) (device dev) (func dev) x" "sized_register h a flags k base"
    and "flags AND NOT (mask 4) = 0" "4 \<le> k" "k < 32"
  shows "pci_bar_mem32 h dev x (base OR flags) =
    (\<lparr>bar_address = ucast base, bar_size = 2 ^ k, is_io = False, is_64bit = False,
      prefetchable = (base OR flags) AND 8 \<noteq> 0\<rparr>, h\<lparr>config_address := a\<rparr>)"
proof -
  have m: "NOT 0xF = (NOT (mask 4) :: u32)" by (simp add: mask_eq_exp_minus_1)
  have base: "base AND mask k = 0" using assms(2) by (simp add: sized_register_def)
  show ?thesis
    using size_from_mask [of k] assms(4,5)
    unfolding pci_bar_mem32_def pci_probe_sized [OF assms(1,2,3,4)] prod.case Let_def m
      probe_mask [OF assms(5,4,3)] keep_base(2) [OF base assms(3,4)]
    by simp
qed

lemma pci_bar_io_sized:
  assumes "a = pci_make_address (bus dev) (device dev) (func dev) x" "sized_register h a flags k base"
    and "flags AND NOT (mask 2) = 0" "2 \<le> k" "k < 32"
  shows "pci_bar_io h dev x (base OR flags) =
    (\<lparr>bar_address = ucast base, bar_size = 2 ^ k, is_io = True, is_64bit = False, prefetchable = False\<rparr>,
     h\<lparr>config_address := a\<rparr>)"
proof -
  have m: "NOT 3 = (NOT (mask 2) :: u32)" by (simp add: mask_eq_exp_minus_1)
  have base: "base AND mask k = 0" using assms(2) by (simp add: sized_register_def)
  show ?thesis
    using size_from_mask [of k] assms(4,5)
    unfolding pci_bar_io_def pci_probe_sized [OF assms(1,2,3,4)] prod.case Let_def m
      probe_mask [OF assms(5,4,3)] keep_base(2) [OF base assms(3,4)]
    by simp
qed

text \<open>The same for a pair of registers that hold a 64-bit base address.\<close>

definition sized_register64 :: "pci_hw \<Rightarrow> u32 \<Rightarrow> u32 \<Rightarrow> u32 \<Rightarrow> nat \<Rightarrow> u64 \<Rightarrow> bool" where
  "sized_register64 h a a' flags k base \<longleftrightarrow>
     config_regs h a = ucast base OR flags \<and> config_regs h a' = ucast (drop_bit 32 base) \<and>
     base AND mask k = 0 \<and>
     (\<forall>old v. config_react h a old v = v AND ucast (NOT (mask k) :: u64) OR flags) \<and>
     (\<forall>old v. config_react h a' old v = v AND ucast (drop_bit 32 (NOT (mask k) :: u64)))"

lemma join_halves:
  fixes y :: u64 and flags :: u32
  assumes "flags AND NOT (mask 4) = 0" "y AND mask 4 = 0"
  shows "bar_join (ucast (drop_bit 32 y)) (ucast y OR flags) = y"
proof -
  have m: "NOT 0xF = (NOT (mask 4) :: u64)" by (simp add: mask_eq_exp_minus_1)
  have f: "bit flags n \<Longrightarrow> n < 4" for n
    using assms(1) by (metis bit_and_iff bit_not_iff bit_mask_iff bit_0_eq bot_apply possible_bit_word bit_imp_le_length bot_bool_def)
  have y: "bit y n \<Longrightarrow> 4 \<le> n" for n
    using assms(2) by (metis bit_and_iff bit_mask_iff bit_0_eq bot_apply possible_bit_word bit_imp_le_length bot_bool_def not_le)
  show ?thesis
    unfolding bar_join_def m by (rule bit_word_eqI) (auto simp: bit_simps dest: f y)
qed

lemma size_from_mask64:
  assumes "k < 64" "0 < k"
  shows "NOT (mask k) \<noteq> (0 :: u64)" "NOT (mask k) \<noteq> (0xFFFFFFFFFFFFFFFF :: u64)"
    "NOT (NOT (mask k) :: u64) + 1 = 2 ^ k"
proof -
  have "bit (NOT (mask k) :: u64) 63" using assms by (simp add: bit_simps)
  thus "NOT (mask k) \<noteq> (0 :: u64)" by force
  have "\<not> bit (NOT (mask k) :: u64) 0" using assms by (simp add: bit_simps)
  moreover have "bit (0xFFFFFFFFFFFFFFFF :: u64) 0" by simp
  ultimately show "NOT (mask k) \<noteq> (0xFFFFFFFFFFFFFFFF :: u64)" by metis
  show "NOT (NOT (mask k) :: u64) + 1 = 2 ^ k" by (simp add: mask_eq_exp_minus_1)
qed

lemma keep_halves:
  fixes base :: u64 and flags :: u32
  assumes "base AND mask k = 0"
  shows "(ucast base OR flags) AND ucast (NOT (mask k) :: u64) OR flags = ucast base OR flags"
    "ucast (drop_bit 32 base) AND ucast (drop_bit 32 (NOT (mask k) :: u64)) = (ucast (drop_bit 32 base) :: u32)"
proof -
  have b: "bit base n \<Longrightarrow> k \<le> n" for n
    using assms by (metis bit_and_iff bit_mask_iff bit_0_eq bot_apply possible_bit_word bit_imp_le_length bot_bool_def not_le)
  show "(ucast base OR flags) AND ucast (NOT (mask k) :: u64) OR flags = ucast base OR flags"
    by (rule bit_word_eqI) (auto simp: bit_simps dest: b)
  show "ucast (drop_bit 32 base) AND ucast (drop_bit 32 (NOT (mask k) :: u64)) = (ucast (drop_bit 32 base) :: u32)"
    by (rule bit_word_eqI) (auto simp: bit_simps dest: b)
qed

lemma mask_join: "4 \<le> k \<Longrightarrow> NOT (mask k) AND mask 4 = (0 :: u64)"
  by (rule bit_word_eqI) (auto simp: bit_simps)

lemma and_mask_less:
  "(base :: u64) AND mask k = 0 \<Longrightarrow> l \<le> k \<Longrightarrow> base AND mask l = 0"
proof -
  assume a: "base AND mask k = 0" "l \<le> k"
  have "base AND mask l = (base AND mask k) AND mask l"
    using a(2) by (intro bit_word_eqI) (auto simp: bit_simps)
  thus ?thesis using a(1) by simp
qed

lemma pci_bar_mem64_sized:
  assumes a: "a = pci_make_address (bus dev) (device dev) (func dev) x"
    "a' = pci_make_address (bus dev) (device dev) (func dev) (x + 4)" "a \<noteq> a'"
    and reg: "sized_register64 h a a' flags k base"
    and flags: "flags AND NOT (mask 4) = 0" and k: "4 \<le> k" "k < 64"
  shows "pci_bar_mem64 h dev x (ucast base OR flags) =
    (\<lparr>bar_address = base, bar_size = 2 ^ k, is_io = False, is_64bit = True,
      prefetchable = (ucast base OR flags) AND 8 \<noteq> 0\<rparr>, h\<lparr>config_address := a'\<rparr>)"
proof -
  have base: "base AND mask k = 0" and regs: "config_regs h a = ucast base OR flags"
    "config_regs h a' = ucast (drop_bit 32 base)"
    and ra: "\<And>old v. config_react h a old v = v AND ucast (NOT (mask k) :: u64) OR flags"
    and ra': "\<And>old v. config_react h a' old v = v AND ucast (drop_bit 32 (NOT (mask k) :: u64))"
    using reg by (auto simp: sized_register64_def)
  have upd: "(config_regs h)(a := ucast base OR flags, a' := ucast (drop_bit 32 base)) = config_regs h"
    by (auto simp: fun_upd_def regs)
  show ?thesis
    using size_from_mask64 [of k] k a(3) a(3) [symmetric]
    by (simp add: pci_bar_mem64_def config_eqs Let_def a(1,2) [symmetric] regs ra ra' keep_halves [OF base]
        join_halves [OF flags and_mask_less [OF base k(1)]] join_halves [OF flags mask_join [OF k(1)]]
        fun_upd_twist upd)
qed

lemma type_bits:
  fixes base :: "'w::len word"
  assumes "base AND mask k = 0" "l \<le> k" "m AND NOT (mask l) = 0"
  shows "(base OR flags) AND m = flags AND m"
proof -
  have "mask k AND m = m"
  proof (rule bit_word_eqI)
    fix n assume "n < LENGTH('w)"
    have "bit m n \<Longrightarrow> n < l"
      using assms(3) by (metis bit_and_iff bit_not_iff bit_mask_iff bit_0_eq bot_apply possible_bit_word bit_imp_le_length bot_bool_def)
    thus "bit (mask k AND m) n \<longleftrightarrow> bit m n" using assms(2) by (auto simp: bit_simps dest: bit_imp_le_length)
  qed
  hence "base AND m = (base AND mask k) AND m" by (simp add: and.assoc)
  hence "base AND m = 0" using assms(1) by simp
  thus ?thesis by (simp add: bit.conj_disj_distrib2)
qed

lemma bar_offsets_differ:
  assumes "(i :: u8) < 5"
  shows "pci_make_address b d f (0x10 + i * 4) \<noteq> pci_make_address b d f (0x10 + i * 4 + 4)"
proof -
  obtain j where j: "i = of_nat j" "j < 5"
    proof
    show "i = of_nat (unat i)" by simp
    show "unat i < 5" using assms by (simp add: word_less_nat_alt)
  qed
  from j(2) have "j = 0 \<or> j = 1 \<or> j = 2 \<or> j = 3 \<or> j = 4" by linarith
  thus ?thesis by (auto simp: make_address_eq j(1))
qed

lemma latch_irrelevant [simp]:
  "sized_register (h\<lparr>config_address := z\<rparr>) a fl k base = sized_register h a fl k base"
  "sized_register64 (h\<lparr>config_address := z\<rparr>) a a' fl k base64 = sized_register64 h a a' fl k base64"
  by (simp_all add: sized_register_def sized_register64_def)

lemma small_masks: "mask 4 = (0xF :: u32)" "mask 2 = (3 :: u32)"
  by (simp_all add: mask_eq_exp_minus_1)

lemma pci_get_bar_io:
  assumes idx: "\<not> 6 \<le> i" and a: "a = pci_make_address (bus dev) (device dev) (func dev) (0x10 + i * 4)"
    and r: "sized_register h a 1 k base" "2 \<le> k" "k < 32"
  shows "pci_get_bar h (Some dev) i bar0 =
      (0, \<lparr>bar_address = ucast base, bar_size = 2 ^ k, is_io = True, is_64bit = False, prefetchable = False\<rparr>,
       h\<lparr>config_address := a\<rparr>)"
proof -
  have "base AND mask k = 0" "config_regs h a = base OR 1" using r by (simp_all add: sized_register_def)
  moreover have "(base OR 1) AND 1 = (1 :: u32)"
    using type_bits [OF calculation(1) r(2), of 1 1] by (simp add: small_masks)
  moreover have "base OR 1 \<noteq> 0" by (simp add: or_eq_0_iff)
  ultimately show ?thesis
    using idx pci_bar_io_sized [of a dev "0x10 + i * 4" "h\<lparr>config_address := a\<rparr>" 1 k base] r
    by (auto simp: pci_get_bar_def config_eqs a [symmetric] small_masks Let_def)
qed

lemma pci_get_bar_mem32:
  assumes idx: "\<not> 6 \<le> i" and a: "a = pci_make_address (bus dev) (device dev) (func dev) (0x10 + i * 4)"
    and r: "sized_register h a flags k base" "flags \<in> {0, 8}" "base \<noteq> 0" "4 \<le> k" "k < 32"
  shows "pci_get_bar h (Some dev) i bar0 =
      (0, \<lparr>bar_address = ucast base, bar_size = 2 ^ k, is_io = False, is_64bit = False, prefetchable = (flags = 8)\<rparr>,
       h\<lparr>config_address := a\<rparr>)"
proof -
  have b: "base AND mask k = 0" "config_regs h a = base OR flags" using r by (simp_all add: sized_register_def)
  have "(base OR flags) AND 1 = 0" "(base OR flags) AND 6 = 0" "(base OR flags) AND 8 = flags"
    using type_bits [OF b(1) r(4), of 1 flags] type_bits [OF b(1) r(4), of 6 flags] type_bits [OF b(1) r(4), of 8 flags] r(2)
    by (auto simp: small_masks)
  moreover have "base OR flags \<noteq> 0" using r(3) by (simp add: or_eq_0_iff)
  moreover have "flags AND NOT (mask 4) = 0" using r(2) by (auto simp: small_masks)
  ultimately show ?thesis
    using idx pci_bar_mem32_sized [of a dev "0x10 + i * 4" "h\<lparr>config_address := a\<rparr>" flags k base] r b
    by (auto simp: pci_get_bar_def config_eqs a [symmetric] Let_def)
qed

lemma pci_get_bar_mem64:
  assumes idx: "\<not> 6 \<le> i" and a: "a = pci_make_address (bus dev) (device dev) (func dev) (0x10 + i * 4)"
    and a': "a' = pci_make_address (bus dev) (device dev) (func dev) (0x10 + i * 4 + 4)"
    and r: "sized_register64 h a a' flags k base64" "flags \<in> {4, 12}" "i < 5" "4 \<le> k" "k < 64"
  shows "pci_get_bar h (Some dev) i bar0 =
      (0, \<lparr>bar_address = base64, bar_size = 2 ^ k, is_io = False, is_64bit = True, prefetchable = (flags = 12)\<rparr>,
       h\<lparr>config_address := a'\<rparr>)"
proof -
  have b: "base64 AND mask k = 0" "config_regs h a = ucast base64 OR flags"
    using r by (simp_all add: sized_register64_def)
  have b': "(ucast base64 :: u32) AND mask 4 = 0"
  proof -
    have "(ucast base64 :: u32) AND mask 4 = ucast (base64 AND mask 4)"
      by (rule bit_word_eqI) (auto simp: bit_simps)
    thus ?thesis using and_mask_less [OF b(1) r(4)] by simp
  qed
  have "(ucast base64 OR flags) AND 1 = 0" "(ucast base64 OR flags) AND 6 = 4" "(ucast base64 OR flags) AND 8 = flags AND 8"
    "ucast base64 OR flags \<noteq> 0"
    using type_bits [OF b' order.refl, of 1 flags] type_bits [OF b' order.refl, of 6 flags]
      type_bits [OF b' order.refl, of 8 flags] r(2)
    by (auto simp: small_masks or_eq_0_iff)
  moreover have "pci_bar_mem64 (h\<lparr>config_address := a\<rparr>) dev (0x10 + i * 4) (ucast base64 OR flags) =
      (\<lparr>bar_address = base64, bar_size = 2 ^ k, is_io = False, is_64bit = True,
        prefetchable = (ucast base64 OR flags) AND 8 \<noteq> 0\<rparr>, h\<lparr>config_address := a'\<rparr>)"
  proof -
    have "flags AND NOT (mask 4) = 0" using r(2) by (auto simp: small_masks)
    moreover have "a \<noteq> a'" using bar_offsets_differ [OF r(3)] by (simp only: a a' not_False_eq_True)
    ultimately show ?thesis
      using pci_bar_mem64_sized [OF a a', of "h\<lparr>config_address := a\<rparr>" flags k base64] r by simp
  qed
  moreover have "\<not> 5 \<le> i" using r(3) by simp
  ultimately show ?thesis
    using idx b(2) r(2) by (auto simp: pci_get_bar_def config_eqs a [symmetric] Let_def)
qed

text \<open>C35: \<open>pci_get_bar\<close> reports the base and the size of a region of \<open>2^k\<close> bytes, for I/O, 32-bit and 64-bit
  memory registers, and afterwards every configuration register holds what it held before: the probing
  pattern does not stay behind.\<close>

theorem pci_get_bar_sizes:
  assumes "i < 6" and a: "a = pci_make_address (bus dev) (device dev) (func dev) (0x10 + i * 4)"
    and a': "a' = pci_make_address (bus dev) (device dev) (func dev) (0x10 + i * 4 + 4)"
  shows "(sized_register h a 1 k base \<and> 2 \<le> k \<and> k < 32 \<longrightarrow>
           pci_get_bar h (Some dev) i bar0 =
             (0, \<lparr>bar_address = ucast base, bar_size = 2 ^ k, is_io = True, is_64bit = False, prefetchable = False\<rparr>,
              h\<lparr>config_address := a\<rparr>)) \<and>
         (sized_register h a flags k base \<and> flags \<in> {0, 8} \<and> base \<noteq> 0 \<and> 4 \<le> k \<and> k < 32 \<longrightarrow>
           pci_get_bar h (Some dev) i bar0 =
             (0, \<lparr>bar_address = ucast base, bar_size = 2 ^ k, is_io = False, is_64bit = False,
                 prefetchable = (flags = 8)\<rparr>, h\<lparr>config_address := a\<rparr>)) \<and>
         (sized_register64 h a a' flags k base64 \<and> flags \<in> {4, 12} \<and> i < 5 \<and> 4 \<le> k \<and> k < 64 \<longrightarrow>
           pci_get_bar h (Some dev) i bar0 =
             (0, \<lparr>bar_address = base64, bar_size = 2 ^ k, is_io = False, is_64bit = True,
                 prefetchable = (flags = 12)\<rparr>, h\<lparr>config_address := a'\<rparr>))"
  using pci_get_bar_io [of i a dev h k base bar0] pci_get_bar_mem32 [of i a dev h flags k base bar0]
    pci_get_bar_mem64 [of i a dev a' h flags k base64 bar0] assms
  by (auto simp: not_le)

theorem pci_get_bar_sizes_witness:
  "let dev = device_info (\<lambda>_. 0) (0, 3, 0); a = pci_make_address 0 3 0 0x14;
       h = \<lparr>config_address = 0, config_regs = (\<lambda>x. if x = a then 0xFEBC0008 else 0),
            config_react = (\<lambda>x old v. if x = a then v AND NOT (mask 16) OR 8 else old)\<rparr>
   in pci_get_bar h (Some dev) 1 no_bar =
        (0, \<lparr>bar_address = 0xFEBC0000, bar_size = 0x10000, is_io = False, is_64bit = False, prefetchable = True\<rparr>,
         h\<lparr>config_address := a\<rparr>)"
proof -
  let ?dev = "device_info (\<lambda>_. 0) (0, 3, 0)" and ?a = "pci_make_address 0 3 0 0x14"
  let ?h = "\<lparr>config_address = 0, config_regs = (\<lambda>x. if x = ?a then 0xFEBC0008 else 0),
            config_react = (\<lambda>x old v. if x = ?a then v AND NOT (mask 16) OR 8 else old)\<rparr>"
  have "sized_register ?h ?a 8 16 0xFEBC0000" by (simp add: sized_register_def mask_eq_exp_minus_1)
  moreover have "?a = pci_make_address (bus ?dev) (device ?dev) (func ?dev) (0x10 + 1 * 4)" by (simp add: device_info_def)
  ultimately show ?thesis
    using pci_get_bar_sizes [of 1 ?a ?dev _ ?h 16 "0xFEBC0000" no_bar 8] by (simp add: Let_def)
qed

end
