(* ===== verification/Driver.thy ===== *)
theory Driver
  imports Pci
begin

text \<open>
  The privilege model of user-space drivers, kernel/system/driver/driver.c: a
  table of claims on PCI devices, the access checks the privileged system calls
  make against it, and interrupt lines bound to processes. Processes are named
  by pid; the field \<open>drv_states\<close> holds their scheduling states. A wait for an
  interrupt is a sequence of passes through its loop, each with interrupts off.
\<close>

section \<open>The code: claims\<close>

record driver_claim =
  claim_in_use :: bool
  claim_owner :: nat
  claim_dev :: pci_device

record user_irq =
  registered :: bool
  irq_owner :: nat
  pending :: u32
  irq_waiter :: "nat option"

record driver =
  g_claims :: "driver_claim list"
  g_user_irq :: "user_irq list"
  drv_pci :: pci
  drv_states :: "nat \<Rightarrow> process_state"
  unmasked :: "nat \<Rightarrow> bool"

definition MAX_DRIVER_CLAIMS :: nat where "MAX_DRIVER_CLAIMS = 8"
definition MAX_USER_IRQ :: nat where "MAX_USER_IRQ = 16"

definition driver_init :: "driver \<Rightarrow> driver" where
  "driver_init s =
    s\<lparr>g_claims := map (\<lambda>c. c\<lparr>claim_in_use := False\<rparr>) (g_claims s),
      g_user_irq := map (\<lambda>u. u\<lparr>registered := False, pending := 0, irq_waiter := None\<rparr>) (g_user_irq s)\<rparr>"

definition same_place :: "u8 \<Rightarrow> u8 \<Rightarrow> u8 \<Rightarrow> driver_claim \<Rightarrow> bool" where
  "same_place b d f c \<longleftrightarrow>
     claim_in_use c \<and> bus (claim_dev c) = b \<and> device (claim_dev c) = d \<and> func (claim_dev c) = f"

definition find_claim_slot :: "driver_claim list \<Rightarrow> u8 \<Rightarrow> u8 \<Rightarrow> u8 \<Rightarrow> nat option" where
  "find_claim_slot cs b d f = first_index (same_place b d f) cs"

definition driver_owns_device :: "driver \<Rightarrow> nat \<Rightarrow> u8 \<Rightarrow> u8 \<Rightarrow> u8 \<Rightarrow> bool" where
  "driver_owns_device s pid b d f =
    (case find_claim_slot (g_claims s) b d f of None \<Rightarrow> False
     | Some slot \<Rightarrow> claim_owner (g_claims s ! slot) = pid)"

definition driver_is_registered :: "driver \<Rightarrow> nat \<Rightarrow> bool" where
  "driver_is_registered s pid \<longleftrightarrow> list_ex (\<lambda>c. claim_in_use c \<and> claim_owner c = pid) (g_claims s)"

text \<open>
  The common loop of the two ways to claim a device: the first device that
  matches and is not claimed yet. The result code and the device copied out.
\<close>

fun claim_first ::
  "(pci_device \<Rightarrow> bool) \<Rightarrow> driver_claim list \<Rightarrow> nat \<Rightarrow> pci_device list \<Rightarrow>
   int \<times> pci_device option \<times> driver_claim list" where
  "claim_first P cs pid [] = (- 1, None, cs)"
| "claim_first P cs pid (dev # devs) =
    (if \<not> P dev then claim_first P cs pid devs
     else if find_claim_slot cs (bus dev) (device dev) (func dev) \<noteq> None then claim_first P cs pid devs
     else case first_index (\<lambda>c. \<not> claim_in_use c) cs of
            None \<Rightarrow> (- 2, None, cs)
          | Some slot \<Rightarrow>
              (0, Some dev, cs[slot := \<lparr>claim_in_use = True, claim_owner = pid, claim_dev = dev\<rparr>]))"

definition driver_claim_device :: "driver \<Rightarrow> nat \<Rightarrow> u16 \<Rightarrow> u16 \<Rightarrow> int \<times> pci_device option \<times> driver" where
  "driver_claim_device s pid vendor dev =
    (case claim_first (\<lambda>d. vendor_id d = vendor \<and> device_id d = dev) (g_claims s) pid (pci_devices (drv_pci s)) of
       (r, out, cs) \<Rightarrow> (r, out, s\<lparr>g_claims := cs\<rparr>))"

definition driver_claim_device_by_class :: "driver \<Rightarrow> nat \<Rightarrow> u8 \<Rightarrow> u8 \<Rightarrow> int \<times> pci_device option \<times> driver" where
  "driver_claim_device_by_class s pid cls sub =
    (case claim_first (\<lambda>d. class_code d = cls \<and> sub_class d = sub) (g_claims s) pid (pci_devices (drv_pci s)) of
       (r, out, cs) \<Rightarrow> (r, out, s\<lparr>g_claims := cs\<rparr>))"

definition driver_release_device :: "driver \<Rightarrow> nat \<Rightarrow> u8 \<Rightarrow> u8 \<Rightarrow> u8 \<Rightarrow> int \<times> driver" where
  "driver_release_device s pid b d f =
    (case find_claim_slot (g_claims s) b d f of None \<Rightarrow> (- 1, s)
     | Some slot \<Rightarrow>
         if claim_owner (g_claims s ! slot) \<noteq> pid then (- 1, s)
         else (0, s\<lparr>g_claims := (g_claims s)[slot := (g_claims s ! slot)\<lparr>claim_in_use := False\<rparr>]\<rparr>))"

definition driver_release_process :: "driver \<Rightarrow> nat \<Rightarrow> driver" where
  "driver_release_process s pid =
    s\<lparr>g_claims := map (\<lambda>c. if claim_in_use c \<and> claim_owner c = pid then c\<lparr>claim_in_use := False\<rparr> else c) (g_claims s),
      g_user_irq := map (\<lambda>u. if registered u \<and> irq_owner u = pid
                             then u\<lparr>registered := False, pending := 0, irq_waiter := None\<rparr> else u) (g_user_irq s)\<rparr>"

section \<open>The code: access checks\<close>

text \<open>
  The search over the six base address registers of a device, and over the
  claims of a process. Each register is probed in the hardware.
\<close>

fun bar_search :: "(pci_bar \<Rightarrow> bool) \<Rightarrow> pci_hw \<Rightarrow> pci_device \<Rightarrow> nat list \<Rightarrow> bool \<times> pci_hw" where
  "bar_search P h dev [] = (False, h)"
| "bar_search P h dev (b # bs) =
    (case pci_get_bar h (Some dev) (of_nat b) no_bar of (r, bar, h1) \<Rightarrow>
       if r \<noteq> 0 then bar_search P h1 dev bs
       else if P bar then (True, h1) else bar_search P h1 dev bs)"

fun claim_search :: "(pci_bar \<Rightarrow> bool) \<Rightarrow> nat \<Rightarrow> pci_hw \<Rightarrow> driver_claim list \<Rightarrow> bool \<times> pci_hw" where
  "claim_search P pid h [] = (False, h)"
| "claim_search P pid h (c # cs) =
    (if \<not> claim_in_use c \<or> claim_owner c \<noteq> pid then claim_search P pid h cs
     else case bar_search P h (claim_dev c) [0..<6] of (ok, h1) \<Rightarrow>
            if ok then (True, h1) else claim_search P pid h1 cs)"

definition mmio_in_bar :: "u64 \<Rightarrow> u64 \<Rightarrow> pci_bar \<Rightarrow> bool" where
  "mmio_in_bar phys len bar \<longleftrightarrow>
     \<not> (is_io bar \<or> bar_size bar = 0) \<and> phys \<ge> bar_address bar \<and> phys + len \<le> bar_address bar + bar_size bar"

definition driver_mmio_allowed :: "driver \<Rightarrow> nat \<Rightarrow> u64 \<Rightarrow> u64 \<Rightarrow> bool \<times> driver" where
  "driver_mmio_allowed s pid phys len =
    (if len = 0 then (False, s)
     else case claim_search (mmio_in_bar phys len) pid (hw (drv_pci s)) (g_claims s) of (ok, h) \<Rightarrow>
            (ok, s\<lparr>drv_pci := (drv_pci s)\<lparr>hw := h\<rparr>\<rparr>))"

definition port_in_bar :: "u16 \<Rightarrow> u8 \<Rightarrow> pci_bar \<Rightarrow> bool" where
  "port_in_bar port width bar \<longleftrightarrow>
     \<not> (\<not> is_io bar \<or> bar_size bar = 0) \<and> ucast port \<ge> bar_address bar \<and>
     ucast (ucast port + ucast width :: u32) \<le> bar_address bar + bar_size bar"

definition driver_io_port_allowed :: "driver \<Rightarrow> nat \<Rightarrow> u16 \<Rightarrow> u8 \<Rightarrow> bool \<times> driver" where
  "driver_io_port_allowed s pid port width =
    (if width = 0 then (False, s)
     else case claim_search (port_in_bar port width) pid (hw (drv_pci s)) (g_claims s) of (ok, h) \<Rightarrow>
            (ok, s\<lparr>drv_pci := (drv_pci s)\<lparr>hw := h\<rparr>\<rparr>))"

section \<open>The code: interrupt lines\<close>

definition set_irq :: "driver \<Rightarrow> nat \<Rightarrow> user_irq \<Rightarrow> driver" where
  "set_irq s irq u = s\<lparr>g_user_irq := (g_user_irq s)[irq := u]\<rparr>"

definition driver_irq_register :: "driver \<Rightarrow> nat \<Rightarrow> nat \<Rightarrow> int \<times> driver" where
  "driver_irq_register s pid irq =
    (if irq \<ge> MAX_USER_IRQ then (- 1, s)
     else if registered (g_user_irq s ! irq) \<and> irq_owner (g_user_irq s ! irq) \<noteq> pid then (- 2, s)
     else (0, (set_irq s irq \<lparr>registered = True, irq_owner = pid, pending = 0, irq_waiter = None\<rparr>)
                \<lparr>unmasked := (unmasked s)(irq := True)\<rparr>))"

definition driver_irq_notify :: "driver \<Rightarrow> nat \<Rightarrow> driver" where
  "driver_irq_notify s irq =
    (if irq \<ge> MAX_USER_IRQ then s
     else let u = g_user_irq s ! irq
          in if \<not> registered u then s
             else (let s1 = set_irq s irq (u\<lparr>pending := pending u + 1, irq_waiter := None\<rparr>)
                   in case irq_waiter u of None \<Rightarrow> s1
                      | Some w \<Rightarrow> s1\<lparr>drv_states := (drv_states s1)(w := READY)\<rparr>))"

datatype irq_wait_result = IrqFail | IrqTaken | IrqBlock

text \<open>One pass of \<open>driver_irq_wait\<close> by the current process \<open>me\<close>; its system call passes its own pid.\<close>

definition driver_irq_wait_pass :: "driver \<Rightarrow> nat \<Rightarrow> nat \<Rightarrow> nat \<Rightarrow> irq_wait_result \<times> driver" where
  "driver_irq_wait_pass s me pid irq =
    (if irq \<ge> MAX_USER_IRQ then (IrqFail, s)
     else let u = g_user_irq s ! irq
          in if \<not> registered u \<or> irq_owner u \<noteq> pid then (IrqFail, s)
             else if pending u > 0 then (IrqTaken, set_irq s irq (u\<lparr>pending := pending u - 1\<rparr>))
             else (IrqBlock, (set_irq s irq (u\<lparr>irq_waiter := Some me\<rparr>))
                               \<lparr>drv_states := (drv_states s)(me := BLOCKED)\<rparr>))"

section \<open>Claims as a map from devices to owners\<close>

definition place :: "driver_claim \<Rightarrow> u8 \<times> u8 \<times> u8" where
  "place c = (bus (claim_dev c), device (claim_dev c), func (claim_dev c))"

definition owners :: "driver \<Rightarrow> u8 \<times> u8 \<times> u8 \<Rightarrow> nat option" where
  "owners s = (\<lambda>(b, d, f). map_option (\<lambda>i. claim_owner (g_claims s ! i)) (find_claim_slot (g_claims s) b d f))"

definition exclusive :: "driver_claim list \<Rightarrow> bool" where
  "exclusive cs \<longleftrightarrow> (\<forall>i<length cs. \<forall>j<length cs.
     claim_in_use (cs ! i) \<and> claim_in_use (cs ! j) \<and> place (cs ! i) = place (cs ! j) \<longrightarrow> i = j)"

lemma same_place_iff: "same_place b d f c \<longleftrightarrow> claim_in_use c \<and> place c = (b, d, f)"
  by (auto simp: same_place_def place_def)

lemma driver_owns_owners: "driver_owns_device s pid b d f \<longleftrightarrow> owners s (b, d, f) = Some pid"
  by (auto simp: driver_owns_device_def owners_def split: option.splits)

lemma owners_None:
  "owners s p = None \<longleftrightarrow> (\<forall>i<length (g_claims s). claim_in_use (g_claims s ! i) \<longrightarrow> place (g_claims s ! i) \<noteq> p)"
  by (cases p) (auto simp: owners_def find_claim_slot_def first_index_None same_place_iff all_set_conv_all_nth)

lemma owners_Some:
  assumes "exclusive (g_claims s)"
  shows "owners s p = Some q \<longleftrightarrow> (\<exists>i<length (g_claims s). claim_in_use (g_claims s ! i) \<and>
     place (g_claims s ! i) = p \<and> claim_owner (g_claims s ! i) = q)" (is "_ \<longleftrightarrow> ?R")
proof
  assume "owners s p = Some q"
  thus ?R by (cases p) (auto simp: owners_def find_claim_slot_def first_index_Some same_place_iff)
next
  assume ?R
  then obtain i where i: "i < length (g_claims s)" "claim_in_use (g_claims s ! i)" "place (g_claims s ! i) = p"
    "claim_owner (g_claims s ! i) = q" by blast
  obtain b d f where p: "p = (b, d, f)" by (metis prod_cases3)
  have "find_claim_slot (g_claims s) b d f = Some i"
    unfolding find_claim_slot_def first_index_Some
  proof (intro conjI allI impI notI)
    show "same_place b d f (g_claims s ! i)" using i p by (simp add: same_place_iff)
    fix j assume j: "j < i" "same_place b d f (g_claims s ! j)"
    hence "place (g_claims s ! j) = place (g_claims s ! i)" "claim_in_use (g_claims s ! j)" "j < length (g_claims s)"
      using i p by (auto simp: same_place_iff)
    hence "j = i" using assms i unfolding exclusive_def by blast
    thus False using j by simp
  qed (rule i)
  thus "owners s p = Some q" using i p by (simp add: owners_def)
qed

lemma owners_eqI:
  assumes "exclusive (g_claims s)"
    and "\<And>p q. (\<exists>i<length (g_claims s). claim_in_use (g_claims s ! i) \<and> place (g_claims s ! i) = p \<and>
            claim_owner (g_claims s ! i) = q) \<longleftrightarrow> m p = Some q"
  shows "owners s = m"
proof
  fix p
  show "owners s p = m p"
    using owners_Some [OF assms(1), of p] assms(2) [of p] by (cases "m p"; cases "owners s p") auto
qed

lemma claim_first_result:
  assumes "exclusive (g_claims s)" "claim_first P (g_claims s) pid devs = (r, out, cs)"
  shows "case out of
      None \<Rightarrow> r \<noteq> 0 \<and> cs = g_claims s
    | Some dev \<Rightarrow> r = 0 \<and> dev \<in> set devs \<and> P dev \<and> length cs = length (g_claims s) \<and>
        owners s (bus dev, device dev, func dev) = None \<and> exclusive cs \<and>
        owners (s\<lparr>g_claims := cs\<rparr>) = (owners s)((bus dev, device dev, func dev) \<mapsto> pid)"
  using assms(2)
proof (induction devs)
  case (Cons dev devs)
  let ?p = "(bus dev, device dev, func dev)"
  consider "\<not> P dev \<or> find_claim_slot (g_claims s) (bus dev) (device dev) (func dev) \<noteq> None"
    | "P dev" "find_claim_slot (g_claims s) (bus dev) (device dev) (func dev) = None"
      "first_index (\<lambda>c. \<not> claim_in_use c) (g_claims s) = None"
    | slot where "P dev" "find_claim_slot (g_claims s) (bus dev) (device dev) (func dev) = None"
      "first_index (\<lambda>c. \<not> claim_in_use c) (g_claims s) = Some slot"
    by fastforce
  thus ?case
  proof cases
    case 1
    hence "claim_first P (g_claims s) pid devs = (r, out, cs)" using Cons.prems by (auto split: if_splits)
    from Cons.IH [OF this] show ?thesis by (auto split: option.splits)
  next
    case 2
    thus ?thesis using Cons.prems by auto
  next
    case 3
    let ?c = "\<lparr>claim_in_use = True, claim_owner = pid, claim_dev = dev\<rparr>"
    have out: "r = 0" "out = Some dev" "cs = (g_claims s)[slot := ?c]" using 3 Cons.prems by auto
    have slot: "slot < length (g_claims s)" "\<not> claim_in_use (g_claims s ! slot)"
      using first_index_SomeD [OF 3(3)] by auto
    have free: "owners s ?p = None" using 3(2) by (simp add: owners_def)
    hence ne: "\<And>i. i < length (g_claims s) \<Longrightarrow> claim_in_use (g_claims s ! i) \<Longrightarrow> place (g_claims s ! i) \<noteq> ?p"
      by (auto simp: owners_None)
    have pc: "place ?c = ?p" by (simp add: place_def)
    have ex: "exclusive cs"
      using assms(1) slot ne [symmetric] ne pc unfolding exclusive_def out(3)
      by (auto simp: nth_list_update split: if_splits)
    moreover have "owners (s\<lparr>g_claims := cs\<rparr>) = (owners s)(?p \<mapsto> pid)"
    proof (rule owners_eqI)
      fix p q
      show "(\<exists>i<length (g_claims (s\<lparr>g_claims := cs\<rparr>)). claim_in_use (g_claims (s\<lparr>g_claims := cs\<rparr>) ! i) \<and>
          place (g_claims (s\<lparr>g_claims := cs\<rparr>) ! i) = p \<and> claim_owner (g_claims (s\<lparr>g_claims := cs\<rparr>) ! i) = q) \<longleftrightarrow>
          ((owners s)(?p \<mapsto> pid)) p = Some q"
      proof -
        have "(\<exists>i<length cs. claim_in_use (cs ! i) \<and> place (cs ! i) = p \<and> claim_owner (cs ! i) = q) \<longleftrightarrow>
            p = ?p \<and> q = pid \<or> owners s p = Some q"
          unfolding out(3) length_list_update
            ex_nth_list_update [OF slot(1), of "\<lambda>c. claim_in_use c \<and> place c = p \<and> claim_owner c = q"]
          using slot(2) pc by (auto simp: owners_Some [OF assms(1)])
        thus ?thesis using free by auto
      qed
    qed (use ex in simp)
    ultimately show ?thesis using out 3 free by simp
  qed
qed simp

lemma driver_release_device_result:
  assumes ex: "exclusive (g_claims s)" and r: "driver_release_device s pid b d f = (r, s')"
  shows "exclusive (g_claims s') \<and> (r = 0 \<longleftrightarrow> owners s (b, d, f) = Some pid) \<and>
    owners s' = (if r = 0 then (owners s)((b, d, f) := None) else owners s)"
proof (cases "owners s (b, d, f) = Some pid")
  case True
  then obtain slot where slot: "find_claim_slot (g_claims s) b d f = Some slot" "claim_owner (g_claims s ! slot) = pid"
    by (auto simp: owners_def)
  have here: "slot < length (g_claims s)" "claim_in_use (g_claims s ! slot)" "place (g_claims s ! slot) = (b, d, f)"
    using slot(1) by (auto simp: find_claim_slot_def first_index_Some same_place_iff)
  let ?cs = "(g_claims s)[slot := (g_claims s ! slot)\<lparr>claim_in_use := False\<rparr>]"
  have r': "r = 0" "s' = s\<lparr>g_claims := ?cs\<rparr>" using r slot by (auto simp: driver_release_device_def)
  have ex': "exclusive ?cs"
    using ex here(1) unfolding exclusive_def by (auto simp: nth_list_update split: if_splits)
  have "owners s' = (owners s)((b, d, f) := None)"
  proof (rule owners_eqI)
    fix p q
    have "(\<exists>i<length ?cs. claim_in_use (?cs ! i) \<and> place (?cs ! i) = p \<and> claim_owner (?cs ! i) = q) \<longleftrightarrow>
        p \<noteq> (b, d, f) \<and> owners s p = Some q"
      unfolding length_list_update
        ex_nth_list_update [OF here(1), of "\<lambda>c. claim_in_use c \<and> place c = p \<and> claim_owner c = q"]
        owners_Some [OF ex]
      using here ex by (auto simp: exclusive_def)
    thus "(\<exists>i<length (g_claims s'). claim_in_use (g_claims s' ! i) \<and> place (g_claims s' ! i) = p \<and>
        claim_owner (g_claims s' ! i) = q) \<longleftrightarrow> ((owners s)((b, d, f) := None)) p = Some q"
      unfolding r'(2) by auto
  qed (use ex' r' in simp)
  thus ?thesis using True ex' r' by simp
next
  case False
  hence "r = - 1 \<and> s' = s"
    using r by (auto simp: driver_release_device_def owners_def split: option.splits if_splits)
  thus ?thesis using False ex by auto
qed

lemma driver_release_process_result:
  assumes ex: "exclusive (g_claims s)"
  shows "exclusive (g_claims (driver_release_process s pid)) \<and>
    owners (driver_release_process s pid) = (\<lambda>p. if owners s p = Some pid then None else owners s p)"
proof -
  have ex': "exclusive (g_claims (driver_release_process s pid))"
    using ex unfolding exclusive_def driver_release_process_def
    by (auto simp: place_def split: if_splits)
  have "owners (driver_release_process s pid) = (\<lambda>p. if owners s p = Some pid then None else owners s p)"
  proof (rule owners_eqI [OF ex'])
    fix p q
    have "(\<exists>i<length (g_claims s). (claim_in_use (g_claims s ! i) \<and> claim_owner (g_claims s ! i) \<noteq> pid) \<and>
        place (g_claims s ! i) = p \<and> claim_owner (g_claims s ! i) = q) \<longleftrightarrow> owners s p = Some q \<and> q \<noteq> pid"
      by (auto simp: owners_Some [OF ex])
    thus "(\<exists>i<length (g_claims (driver_release_process s pid)).
         claim_in_use (g_claims (driver_release_process s pid) ! i) \<and>
         place (g_claims (driver_release_process s pid) ! i) = p \<and>
         claim_owner (g_claims (driver_release_process s pid) ! i) = q) \<longleftrightarrow>
       (if owners s p = Some pid then None else owners s p) = Some q"
      by (auto simp: driver_release_process_def place_def split: if_splits)
  qed
  thus ?thesis using ex' by blast
qed

inductive driver_reach :: "driver \<Rightarrow> bool" where
  boot: "length (g_claims s) = MAX_DRIVER_CLAIMS \<Longrightarrow> driver_reach (driver_init s)"
| claim: "driver_reach s \<Longrightarrow> driver_claim_device s pid v d = (r, out, s') \<Longrightarrow> driver_reach s'"
| claim_class: "driver_reach s \<Longrightarrow> driver_claim_device_by_class s pid cl sub = (r, out, s') \<Longrightarrow> driver_reach s'"
| release: "driver_reach s \<Longrightarrow> driver_release_device s pid b d' f = (r, s') \<Longrightarrow> driver_reach s'"
| leave: "driver_reach s \<Longrightarrow> driver_reach (driver_release_process s pid)"

lemma driver_reach_exclusive [kernel_inv]: "driver_reach s \<Longrightarrow> exclusive (g_claims s)"
proof (induction rule: driver_reach.induct)
  case (boot s)
  show ?case by (simp add: exclusive_def driver_init_def)
next
  case (claim s pid v d r out s')
  then obtain cs where "claim_first (\<lambda>x. vendor_id x = v \<and> device_id x = d) (g_claims s) pid (pci_devices (drv_pci s)) = (r, out, cs)"
    "s' = s\<lparr>g_claims := cs\<rparr>" by (auto simp: driver_claim_device_def split: prod.splits)
  thus ?case using claim_first_result [OF claim.IH] claim.IH by (fastforce split: option.splits)
next
  case (claim_class s pid cl sub r out s')
  then obtain cs where "claim_first (\<lambda>x. class_code x = cl \<and> sub_class x = sub) (g_claims s) pid (pci_devices (drv_pci s)) = (r, out, cs)"
    "s' = s\<lparr>g_claims := cs\<rparr>" by (auto simp: driver_claim_device_by_class_def split: prod.splits)
  thus ?case using claim_first_result [OF claim_class.IH] claim_class.IH by (fastforce split: option.splits)
next
  case (release s pid b d' f r s')
  show ?case using driver_release_device_result [OF release.IH release.hyps(2)] by blast
next
  case (leave s pid)
  show ?case using driver_release_process_result [OF leave.IH] by blast
qed

text \<open>C30: The claim table is a partial map from PCI functions to owning processes, and every operation updates
  it as its name says: a successful claim takes a device that matches and that nobody owned and gives it to
  the caller, a failed one changes nothing; only the owner can release a device; the end of a process
  releases exactly its devices. The access check \<open>driver_owns_device\<close> reads that map.\<close>

theorem driver_claims_exclusive:
  assumes "driver_reach s"
  shows "(driver_owns_device s q b d f \<longleftrightarrow> owners s (b, d, f) = Some q) \<and>
         (case driver_claim_device s pid v i of
            (r, None, s') \<Rightarrow> r \<noteq> 0 \<and> s' = s
          | (r, Some dev, s') \<Rightarrow> r = 0 \<and> dev \<in> set (pci_devices (drv_pci s)) \<and> vendor_id dev = v \<and> device_id dev = i \<and>
              owners s (bus dev, device dev, func dev) = None \<and>
              owners s' = (owners s)((bus dev, device dev, func dev) \<mapsto> pid)) \<and>
         (case driver_release_device s pid b d f of
            (r, s') \<Rightarrow> (r = 0 \<longleftrightarrow> owners s (b, d, f) = Some pid) \<and>
              owners s' = (if r = 0 then (owners s)((b, d, f) := None) else owners s)) \<and>
         owners (driver_release_process s pid) = (\<lambda>p. if owners s p = Some pid then None else owners s p)"
proof -
  note ex = driver_reach_exclusive [OF assms]
  let ?cf = "claim_first (\<lambda>x. vendor_id x = v \<and> device_id x = i) (g_claims s) pid (pci_devices (drv_pci s))"
  obtain r out cs where c: "?cf = (r, out, cs)" by (cases ?cf) auto
  obtain r2 s2 where rel: "driver_release_device s pid b d f = (r2, s2)" by fastforce
  have claim: "case driver_claim_device s pid v i of
            (r, None, s') \<Rightarrow> r \<noteq> 0 \<and> s' = s
          | (r, Some dev, s') \<Rightarrow> r = 0 \<and> dev \<in> set (pci_devices (drv_pci s)) \<and> vendor_id dev = v \<and> device_id dev = i \<and>
              owners s (bus dev, device dev, func dev) = None \<and>
              owners s' = (owners s)((bus dev, device dev, func dev) \<mapsto> pid)"
    using claim_first_result [OF ex c] by (cases out) (auto simp: driver_claim_device_def c)
  show ?thesis
    using claim driver_release_device_result [OF ex rel] driver_release_process_result [OF ex]
    unfolding driver_owns_owners rel prod.case by blast
qed

text \<open>
  A system with one network card, for the examples below: a 64 KiB memory
  region at \<open>0xFEBC0000\<close> and 32 ports at \<open>0xC000\<close> in a register that decodes
  only 16 address bits, as the standard allows for I/O space on PCs.
\<close>

definition demo_hw :: pci_hw where
  "demo_hw =
    \<lparr>config_address = 0,
     config_regs = (\<lambda>a. if a = pci_make_address 0 3 0 0x10 then 0xFEBC0000
                        else if a = pci_make_address 0 3 0 0x14 then 0xC001 else 0),
     config_react = (\<lambda>a old v. if a = pci_make_address 0 3 0 0x10 then v AND 0xFFFF0000
                        else if a = pci_make_address 0 3 0 0x14 then v AND 0xFFE0 OR 1 else 0)\<rparr>"

definition demo_card :: pci_device where
  "demo_card = device_info (\<lambda>_. 0) (0, 3, 0)"

definition demo_driver :: driver where
  "demo_driver =
    \<lparr>g_claims = replicate 8 \<lparr>claim_in_use = False, claim_owner = 0, claim_dev = demo_card\<rparr>,
     g_user_irq = replicate 16 \<lparr>registered = False, irq_owner = 0, pending = 0, irq_waiter = None\<rparr>,
     drv_pci = \<lparr>hw = demo_hw, pci_devices = [demo_card]\<rparr>, drv_states = \<lambda>_. READY, unmasked = \<lambda>_. False\<rparr>"

lemma demo_driver_reach: "driver_reach demo_driver"
proof -
  have "driver_init demo_driver = demo_driver" by (simp add: driver_init_def demo_driver_def)
  moreover have "driver_reach (driver_init demo_driver)"
    by (rule driver_reach.boot) (simp add: demo_driver_def MAX_DRIVER_CLAIMS_def)
  ultimately show ?thesis by simp
qed

lemma demo_card_simps [simp]: "bus demo_card = 0" "device demo_card = 3" "func demo_card = 0"
  "vendor_id demo_card = 0" "device_id demo_card = 0"
  by (simp_all add: demo_card_def device_info_def cfg16_def)

lemma demo_claim:
  "driver_claim_device demo_driver 7 0 0 =
     (0, Some demo_card, demo_driver\<lparr>g_claims :=
        (g_claims demo_driver)[0 := \<lparr>claim_in_use = True, claim_owner = 7, claim_dev = demo_card\<rparr>]\<rparr>)"
  by (simp add: driver_claim_device_def demo_driver_def find_claim_slot_def first_index_None same_place_def numeral_eq_Suc)

theorem driver_claims_exclusive_witness:
  "owners (snd (snd (driver_claim_device demo_driver 7 0 0))) (0, 3, 0) = Some 7"
  using driver_claims_exclusive [OF demo_driver_reach, where pid = 7 and v = 0 and i = 0, THEN conjunct2, THEN conjunct1]
  by (simp add: demo_claim)

section \<open>The access checks\<close>

text \<open>
  The documented behaviour the checks rely on: writing back the value a
  register had restores it, whatever was written in between.
\<close>

definition restorable :: "pci_hw \<Rightarrow> bool" where
  "restorable h \<longleftrightarrow> (\<forall>a old. config_react h a old (config_regs h a) = config_regs h a)"

definition bar_at :: "pci_hw \<Rightarrow> pci_device \<Rightarrow> nat \<Rightarrow> pci_bar option" where
  "bar_at h dev b = (case pci_get_bar h (Some dev) (of_nat b) no_bar of (r, bar, _) \<Rightarrow> if r = 0 then Some bar else None)"

lemma restorable_latch [simp]: "restorable (h\<lparr>config_address := z\<rparr>) = restorable h"
  by (simp add: restorable_def)

lemma pci_get_bar_latch:
  "fst (pci_get_bar (h\<lparr>config_address := z\<rparr>) dv i b0) = fst (pci_get_bar h dv i b0)"
  "fst (snd (pci_get_bar (h\<lparr>config_address := z\<rparr>) dv i b0)) = fst (snd (pci_get_bar h dv i b0))"
  by (cases dv; simp add: pci_get_bar_def pci_bar_io_def pci_bar_mem32_def pci_bar_mem64_def pci_probe_def config_eqs Let_def)+

lemma bar_at_latch [simp]: "bar_at (h\<lparr>config_address := z\<rparr>) dev b = bar_at h dev b"
  using pci_get_bar_latch [where h = h and z = z and dv = "Some dev" and i = "of_nat b" and ?b0.0 = no_bar]
  unfolding bar_at_def by (auto split: prod.splits)

lemma pci_get_bar_restores:
  assumes "restorable h"
  shows "\<exists>z. snd (snd (pci_get_bar h (Some dev) i b0)) = h\<lparr>config_address := z\<rparr>"
proof -
  let ?A = "pci_make_address (bus dev) (device dev) (func dev)"
  have keep: "(config_regs h)(a := config_regs h a) = config_regs h" for a by simp
  have R: "config_react h a old (config_regs h a) = config_regs h a" for a old
    using assms by (simp add: restorable_def)
  have two: "((config_regs h)(a := x, b := y, a := config_regs h a, b := config_regs h b)) = config_regs h" for a b x y
    by auto
  show ?thesis
  proof (cases "6 \<le> i")
    case True
    thus ?thesis by (intro exI [of _ "config_address h"]) (simp add: pci_get_bar_def)
  next
    case False
    thus ?thesis
      by (auto simp: pci_get_bar_def pci_bar_io_def pci_bar_mem32_def pci_bar_mem64_def pci_probe_def config_eqs
          Let_def R keep two intro!: exI)
  qed
qed

lemma bar_search_exact:
  assumes "restorable h"
  shows "\<exists>z. bar_search P h dev bs = ((\<exists>b\<in>set bs. \<exists>bar. bar_at h dev b = Some bar \<and> P bar), h\<lparr>config_address := z\<rparr>)"
  using assms
proof (induction bs arbitrary: h)
  case Nil
  show ?case by (intro exI [of _ "config_address h"]) simp
next
  case (Cons b bs)
  obtain r bar h1 where g: "pci_get_bar h (Some dev) (of_nat b) no_bar = (r, bar, h1)" by (metis prod_cases3)
  obtain z where z: "h1 = h\<lparr>config_address := z\<rparr>" using pci_get_bar_restores [OF Cons.prems, of dev "of_nat b" no_bar] g by auto
  obtain z' where z': "bar_search P h1 dev bs = ((\<exists>b\<in>set bs. \<exists>bar. bar_at h dev b = Some bar \<and> P bar), h\<lparr>config_address := z'\<rparr>)"
    using Cons.IH [of h1] Cons.prems z by auto
  have "bar_at h dev b = (if r = 0 then Some bar else None)" using g by (simp add: bar_at_def)
  thus ?case using g z z' by auto
qed

lemma claim_search_exact:
  assumes "restorable h"
  shows "\<exists>z. claim_search P pid h cs =
    ((\<exists>c\<in>set cs. claim_in_use c \<and> claim_owner c = pid \<and> (\<exists>b<6. \<exists>bar. bar_at h (claim_dev c) b = Some bar \<and> P bar)),
     h\<lparr>config_address := z\<rparr>)"
  using assms
proof (induction cs arbitrary: h)
  case Nil
  show ?case by (intro exI [of _ "config_address h"]) simp
next
  case (Cons c cs)
  obtain z where z: "bar_search P h (claim_dev c) [0..<6] =
      ((\<exists>b<6. \<exists>bar. bar_at h (claim_dev c) b = Some bar \<and> P bar), h\<lparr>config_address := z\<rparr>)"
    using bar_search_exact [OF Cons.prems, of P "claim_dev c" "[0..<6]"] by (auto simp: atLeast0LessThan lessThan_iff Bex_def)
  show ?case using Cons.IH [of h] Cons.IH [of "h\<lparr>config_address := z\<rparr>"] Cons.prems z by auto
qed

definition owned_bar :: "driver \<Rightarrow> nat \<Rightarrow> pci_bar \<Rightarrow> bool" where
  "owned_bar s pid bar \<longleftrightarrow> (\<exists>c\<in>set (g_claims s). claim_in_use c \<and> claim_owner c = pid \<and>
     (\<exists>b<6. bar_at (hw (drv_pci s)) (claim_dev c) b = Some bar))"

lemma claim_search_owned:
  assumes "restorable (hw (drv_pci s))"
  shows "\<exists>z. claim_search P pid (hw (drv_pci s)) (g_claims s) =
    ((\<exists>bar. owned_bar s pid bar \<and> P bar), (hw (drv_pci s))\<lparr>config_address := z\<rparr>)"
proof -
  have "(\<exists>bar. owned_bar s pid bar \<and> P bar) \<longleftrightarrow>
      (\<exists>c\<in>set (g_claims s). claim_in_use c \<and> claim_owner c = pid \<and>
        (\<exists>b<6. \<exists>bar. bar_at (hw (drv_pci s)) (claim_dev c) b = Some bar \<and> P bar))"
    unfolding owned_bar_def by blast
  thus ?thesis using claim_search_exact [OF assms, of P pid "g_claims s"] by simp
qed

lemma driver_mmio_exact:
  assumes "restorable (hw (drv_pci s))"
  shows "fst (driver_mmio_allowed s pid phys len) \<longleftrightarrow> len \<noteq> 0 \<and> (\<exists>bar. owned_bar s pid bar \<and> mmio_in_bar phys len bar)"
    "config_regs (hw (drv_pci (snd (driver_mmio_allowed s pid phys len)))) = config_regs (hw (drv_pci s))"
  using claim_search_owned [OF assms, of "mmio_in_bar phys len" pid] by (auto simp: driver_mmio_allowed_def)

lemma driver_port_exact:
  assumes "restorable (hw (drv_pci s))"
  shows "fst (driver_io_port_allowed s pid port width) \<longleftrightarrow>
      width \<noteq> 0 \<and> (\<exists>bar. owned_bar s pid bar \<and> port_in_bar port width bar)"
    "config_regs (hw (drv_pci (snd (driver_io_port_allowed s pid port width)))) = config_regs (hw (drv_pci s))"
  using claim_search_owned [OF assms, of "port_in_bar port width" pid] by (auto simp: driver_io_port_allowed_def)

lemma mmio_in_bar_contained:
  assumes "mmio_in_bar phys len bar" "unat phys + unat len < 2 ^ 64"
  shows "\<not> is_io bar \<and> unat (bar_address bar) \<le> unat phys \<and>
    unat phys + unat len \<le> unat (bar_address bar) + unat (bar_size bar)"
proof -
  have "unat (phys + len) = unat phys + unat len"
    using assms(2) by (simp add: unat_word_ariths)
  moreover have "unat (bar_address bar + bar_size bar) \<le> unat (bar_address bar) + unat (bar_size bar)"
    by (simp add: unat_word_ariths)
  moreover have "unat (phys + len) \<le> unat (bar_address bar + bar_size bar)" "unat (bar_address bar) \<le> unat phys"
    using assms(1) by (auto simp: mmio_in_bar_def word_le_nat_alt)
  ultimately show ?thesis using assms(1) by (auto simp: mmio_in_bar_def)
qed


lemma demo_addresses: "pci_make_address 0 3 0 0x10 = 0x80001810" "pci_make_address 0 3 0 0x14 = 0x80001814"
  by (simp_all add: pci_make_address_def)

lemma demo_hw_restorable: "restorable demo_hw"
  by (simp add: restorable_def demo_hw_def)

lemma bar_index_one [simp]: "\<not> (6 :: u8) \<le> 1"
  by (simp add: word_le_nat_alt)

lemma demo_bars:
  "bar_at demo_hw demo_card 0 =
     Some \<lparr>bar_address = 0xFEBC0000, bar_size = 0x10000, is_io = False, is_64bit = False, prefetchable = False\<rparr>"
  "bar_at demo_hw demo_card 1 =
     Some \<lparr>bar_address = 0xC000, bar_size = 0xFFFF0020, is_io = True, is_64bit = False, prefetchable = False\<rparr>"
  by (simp_all add: bar_at_def pci_get_bar_def pci_bar_io_def pci_bar_mem32_def pci_probe_def config_eqs Let_def
      demo_hw_def demo_addresses)

text \<open>The system after process 7 has claimed the card.\<close>

definition demo_claimed :: driver where
  "demo_claimed = snd (snd (driver_claim_device demo_driver 7 0 0))"

lemma demo_claimed_simps:
  "hw (drv_pci demo_claimed) = demo_hw"
  "g_claims demo_claimed = (replicate 8 \<lparr>claim_in_use = False, claim_owner = 0, claim_dev = demo_card\<rparr>)
     [0 := \<lparr>claim_in_use = True, claim_owner = 7, claim_dev = demo_card\<rparr>]"
  by (simp_all add: demo_claimed_def demo_claim) (simp_all add: demo_driver_def)

lemma demo_owned:
  assumes "b < 6" "bar_at demo_hw demo_card b = Some bar"
  shows "owned_bar demo_claimed 7 bar"
proof -
  let ?c = "\<lparr>claim_in_use = True, claim_owner = 7, claim_dev = demo_card\<rparr>"
  have "?c \<in> set (g_claims demo_claimed)"
    unfolding demo_claimed_simps by (rule set_update_memI) simp
  thus ?thesis
    unfolding owned_bar_def demo_claimed_simps(1) using assms by (intro bexI [of _ ?c]) auto
qed



section \<open>Interrupt lines\<close>

text \<open>
  What happens to the interrupt table: interrupts arrive, processes that run
  register lines and wait for them (naming themselves), processes end, and the
  scheduler moves processes between states without ending a blocked wait.
\<close>

inductive irq_step :: "driver \<Rightarrow> driver \<Rightarrow> bool" where
  interrupt: "irq_step s (driver_irq_notify s irq)"
| register: "drv_states s pid \<noteq> BLOCKED \<Longrightarrow> driver_irq_register s pid irq = (r, s') \<Longrightarrow> irq_step s s'"
| wait: "drv_states s pid \<noteq> BLOCKED \<Longrightarrow> driver_irq_wait_pass s pid pid irq = (r, s') \<Longrightarrow> irq_step s s'"
| exit: "s' = driver_release_process s pid \<Longrightarrow> irq_step s (s'\<lparr>drv_states := (drv_states s')(pid := TERMINATED)\<rparr>)"
| sched: "drv_states s pid \<noteq> BLOCKED \<Longrightarrow> st \<noteq> BLOCKED \<Longrightarrow>
    irq_step s (s\<lparr>drv_states := (drv_states s)(pid := st)\<rparr>)"

definition waits_on :: "user_irq \<Rightarrow> nat \<Rightarrow> bool" where
  "waits_on u w \<longleftrightarrow> irq_waiter u = Some w \<and> registered u \<and> irq_owner u = w \<and> pending u = 0"

definition irq_inv :: "driver \<Rightarrow> bool" where
  "irq_inv s \<longleftrightarrow> length (g_user_irq s) = MAX_USER_IRQ \<and>
     (\<forall>irq<MAX_USER_IRQ. \<forall>w. irq_waiter (g_user_irq s ! irq) = Some w \<longrightarrow>
        waits_on (g_user_irq s ! irq) w \<and> drv_states s w = BLOCKED) \<and>
     (\<forall>w. drv_states s w = BLOCKED \<longrightarrow> (\<exists>irq<MAX_USER_IRQ. waits_on (g_user_irq s ! irq) w)) \<and>
     (\<forall>i<MAX_USER_IRQ. \<forall>j<MAX_USER_IRQ. \<forall>w. irq_waiter (g_user_irq s ! i) = Some w \<longrightarrow>
        irq_waiter (g_user_irq s ! j) = Some w \<longrightarrow> i = j)"

lemma irq_invD:
  assumes "irq_inv s" "irq < MAX_USER_IRQ"
  shows "length (g_user_irq s) = MAX_USER_IRQ"
    "irq_waiter (g_user_irq s ! irq) = Some w \<Longrightarrow> waits_on (g_user_irq s ! irq) w \<and> drv_states s w = BLOCKED"
    "i < MAX_USER_IRQ \<Longrightarrow> irq_waiter (g_user_irq s ! irq) = Some w \<Longrightarrow> irq_waiter (g_user_irq s ! i) = Some w \<Longrightarrow> i = irq"
  using assms unfolding irq_inv_def by blast+

text \<open>Replacing one entry: the process that waited on it, if any, must not stay blocked.\<close>

lemma irq_inv_update:
  assumes inv: "irq_inv s" and irq: "irq < MAX_USER_IRQ"
    and new: "\<And>w. irq_waiter u = Some w \<Longrightarrow> waits_on u w \<and> st w = BLOCKED"
    and blocked: "\<And>w. st w = BLOCKED \<Longrightarrow>
        waits_on u w \<or> drv_states s w = BLOCKED \<and> irq_waiter (g_user_irq s ! irq) \<noteq> Some w"
    and others: "\<And>w. drv_states s w = BLOCKED \<Longrightarrow> irq_waiter (g_user_irq s ! irq) \<noteq> Some w \<Longrightarrow> st w = BLOCKED"
    and fresh: "\<And>w. irq_waiter u = Some w \<Longrightarrow> drv_states s w \<noteq> BLOCKED \<or> irq_waiter (g_user_irq s ! irq) = Some w"
  shows "irq_inv ((set_irq s irq u)\<lparr>drv_states := st\<rparr>)"
proof -
  have len: "length (g_user_irq s) = MAX_USER_IRQ" using inv by (simp add: irq_inv_def)
  have "waits_on ((g_user_irq s)[irq := u] ! i) w \<and> st w = BLOCKED"
    if i: "i < MAX_USER_IRQ" and w: "irq_waiter ((g_user_irq s)[irq := u] ! i) = Some w" for i w
  proof (cases "i = irq")
    case True
    thus ?thesis using w new irq len by simp
  next
    case False
    hence "irq_waiter (g_user_irq s ! i) = Some w" using w by simp
    thus ?thesis using irq_invD(2) [OF inv i] irq_invD(3) [OF inv irq i] others False by auto
  qed
  moreover have "\<exists>i<MAX_USER_IRQ. waits_on ((g_user_irq s)[irq := u] ! i) w" if "st w = BLOCKED" for w
    using blocked [OF that]
  proof
    assume "waits_on u w"
    thus ?thesis using irq len by (intro exI [of _ irq]) simp
  next
    assume w: "drv_states s w = BLOCKED \<and> irq_waiter (g_user_irq s ! irq) \<noteq> Some w"
    then obtain i where i: "i < MAX_USER_IRQ" "waits_on (g_user_irq s ! i) w" using inv unfolding irq_inv_def by blast
    hence "i \<noteq> irq" using w by (auto simp: waits_on_def)
    thus ?thesis using i by (intro exI [of _ i]) simp
  qed
  moreover have "i = j" if ij: "i < MAX_USER_IRQ" "j < MAX_USER_IRQ"
      "irq_waiter ((g_user_irq s)[irq := u] ! i) = Some w" "irq_waiter ((g_user_irq s)[irq := u] ! j) = Some w" for i j w
  proof -
    have clash: False if "k \<noteq> irq" "k < MAX_USER_IRQ" "irq_waiter u = Some w" "irq_waiter (g_user_irq s ! k) = Some w" for k
    proof -
      have "drv_states s w = BLOCKED" using irq_invD(2) [OF inv that(2,4)] by blast
      hence "irq_waiter (g_user_irq s ! irq) = Some w" using fresh [OF that(3)] by blast
      thus False using irq_invD(3) [OF inv irq that(2) _ that(4)] that(1) by blast
    qed
    have u: "(g_user_irq s)[irq := u] ! k = (if k = irq then u else g_user_irq s ! k)" if "k < MAX_USER_IRQ" for k
      using that irq len by simp
    show ?thesis
    proof (cases "i = irq \<or> j = irq")
      case True
      thus ?thesis using ij u clash by (metis (full_types))
    next
      case False
      thus ?thesis using irq_invD(3) [OF inv ij(2,1)] ij u by simp
    qed
  qed
  ultimately show ?thesis using len unfolding irq_inv_def set_irq_def by simp
qed

lemma set_irq_states [simp]: "drv_states (set_irq s irq u) = drv_states s"
  by (simp add: set_irq_def)

lemma irq_inv_same_states:
  "irq_inv ((set_irq s irq u)\<lparr>drv_states := drv_states s\<rparr>) = irq_inv (set_irq s irq u)"
  by (simp add: irq_inv_def set_irq_def)

lemma irq_notify_inv [kernel_inv]:
  assumes inv: "irq_inv s"
  shows "irq_inv (driver_irq_notify s irq)"
proof (cases "irq < MAX_USER_IRQ \<and> registered (g_user_irq s ! irq)")
  case True
  let ?u = "g_user_irq s ! irq"
  let ?u' = "?u\<lparr>pending := pending ?u + 1, irq_waiter := None\<rparr>"
  let ?st = "case irq_waiter ?u of None \<Rightarrow> drv_states s | Some w \<Rightarrow> (drv_states s)(w := READY)"
  have eq: "driver_irq_notify s irq = (set_irq s irq ?u')\<lparr>drv_states := ?st\<rparr>"
    using True by (simp add: driver_irq_notify_def Let_def split: option.splits)
  show ?thesis unfolding eq
  proof (rule irq_inv_update [OF inv])
    fix w
    show "?st w = BLOCKED \<Longrightarrow> waits_on ?u' w \<or> drv_states s w = BLOCKED \<and> irq_waiter ?u \<noteq> Some w"
      by (auto split: option.splits if_splits)
    show "drv_states s w = BLOCKED \<Longrightarrow> irq_waiter ?u \<noteq> Some w \<Longrightarrow> ?st w = BLOCKED"
      by (auto split: option.splits)
  qed (use True in auto)
next
  case False
  hence "driver_irq_notify s irq = s" by (auto simp: driver_irq_notify_def Let_def)
  thus ?thesis using inv by simp
qed

lemma irq_register_inv [kernel_inv]:
  assumes inv: "irq_inv s" and pid: "drv_states s pid \<noteq> BLOCKED" and r: "driver_irq_register s pid irq = (r, s')"
  shows "irq_inv s'"
proof (cases "irq < MAX_USER_IRQ \<and> \<not> (registered (g_user_irq s ! irq) \<and> irq_owner (g_user_irq s ! irq) \<noteq> pid)")
  case True
  let ?u' = "\<lparr>registered = True, irq_owner = pid, pending = 0, irq_waiter = None\<rparr>"
  have none: "irq_waiter (g_user_irq s ! irq) \<noteq> Some w" for w
    using irq_invD(2) [OF inv, of irq w] True pid by (auto simp: waits_on_def)
  have "irq_inv ((set_irq s irq ?u')\<lparr>drv_states := drv_states s\<rparr>)"
    by (rule irq_inv_update [OF inv]) (use True none in auto)
  moreover have "s' = (set_irq s irq ?u')\<lparr>unmasked := (unmasked s)(irq := True)\<rparr>"
    using r True by (auto simp: driver_irq_register_def)
  ultimately show ?thesis by (simp add: irq_inv_def set_irq_def)
next
  case False
  hence "s' = s" using r by (auto simp: driver_irq_register_def split: if_splits)
  thus ?thesis using inv by simp
qed

lemma irq_wait_inv [kernel_inv]:
  assumes inv: "irq_inv s" and pid: "drv_states s pid \<noteq> BLOCKED" and r: "driver_irq_wait_pass s pid pid irq = (r, s')"
  shows "irq_inv s'"
proof (cases "irq < MAX_USER_IRQ \<and> registered (g_user_irq s ! irq) \<and> irq_owner (g_user_irq s ! irq) = pid")
  case True
  let ?u = "g_user_irq s ! irq"
  have none: "irq_waiter ?u \<noteq> Some w" for w
    using irq_invD(2) [OF inv, of irq w] True pid by (auto simp: waits_on_def)
  show ?thesis
  proof (cases "pending ?u > 0")
    case pos: True
    have "irq_inv ((set_irq s irq (?u\<lparr>pending := pending ?u - 1\<rparr>))\<lparr>drv_states := drv_states s\<rparr>)"
      by (rule irq_inv_update [OF inv]) (use True none in auto)
    moreover have "s' = set_irq s irq (?u\<lparr>pending := pending ?u - 1\<rparr>)"
      using r True pos by (auto simp: driver_irq_wait_pass_def Let_def)
    ultimately show ?thesis by (simp only: irq_inv_same_states)
  next
    case False
    hence p0: "pending ?u = 0" by (simp add: word_gt_0)
    have "irq_inv ((set_irq s irq (?u\<lparr>irq_waiter := Some pid\<rparr>))\<lparr>drv_states := (drv_states s)(pid := BLOCKED)\<rparr>)"
      by (rule irq_inv_update [OF inv]) (use True none pid p0 in \<open>auto simp: waits_on_def split: if_splits\<close>)
    moreover have "s' = (set_irq s irq (?u\<lparr>irq_waiter := Some pid\<rparr>))\<lparr>drv_states := (drv_states s)(pid := BLOCKED)\<rparr>"
      using r True False by (auto simp: driver_irq_wait_pass_def Let_def)
    ultimately show ?thesis by simp
  qed
next
  case False
  hence "s' = s" using r by (auto simp: driver_irq_wait_pass_def Let_def split: if_splits)
  thus ?thesis using inv by simp
qed

lemma irq_exit_inv [kernel_inv]:
  assumes inv: "irq_inv s" and s': "s' = driver_release_process s pid"
  shows "irq_inv (s'\<lparr>drv_states := (drv_states s')(pid := TERMINATED)\<rparr>)"
proof -
  have u: "g_user_irq s' ! i = (let u = g_user_irq s ! i in if registered u \<and> irq_owner u = pid
      then u\<lparr>registered := False, pending := 0, irq_waiter := None\<rparr> else u)" if "i < MAX_USER_IRQ" for i
    using that inv by (auto simp: s' driver_release_process_def irq_inv_def Let_def)
  have w: "irq_waiter (g_user_irq s' ! i) = Some w \<longleftrightarrow> irq_waiter (g_user_irq s ! i) = Some w \<and> w \<noteq> pid"
    "w \<noteq> pid \<Longrightarrow> waits_on (g_user_irq s' ! i) w \<longleftrightarrow> waits_on (g_user_irq s ! i) w" if "i < MAX_USER_IRQ" for i w
    using irq_invD(2) [OF inv that, of w] by (auto simp: u [OF that] Let_def waits_on_def split: if_splits)
  have st: "drv_states s' = drv_states s" "length (g_user_irq s') = length (g_user_irq s)"
    by (simp_all add: s' driver_release_process_def)
  show ?thesis
    unfolding irq_inv_def
  proof (intro conjI allI impI)
    show "length (g_user_irq (s'\<lparr>drv_states := (drv_states s')(pid := TERMINATED)\<rparr>)) = MAX_USER_IRQ"
      using inv st by (simp add: irq_inv_def)
  next
    fix i w assume i: "i < MAX_USER_IRQ"
      and wt: "irq_waiter (g_user_irq (s'\<lparr>drv_states := (drv_states s')(pid := TERMINATED)\<rparr>) ! i) = Some w"
    thus "waits_on (g_user_irq (s'\<lparr>drv_states := (drv_states s')(pid := TERMINATED)\<rparr>) ! i) w"
      "drv_states (s'\<lparr>drv_states := (drv_states s')(pid := TERMINATED)\<rparr>) w = BLOCKED"
      using irq_invD(2) [OF inv i, of w] w [OF i, of w] st by auto
  next
    fix w assume "drv_states (s'\<lparr>drv_states := (drv_states s')(pid := TERMINATED)\<rparr>) w = BLOCKED"
    hence "w \<noteq> pid" "drv_states s w = BLOCKED" using st by (auto split: if_splits)
    then obtain i where "i < MAX_USER_IRQ" "waits_on (g_user_irq s ! i) w" using inv unfolding irq_inv_def by blast
    thus "\<exists>irq<MAX_USER_IRQ. waits_on (g_user_irq (s'\<lparr>drv_states := (drv_states s')(pid := TERMINATED)\<rparr>) ! irq) w"
      using w(2) \<open>w \<noteq> pid\<close> by auto
  next
    fix i j w assume "i < MAX_USER_IRQ" "j < MAX_USER_IRQ"
      "irq_waiter (g_user_irq (s'\<lparr>drv_states := (drv_states s')(pid := TERMINATED)\<rparr>) ! i) = Some w"
      "irq_waiter (g_user_irq (s'\<lparr>drv_states := (drv_states s')(pid := TERMINATED)\<rparr>) ! j) = Some w"
    thus "i = j" using irq_invD(3) [OF inv, of j i w] w(1) by auto
  qed
qed

lemma irq_step_inv [kernel_inv]: "irq_step s s' \<Longrightarrow> irq_inv s \<Longrightarrow> irq_inv s'"
proof (induction rule: irq_step.induct)
  case (sched s pid st)
  have "w \<noteq> pid" if "irq < MAX_USER_IRQ" "irq_waiter (g_user_irq s ! irq) = Some w" for irq w
    using irq_invD(2) [OF sched.prems that] sched.hyps(1) by auto
  thus ?case using sched unfolding irq_inv_def by auto
qed (auto intro: irq_notify_inv irq_register_inv irq_wait_inv irq_exit_inv)

lemma irq_steps_inv: "irq_step\<^sup>*\<^sup>* s s' \<Longrightarrow> irq_inv s \<Longrightarrow> irq_inv s'"
  by (induction rule: rtranclp_induct) (auto intro: irq_step_inv)

lemma irq_inv_init: "length (g_user_irq s) = MAX_USER_IRQ \<Longrightarrow> \<forall>w. drv_states s w \<noteq> BLOCKED \<Longrightarrow> irq_inv (driver_init s)"
  by (auto simp: irq_inv_def driver_init_def)

text \<open>C33: No interrupt is lost by a sleeping driver: whatever the order of interrupts, waits, registrations
  and process exits, a process that sleeps has no unhandled interrupt on the line it waits for, it is the
  registered owner of that line, and the next interrupt on the line wakes it with one interrupt to take.\<close>

theorem driver_irq_no_lost_wakeup:
  assumes "length (g_user_irq s0) = MAX_USER_IRQ" and "\<forall>w. drv_states s0 w \<noteq> BLOCKED"
    and "irq_step\<^sup>*\<^sup>* (driver_init s0) s" and "drv_states s w = BLOCKED"
  shows "\<exists>irq<MAX_USER_IRQ. pending (g_user_irq s ! irq) = 0 \<and> irq_owner (g_user_irq s ! irq) = w \<and>
           drv_states (driver_irq_notify s irq) w = READY \<and>
           fst (driver_irq_wait_pass (driver_irq_notify s irq) w w irq) = IrqTaken"
proof -
  have inv: "irq_inv s" using irq_steps_inv [OF assms(3) irq_inv_init [OF assms(1,2)]] .
  then obtain irq where irq: "irq < MAX_USER_IRQ" "waits_on (g_user_irq s ! irq) w"
    using assms(4) unfolding irq_inv_def by blast
  have "length (g_user_irq s) = MAX_USER_IRQ" using inv by (simp add: irq_inv_def)
  thus ?thesis
    using irq by (intro exI [of _ irq])
      (auto simp: waits_on_def driver_irq_notify_def driver_irq_wait_pass_def set_irq_def Let_def word_gt_0)
qed

theorem driver_irq_no_lost_wakeup_witness:
  "let s1 = snd (driver_irq_register (driver_init demo_driver) 7 11);
       s2 = snd (driver_irq_wait_pass s1 7 7 11)
   in drv_states s2 7 = BLOCKED \<and> (\<exists>irq<MAX_USER_IRQ. drv_states (driver_irq_notify s2 irq) 7 = READY)"
proof -
  let ?s0 = "driver_init demo_driver"
  let ?s1 = "snd (driver_irq_register ?s0 7 11)"
  let ?s2 = "snd (driver_irq_wait_pass ?s1 7 7 11)"
  have s0: "length (g_user_irq demo_driver) = MAX_USER_IRQ" "\<forall>w. drv_states demo_driver w \<noteq> BLOCKED"
    by (simp_all add: demo_driver_def MAX_USER_IRQ_def)
  have st: "drv_states ?s1 7 \<noteq> BLOCKED" "drv_states ?s0 7 \<noteq> BLOCKED" "drv_states ?s2 7 = BLOCKED"
    by (simp_all add: demo_driver_def driver_init_def driver_irq_register_def driver_irq_wait_pass_def set_irq_def
        MAX_USER_IRQ_def Let_def)
  have "irq_step ?s0 ?s1" by (rule irq_step.register [OF st(2)]) (rule prod.collapse [symmetric])
  moreover have "irq_step ?s1 ?s2" by (rule irq_step.wait [OF st(1)]) (rule prod.collapse [symmetric])
  ultimately have "irq_step\<^sup>*\<^sup>* ?s0 ?s2" by (meson converse_rtranclp_into_rtranclp r_into_rtranclp)
  from driver_irq_no_lost_wakeup [OF s0 this st(3)] st(3) show ?thesis unfolding Let_def by blast
qed

end
