(* ===== verification/Bytes.thy ===== *)
theory Bytes
  imports Prelude
begin

text \<open>
  Little-endian 32-bit fields inside byte arrays. On-disk structures are read
  and written by copying them from and to byte buffers; a buffer is a function
  from offsets to bytes, a field its value below \<open>2^32\<close>.
\<close>

type_synonym buffer = "nat \<Rightarrow> u8"

definition load32 :: "buffer \<Rightarrow> nat \<Rightarrow> nat" where
  "load32 f a = unat (f a) + 256 * (unat (f (a + 1)) + 256 * (unat (f (a + 2)) + 256 * unat (f (a + 3))))"

definition store32 :: "buffer \<Rightarrow> nat \<Rightarrow> nat \<Rightarrow> buffer" where
  "store32 f a v = f(a := of_nat v, a + 1 := of_nat (v div 256), a + 2 := of_nat (v div 65536),
                     a + 3 := of_nat (v div 16777216))"

text \<open>A packed structure of 32-bit fields.\<close>

fun put_words :: "buffer \<Rightarrow> nat \<Rightarrow> nat list \<Rightarrow> buffer" where
  "put_words f a [] = f"
| "put_words f a (v # vs) = put_words (store32 f a v) (a + 4) vs"

definition get_words :: "buffer \<Rightarrow> nat \<Rightarrow> nat \<Rightarrow> nat list" where
  "get_words f a n = map (\<lambda>i. load32 f (a + 4 * i)) [0..<n]"

text \<open>Copying \<open>n\<close> bytes of \<open>src\<close> (from offset \<open>s\<close>) to offset \<open>d\<close> of \<open>dst\<close>.\<close>

definition blit :: "buffer \<Rightarrow> nat \<Rightarrow> buffer \<Rightarrow> nat \<Rightarrow> nat \<Rightarrow> buffer" where
  "blit dst d src s n = (\<lambda>a. if d \<le> a \<and> a < d + n then src (s + (a - d)) else dst a)"

lemma unat_of_nat_u8: "unat (of_nat v :: u8) = v mod 256"
  by (simp add: unat_of_nat take_bit_eq_mod)

lemma load32_less: "load32 f a < 2 ^ 32"
proof -
  have "unat (f i) \<le> 255" for i using unsigned_less [of "f i", where ?'a = nat] by simp
  hence "unat (f a) \<le> 255" "unat (f (a + 1)) \<le> 255" "unat (f (a + 2)) \<le> 255" "unat (f (a + 3)) \<le> 255" by auto
  thus ?thesis unfolding load32_def by simp
qed

lemma load32_store32_same:
  assumes "v < 2 ^ 32"
  shows "load32 (store32 f a v) a = v"
proof -
  have top: "v div 16777216 mod 256 = v div 16777216" using assms by simp
  have "v div 65536 = v div 256 div 256" "v div 16777216 = v div 65536 div 256"
    by (simp_all flip: div_mult2_eq)
  hence "v div 65536 mod 256 + 256 * (v div 16777216) = v div 65536" "v div 256 mod 256 + 256 * (v div 65536) = v div 256"
    by (simp_all only: mod_mult_div_eq)
  hence "v mod 256 + 256 * (v div 256 mod 256 + 256 * (v div 65536 mod 256 + 256 * (v div 16777216))) = v"
    by (simp only: mod_mult_div_eq)
  thus ?thesis
    by (simp only: load32_def store32_def) (simp add: unat_of_nat_u8 top)
qed

lemma store32_outside: "x < a \<or> a + 4 \<le> x \<Longrightarrow> store32 f a v x = f x"
  by (auto simp: store32_def)

lemma load32_cong: "(\<And>i. i < 4 \<Longrightarrow> f (a + i) = g (b + i)) \<Longrightarrow> load32 f a = load32 g b"
proof -
  assume eq: "\<And>i. i < 4 \<Longrightarrow> f (a + i) = g (b + i)"
  have "f a = g b" "f (a + 1) = g (b + 1)" "f (a + 2) = g (b + 2)" "f (a + 3) = g (b + 3)"
    using eq [of 0] eq [of 1] eq [of 2] eq [of 3] by simp_all
  thus ?thesis by (simp only: load32_def)
qed

lemma load32_store32_other:
  assumes "b + 4 \<le> a \<or> a + 4 \<le> b"
  shows "load32 (store32 f a v) b = load32 f b"
  by (rule load32_cong) (use assms in \<open>auto intro: store32_outside\<close>)

lemma put_words_outside: "x < a \<or> a + 4 * length vs \<le> x \<Longrightarrow> put_words f a vs x = f x"
  by (induction vs arbitrary: f a) (auto simp: store32_outside)

lemma length_get_words [simp]: "length (get_words f a n) = n"
  by (simp add: get_words_def)

lemma get_words_Suc: "get_words f a (Suc n) = load32 f a # get_words f (a + 4) n"
proof -
  have "[0..<Suc n] = 0 # map Suc [0..<n]" by (simp add: upt_conv_Cons map_Suc_upt del: upt_Suc)
  thus ?thesis by (simp add: get_words_def add.assoc del: upt_Suc)
qed

lemma get_put_words:
  "\<forall>v\<in>set vs. v < 2 ^ 32 \<Longrightarrow> get_words (put_words f a vs) a (length vs) = vs"
proof (induction vs arbitrary: f a)
  case (Cons v vs)
  have "load32 (put_words (store32 f a v) (a + 4) vs) a = load32 (store32 f a v) a"
    by (rule load32_cong) (simp add: put_words_outside)
  thus ?case using Cons by (simp add: get_words_Suc load32_store32_same)
qed (simp add: get_words_def)

lemma get_words_outside:
  assumes "b + 4 * n \<le> a \<or> a + 4 * length vs \<le> b"
  shows "get_words (put_words f a vs) b n = get_words f b n"
proof -
  have "load32 (put_words f a vs) (b + 4 * i) = load32 f (b + 4 * i)" if "i < n" for i
    by (rule load32_cong, rule put_words_outside) (use assms that in linarith)
  thus ?thesis by (simp add: get_words_def)
qed

lemma blit_inside: "d \<le> a \<Longrightarrow> a < d + n \<Longrightarrow> blit dst d src s n a = src (s + (a - d))"
  by (simp add: blit_def)

lemma blit_outside: "a < d \<or> d + n \<le> a \<Longrightarrow> blit dst d src s n a = dst a"
  by (auto simp: blit_def)

end
