(* ===== verification/Lufirafs.thy ===== *)
theory Lufirafs
  imports Bytes Pmm
begin

text \<open>
  The native file system, kernel/fs/lufirafs/lufirafs.c and its on-disk format
  lufirafs_format.h. The metadata (superblock, block bitmap, inode table) is a
  byte image in memory with a bitmap of dirty blocks; data blocks are read from
  and written to the disk at once. All numbers of the code are 32-bit; they are
  naturals here, with the wrap-around written out where the code computes with
  values it has not bounded. Two things the code cannot control are inputs of
  the model: \<open>io_fails n\<close> tells whether the \<open>n\<close>-th disk transfer fails (it then
  changes nothing), \<open>oom n\<close> whether the \<open>n\<close>-th temporary block buffer cannot
  be allocated. Names and paths are the bytes before their terminator.
\<close>

section \<open>The code: on-disk structures\<close>

record superblock =
  sb_magic :: nat
  sb_version :: nat
  sb_block_size :: nat
  total_blocks :: nat
  bitmap_start :: nat
  bitmap_blocks :: nat
  inode_table_start :: nat
  inode_table_blocks :: nat
  inode_count :: nat
  data_start :: nat
  root_inode :: nat
  free_blocks :: nat
  free_inodes :: nat
  sb_reserved :: buffer

record lfs_inode =
  i_mode :: nat
  i_size :: nat
  i_links :: nat
  i_direct :: "nat list"
  i_indirect :: nat
  i_uid :: nat
  i_gid :: nat
  i_perm :: nat

record lufirafs =
  image :: buffer
  image_size :: nat
  lba_offset :: nat
  sb :: superblock
  dirty_bitmap :: bitmap
  next_free_block :: nat
  disk :: buffer
  io_fails :: "nat \<Rightarrow> bool"
  ios :: nat
  oom :: "nat \<Rightarrow> bool"
  ooms :: nat

definition LUFIRAFS_MAGIC :: nat where "LUFIRAFS_MAGIC = 0x31534C4F"
definition LUFIRAFS_BLOCK_SIZE :: nat where "LUFIRAFS_BLOCK_SIZE = 8192"
definition LUFIRAFS_INODE_COUNT :: nat where "LUFIRAFS_INODE_COUNT = 512"
definition LUFIRAFS_MAX_NAME :: nat where "LUFIRAFS_MAX_NAME = 59"
definition LUFIRAFS_PTRS_PER_BLOCK :: nat where "LUFIRAFS_PTRS_PER_BLOCK = 2048"
definition LUFIRAFS_MAX_FILE_SIZE :: nat where "LUFIRAFS_MAX_FILE_SIZE = (12 + 2048) * 8192"

definition lufirafs_compute_layout :: "nat \<Rightarrow> buffer \<Rightarrow> superblock" where
  "lufirafs_compute_layout nblocks reserved =
    (let bits_per_block = 8192 * 8;
         bb0 = wrap32 (nblocks + bits_per_block - 1) div bits_per_block;
         bb = (if bb0 = 0 then 1 else bb0);
         its = 1 + bb;
         itb = (512 * 76 + 8192 - 1) div 8192
     in \<lparr>sb_magic = LUFIRAFS_MAGIC, sb_version = 3, sb_block_size = 8192, total_blocks = nblocks, bitmap_start = 1,
         bitmap_blocks = bb, inode_table_start = its, inode_table_blocks = itb, inode_count = 512,
         data_start = its + itb, root_inode = 1, free_blocks = 0, free_inodes = 0, sb_reserved = reserved\<rparr>)"

definition superblock_words :: "superblock \<Rightarrow> nat list" where
  "superblock_words s =
    [sb_magic s, sb_version s, sb_block_size s, total_blocks s, bitmap_start s, bitmap_blocks s,
     inode_table_start s, inode_table_blocks s, inode_count s, data_start s, root_inode s, free_blocks s, free_inodes s]"

definition load_superblock :: "buffer \<Rightarrow> superblock" where
  "load_superblock f =
    \<lparr>sb_magic = load32 f 0, sb_version = load32 f 4, sb_block_size = load32 f 8, total_blocks = load32 f 12,
     bitmap_start = load32 f 16, bitmap_blocks = load32 f 20, inode_table_start = load32 f 24,
     inode_table_blocks = load32 f 28, inode_count = load32 f 32, data_start = load32 f 36,
     root_inode = load32 f 40, free_blocks = load32 f 44, free_inodes = load32 f 48,
     sb_reserved = (\<lambda>i. if i < 8192 - 52 then f (52 + i) else 0)\<rparr>"

definition inode_words :: "lfs_inode \<Rightarrow> nat list" where
  "inode_words n = [i_mode n, i_size n, i_links n] @ i_direct n @ [i_indirect n, i_uid n, i_gid n, i_perm n]"

definition words_inode :: "nat list \<Rightarrow> lfs_inode" where
  "words_inode ws =
    \<lparr>i_mode = ws ! 0, i_size = ws ! 1, i_links = ws ! 2, i_direct = take 12 (drop 3 ws), i_indirect = ws ! 15,
     i_uid = ws ! 16, i_gid = ws ! 17, i_perm = ws ! 18\<rparr>"

section \<open>The code: metadata and blocks\<close>

definition mark_dirty :: "lufirafs \<Rightarrow> nat \<Rightarrow> lufirafs" where
  "mark_dirty fs block =
    (if block \<ge> data_start (sb fs) then fs else fs\<lparr>dirty_bitmap := bitmap_set (dirty_bitmap fs) block\<rparr>)"

definition write_superblock :: "lufirafs \<Rightarrow> lufirafs" where
  "write_superblock fs =
    mark_dirty (fs\<lparr>image := put_words (blit (image fs) 52 (sb_reserved (sb fs)) 0 (8192 - 52)) 0
                              (superblock_words (sb fs))\<rparr>) 0"

definition block_bitmap_test :: "lufirafs \<Rightarrow> nat \<Rightarrow> bool" where
  "block_bitmap_test fs block \<longleftrightarrow>
     drop_bit (block mod 8) (image fs (bitmap_start (sb fs) * 8192 + block div 8)) AND 1 \<noteq> 0"

definition block_bitmap_set :: "lufirafs \<Rightarrow> nat \<Rightarrow> bool \<Rightarrow> lufirafs" where
  "block_bitmap_set fs block used =
    (let a = bitmap_start (sb fs) * 8192 + block div 8; bit = push_bit (block mod 8) 1; old = image fs a;
         fs1 = fs\<lparr>image := (image fs)(a := (if used then old OR bit else old AND NOT bit))\<rparr>
     in mark_dirty fs1 (bitmap_start (sb fs) + block div 8 div 8192))"

definition disk_read_sectors :: "lufirafs \<Rightarrow> nat \<Rightarrow> buffer option \<times> lufirafs" where
  "disk_read_sectors fs lba =
    ((if io_fails fs (ios fs) then None else Some (\<lambda>i. disk fs (lba * 512 + i))), fs\<lparr>ios := ios fs + 1\<rparr>)"

definition disk_write_sectors :: "lufirafs \<Rightarrow> nat \<Rightarrow> nat \<Rightarrow> buffer \<Rightarrow> int \<times> lufirafs" where
  "disk_write_sectors fs lba count buf =
    (if io_fails fs (ios fs) then (- 1, fs\<lparr>ios := ios fs + 1\<rparr>)
     else (0, fs\<lparr>ios := ios fs + 1, disk := blit (disk fs) (lba * 512) buf 0 (count * 512)\<rparr>))"

text \<open>A temporary block buffer: whether there is one.\<close>

definition tmp_buffer :: "lufirafs \<Rightarrow> bool \<times> lufirafs" where
  "tmp_buffer fs = (\<not> oom fs (ooms fs), fs\<lparr>ooms := ooms fs + 1\<rparr>)"

definition block_lba :: "lufirafs \<Rightarrow> nat \<Rightarrow> nat" where
  "block_lba fs block = wrap32 (lba_offset fs + block * 16)"

definition read_data_block :: "lufirafs \<Rightarrow> nat \<Rightarrow> buffer option \<times> lufirafs" where
  "read_data_block fs block =
    (if block < data_start (sb fs) \<or> block \<ge> total_blocks (sb fs) then (None, fs)
     else disk_read_sectors fs (block_lba fs block))"

definition write_data_block :: "lufirafs \<Rightarrow> nat \<Rightarrow> buffer \<Rightarrow> int \<times> lufirafs" where
  "write_data_block fs block buf =
    (if block < data_start (sb fs) \<or> block \<ge> total_blocks (sb fs) then (- 1, fs)
     else disk_write_sectors fs (block_lba fs block) 16 buf)"

text \<open>Taking the free block \<open>b\<close>: mark it, zero it on disk, account for it.\<close>

definition take_block :: "lufirafs \<Rightarrow> nat \<Rightarrow> nat \<times> lufirafs" where
  "take_block fs b =
    (case tmp_buffer (block_bitmap_set fs b True) of
       (False, fs1) \<Rightarrow> (0, block_bitmap_set fs1 b False)
     | (True, fs1) \<Rightarrow>
         (let fs2 = snd (write_data_block fs1 b (\<lambda>_. 0));
              fs3 = (if free_blocks (sb fs2) > 0
                     then fs2\<lparr>sb := (sb fs2)\<lparr>free_blocks := free_blocks (sb fs2) - 1\<rparr>\<rparr> else fs2)
          in (b, (write_superblock fs3)\<lparr>next_free_block := b + 1\<rparr>)))"

definition alloc_block :: "lufirafs \<Rightarrow> nat \<times> lufirafs" where
  "alloc_block fs =
    (case first_in (\<lambda>b. \<not> block_bitmap_test fs b) (next_free_block fs) (total_blocks (sb fs)) of
       Some b \<Rightarrow> take_block fs b
     | None \<Rightarrow>
         (case first_in (\<lambda>b. \<not> block_bitmap_test fs b) (data_start (sb fs)) (next_free_block fs) of
            Some b \<Rightarrow> take_block fs b
          | None \<Rightarrow> (0, fs)))"

definition free_data_block :: "lufirafs \<Rightarrow> nat \<Rightarrow> lufirafs" where
  "free_data_block fs block =
    (if block = 0 then fs
     else let fs1 = block_bitmap_set fs block False
          in write_superblock (fs1\<lparr>sb := (sb fs1)\<lparr>free_blocks := wrap32 (free_blocks (sb fs1) + 1)\<rparr>\<rparr>))"

section \<open>The code: inodes\<close>

definition inode_offset :: "lufirafs \<Rightarrow> nat \<Rightarrow> nat" where
  "inode_offset fs ino = wrap32 (inode_table_start (sb fs) * 8192 + (ino - 1) * 76)"

definition lufirafs_read_inode :: "lufirafs \<Rightarrow> nat \<Rightarrow> lfs_inode option" where
  "lufirafs_read_inode fs ino =
    (if ino = 0 \<or> ino > inode_count (sb fs) then None
     else Some (words_inode (get_words (image fs) (inode_offset fs ino) 19)))"

definition lufirafs_write_inode :: "lufirafs \<Rightarrow> nat \<Rightarrow> lfs_inode \<Rightarrow> int \<times> lufirafs" where
  "lufirafs_write_inode fs ino n =
    (if ino = 0 \<or> ino > inode_count (sb fs) then (- 1, fs)
     else (0, mark_dirty (fs\<lparr>image := put_words (image fs) (inode_offset fs ino) (inode_words n)\<rparr>)
                (inode_offset fs ino div 8192)))"

definition lufirafs_check_access :: "lfs_inode \<Rightarrow> nat \<Rightarrow> nat \<Rightarrow> bool \<Rightarrow> bool \<Rightarrow> bool \<Rightarrow> bool" where
  "lufirafs_check_access n uid gid want_read want_write want_exec =
    (if uid = 0 then True
     else let bits = (if i_uid n = uid then drop_bit 6 (i_perm n) AND 7
                      else if i_gid n = gid then drop_bit 3 (i_perm n) AND 7
                      else i_perm n AND 7)
          in if want_read \<and> bits AND 4 = 0 then False
             else if want_write \<and> bits AND 2 = 0 then False
             else if want_exec \<and> bits AND 1 = 0 then False
             else True)"

definition inode_is_free :: "lufirafs \<Rightarrow> nat \<Rightarrow> bool" where
  "inode_is_free fs ino = (case lufirafs_read_inode fs ino of None \<Rightarrow> False | Some n \<Rightarrow> i_mode n = 0)"

definition alloc_inode :: "lufirafs \<Rightarrow> nat \<times> lufirafs" where
  "alloc_inode fs =
    (case first_in (inode_is_free fs) 1 (inode_count (sb fs) + 1) of
       None \<Rightarrow> (0, fs)
     | Some ino \<Rightarrow>
         (ino, write_superblock
            (if free_inodes (sb fs) > 0
             then fs\<lparr>sb := (sb fs)\<lparr>free_inodes := free_inodes (sb fs) - 1\<rparr>\<rparr> else fs)))"

definition empty_inode :: lfs_inode where
  "empty_inode = \<lparr>i_mode = 0, i_size = 0, i_links = 0, i_direct = replicate 12 0, i_indirect = 0,
                  i_uid = 0, i_gid = 0, i_perm = 0\<rparr>"

definition free_inode_slot :: "lufirafs \<Rightarrow> nat \<Rightarrow> lufirafs" where
  "free_inode_slot fs ino =
    (let fs1 = snd (lufirafs_write_inode fs ino empty_inode)
     in write_superblock (fs1\<lparr>sb := (sb fs1)\<lparr>free_inodes := wrap32 (free_inodes (sb fs1) + 1)\<rparr>\<rparr>))"

text \<open>The second half of \<open>inode_get_block\<close>: the indirect block is there.\<close>

definition indirect_get_block :: "lufirafs \<Rightarrow> lfs_inode \<Rightarrow> nat \<Rightarrow> bool \<Rightarrow> nat \<times> lfs_inode \<times> lufirafs" where
  "indirect_get_block fs n idx create =
    (case tmp_buffer fs of
       (False, fs1) \<Rightarrow> (0, n, fs1)
     | (True, fs1) \<Rightarrow>
         (case read_data_block fs1 (i_indirect n) of
            (None, fs2) \<Rightarrow> (0, n, fs2)
          | (Some buf, fs2) \<Rightarrow>
              (let result = load32 buf (4 * idx)
               in if result = 0 \<and> create then
                    (case alloc_block fs2 of (nb, fs3) \<Rightarrow>
                       if nb \<noteq> 0
                       then (nb, n, snd (write_data_block fs3 (i_indirect n) (store32 buf (4 * idx) nb)))
                       else (result, n, fs3))
                  else (result, n, fs2))))"

definition inode_get_block :: "lufirafs \<Rightarrow> lfs_inode \<Rightarrow> nat \<Rightarrow> bool \<Rightarrow> nat \<times> lfs_inode \<times> lufirafs" where
  "inode_get_block fs n block_index create =
    (if block_index < 12 then
       (if i_direct n ! block_index = 0 \<and> create then
          (case alloc_block fs of (nb, fs1) \<Rightarrow>
             if nb = 0 then (0, n, fs1)
             else (nb, n\<lparr>i_direct := (i_direct n)[block_index := nb]\<rparr>, fs1))
        else (i_direct n ! block_index, n, fs))
     else if block_index - 12 \<ge> LUFIRAFS_PTRS_PER_BLOCK then (0, n, fs)
     else if i_indirect n = 0 then
       (if \<not> create then (0, n, fs)
        else case alloc_block fs of (ib, fs1) \<Rightarrow>
               if ib = 0 then (0, n, fs1)
               else indirect_get_block fs1 (n\<lparr>i_indirect := ib\<rparr>) (block_index - 12) create)
     else indirect_get_block fs n (block_index - 12) create)"

section \<open>The code: file contents\<close>

text \<open>
  The loop of \<open>lufirafs_read\<close>, from position \<open>pos\<close> with \<open>remaining\<close> bytes to
  go, and the bytes it stores. A block that cannot be read counts as zeros.
\<close>

function read_loop :: "lufirafs \<Rightarrow> lfs_inode \<Rightarrow> nat \<Rightarrow> nat \<Rightarrow> bytes \<times> lufirafs" where
  "read_loop fs n pos remaining =
    (if remaining = 0 then ([], fs)
     else let block_off = pos mod 8192; chunk = min (8192 - block_off) remaining
      in case inode_get_block fs n (pos div 8192) False of (bn, n1, fs1) \<Rightarrow>
         case (if bn = 0 then (None, fs1) else read_data_block fs1 bn) of (res, fs2) \<Rightarrow>
         let out = (case res of None \<Rightarrow> replicate chunk 0
                              | Some buf \<Rightarrow> map (\<lambda>i. buf (block_off + i)) [0..<chunk])
         in case read_loop fs2 n1 (wrap32 (pos + chunk)) (remaining - chunk) of (rest, fs3) \<Rightarrow> (out @ rest, fs3))"
  by pat_completeness auto
termination
  by (relation "measure (\<lambda>(_, _, _, r). r)") auto

declare read_loop.simps [simp del]

text \<open>The result code, the bytes stored and the state; a count at or above \<open>2^31\<close> comes back negative.\<close>

definition lufirafs_read :: "lufirafs \<Rightarrow> nat \<Rightarrow> nat \<Rightarrow> nat \<Rightarrow> int \<times> bytes \<times> lufirafs" where
  "lufirafs_read fs ino offset count =
    (case lufirafs_read_inode fs ino of None \<Rightarrow> (- 1, [], fs)
     | Some n \<Rightarrow>
         if offset \<ge> i_size n then (0, [], fs)
         else let count1 = (if wrap32 (offset + count) > i_size n then i_size n - offset else count)
              in case tmp_buffer fs of
                   (False, fs1) \<Rightarrow> (- 1, [], fs1)
                 | (True, fs1) \<Rightarrow>
                     (case read_loop fs1 n offset count1 of (out, fs2) \<Rightarrow>
                        (sint (of_nat count1 :: u32), out, fs2)))"

text \<open>
  The loop of \<open>lufirafs_write\<close>: the number of bytes written, whether it ran out
  of space, the inode in memory and the state.
\<close>

function write_loop :: "lufirafs \<Rightarrow> lfs_inode \<Rightarrow> nat \<Rightarrow> bytes \<Rightarrow> nat \<times> bool \<times> lfs_inode \<times> lufirafs" where
  "write_loop fs n pos data =
    (if data = [] then (0, False, n, fs)
     else let block_off = pos mod 8192; chunk = min (8192 - block_off) (length data)
      in case inode_get_block fs n (pos div 8192) True of (bn, n1, fs1) \<Rightarrow>
         if bn = 0 then (0, True, n1, fs1)
         else
           let src = (\<lambda>i. data ! i) in
           case (if block_off \<noteq> 0 \<or> chunk \<noteq> 8192
                 then (case read_data_block fs1 bn of (res, fs2) \<Rightarrow>
                         (blit (case res of None \<Rightarrow> (\<lambda>_. 0) | Some buf \<Rightarrow> buf) block_off src 0 chunk, fs2))
                 else (blit (\<lambda>_. 0) 0 src 0 chunk, fs1)) of (buf, fs2) \<Rightarrow>
           let fs3 = snd (write_data_block fs2 bn buf)
           in case write_loop fs3 n1 (pos + chunk) (drop chunk data) of (w, full, n2, fs4) \<Rightarrow>
                (chunk + w, full, n2, fs4))"
  by pat_completeness auto
termination
  by (relation "measure (\<lambda>(_, _, _, d). length d)") auto

declare write_loop.simps [simp del]

definition lufirafs_write :: "lufirafs \<Rightarrow> nat \<Rightarrow> nat \<Rightarrow> bytes \<Rightarrow> int \<times> lufirafs" where
  "lufirafs_write fs ino offset data =
    (case lufirafs_read_inode fs ino of None \<Rightarrow> (- 1, fs)
     | Some n \<Rightarrow>
         if offset + length data > LUFIRAFS_MAX_FILE_SIZE then (- 1, fs)
         else case tmp_buffer fs of
                (False, fs1) \<Rightarrow> (- 1, fs1)
              | (True, fs1) \<Rightarrow>
                  (case write_loop fs1 n offset data of (w, full, n1, fs2) \<Rightarrow>
                     let n2 = (if offset + w > i_size n1 then n1\<lparr>i_size := offset + w\<rparr> else n1);
                         fs3 = snd (lufirafs_write_inode fs2 ino n2)
                     in if full then ((if w > 0 then int w else - 1), fs3) else (int (length data), fs3)))"

definition blocks_of :: "nat \<Rightarrow> nat" where
  "blocks_of sz = wrap32 (sz + 8192 - 1) div 8192"

text \<open>Freeing the blocks \<open>b\<close>, \<dots> of the loop in \<open>lufirafs_truncate\<close>; \<open>ind\<close> is the buffered indirect block.\<close>

fun truncate_loop ::
  "lufirafs \<Rightarrow> lfs_inode \<Rightarrow> buffer option \<Rightarrow> bool \<Rightarrow> nat list \<Rightarrow> lfs_inode \<times> buffer option \<times> bool \<times> lufirafs" where
  "truncate_loop fs n ind ind_dirty [] = (n, ind, ind_dirty, fs)"
| "truncate_loop fs n ind ind_dirty (b # bs) =
    (case inode_get_block fs n b False of (bn, n1, fs1) \<Rightarrow>
       if bn = 0 then truncate_loop fs1 n1 ind ind_dirty bs
       else let fs2 = free_data_block fs1 bn
            in if b < 12 then truncate_loop fs2 (n1\<lparr>i_direct := (i_direct n1)[b := 0]\<rparr>) ind ind_dirty bs
               else case ind of
                      None \<Rightarrow> truncate_loop fs2 n1 None ind_dirty bs
                    | Some buf \<Rightarrow> truncate_loop fs2 n1 (Some (store32 buf (4 * (b - 12)) 0)) True bs)"

definition truncate_shrink :: "lufirafs \<Rightarrow> lfs_inode \<Rightarrow> nat \<Rightarrow> lfs_inode \<times> lufirafs" where
  "truncate_shrink fs n new_size =
    (let old_nblocks = blocks_of (i_size n); new_nblocks = blocks_of new_size;
         need_indirect = i_indirect n \<noteq> 0 \<and> old_nblocks > 12 \<and> new_nblocks < old_nblocks
     in case (if need_indirect
              then (case tmp_buffer fs of (False, fs1) \<Rightarrow> (None, fs1)
                    | (True, fs1) \<Rightarrow> read_data_block fs1 (i_indirect n))
              else (None, fs)) of (ind, fs1) \<Rightarrow>
        let loop_end = (if need_indirect \<and> ind = None then max new_nblocks 12 else old_nblocks)
        in case truncate_loop fs1 n ind False [new_nblocks..<loop_end] of (n1, ind1, ind_dirty, fs2) \<Rightarrow>
           let fs3 = (case ind1 of None \<Rightarrow> fs2
                      | Some buf \<Rightarrow> if ind_dirty then snd (write_data_block fs2 (i_indirect n1) buf) else fs2)
           in if new_nblocks = 0 \<and> i_indirect n1 \<noteq> 0
              then (n1\<lparr>i_indirect := 0\<rparr>, free_data_block fs3 (i_indirect n1))
              else (n1, fs3))"

definition lufirafs_truncate :: "lufirafs \<Rightarrow> nat \<Rightarrow> nat \<Rightarrow> int \<times> lufirafs" where
  "lufirafs_truncate fs ino new_size =
    (case lufirafs_read_inode fs ino of None \<Rightarrow> (- 1, fs)
     | Some n \<Rightarrow>
         (case (if new_size < i_size n then truncate_shrink fs n new_size else (n, fs)) of (n1, fs1) \<Rightarrow>
            (0, snd (lufirafs_write_inode fs1 ino (n1\<lparr>i_size := new_size\<rparr>)))))"

section \<open>The code: directories\<close>

definition dirent_inode :: "buffer \<Rightarrow> nat \<Rightarrow> nat" where
  "dirent_inode buf i = load32 buf (64 * i)"

text \<open>The name of entry \<open>i\<close>: the bytes of the block from there up to a terminator.\<close>

definition dirent_name :: "buffer \<Rightarrow> nat \<Rightarrow> bytes" where
  "dirent_name buf i = takeWhile (\<lambda>c. c \<noteq> 0) (map buf [64 * i + 4..<8192])"

definition copy_name :: "buffer \<Rightarrow> nat \<Rightarrow> bytes \<Rightarrow> nat \<Rightarrow> buffer" where
  "copy_name buf a name max_len =
    (let k = min max_len (length name) in (blit buf a (\<lambda>i. name ! i) 0 k)(a + k := 0))"

text \<open>
  The nested loops over the entries of a directory, up to the first entry that
  satisfies \<open>P\<close>: its block number, the block and its index.
\<close>

fun dir_search ::
  "(buffer \<Rightarrow> nat \<Rightarrow> bool) \<Rightarrow> lufirafs \<Rightarrow> lfs_inode \<Rightarrow> nat list \<Rightarrow> (nat \<times> buffer \<times> nat) option \<times> lufirafs" where
  "dir_search P fs dir [] = (None, fs)"
| "dir_search P fs dir (b # bs) =
    (case inode_get_block fs dir b False of (bn, dir1, fs1) \<Rightarrow>
       case (if bn = 0 then (None, fs1) else read_data_block fs1 bn) of
         (None, fs2) \<Rightarrow> dir_search P fs2 dir1 bs
       | (Some buf, fs2) \<Rightarrow>
           (case first_in (P buf) 0 128 of
              Some i \<Rightarrow> (Some (bn, buf, i), fs2)
            | None \<Rightarrow> dir_search P fs2 dir1 bs))"

definition named :: "bytes \<Rightarrow> buffer \<Rightarrow> nat \<Rightarrow> bool" where
  "named name buf i \<longleftrightarrow> dirent_inode buf i \<noteq> 0 \<and> dirent_name buf i = name"

definition lookup_in_dir :: "lufirafs \<Rightarrow> nat \<Rightarrow> bytes \<Rightarrow> nat option \<times> lufirafs" where
  "lookup_in_dir fs dir_ino name =
    (case lufirafs_read_inode fs dir_ino of None \<Rightarrow> (None, fs)
     | Some dir \<Rightarrow>
         if i_mode dir \<noteq> 2 then (None, fs)
         else case tmp_buffer fs of
                (False, fs1) \<Rightarrow> (None, fs1)
              | (True, fs1) \<Rightarrow>
                  (case dir_search (named name) fs1 dir [0..<blocks_of (i_size dir)] of
                     (None, fs2) \<Rightarrow> (None, fs2)
                   | (Some (bn, buf, i), fs2) \<Rightarrow> (Some (dirent_inode buf i), fs2)))"

definition set_dirent :: "buffer \<Rightarrow> nat \<Rightarrow> nat \<Rightarrow> bytes \<Rightarrow> buffer" where
  "set_dirent buf i ino name = copy_name (store32 buf (64 * i) ino) (64 * i + 4) name LUFIRAFS_MAX_NAME"

definition add_dirent :: "lufirafs \<Rightarrow> nat \<Rightarrow> bytes \<Rightarrow> nat \<Rightarrow> int \<times> lufirafs" where
  "add_dirent fs dir_ino name entry_ino =
    (case lufirafs_read_inode fs dir_ino of None \<Rightarrow> (- 1, fs)
     | Some dir \<Rightarrow>
         (case tmp_buffer fs of
            (False, fs1) \<Rightarrow> (- 1, fs1)
          | (True, fs1) \<Rightarrow>
              (let nblocks = blocks_of (i_size dir)
               in case dir_search (\<lambda>buf i. dirent_inode buf i = 0) fs1 dir [0..<nblocks] of
                    (Some (bn, buf, i), fs2) \<Rightarrow>
                      (0, snd (write_data_block fs2 bn (set_dirent buf i entry_ino name)))
                  | (None, fs2) \<Rightarrow>
                      (case inode_get_block fs2 dir nblocks True of (bn, dir1, fs3) \<Rightarrow>
                         if bn = 0 then (- 1, fs3)
                         else let fs4 = snd (write_data_block fs3 bn (set_dirent (\<lambda>_. 0) 0 entry_ino name));
                                  dir2 = dir1\<lparr>i_size := wrap32 ((nblocks + 1) * 8192)\<rparr>
                              in (0, snd (lufirafs_write_inode fs4 dir_ino dir2))))))"

definition clear_dirent :: "buffer \<Rightarrow> nat \<Rightarrow> buffer" where
  "clear_dirent buf i = (store32 buf (64 * i) 0)(64 * i + 4 := 0)"

definition remove_dirent :: "lufirafs \<Rightarrow> nat \<Rightarrow> bytes \<Rightarrow> int \<times> lufirafs" where
  "remove_dirent fs dir_ino name =
    (case lufirafs_read_inode fs dir_ino of None \<Rightarrow> (- 1, fs)
     | Some dir \<Rightarrow>
         (case tmp_buffer fs of
            (False, fs1) \<Rightarrow> (- 1, fs1)
          | (True, fs1) \<Rightarrow>
              (case dir_search (named name) fs1 dir [0..<blocks_of (i_size dir)] of
                 (None, fs2) \<Rightarrow> (- 1, fs2)
               | (Some (bn, buf, i), fs2) \<Rightarrow> (0, snd (write_data_block fs2 bn (clear_dirent buf i))))))"

section \<open>The code: enumerating directories and resolving paths\<close>

record lufirafs_dir =
  dir_ino :: nat
  dir_index :: nat

definition lufirafs_opendir :: "nat \<Rightarrow> lufirafs_dir" where
  "lufirafs_opendir ino = \<lparr>dir_ino = ino, dir_index = 0\<rparr>"

function readdir_loop :: "lufirafs \<Rightarrow> lfs_inode \<Rightarrow> nat \<Rightarrow> nat \<Rightarrow> (nat \<times> bytes) option \<times> nat \<times> lufirafs" where
  "readdir_loop fs n index total_entries =
    (if index \<ge> total_entries then (None, index, fs)
     else case inode_get_block fs n (index div 128) False of (bn, n1, fs1) \<Rightarrow>
          case (if bn = 0 then (None, fs1) else read_data_block fs1 bn) of
            (None, fs2) \<Rightarrow> readdir_loop fs2 n1 (index + 1) total_entries
          | (Some buf, fs2) \<Rightarrow>
              if dirent_inode buf (index mod 128) \<noteq> 0
              then (Some (dirent_inode buf (index mod 128), dirent_name buf (index mod 128)), index + 1, fs2)
              else readdir_loop fs2 n1 (index + 1) total_entries)"
  by pat_completeness auto
termination
  by (relation "measure (\<lambda>(_, _, i, t). t - i)") auto

declare readdir_loop.simps [simp del]

definition lufirafs_readdir :: "lufirafs \<Rightarrow> lufirafs_dir \<Rightarrow> (nat \<times> bytes) option \<times> lufirafs_dir \<times> lufirafs" where
  "lufirafs_readdir fs d =
    (case lufirafs_read_inode fs (dir_ino d) of None \<Rightarrow> (None, d, fs)
     | Some n \<Rightarrow>
         (case tmp_buffer fs of
            (False, fs1) \<Rightarrow> (None, d, fs1)
          | (True, fs1) \<Rightarrow>
              (case readdir_loop fs1 n (dir_index d) (wrap32 (blocks_of (i_size n) * 128)) of
                 (res, index, fs2) \<Rightarrow> (res, d\<lparr>dir_index := index\<rparr>, fs2))))"

lemma readdir_loop_index:
  "readdir_loop fs n index t = (Some e, index', fs') \<Longrightarrow> index < index' \<and> index' \<le> t"
proof (induction fs n index t rule: readdir_loop.induct)
  case (1 fs n index t)
  obtain bn n1 fs1 where g: "inode_get_block fs n (index div 128) False = (bn, n1, fs1)"
    by (cases "inode_get_block fs n (index div 128) False") auto
  obtain res fs2 where r: "(if bn = 0 then (None, fs1) else read_data_block fs1 bn) = (res, fs2)"
    by (cases "if bn = 0 then (None, fs1) else read_data_block fs1 bn") auto
  note eq = readdir_loop.simps [of fs n index t]
  show ?case
  proof (cases "index \<ge> t")
    case True
    then show ?thesis using "1.prems" by (simp add: eq)
  next
    case False
    then show ?thesis
    proof (cases res)
      case None
      then show ?thesis using False "1.prems" "1.IH"(1) [OF _ g [symmetric] refl r [symmetric]] by (simp add: eq g r)
    next
      case (Some buf)
      then show ?thesis
        using False "1.prems" "1.IH"(2) [OF _ g [symmetric] refl r [symmetric]]
        by (auto simp: eq g r split: if_splits)
    qed
  qed
qed

lemma lufirafs_readdir_index:
  assumes "lufirafs_readdir fs d = (Some e, d', fs')"
  shows "dir_index d < dir_index d' \<and> dir_index d' < 2 ^ 32"
proof -
  obtain n fs1 where n: "lufirafs_read_inode fs (dir_ino d) = Some n" and t: "tmp_buffer fs = (True, fs1)"
    using assms by (auto simp: lufirafs_readdir_def split: option.splits prod.splits bool.splits)
  let ?t = "wrap32 (blocks_of (i_size n) * 128)"
  obtain res i fs2 where l: "readdir_loop fs1 n (dir_index d) ?t = (res, i, fs2)"
    by (cases "readdir_loop fs1 n (dir_index d) ?t") auto
  have "res = Some e" "dir_index d' = i" using assms by (auto simp: lufirafs_readdir_def n t l)
  moreover have "?t < 2 ^ 32" by (simp add: wrap32_def)
  ultimately show ?thesis using readdir_loop_index l by fastforce
qed

text \<open>
  The callers' loops \<open>while (lufirafs_readdir(&dir, &ent) == 0)\<close>: the entries seen
  before the first one that satisfies \<open>stop\<close>, that one if there is one, and the state.
\<close>

function readdir_until ::
  "(nat \<times> bytes \<Rightarrow> bool) \<Rightarrow> lufirafs \<Rightarrow> lufirafs_dir \<Rightarrow> (nat \<times> bytes) list \<times> (nat \<times> bytes) option \<times> lufirafs" where
  "readdir_until stop fs d =
    (case lufirafs_readdir fs d of
       (None, d1, fs1) \<Rightarrow> ([], None, fs1)
     | (Some e, d1, fs1) \<Rightarrow>
         if stop e then ([], Some e, fs1)
         else case readdir_until stop fs1 d1 of (es, r, fs2) \<Rightarrow> (e # es, r, fs2))"
  by pat_completeness auto
termination
  by (relation "measure (\<lambda>(_, _, d). 2 ^ 32 - dir_index d)") (auto dest!: lufirafs_readdir_index [OF sym])

declare readdir_until.simps [simp del]

definition dot_name :: bytes where "dot_name = [46]"
definition dotdot_name :: bytes where "dotdot_name = [46, 46]"

definition is_dot :: "nat \<times> bytes \<Rightarrow> bool" where
  "is_dot e \<longleftrightarrow> snd e = dot_name \<or> snd e = dotdot_name"

function lookup_loop :: "lufirafs \<Rightarrow> nat \<Rightarrow> bytes \<Rightarrow> nat option \<times> lufirafs" where
  "lookup_loop fs cur p =
    (if p = [] then (Some cur, fs)
     else let component = take LUFIRAFS_MAX_NAME (takeWhile (\<lambda>c. c \<noteq> 47) p);
              rest = dropWhile (\<lambda>c. c = 47) (drop (length component) p)
          in if component = [] then lookup_loop fs cur rest
             else case lookup_in_dir fs cur component of
                    (None, fs1) \<Rightarrow> (None, fs1)
                  | (Some next, fs1) \<Rightarrow> lookup_loop fs1 next rest)"
  by pat_completeness auto

lemma lookup_rest_shorter:
  assumes "p \<noteq> []" "component = take LUFIRAFS_MAX_NAME (takeWhile (\<lambda>c. c \<noteq> 47) (p :: bytes))"
    "rest = dropWhile (\<lambda>c. c = 47) (drop (length component) p)"
  shows "length rest < length p"
proof (cases "hd p = 47")
  case True
  then have "dropWhile (\<lambda>c. c = 47) p = dropWhile (\<lambda>c. c = 47) (tl p)" "component = []"
    using assms by (cases p; simp)+
  then have "length rest \<le> length (tl p)"
    using length_dropWhile_le [of "\<lambda>c. c = 47" "tl p"] by (simp add: assms(3))
  then show ?thesis using assms(1) by (cases p) auto
next
  case False
  then have "0 < length component" using assms by (cases p) (auto simp: LUFIRAFS_MAX_NAME_def)
  moreover have "length rest \<le> length p - length component"
    unfolding assms(3) by (metis length_drop length_dropWhile_le)
  moreover have "0 < length p" using assms(1) by simp
  ultimately show ?thesis by linarith
qed

termination lookup_loop
proof (relation "measure (\<lambda>(_, _, p). length p)", goal_cases)
  case (2 fs cur p component rest)
  then show ?case using lookup_rest_shorter [OF 2(1-3)] by (simp only: in_measure split_conv)
next
  case (3 fs cur p component rest)
  then show ?case using lookup_rest_shorter [OF 3(1-3)] by (simp only: in_measure split_conv)
qed simp

declare lookup_loop.simps [simp del]

definition lufirafs_lookup :: "lufirafs \<Rightarrow> nat \<Rightarrow> bytes \<Rightarrow> nat option \<times> lufirafs" where
  "lufirafs_lookup fs start_inode path =
    (if path \<noteq> [] \<and> hd path = 47 then lookup_loop fs (root_inode (sb fs)) (tl path)
     else lookup_loop fs start_inode path)"

text \<open>Trailing slashes are dropped, but never the first byte.\<close>

fun strip_slashes :: "bytes \<Rightarrow> nat \<Rightarrow> nat" where
  "strip_slashes path 0 = 0"
| "strip_slashes path (Suc k) = (if k \<ge> 1 \<and> path ! k = 47 then strip_slashes path k else Suc k)"

definition last_slash :: "bytes \<Rightarrow> nat \<Rightarrow> nat option" where
  "last_slash path len = (case filter (\<lambda>i. path ! i = 47) [0..<len] of [] \<Rightarrow> None | is \<Rightarrow> Some (last is))"

definition lufirafs_resolve_parent :: "lufirafs \<Rightarrow> nat \<Rightarrow> bytes \<Rightarrow> (nat \<times> bytes) option \<times> lufirafs" where
  "lufirafs_resolve_parent fs start_inode path =
    (if path = [] then (None, fs)
     else let len = strip_slashes path (length path)
      in case last_slash path len of
           None \<Rightarrow> if len > LUFIRAFS_MAX_NAME then (None, fs) else (Some (start_inode, take len path), fs)
         | Some s \<Rightarrow>
             let name = take (len - (s + 1)) (drop (s + 1) path)
             in if len \<le> s + 1 \<or> len - (s + 1) > LUFIRAFS_MAX_NAME then (None, fs)
                else if s = 0 then (Some (root_inode (sb fs), name), fs)
                else if s \<ge> 256 then (None, fs)
                else case lufirafs_lookup fs start_inode (take s path) of
                       (None, fs1) \<Rightarrow> (None, fs1)
                     | (Some parent, fs1) \<Rightarrow> (Some (parent, name), fs1))"

definition find_name_in_parent :: "lufirafs \<Rightarrow> nat \<Rightarrow> nat \<Rightarrow> bytes option \<times> lufirafs" where
  "find_name_in_parent fs parent_ino child_ino =
    (case readdir_until (\<lambda>e. \<not> is_dot e \<and> fst e = child_ino) fs (lufirafs_opendir parent_ino) of
       (_, None, fs1) \<Rightarrow> (None, fs1)
     | (_, Some e, fs1) \<Rightarrow> (Some (take LUFIRAFS_MAX_NAME (snd e)), fs1))"

text \<open>The names from \<open>cur\<close> up to the root, \<open>fuel\<close> counting the levels of the 32 still free.\<close>

fun path_names :: "nat \<Rightarrow> lufirafs \<Rightarrow> nat \<Rightarrow> bytes list option \<times> lufirafs" where
  "path_names fuel fs cur =
    (if cur = root_inode (sb fs) then (Some [], fs)
     else case fuel of 0 \<Rightarrow> (None, fs)
      | Suc fuel1 \<Rightarrow>
          (case lookup_in_dir fs cur dotdot_name of
             (None, fs1) \<Rightarrow> (None, fs1)
           | (Some parent, fs1) \<Rightarrow>
               (case find_name_in_parent fs1 parent cur of
                  (None, fs2) \<Rightarrow> (None, fs2)
                | (Some name, fs2) \<Rightarrow>
                    if parent = cur then (Some [name], fs2)
                    else case path_names fuel1 fs2 parent of
                           (None, fs3) \<Rightarrow> (None, fs3)
                         | (Some ns, fs3) \<Rightarrow> (Some (name # ns), fs3))))"

declare path_names.simps [simp del]

fun join_names :: "nat \<Rightarrow> bytes list \<Rightarrow> bytes \<Rightarrow> bytes option" where
  "join_names out_size [] out = Some out"
| "join_names out_size (name # ns) out =
    (if length out + 1 + length name \<ge> out_size then None else join_names out_size ns (out @ 47 # name))"

definition lufirafs_get_path :: "lufirafs \<Rightarrow> nat \<Rightarrow> nat \<Rightarrow> bytes option \<times> lufirafs" where
  "lufirafs_get_path fs ino out_size =
    (if out_size < 2 then (None, fs)
     else if ino = root_inode (sb fs) then (Some [47], fs)
     else case path_names 32 fs ino of
            (None, fs1) \<Rightarrow> (None, fs1)
          | (Some ns, fs1) \<Rightarrow> (join_names out_size (rev ns) [], fs1))"

section \<open>The code: creating and removing\<close>

definition new_inode :: "nat \<Rightarrow> nat \<Rightarrow> nat \<Rightarrow> nat \<Rightarrow> lfs_inode" where
  "new_inode mode uid gid perm =
    empty_inode\<lparr>i_mode := mode, i_links := (if mode = 2 then 2 else 1), i_uid := uid, i_gid := gid, i_perm := perm\<rparr>"

definition lufirafs_create ::
  "lufirafs \<Rightarrow> nat \<Rightarrow> bytes \<Rightarrow> nat \<Rightarrow> nat \<Rightarrow> nat \<Rightarrow> nat \<Rightarrow> int \<times> nat option \<times> lufirafs" where
  "lufirafs_create fs parent_ino name mode uid gid perm =
    (if name = [] then (- 1, None, fs)
     else case lookup_in_dir fs parent_ino name of
       (Some _, fs1) \<Rightarrow> (- 1, None, fs1)
     | (None, fs1) \<Rightarrow>
         (case alloc_inode fs1 of (ino, fs2) \<Rightarrow>
            if ino = 0 then (- 2, None, fs2)
            else
              let fs3 = snd (lufirafs_write_inode fs2 ino (new_inode mode uid gid perm)) in
              case (if mode = 2
                    then (case add_dirent fs3 ino dot_name ino of (r, fs4) \<Rightarrow>
                            if r \<noteq> 0 then (r, fs4) else add_dirent fs4 ino dotdot_name parent_ino)
                    else (0, fs3)) of (r, fs5) \<Rightarrow>
              if r \<noteq> 0 then (- 3, None, free_inode_slot fs5 ino)
              else case add_dirent fs5 parent_ino name ino of (r2, fs6) \<Rightarrow>
                     if r2 \<noteq> 0 then (- 3, None, free_inode_slot fs6 ino)
                     else (0, Some ino, fs6)))"

fun free_blocks_of :: "lufirafs \<Rightarrow> lfs_inode \<Rightarrow> nat list \<Rightarrow> lufirafs" where
  "free_blocks_of fs n [] = fs"
| "free_blocks_of fs n (b # bs) =
    (case inode_get_block fs n b False of (bn, n1, fs1) \<Rightarrow> free_blocks_of (free_data_block fs1 bn) n1 bs)"

definition lufirafs_unlink :: "lufirafs \<Rightarrow> nat \<Rightarrow> bytes \<Rightarrow> int \<times> lufirafs" where
  "lufirafs_unlink fs parent_ino name =
    (if name = [] then (- 1, fs)
     else case lookup_in_dir fs parent_ino name of
       (None, fs1) \<Rightarrow> (- 1, fs1)
     | (Some ino, fs1) \<Rightarrow>
         if ino = root_inode (sb fs1) then (- 3, fs1)
         else case lufirafs_read_inode fs1 ino of
           None \<Rightarrow> (- 1, fs1)
         | Some n \<Rightarrow>
             (case (if i_mode n = 2
                    then (case readdir_until (\<lambda>_. False) fs1 (lufirafs_opendir ino) of (es, _, fs2) \<Rightarrow>
                            (length (filter (\<lambda>e. \<not> is_dot e) es), fs2))
                    else (0, fs1)) of (extra, fs2) \<Rightarrow>
              if extra > 0 then (- 2, fs2)
              else let fs3 = free_blocks_of fs2 n [0..<blocks_of (i_size n)];
                       fs4 = free_data_block fs3 (i_indirect n);
                       fs5 = free_inode_slot fs4 ino
                   in (0, snd (remove_dirent fs5 parent_ino name))))"

section \<open>The code: mounting and synchronising\<close>

text \<open>
  The metadata is read in requests of at most 255 sectors, into a buffer of
  \<open>image_size\<close> bytes that holds \<open>image\<close>.
\<close>

function init_loop :: "lufirafs \<Rightarrow> nat \<Rightarrow> nat \<Rightarrow> bool \<times> lufirafs" where
  "init_loop fs done_sectors meta_sectors =
    (if done_sectors \<ge> meta_sectors then (True, fs)
     else let chunk = min 255 (meta_sectors - done_sectors)
      in case disk_read_sectors fs (wrap32 (lba_offset fs + done_sectors)) of
           (None, fs1) \<Rightarrow> (False, fs1)
         | (Some buf, fs1) \<Rightarrow>
             init_loop (fs1\<lparr>image := blit (image fs1) (done_sectors * 512) buf 0 (chunk * 512)\<rparr>)
               (done_sectors + chunk) meta_sectors)"
  by pat_completeness auto
termination
  by (relation "measure (\<lambda>(_, d, m). m - d)") auto

declare init_loop.simps [simp del]

definition lufirafs_init :: "lufirafs \<Rightarrow> nat \<Rightarrow> int \<times> lufirafs" where
  "lufirafs_init fs lba =
    (case disk_read_sectors (fs\<lparr>lba_offset := lba\<rparr>) lba of
       (None, fs1) \<Rightarrow> (- 1, fs1)
     | (Some sb_buf, fs1) \<Rightarrow>
         (let fs2 = fs1\<lparr>sb := load_superblock sb_buf\<rparr> in
          if sb_magic (sb fs2) \<noteq> LUFIRAFS_MAGIC then (- 1, fs2)
          else if sb_block_size (sb fs2) \<noteq> LUFIRAFS_BLOCK_SIZE then (- 1, fs2)
          else case tmp_buffer (fs2\<lparr>image_size := wrap32 (data_start (sb fs2) * 8192)\<rparr>) of
            (False, fs3) \<Rightarrow> (- 1, fs3)
          | (True, fs3) \<Rightarrow>
              (case init_loop fs3 0 (wrap32 (data_start (sb fs3) * 16)) of
                 (False, fs4) \<Rightarrow> (- 1, fs4)
               | (True, fs4) \<Rightarrow>
                   (case tmp_buffer fs4 of
                      (False, fs5) \<Rightarrow> (- 1, fs5)
                    | (True, fs5) \<Rightarrow>
                        (0, fs5\<lparr>dirty_bitmap := (\<lambda>_. 0), next_free_block := data_start (sb fs5)\<rparr>)))))"

definition sync_block :: "nat \<Rightarrow> lufirafs \<Rightarrow> lufirafs" where
  "sync_block b fs =
    (if bitmap_test (dirty_bitmap fs) b
     then (case disk_write_sectors fs (wrap32 (lba_offset fs + b * 16)) 16 (\<lambda>i. image fs (b * 8192 + i)) of
             (r, fs1) \<Rightarrow> if r = 0 then fs1\<lparr>dirty_bitmap := bitmap_clear (dirty_bitmap fs1) b\<rparr> else fs1)
     else fs)"

definition lufirafs_sync :: "lufirafs \<Rightarrow> lufirafs" where
  "lufirafs_sync fs = fold sync_block [0..<data_start (sb fs)] fs"

section \<open>Well-formed file systems\<close>

text \<open>
  The geometry the format guarantees: superblock, bitmap, inode table and data
  follow each other, the bitmap covers every block, and no computed sector
  number or metadata offset wraps around.
\<close>

definition geometry :: "superblock \<Rightarrow> nat \<Rightarrow> bool" where
  "geometry s lba \<longleftrightarrow>
     0 < data_start s \<and> data_start s \<le> total_blocks s \<and> 1 \<le> bitmap_start s \<and>
     bitmap_start s * 8192 + (total_blocks s + 7) div 8 \<le> inode_table_start s * 8192 \<and>
     inode_table_start s * 8192 + inode_count s * 76 \<le> data_start s * 8192 \<and>
     data_start s * 8192 < 2 ^ 32 \<and> lba + total_blocks s * 16 < 2 ^ 32"

text \<open>A mounted file system on a disk that does not fail, with memory for the buffers.\<close>

definition fs_ok :: "lufirafs \<Rightarrow> bool" where
  "fs_ok fs \<longleftrightarrow> geometry (sb fs) (lba_offset fs) \<and> data_start (sb fs) \<le> next_free_block fs \<and>
     next_free_block fs \<le> total_blocks (sb fs) \<and> io_fails fs = (\<lambda>_. False) \<and> oom fs = (\<lambda>_. False)"

definition stored_inode :: "lufirafs \<Rightarrow> nat \<Rightarrow> lfs_inode" where
  "stored_inode fs ino = (case lufirafs_read_inode fs ino of None \<Rightarrow> empty_inode | Some n \<Rightarrow> n)"

definition block_at :: "lufirafs \<Rightarrow> nat \<Rightarrow> buffer" where
  "block_at fs b = (\<lambda>i. if i < 8192 then disk fs ((lba_offset fs + b * 16) * 512 + i) else 0)"

text \<open>What a step on the data keeps of the rest: the geometry and the inode table.\<close>

definition same_geometry :: "superblock \<Rightarrow> superblock \<Rightarrow> bool" where
  "same_geometry s t \<longleftrightarrow> total_blocks t = total_blocks s \<and> bitmap_start t = bitmap_start s \<and>
     inode_table_start t = inode_table_start s \<and> inode_count t = inode_count s \<and> data_start t = data_start s \<and>
     root_inode t = root_inode s"

definition frame :: "lufirafs \<Rightarrow> lufirafs \<Rightarrow> bool" where
  "frame fs fs' \<longleftrightarrow> fs_ok fs' \<and> same_geometry (sb fs) (sb fs') \<and> lba_offset fs' = lba_offset fs \<and>
     stored_inode fs' = stored_inode fs"

definition used_block :: "lufirafs \<Rightarrow> nat \<Rightarrow> bool" where
  "used_block fs b \<longleftrightarrow> data_start (sb fs) \<le> b \<and> b < total_blocks (sb fs) \<and> block_bitmap_test fs b"

definition disk_full :: "lufirafs \<Rightarrow> bool" where
  "disk_full fs \<longleftrightarrow> (\<forall>b \<in> {data_start (sb fs)..<total_blocks (sb fs)}. used_block fs b)"

lemma frame_refl: "fs_ok fs \<Longrightarrow> frame fs fs"
  by (simp add: frame_def same_geometry_def)

lemma frame_trans: "frame fs fs1 \<Longrightarrow> frame fs1 fs2 \<Longrightarrow> frame fs fs2"
  by (simp add: frame_def same_geometry_def)

lemma frame_ok: "frame fs fs1 \<Longrightarrow> fs_ok fs1"
  by (simp add: frame_def)

lemma block_bitmap_test_bit:
  "block_bitmap_test fs b \<longleftrightarrow> bit (image fs (bitmap_start (sb fs) * 8192 + b div 8)) (b mod 8)"
  by (simp add: block_bitmap_test_def and_one_eq bit_iff_odd_drop_bit odd_iff_mod_2_eq_one)

text \<open>The bitmap byte of a block lies between the superblock and the inode table.\<close>

lemma bitmap_byte_range:
  assumes "geometry s lba" "b < total_blocks s"
  shows "8192 \<le> bitmap_start s * 8192 + b div 8" "bitmap_start s * 8192 + b div 8 < inode_table_start s * 8192"
proof -
  have "b div 8 < (total_blocks s + 7) div 8" using assms(2) by linarith
  then show "8192 \<le> bitmap_start s * 8192 + b div 8" "bitmap_start s * 8192 + b div 8 < inode_table_start s * 8192"
    using assms(1) by (auto simp: geometry_def)
qed

lemma inode_offset_range:
  assumes "geometry (sb fs) lba" "0 < ino" "ino \<le> inode_count (sb fs)"
  shows "inode_offset fs ino = inode_table_start (sb fs) * 8192 + (ino - 1) * 76"
    "inode_offset fs ino + 76 \<le> data_start (sb fs) * 8192"
proof -
  have *: "(ino - 1) * 76 + 76 \<le> inode_count (sb fs) * 76" using assms by (cases ino) auto
  then have "inode_table_start (sb fs) * 8192 + (ino - 1) * 76 < 2 ^ 32"
    using assms(1) by (auto simp: geometry_def)
  then show 1: "inode_offset fs ino = inode_table_start (sb fs) * 8192 + (ino - 1) * 76"
    by (simp add: inode_offset_def wrap32_def)
  show "inode_offset fs ino + 76 \<le> data_start (sb fs) * 8192"
    unfolding 1 using * assms(1) by (auto simp: geometry_def)
qed

text \<open>Metadata writes outside the inode table keep every stored inode.\<close>

lemma stored_inode_cong:
  assumes "geometry (sb fs) lba" "same_geometry (sb fs) (sb fs')"
    "\<And>a. inode_table_start (sb fs) * 8192 \<le> a \<Longrightarrow> a < data_start (sb fs) * 8192 \<Longrightarrow> image fs' a = image fs a"
  shows "stored_inode fs' = stored_inode fs"
proof
  fix ino
  have off: "inode_offset fs' ino = inode_offset fs ino"
    using assms(2) by (simp add: inode_offset_def same_geometry_def)
  have "get_words (image fs') (inode_offset fs ino) 19 = get_words (image fs) (inode_offset fs ino) 19"
    if "0 < ino" "ino \<le> inode_count (sb fs)"
    unfolding get_words_def
    by (rule map_cong [OF refl], rule load32_cong, rule assms(3))
      (use inode_offset_range [OF assms(1) that] in auto)
  then show "stored_inode fs' ino = stored_inode fs ino"
    using assms(2) by (auto simp: stored_inode_def lufirafs_read_inode_def off same_geometry_def)
qed

subsection \<open>Transfers\<close>

lemma block_lba_eq:
  "fs_ok fs \<Longrightarrow> b < total_blocks (sb fs) \<Longrightarrow> block_lba fs b = lba_offset fs + b * 16"
  by (simp add: fs_ok_def geometry_def block_lba_def wrap32_def)

lemma read_data_block_ok:
  assumes "fs_ok fs" "used_block fs b"
  obtains buf where "read_data_block fs b = (Some buf, fs\<lparr>ios := ios fs + 1\<rparr>)" "\<And>i. i < 8192 \<Longrightarrow> buf i = block_at fs b i"
  using assms block_lba_eq [OF assms(1), of b]
  by (simp add: used_block_def read_data_block_def disk_read_sectors_def fs_ok_def block_at_def not_less [symmetric])

lemma tmp_buffer_ok: "fs_ok fs \<Longrightarrow> tmp_buffer fs = (True, fs\<lparr>ooms := ooms fs + 1\<rparr>)"
  by (simp add: tmp_buffer_def fs_ok_def)

text \<open>Steps that only count transfers and allocations.\<close>

definition ticks :: "lufirafs \<Rightarrow> lufirafs \<Rightarrow> bool" where
  "ticks fs fs' \<longleftrightarrow> (\<exists>i k. fs' = fs\<lparr>ios := i, ooms := k\<rparr>)"

lemma ticks_refl: "ticks fs fs"
  unfolding ticks_def by (rule exI [of _ "ios fs"], rule exI [of _ "ooms fs"]) simp

lemma ticks_trans: "ticks fs fs1 \<Longrightarrow> ticks fs1 fs2 \<Longrightarrow> ticks fs fs2"
  unfolding ticks_def by (elim exE) (simp, blast)

lemma ticksD:
  assumes "ticks fs fs'"
  shows "fs_ok fs' = fs_ok fs" "sb fs' = sb fs" "lba_offset fs' = lba_offset fs" "block_at fs' = block_at fs"
    "used_block fs' = used_block fs" "stored_inode fs' = stored_inode fs" "frame fs fs' = fs_ok fs"
    "disk_full fs' = disk_full fs"
proof -
  obtain i k where fs': "fs' = fs\<lparr>ios := i, ooms := k\<rparr>" using assms by (auto simp: ticks_def)
  show ok: "fs_ok fs' = fs_ok fs" "sb fs' = sb fs" "lba_offset fs' = lba_offset fs" "block_at fs' = block_at fs"
    by (simp_all add: fs' fs_ok_def block_at_def fun_eq_iff)
  show u: "used_block fs' = used_block fs" by (simp add: fs' used_block_def block_bitmap_test_def fun_eq_iff)
  show s: "stored_inode fs' = stored_inode fs"
    by (simp add: fs' stored_inode_def lufirafs_read_inode_def inode_offset_def fun_eq_iff)
  show "frame fs fs' = fs_ok fs" by (auto simp: frame_def ok s same_geometry_def)
  show "disk_full fs' = disk_full fs" by (simp add: disk_full_def u ok)
qed

lemma write_data_block_ok:
  assumes "fs_ok fs" "used_block fs b" and fs': "fs' = snd (write_data_block fs b buf)"
  shows "fst (write_data_block fs b buf) = 0" "frame fs fs'" "used_block fs' = used_block fs"
    "block_at fs' = (block_at fs)(b := (\<lambda>i. if i < 8192 then buf i else 0))" "next_free_block fs' = next_free_block fs"
proof -
  have b: "data_start (sb fs) \<le> b" "b < total_blocks (sb fs)" using assms(2) by (auto simp: used_block_def)
  define d where "d = blit (disk fs) ((lba_offset fs + b * 16) * 512) buf 0 8192"
  have w: "write_data_block fs b buf = (0, fs\<lparr>ios := ios fs + 1, disk := d\<rparr>)"
    using b assms(1) block_lba_eq [OF assms(1) b(2)]
    by (simp add: write_data_block_def disk_write_sectors_def fs_ok_def d_def)
  have fs'_eq: "fs' = fs\<lparr>ios := ios fs + 1, disk := d\<rparr>" by (simp add: fs' w)
  show "fst (write_data_block fs b buf) = 0" by (simp add: w)
  have s: "stored_inode fs' = stored_inode fs"
    by (simp add: fs'_eq stored_inode_def lufirafs_read_inode_def inode_offset_def fun_eq_iff)
  show "frame fs fs'" using assms(1) s by (simp add: frame_def same_geometry_def) (simp add: fs'_eq fs_ok_def)
  show "used_block fs' = used_block fs" "next_free_block fs' = next_free_block fs"
    by (simp_all add: fs'_eq used_block_def block_bitmap_test_def fun_eq_iff)
  show "block_at fs' = (block_at fs)(b := (\<lambda>i. if i < 8192 then buf i else 0))"
  proof (intro ext)
    fix x i
    show "block_at fs' x i = ((block_at fs)(b := (\<lambda>i. if i < 8192 then buf i else 0))) x i"
    proof (cases "x = b")
      case True
      then show ?thesis by (simp add: fs'_eq block_at_def d_def blit_inside)
    next
      case False
      then have "x < b \<or> b < x" by auto
      then have "i < 8192 \<Longrightarrow> (lba_offset fs + x * 16) * 512 + i < (lba_offset fs + b * 16) * 512 \<or>
        (lba_offset fs + b * 16) * 512 + 8192 \<le> (lba_offset fs + x * 16) * 512 + i"
        by auto
      then show ?thesis using False by (simp add: fs'_eq block_at_def d_def blit_outside)
    qed
  qed
qed

subsection \<open>Metadata updates\<close>

lemma mark_dirty_eq:
  "mark_dirty fs b = fs\<lparr>dirty_bitmap := if data_start (sb fs) \<le> b then dirty_bitmap fs else bitmap_set (dirty_bitmap fs) b\<rparr>"
  by (simp add: mark_dirty_def)

definition keeps :: "lufirafs \<Rightarrow> lufirafs \<Rightarrow> bool" where
  "keeps fs fs' \<longleftrightarrow> frame fs fs' \<and> block_at fs' = block_at fs \<and> used_block fs' = used_block fs"

lemma keeps_trans: "keeps fs fs1 \<Longrightarrow> keeps fs1 fs2 \<Longrightarrow> keeps fs fs2"
  by (auto simp: keeps_def intro: frame_trans)

lemma keeps_ok: "keeps fs fs1 \<Longrightarrow> fs_ok fs1"
  by (simp add: keeps_def frame_def)

lemma ticks_keeps: "fs_ok fs \<Longrightarrow> ticks fs fs1 \<Longrightarrow> keeps fs fs1"
  by (simp add: keeps_def ticksD)

lemma keeps_full: "keeps fs fs1 \<Longrightarrow> disk_full fs1 = disk_full fs"
  by (simp add: keeps_def disk_full_def frame_def same_geometry_def)

text \<open>Changing the counters, the allocation hint or the dirty map keeps all that matters here.\<close>

lemma bookkeeping_keeps:
  assumes "fs_ok fs" "same_geometry (sb fs) s" "data_start (sb fs) \<le> nf" "nf \<le> total_blocks (sb fs)"
  shows "keeps fs (fs\<lparr>sb := s, dirty_bitmap := db, next_free_block := nf\<rparr>)"
proof -
  let ?fs = "fs\<lparr>sb := s, dirty_bitmap := db, next_free_block := nf\<rparr>"
  have "stored_inode ?fs = stored_inode fs"
    using assms by (intro stored_inode_cong [of _ "lba_offset fs"]) (auto simp: fs_ok_def)
  then show ?thesis
    using assms
    by (auto simp: keeps_def frame_def fs_ok_def block_at_def used_block_def block_bitmap_test_def
        same_geometry_def geometry_def fun_eq_iff)
qed

lemma image_keeps:
  assumes "fs_ok fs" "\<And>a. 8192 \<le> a \<Longrightarrow> f a = image fs a"
  shows "keeps fs (fs\<lparr>image := f\<rparr>)"
proof -
  let ?fs = "fs\<lparr>image := f\<rparr>"
  have g: "geometry (sb fs) (lba_offset fs)" using assms(1) by (simp add: fs_ok_def)
  have "8192 \<le> inode_table_start (sb fs) * 8192" using g by (auto simp: geometry_def)
  then have "stored_inode ?fs = stored_inode fs"
    using assms g by (intro stored_inode_cong [OF g]) (auto simp: same_geometry_def)
  moreover have "used_block ?fs = used_block fs"
    using bitmap_byte_range(1) [OF g] assms(2) by (auto simp: used_block_def block_bitmap_test_def fun_eq_iff)
  ultimately show ?thesis
    using assms(1) by (auto simp: keeps_def frame_def fs_ok_def block_at_def same_geometry_def fun_eq_iff)
qed

lemma length_superblock_words: "length (superblock_words s) = 13"
  by (simp add: superblock_words_def)

lemma write_superblock_keeps:
  assumes "fs_ok fs" "same_geometry (sb fs) s" "data_start (sb fs) \<le> nf" "nf \<le> total_blocks (sb fs)"
  shows "keeps fs ((write_superblock (fs\<lparr>sb := s\<rparr>))\<lparr>next_free_block := nf\<rparr>)"
proof -
  define f where "f = put_words (blit (image fs) 52 (sb_reserved s) 0 (8192 - 52)) 0 (superblock_words s)"
  define db where "db = (if data_start s \<le> 0 then dirty_bitmap fs else bitmap_set (dirty_bitmap fs) 0)"
  have eq: "(write_superblock (fs\<lparr>sb := s\<rparr>))\<lparr>next_free_block := nf\<rparr> =
      (fs\<lparr>image := f\<rparr>)\<lparr>sb := s, dirty_bitmap := db, next_free_block := nf\<rparr>"
    by (simp add: write_superblock_def mark_dirty_eq f_def db_def)
  have "keeps fs (fs\<lparr>image := f\<rparr>)"
    by (rule image_keeps [OF assms(1)])
      (simp add: f_def put_words_outside blit_outside length_superblock_words)
  moreover from this have "keeps (fs\<lparr>image := f\<rparr>) ((fs\<lparr>image := f\<rparr>)\<lparr>sb := s, dirty_bitmap := db, next_free_block := nf\<rparr>)"
    using assms by (intro bookkeeping_keeps) (auto dest: keeps_ok)
  ultimately show ?thesis unfolding eq by (rule keeps_trans)
qed

lemma block_bitmap_set_ok:
  assumes "fs_ok fs" "data_start (sb fs) \<le> b" "b < total_blocks (sb fs)"
    and fs': "fs' = block_bitmap_set fs b u"
  shows "frame fs fs'" "block_at fs' = block_at fs" "used_block fs' = (used_block fs)(b := u)"
    "next_free_block fs' = next_free_block fs"
proof -
  have g: "geometry (sb fs) (lba_offset fs)" using assms(1) by (simp add: fs_ok_def)
  define a where "a = bitmap_start (sb fs) * 8192 + b div 8"
  define v where "v = (if u then image fs a OR push_bit (b mod 8) 1 else image fs a AND NOT (push_bit (b mod 8) 1))"
  define db where "db = (if data_start (sb fs) \<le> bitmap_start (sb fs) + b div 8 div 8192 then dirty_bitmap fs
    else bitmap_set (dirty_bitmap fs) (bitmap_start (sb fs) + b div 8 div 8192))"
  have eq: "fs' = fs\<lparr>image := (image fs)(a := v), dirty_bitmap := db\<rparr>"
    unfolding fs' block_bitmap_set_def Let_def mark_dirty_eq a_def v_def db_def by (simp cong: if_cong split del: if_split)
  have v: "bit v k \<longleftrightarrow> (if k = b mod 8 then u else bit (image fs a) k)" if "k < 8" for k
    using that by (auto simp: v_def bit_simps)
  have "stored_inode fs' = stored_inode fs"
    using bitmap_byte_range(2) [OF g assms(3)]
    by (intro stored_inode_cong [OF g]) (auto simp: eq same_geometry_def a_def)
  then show "frame fs fs'" using assms(1) by (simp add: frame_def same_geometry_def) (simp add: eq fs_ok_def)
  show "block_at fs' = block_at fs" "next_free_block fs' = next_free_block fs"
    by (simp_all add: eq block_at_def fun_eq_iff)
  show "used_block fs' = (used_block fs)(b := u)"
  proof
    fix x
    have "x = b" if "x div 8 = b div 8" "x mod 8 = b mod 8"
      using that by (metis div_mult_mod_eq)
    then have "block_bitmap_test fs' x \<longleftrightarrow> (if x = b then u else block_bitmap_test fs x)"
      using v [of "x mod 8"] by (auto simp: block_bitmap_test_bit eq a_def)
    moreover have "sb fs' = sb fs" by (simp add: eq)
    ultimately show "used_block fs' x = ((used_block fs)(b := u)) x"
      using assms(2,3) by (auto simp: used_block_def)
  qed
qed

subsection \<open>Allocation\<close>

text \<open>A fresh block is a free data block, zeroed; nothing else changes. None is found only when all are in use.\<close>

lemma take_block_ok:
  assumes "fs_ok fs" "data_start (sb fs) \<le> b" "b < total_blocks (sb fs)" and t: "take_block fs b = (r, fs')"
  shows "r = b" "frame fs fs'" "block_at fs' = (block_at fs)(b := (\<lambda>_. 0))" "used_block fs' = (used_block fs)(b := True)"
proof -
  define s1 where "s1 = block_bitmap_set fs b True"
  note 1 = block_bitmap_set_ok [OF assms(1-3) s1_def]
  define s2 where "s2 = s1\<lparr>ooms := ooms s1 + 1\<rparr>"
  have tick: "ticks s1 s2" unfolding ticks_def s2_def by (rule exI [of _ "ios s1"]) auto
  have ok2: "fs_ok s2" using 1(1) ticksD(1) [OF tick] by (simp add: frame_def)
  have u2: "used_block s2 = (used_block fs)(b := True)" using 1(3) ticksD(5) [OF tick] by simp
  define s3 where "s3 = snd (write_data_block s2 b (\<lambda>_. 0))"
  note 3 = write_data_block_ok [OF ok2 _ s3_def]
  have ub: "used_block s2 b" by (simp add: u2)
  define s where "s = (if free_blocks (sb s3) > 0 then (sb s3)\<lparr>free_blocks := free_blocks (sb s3) - 1\<rparr> else sb s3)"
  have g: "same_geometry (sb fs) (sb s3)"
    using 3(2) [OF ub] 1(1) ticksD(2) [OF tick] by (auto simp: frame_def same_geometry_def)
  have k: "keeps s3 ((write_superblock (s3\<lparr>sb := s\<rparr>))\<lparr>next_free_block := b + 1\<rparr>)"
    using frame_ok [OF 3(2) [OF ub]] g assms
    by (intro write_superblock_keeps) (auto simp: s_def same_geometry_def)
  have eq: "take_block fs b = (b, (write_superblock (s3\<lparr>sb := s\<rparr>))\<lparr>next_free_block := b + 1\<rparr>)"
    using tmp_buffer_ok [OF frame_ok [OF 1(1)], folded s2_def]
    by (simp add: take_block_def Let_def flip: s1_def s2_def s3_def) (auto simp: s_def)
  then show "r = b" using t by simp
  show "frame fs fs'"
    using frame_trans [OF 1(1) frame_trans [OF _ frame_trans [OF 3(2) [OF ub]]]] ticksD(7) [OF tick] k eq t frame_ok [OF 1(1)]
    by (auto simp: keeps_def)
  show "block_at fs' = (block_at fs)(b := (\<lambda>_. 0))" "used_block fs' = (used_block fs)(b := True)"
    using k eq t 3(3,4) [OF ub] ticksD(4,5) [OF tick] 1(2,3) by (auto simp: keeps_def fun_eq_iff)
qed

definition fresh_block :: "lufirafs \<Rightarrow> nat \<Rightarrow> lufirafs \<Rightarrow> bool" where
  "fresh_block fs b fs' \<longleftrightarrow> data_start (sb fs) \<le> b \<and> b < total_blocks (sb fs) \<and> \<not> used_block fs b \<and> frame fs fs' \<and>
     block_at fs' = (block_at fs)(b := (\<lambda>_. 0)) \<and> used_block fs' = (used_block fs)(b := True)"

lemma alloc_block_ok:
  assumes "fs_ok fs" "alloc_block fs = (b, fs')"
  shows "b = 0 \<and> fs' = fs \<and> disk_full fs \<or> b \<noteq> 0 \<and> fresh_block fs b fs'"
proof -
  have range: "0 < data_start (sb fs)" "data_start (sb fs) \<le> next_free_block fs" "next_free_block fs \<le> total_blocks (sb fs)"
    using assms(1) by (auto simp: fs_ok_def geometry_def)
  have taken: "b \<noteq> 0 \<and> fresh_block fs b fs'"
    if "take_block fs x = (b, fs')" "data_start (sb fs) \<le> x" "x < total_blocks (sb fs)" "\<not> block_bitmap_test fs x" for x
    using take_block_ok [OF assms(1) that(2,3,1)] that(2-4) range(1) by (auto simp: fresh_block_def used_block_def)
  let ?f = "\<lambda>b. \<not> block_bitmap_test fs b"
  show ?thesis
  proof (cases "first_in ?f (next_free_block fs) (total_blocks (sb fs))")
    case (Some x)
    then show ?thesis using taken [of x] assms(2) range Some [unfolded first_in_Some] by (simp add: alloc_block_def)
  next
    case None
    show ?thesis
    proof (cases "first_in ?f (data_start (sb fs)) (next_free_block fs)")
      case (Some x)
      then show ?thesis using taken [of x] assms(2) range Some [unfolded first_in_Some] None by (simp add: alloc_block_def)
    next
      case None2: None
      have "block_bitmap_test fs x" if "data_start (sb fs) \<le> x" "x < total_blocks (sb fs)" for x
        using None None2 that by (cases "x < next_free_block fs") (auto simp: first_in_None)
      then show ?thesis using assms(2) None None2 by (simp add: alloc_block_def disk_full_def used_block_def)
    qed
  qed
qed

section \<open>Block pointers and contents\<close>

text \<open>
  The slots of a file: its data blocks by index, and one more for the indirect
  block. The contents of a file is a byte per offset, zero where there is no block.
\<close>

abbreviation INDIRECT_SLOT :: nat where "INDIRECT_SLOT \<equiv> 2060"

definition ptr_at :: "lufirafs \<Rightarrow> lfs_inode \<Rightarrow> nat \<Rightarrow> nat" where
  "ptr_at fs n k =
    (if k < 12 then i_direct n ! k
     else if i_indirect n = 0 \<or> k \<ge> INDIRECT_SLOT then 0 else load32 (block_at fs (i_indirect n)) (4 * (k - 12)))"

definition slot_at :: "lufirafs \<Rightarrow> lfs_inode \<Rightarrow> nat \<Rightarrow> nat" where
  "slot_at fs n k = (if k = INDIRECT_SLOT then i_indirect n else ptr_at fs n k)"

definition content :: "lufirafs \<Rightarrow> lfs_inode \<Rightarrow> nat \<Rightarrow> u8" where
  "content fs n off = (let b = ptr_at fs n (off div 8192) in if b = 0 then 0 else block_at fs b (off mod 8192))"

text \<open>The files \<open>T\<close> own their blocks: in range, marked in the bitmap, and no block in two slots.\<close>

definition owned :: "lufirafs \<Rightarrow> (nat \<Rightarrow> lfs_inode) \<Rightarrow> bool" where
  "owned fs T \<longleftrightarrow>
     (\<forall>i. length (i_direct (T i)) = 12) \<and>
     (\<forall>i k. slot_at fs (T i) k \<noteq> 0 \<longrightarrow> used_block fs (slot_at fs (T i) k)) \<and>
     (\<forall>i k j l. slot_at fs (T i) k = slot_at fs (T j) l \<longrightarrow> slot_at fs (T i) k = 0 \<or> (i = j \<and> k = l))"

lemma owned_length: "owned fs T \<Longrightarrow> length (i_direct (T i)) = 12"
  by (simp add: owned_def)

lemma owned_used: "owned fs T \<Longrightarrow> slot_at fs (T i) k \<noteq> 0 \<Longrightarrow> used_block fs (slot_at fs (T i) k)"
  by (simp add: owned_def)

lemma owned_inj: "owned fs T \<Longrightarrow> slot_at fs (T i) k = slot_at fs (T j) l \<Longrightarrow> slot_at fs (T i) k \<noteq> 0 \<Longrightarrow> i = j \<and> k = l"
  unfolding owned_def by metis

lemma owned_ptr_used: "owned fs T \<Longrightarrow> ptr_at fs (T i) k \<noteq> 0 \<Longrightarrow> used_block fs (ptr_at fs (T i) k)"
  using owned_used [of fs T i k] by (auto simp: slot_at_def ptr_at_def split: if_splits)

lemma owned_indirect_used: "owned fs T \<Longrightarrow> i_indirect (T i) \<noteq> 0 \<Longrightarrow> used_block fs (i_indirect (T i))"
  using owned_used [of fs T i INDIRECT_SLOT] by (simp add: slot_at_def)

text \<open>Only the indirect block of a file determines its slots.\<close>

lemma slot_at_cong:
  "block_at fs' (i_indirect n) = block_at fs (i_indirect n) \<Longrightarrow> slot_at fs' n k = slot_at fs n k"
  by (simp add: slot_at_def ptr_at_def)

lemma ptr_at_slot: "k \<noteq> INDIRECT_SLOT \<Longrightarrow> ptr_at fs n k = slot_at fs n k"
  by (simp add: slot_at_def)

lemma content_slot:
  "content fs n off = (if off div 8192 = INDIRECT_SLOT \<or> slot_at fs n (off div 8192) = 0 then 0
     else block_at fs (slot_at fs n (off div 8192)) (off mod 8192))"
  by (auto simp: content_def slot_at_def ptr_at_def Let_def)

text \<open>A fresh block is in no slot, so that taking it leaves slots and contents as they are.\<close>

lemma fresh_block_files:
  assumes "owned fs T" "fresh_block fs b fs'"
  shows "slot_at fs' (T i) k = slot_at fs (T i) k" "content fs' (T i) off = content fs (T i) off"
    "slot_at fs (T i) k \<noteq> b" "owned fs' T"
proof -
  have nb: "slot_at fs (T i) k \<noteq> b" for i k
  proof
    assume "slot_at fs (T i) k = b"
    moreover have "b \<noteq> 0 \<or> \<not> used_block fs 0" using assms(2) by (auto simp: fresh_block_def)
    moreover have "b \<noteq> 0"
      using assms(2) by (auto simp: fresh_block_def frame_def fs_ok_def geometry_def same_geometry_def)
    ultimately show False using owned_used [OF assms(1), of i k] assms(2) by (simp add: fresh_block_def)
  qed
  have blk: "block_at fs' x = block_at fs x" if "x \<noteq> b" for x using assms(2) that by (simp add: fresh_block_def)
  have s: "slot_at fs' (T i) k = slot_at fs (T i) k" for i k
    by (rule slot_at_cong, rule blk) (use nb [of i INDIRECT_SLOT] in \<open>simp add: slot_at_def\<close>)
  show "slot_at fs' (T i) k = slot_at fs (T i) k" "slot_at fs (T i) k \<noteq> b" by (rule s, rule nb)
  show "content fs' (T i) off = content fs (T i) off" using nb by (simp add: content_slot s blk)
  show "owned fs' T" using assms by (auto simp: owned_def s fresh_block_def)
qed

subsection \<open>Steps that keep every file as it reads\<close>

definition attrs :: "lfs_inode \<Rightarrow> lfs_inode" where
  "attrs n = n\<lparr>i_direct := [], i_indirect := 0\<rparr>"

definition keeps_files :: "lufirafs \<Rightarrow> (nat \<Rightarrow> lfs_inode) \<Rightarrow> lufirafs \<Rightarrow> (nat \<Rightarrow> lfs_inode) \<Rightarrow> bool" where
  "keeps_files fs T fs' T' \<longleftrightarrow> frame fs fs' \<and> owned fs' T' \<and>
     (\<forall>i. content fs' (T' i) = content fs (T i) \<and> attrs (T' i) = attrs (T i))"

lemma keeps_files_trans: "keeps_files fs T fs1 T1 \<Longrightarrow> keeps_files fs1 T1 fs2 T2 \<Longrightarrow> keeps_files fs T fs2 T2"
  by (auto simp: keeps_files_def intro: frame_trans)

lemma keeps_slot: "keeps fs fs1 \<Longrightarrow> slot_at fs1 = slot_at fs"
  by (intro ext) (simp add: keeps_def slot_at_def ptr_at_def)

lemma keeps_content: "keeps fs fs1 \<Longrightarrow> content fs1 = content fs"
  by (intro ext) (simp add: keeps_def content_def ptr_at_def Let_def)

lemma keeps_keeps_files: "keeps fs fs1 \<Longrightarrow> owned fs T \<Longrightarrow> keeps_files fs T fs1 T"
  using keeps_slot [of fs fs1] keeps_content [of fs fs1] by (auto simp: keeps_files_def keeps_def owned_def)

lemma ticks_keeps_files: "fs_ok fs \<Longrightarrow> ticks fs fs1 \<Longrightarrow> owned fs T \<Longrightarrow> keeps_files fs T fs1 T"
  by (intro keeps_keeps_files ticks_keeps)

text \<open>An empty slot gets a zeroed block that no file has: all files read as before.\<close>

lemma fill_slot_keeps_files:
  assumes own: "owned fs T" and frame: "frame fs fs'" and b: "b \<noteq> 0" "data_start (sb fs) \<le> b" "b < total_blocks (sb fs)"
    "\<not> used_block fs b" and used: "used_block fs' = (used_block fs)(b := True)"
    and zero: "block_at fs' b = (\<lambda>_. 0)" and empty: "slot_at fs (T ino) k0 = 0"
    and slots: "\<And>i k. slot_at fs' (T' i) k = (if i = ino \<and> k = k0 then b else slot_at fs (T i) k)"
    and data: "\<And>i k. k \<noteq> INDIRECT_SLOT \<Longrightarrow> slot_at fs (T i) k \<noteq> 0 \<Longrightarrow> block_at fs' (slot_at fs (T i) k) = block_at fs (slot_at fs (T i) k)"
    and attrs: "\<And>i. attrs (T' i) = attrs (T i)" "\<And>i. length (i_direct (T' i)) = 12"
  shows "keeps_files fs T fs' T'"
proof -
  have nb: "slot_at fs (T i) k \<noteq> b" for i k
    using owned_used [OF own, of i k] b by auto
  have "owned fs' T'"
    unfolding owned_def
  proof (intro conjI allI impI)
    show "length (i_direct (T' i)) = 12" for i by (rule attrs)
    show "used_block fs' (slot_at fs' (T' i) k)" if "slot_at fs' (T' i) k \<noteq> 0" for i k
      using that owned_used [OF own, of i k] by (auto simp: slots used)
    show "slot_at fs' (T' i) k = 0 \<or> i = j \<and> k = l" if "slot_at fs' (T' i) k = slot_at fs' (T' j) l" for i k j l
    proof (cases "i = ino \<and> k = k0")
      case True
      then show ?thesis using that nb [of j l] by (auto simp: slots split: if_splits)
    next
      case False
      then show ?thesis using that nb [of i k] owned_inj [OF own, of i k j l] by (auto simp: slots split: if_splits)
    qed
  qed
  moreover have "content fs' (T' i) off = content fs (T i) off" for i off
    using data [of "off div 8192" i] empty b(1) by (auto simp: content_slot slots zero)
  ultimately show ?thesis using frame attrs by (simp add: keeps_files_def fun_eq_iff)
qed

lemma load32_zero: "load32 (\<lambda>_. 0) a = 0"
  by (simp add: load32_def)

lemma fresh_block_bounds:
  assumes "fresh_block fs b fs'"
  shows "0 < b" "data_start (sb fs) \<le> b" "b < total_blocks (sb fs)" "\<not> used_block fs b" "frame fs fs'"
    "used_block fs' = (used_block fs)(b := True)" "block_at fs' b = (\<lambda>_. 0)" "b < 2 ^ 32"
  using assms by (auto simp: fresh_block_def frame_def fs_ok_def geometry_def same_geometry_def)

lemma set_direct_keeps_files:
  assumes "owned fs T" "fresh_block fs b fs'" "T ino = n" "k < 12" "i_direct n ! k = 0"
  shows "keeps_files fs T fs' (T(ino := n\<lparr>i_direct := (i_direct n)[k := b]\<rparr>))"
proof (rule fill_slot_keeps_files [of fs T fs' b ino k])
  have len: "length (i_direct n) = 12" using owned_length [OF assms(1), of ino] assms(3) by simp
  show "slot_at fs (T ino) k = 0" using assms by (simp add: slot_at_def ptr_at_def)
  show "slot_at fs' ((T(ino := n\<lparr>i_direct := (i_direct n)[k := b]\<rparr>)) i) l = (if i = ino \<and> l = k then b else slot_at fs (T i) l)" for i l
    using fresh_block_files(1) [OF assms(1,2), of i l] assms(3-5) len
    by (auto simp: slot_at_def ptr_at_def nth_list_update)
  show "block_at fs' (slot_at fs (T i) l) = block_at fs (slot_at fs (T i) l)" for i l
    using fresh_block_files(3) [OF assms(1,2), of i l] assms(2) by (simp add: fresh_block_def)
qed (use fresh_block_bounds [OF assms(2)] assms owned_length [OF assms(1)] in \<open>auto simp: attrs_def\<close>)

lemma set_indirect_keeps_files:
  assumes "owned fs T" "fresh_block fs b fs'" "T ino = n" "i_indirect n = 0"
  shows "keeps_files fs T fs' (T(ino := n\<lparr>i_indirect := b\<rparr>))"
proof (rule fill_slot_keeps_files [of fs T fs' b ino INDIRECT_SLOT])
  show "slot_at fs (T ino) INDIRECT_SLOT = 0" using assms by (simp add: slot_at_def)
  show "slot_at fs' ((T(ino := n\<lparr>i_indirect := b\<rparr>)) i) l = (if i = ino \<and> l = INDIRECT_SLOT then b else slot_at fs (T i) l)" for i l
    using fresh_block_files(1) [OF assms(1,2), of i l] assms(3,4) fresh_block_bounds(7) [OF assms(2)]
    by (auto simp: slot_at_def ptr_at_def load32_zero)
  show "block_at fs' (slot_at fs (T i) l) = block_at fs (slot_at fs (T i) l)" for i l
    using fresh_block_files(3) [OF assms(1,2), of i l] assms(2) by (simp add: fresh_block_def)
qed (use fresh_block_bounds [OF assms(2)] assms owned_length [OF assms(1)] in \<open>auto simp: attrs_def\<close>)

text \<open>The entry of the indirect block is stored in a copy of the block as it was.\<close>

lemma set_entry_keeps_files:
  assumes own: "owned fs T" and fresh: "fresh_block fs b fs1" and n: "T ino = n" "i_indirect n \<noteq> 0" "idx < 2048"
    and zero: "load32 (block_at fs (i_indirect n)) (4 * idx) = 0"
    and buf: "\<And>i. i < 8192 \<Longrightarrow> buf i = block_at fs (i_indirect n) i"
    and fs2: "fs2 = snd (write_data_block fs1 (i_indirect n) (store32 buf (4 * idx) b))"
  shows "keeps_files fs T fs2 T" "ptr_at fs2 n (idx + 12) = b"
proof -
  let ?ib = "i_indirect n"
  note fb = fresh_block_bounds [OF fresh]
  have uib: "used_block fs ?ib" using owned_indirect_used [OF own, of ino] n by simp
  then have "used_block fs1 ?ib" by (simp add: fb)
  note w = write_data_block_ok [OF frame_ok [OF fb(5)] this fs2]
  have ib_b: "?ib \<noteq> b" using uib fb(4) by auto
  have blk: "block_at fs2 x = block_at fs x" if "x \<noteq> ?ib" "x \<noteq> b" for x
    using w(4) that fresh by (simp add: fresh_block_def)
  have entry: "load32 (block_at fs2 ?ib) (4 * l) = (if l = idx then b else load32 (block_at fs ?ib) (4 * l))" if "l < 2048" for l
  proof -
    have "load32 (block_at fs2 ?ib) (4 * l) = load32 (store32 buf (4 * idx) b) (4 * l)"
      by (rule load32_cong) (use that in \<open>simp add: w(4)\<close>)
    moreover have "load32 buf (4 * l) = load32 (block_at fs ?ib) (4 * l)"
      by (rule load32_cong) (use that in \<open>simp add: buf\<close>)
    moreover have "l \<noteq> idx \<Longrightarrow> load32 (store32 buf (4 * idx) b) (4 * l) = load32 buf (4 * l)"
      by (rule load32_store32_other) linarith
    ultimately show ?thesis using fb(8) by (auto simp: load32_store32_same)
  qed
  have slots: "slot_at fs2 (T i) l = (if i = ino \<and> l = idx + 12 then b else slot_at fs (T i) l)" for i l
  proof (cases "i = ino")
    case True
    then show ?thesis using n entry [of "l - 12"] by (auto simp: slot_at_def ptr_at_def)
  next
    case False
    then have "i_indirect (T i) \<noteq> ?ib"
      using owned_inj [OF own, of ino INDIRECT_SLOT i INDIRECT_SLOT] n by (auto simp: slot_at_def)
    moreover have "i_indirect (T i) \<noteq> b"
      using fresh_block_files(3) [OF own fresh, of i INDIRECT_SLOT] by (simp add: slot_at_def)
    ultimately show ?thesis using False slot_at_cong [OF blk] by auto
  qed
  show "ptr_at fs2 n (idx + 12) = b" using slots [of ino "idx + 12"] n by (simp add: slot_at_def)
  show "keeps_files fs T fs2 T"
  proof (rule fill_slot_keeps_files [of fs T fs2 b ino "idx + 12", OF own _ _ fb(2-4)])
    show "slot_at fs (T ino) (idx + 12) = 0" using n zero by (simp add: slot_at_def ptr_at_def)
    show "block_at fs2 (slot_at fs (T i) l) = block_at fs (slot_at fs (T i) l)"
      if "l \<noteq> INDIRECT_SLOT" "slot_at fs (T i) l \<noteq> 0" for i l
    proof (rule blk)
      show "slot_at fs (T i) l \<noteq> ?ib"
        using owned_inj [OF own, of i l ino INDIRECT_SLOT] that n by (auto simp: slot_at_def)
      show "slot_at fs (T i) l \<noteq> b" by (rule fresh_block_files(3) [OF own fresh])
    qed
    show "frame fs fs2" by (rule frame_trans [OF fb(5) w(2)])
    show "block_at fs2 b = (\<lambda>_. 0)" using w(4) ib_b fb(7) by simp
  qed (use fb w(3) slots owned_length [OF own] in auto)
qed

subsection \<open>Finding and creating the block of an offset\<close>

lemma ticks_ooms: "ticks fs (fs\<lparr>ooms := k\<rparr>)"
  unfolding ticks_def by (rule exI [of _ "ios fs"]) auto

lemma ticks_ios: "ticks fs (fs\<lparr>ios := k\<rparr>)"
  unfolding ticks_def by (rule exI [of _ k], rule exI [of _ "ooms fs"]) simp

lemma fresh_ticks: "ticks fs fs1 \<Longrightarrow> fresh_block fs1 b fs2 \<Longrightarrow> fresh_block fs b fs2"
  using ticksD [of fs fs1] by (auto simp: fresh_block_def frame_def)

text \<open>What one call of \<open>inode_get_block\<close> on the file \<open>ino\<close> of \<open>T\<close> gives.\<close>

definition get_block_post ::
  "lufirafs \<Rightarrow> (nat \<Rightarrow> lfs_inode) \<Rightarrow> nat \<Rightarrow> nat \<Rightarrow> bool \<Rightarrow> nat \<Rightarrow> lfs_inode \<Rightarrow> lufirafs \<Rightarrow> bool" where
  "get_block_post fs T ino k create bn n1 fs1 \<longleftrightarrow>
     keeps_files fs T fs1 (T(ino := n1)) \<and> ptr_at fs1 n1 k = bn \<and> (create \<and> bn = 0 \<longrightarrow> disk_full fs1) \<and>
     (\<not> create \<longrightarrow> n1 = T ino \<and> ticks fs fs1 \<and> bn = ptr_at fs (T ino) k)"

lemma indirect_get_block_ok:
  assumes ok: "fs_ok fs" "owned fs T" and n: "T ino = n" "i_indirect n \<noteq> 0" "idx < 2048"
    and g: "indirect_get_block fs n idx create = (bn, n1, fs1)"
  shows "get_block_post fs T ino (idx + 12) create bn n1 fs1"
proof -
  let ?fs1 = "fs\<lparr>ooms := ooms fs + 1\<rparr>"
  have t1: "ticks fs ?fs1" by (rule ticks_ooms)
  have "used_block ?fs1 (i_indirect n)"
    using owned_indirect_used [OF ok(2), of ino] n ticksD(5) [OF t1] by simp
  with ok(1) ticksD(1) [OF t1] obtain buf where
    rd: "read_data_block ?fs1 (i_indirect n) = (Some buf, ?fs1\<lparr>ios := ios ?fs1 + 1\<rparr>)"
    and buf0: "\<And>i. i < 8192 \<Longrightarrow> buf i = block_at ?fs1 (i_indirect n) i"
    by (metis read_data_block_ok)
  define s2 where "s2 = ?fs1\<lparr>ios := ios ?fs1 + 1\<rparr>"
  have t2: "ticks fs s2" unfolding s2_def by (rule ticks_trans [OF t1 ticks_ios])
  have buf: "buf i = block_at fs (i_indirect n) i" if "i < 8192" for i
    using buf0 [OF that] ticksD(4) [OF t1] by simp
  have val: "load32 buf (4 * idx) = load32 (block_at fs (i_indirect n)) (4 * idx)"
    by (rule load32_cong) (use n in \<open>simp add: buf\<close>)
  then have ptr: "ptr_at fs n (idx + 12) = load32 buf (4 * idx)" using n by (simp add: ptr_at_def)
  have body0: "indirect_get_block fs n idx create = (if load32 buf (4 * idx) = 0 \<and> create
     then (case alloc_block s2 of (nb, fs3) \<Rightarrow>
        if nb \<noteq> 0 then (nb, n, snd (write_data_block fs3 (i_indirect n) (store32 buf (4 * idx) nb))) else (0, n, fs3))
     else (load32 buf (4 * idx), n, s2))"
    using tmp_buffer_ok [OF ok(1)] rd by (auto simp: indirect_get_block_def s2_def Let_def split: prod.splits)
  note body = body0 [unfolded g]
  have T: "T(ino := n) = T" using n by auto
  have ptr2: "ptr_at s2 n k = ptr_at fs n k" for k by (simp add: ptr_at_def ticksD(4) [OF t2])
  show ?thesis
  proof (cases "load32 buf (4 * idx) = 0 \<and> create")
    case False
    then have "(bn, n1, fs1) = (load32 buf (4 * idx), n, s2)" using body by (simp only: if_False)
    then show ?thesis
      using ticks_keeps_files [OF ok(1) t2 ok(2)] ptr ptr2 T t2 n False by (auto simp: get_block_post_def)
  next
    case True
    obtain nb fs3 where a: "alloc_block s2 = (nb, fs3)" by fastforce
    have ok2: "fs_ok s2" using ok(1) ticksD(1) [OF t2] by simp
    show ?thesis
    proof (cases "nb = 0")
      case nb: True
      then have "fs3 = s2" "disk_full s2" using alloc_block_ok [OF ok2 a] by auto
      moreover have "(bn, n1, fs1) = (0, n, fs3)" using body True nb a by simp
      ultimately show ?thesis
        using ticks_keeps_files [OF ok(1) t2 ok(2)] ptr ptr2 T True by (simp add: get_block_post_def)
    next
      case nb: False
      then have fresh: "fresh_block fs nb fs3" using alloc_block_ok [OF ok2 a] fresh_ticks [OF t2] by auto
      have "(bn, n1, fs1) = (nb, n, snd (write_data_block fs3 (i_indirect n) (store32 buf (4 * idx) nb)))"
        using body True nb a by simp
      then show ?thesis
        using set_entry_keeps_files [OF ok(2) fresh n _ buf refl] True val T nb by (simp add: get_block_post_def)
    qed
  qed
qed

lemma inode_get_block_ok:
  assumes ok: "fs_ok fs" "owned fs T" and n: "T ino = n" and k: "k < 2060"
    and g: "inode_get_block fs n k create = (bn, n1, fs1)"
  shows "get_block_post fs T ino k create bn n1 fs1"
proof -
  have T: "T(ino := n) = T" using n by auto
  have len: "length (i_direct n) = 12" using owned_length [OF ok(2), of ino] n by simp
  have refl: "keeps_files fs T fs T" by (rule ticks_keeps_files [OF ok(1) ticks_refl ok(2)])
  obtain nb fs2 where a: "alloc_block fs = (nb, fs2)" by fastforce
  note al = alloc_block_ok [OF ok(1) a]
  show ?thesis
  proof (cases "k < 12")
    case True
    show ?thesis
    proof (cases "i_direct n ! k = 0 \<and> create")
      case False
      then have "(bn, n1, fs1) = (i_direct n ! k, n, fs)" using g True by (auto simp: inode_get_block_def)
      then show ?thesis using refl T True False n by (auto simp: get_block_post_def ptr_at_def ticks_refl)
    next
      case create: True
      show ?thesis
      proof (cases "nb = 0")
        case nb: True
        then have "(bn, n1, fs1) = (0, n, fs)" using g True create a al by (auto simp: inode_get_block_def)
        then show ?thesis using refl T True create al nb by (auto simp: get_block_post_def ptr_at_def)
      next
        case nb: False
        then have "(bn, n1, fs1) = (nb, n\<lparr>i_direct := (i_direct n)[k := nb]\<rparr>, fs2)"
          using g True create a by (auto simp: inode_get_block_def)
        then show ?thesis
          using set_direct_keeps_files [OF ok(2) _ n True] al nb create len True
          by (auto simp: get_block_post_def ptr_at_def)
      qed
    qed
  next
    case False
    then have idx: "k - 12 < 2048" "(k - 12) + 12 = k" using k by auto
    show ?thesis
    proof (cases "i_indirect n = 0")
      case ind: False
      then have "indirect_get_block fs n (k - 12) create = (bn, n1, fs1)"
        using g False idx(1) ind by (auto simp: inode_get_block_def LUFIRAFS_PTRS_PER_BLOCK_def)
      from indirect_get_block_ok [OF ok n ind idx(1) this] show ?thesis by (simp add: idx)
    next
      case ind: True
      have zero: "ptr_at fs n k = 0" using False ind by (simp add: ptr_at_def)
      show ?thesis
      proof (cases "create \<and> nb \<noteq> 0")
        case False2: False
        then have "(bn, n1, fs1) = (0, n, fs)" "create \<longrightarrow> disk_full fs"
          using g False idx(1) ind a al by (auto simp: inode_get_block_def LUFIRAFS_PTRS_PER_BLOCK_def split: if_splits)
        then show ?thesis using refl T zero n by (auto simp: get_block_post_def ticks_refl)
      next
        case True
        let ?n = "n\<lparr>i_indirect := nb\<rparr>" and ?T = "T(ino := n\<lparr>i_indirect := nb\<rparr>)"
        have "indirect_get_block fs2 ?n (k - 12) create = (bn, n1, fs1)"
          using g False idx(1) ind True a by (auto simp: inode_get_block_def LUFIRAFS_PTRS_PER_BLOCK_def split: if_splits)
        moreover have kf: "keeps_files fs T fs2 ?T"
          using set_indirect_keeps_files [OF ok(2) _ n ind] al True by auto
        moreover have "fs_ok fs2" "owned fs2 ?T" using kf by (auto simp: keeps_files_def frame_def)
        ultimately have "get_block_post fs2 ?T ino k create bn n1 fs1"
          using indirect_get_block_ok [of fs2 ?T ino ?n "k - 12" create bn n1 fs1] True idx by simp
        then show ?thesis using keeps_files_trans [OF kf] True by (auto simp: get_block_post_def)
      qed
    qed
  qed
qed

subsection \<open>Reading\<close>

lemma inode_get_block_lookup:
  assumes "fs_ok fs" "owned fs T" "T ino = n"
  obtains fs1 where "inode_get_block fs n k False = (ptr_at fs n k, n, fs1)" "ticks fs fs1"
proof (cases "k < 2060")
  case True
  obtain bn n1 fs1 where g: "inode_get_block fs n k False = (bn, n1, fs1)"
    by (cases "inode_get_block fs n k False") auto
  from inode_get_block_ok [OF assms True g] show ?thesis
    using that assms(3) g by (simp add: get_block_post_def)
next
  case False
  then have "inode_get_block fs n k False = (ptr_at fs n k, n, fs)"
    by (auto simp: inode_get_block_def ptr_at_def LUFIRAFS_PTRS_PER_BLOCK_def)
  then show ?thesis using that ticks_refl by blast
qed

lemma chunk_content:
  assumes "i < min (8192 - pos mod 8192) (r :: nat)"
  shows "(pos + i) div 8192 = pos div 8192" "(pos + i) mod 8192 = pos mod 8192 + i"
    "pos mod 8192 + i < 8192"
proof -
  have "pos = 8192 * (pos div 8192) + pos mod 8192" by simp
  then have eq: "pos + i = 8192 * (pos div 8192) + (pos mod 8192 + i)" by linarith
  have "i < 8192 - pos mod 8192" using assms by simp
  then have less: "pos mod 8192 + i < 8192" by linarith
  have "(8192 * q + s) div 8192 = q \<and> (8192 * q + s) mod 8192 = s" if "s < 8192" for q s :: nat
    using that by simp
  from this [OF less, of "pos div 8192"]
  show "(pos + i) div 8192 = pos div 8192" "(pos + i) mod 8192 = pos mod 8192 + i"
    unfolding eq [symmetric] by simp_all
  show "pos mod 8192 + i < 8192" by (rule less)
qed

lemma read_chunk:
  assumes "fs_ok fs" "owned fs T" "T ino = n" "ticks fs fs1" "chunk = min (8192 - pos mod 8192) r"
  obtains res fs2 where
    "(if ptr_at fs n (pos div 8192) = 0 then (None, fs1) else read_data_block fs1 (ptr_at fs n (pos div 8192))) = (res, fs2)"
    "ticks fs fs2"
    "(case res of None \<Rightarrow> replicate chunk 0 | Some buf \<Rightarrow> map (\<lambda>i. buf (pos mod 8192 + i)) [0..<chunk])
       = map (content fs n) [pos..<pos + chunk]"
proof (cases "ptr_at fs n (pos div 8192) = 0")
  case True
  have "content fs n (pos + i) = 0" if "i < chunk" for i
    using chunk_content(1) [of i pos r] that assms(5) True by (simp add: content_def)
  then have "replicate chunk 0 = map (content fs n) [pos..<pos + chunk]"
    by (intro nth_equalityI) auto
  then show ?thesis using that [of None fs1] True assms(4) by simp
next
  case False
  let ?bn = "ptr_at fs n (pos div 8192)"
  have "fs_ok fs1" "used_block fs1 ?bn"
    using assms ticksD(1,5) [OF assms(4)] owned_ptr_used [OF assms(2), of ino] False by auto
  then obtain buf where rd: "read_data_block fs1 ?bn = (Some buf, fs1\<lparr>ios := ios fs1 + 1\<rparr>)"
    and buf: "\<And>i. i < 8192 \<Longrightarrow> buf i = block_at fs1 ?bn i" using read_data_block_ok by metis
  have "buf (pos mod 8192 + i) = content fs n (pos + i)" if "i < chunk" for i
    using chunk_content [of i pos r] that assms(5) False buf [of "pos mod 8192 + i"] ticksD(4) [OF assms(4)]
    by (simp add: content_def Let_def)
  then have "map (\<lambda>i. buf (pos mod 8192 + i)) [0..<chunk] = map (content fs n) [pos..<pos + chunk]"
    by (intro nth_equalityI) auto
  then show ?thesis
    using that [of "Some buf" "fs1\<lparr>ios := ios fs1 + 1\<rparr>"] False rd ticks_trans [OF assms(4) ticks_ios] by simp
qed

lemma read_loop_ok:
  assumes "fs_ok fs" "owned fs T" "T ino = n" "pos + r < 2 ^ 32"
  shows "\<exists>fs'. read_loop fs n pos r = (map (content fs n) [pos..<pos + r], fs') \<and> ticks fs fs'"
  using assms
proof (induction r arbitrary: fs pos rule: less_induct)
  case (less r)
  show ?case
  proof (cases "r = 0")
    case True
    then show ?thesis using ticks_refl [of fs] by (simp add: read_loop.simps [of fs n pos 0])
  next
    case False
    define chunk where "chunk = min (8192 - pos mod 8192) r"
    have chunk: "0 < chunk" "chunk \<le> r" using False by (auto simp: chunk_def)
    obtain fs1 where g: "inode_get_block fs n (pos div 8192) False = (ptr_at fs n (pos div 8192), n, fs1)" "ticks fs fs1"
      by (rule inode_get_block_lookup [OF less.prems(1-3)])
    obtain res fs2 where rd:
      "(if ptr_at fs n (pos div 8192) = 0 then (None, fs1) else read_data_block fs1 (ptr_at fs n (pos div 8192))) = (res, fs2)"
      and t2: "ticks fs fs2"
      and out: "(case res of None \<Rightarrow> replicate chunk 0 | Some buf \<Rightarrow> map (\<lambda>i. buf (pos mod 8192 + i)) [0..<chunk])
       = map (content fs n) [pos..<pos + chunk]"
      using read_chunk [OF less.prems(1-3) g(2) chunk_def] by blast
    have keep: "keeps fs fs2" by (rule ticks_keeps [OF less.prems(1) t2])
    then have "owned fs2 T" using keeps_keeps_files [OF keep less.prems(2)] by (simp add: keeps_files_def)
    moreover have c2: "content fs2 n = content fs n" by (simp add: keeps_content [OF keep])
    ultimately obtain fs' where ih: "read_loop fs2 n (pos + chunk) (r - chunk) =
        (map (content fs n) [pos + chunk..<pos + r], fs')" "ticks fs2 fs'"
      using less.IH [of "r - chunk" fs2 "pos + chunk"] keeps_ok [OF keep] less.prems chunk by auto
    have "wrap32 (pos + chunk) = pos + chunk" using less.prems(4) chunk by (simp add: wrap32_def)
    then have "read_loop fs n pos r = (map (content fs n) [pos..<pos + chunk] @ map (content fs n) [pos + chunk..<pos + r], fs')"
      using False out by (cases res) (simp_all add: read_loop.simps [of fs n pos r] Let_def g rd ih chunk_def [symmetric])
    then have "read_loop fs n pos r = (map (content fs n) [pos..<pos + r], fs')"
      using chunk upt_add_eq_append [of pos "pos + chunk" "r - chunk"] by (simp flip: map_append)
    then show ?thesis using ticks_trans [OF t2 ih(2)] by blast
  qed
qed

subsection \<open>Writing\<close>

lemma ptr_at_cong: "block_at fs' = block_at fs \<Longrightarrow> ptr_at fs' = ptr_at fs"
  by (intro ext) (simp add: ptr_at_def)

lemma write_file_block:
  assumes ok: "fs_ok fs" "owned fs T" and bn: "ptr_at fs (T ino) k = bn" "bn \<noteq> 0"
    and fs': "fs' = snd (write_data_block fs bn buf)"
  shows "frame fs fs'" "owned fs' T"
    "content fs' (T i) off = (if i = ino \<and> off div 8192 = k then buf (off mod 8192) else content fs (T i) off)"
proof -
  have k: "k \<noteq> INDIRECT_SLOT" using bn by (auto simp: ptr_at_def split: if_splits)
  then have slot: "slot_at fs (T ino) k = bn" using bn by (simp add: slot_at_def)
  have used: "used_block fs bn" using owned_ptr_used [OF ok(2), of ino k] bn by simp
  note w = write_data_block_ok [OF ok(1) used fs']
  show "frame fs fs'" by (rule w)
  have "i_indirect (T j) \<noteq> bn" for j
    using owned_inj [OF ok(2), of ino k j INDIRECT_SLOT] slot bn k by (auto simp: slot_at_def)
  then have slots: "slot_at fs' (T j) l = slot_at fs (T j) l" for j l by (intro slot_at_cong) (simp add: w)
  show "owned fs' T" using ok(2) unfolding owned_def slots w(3) .
  have "slot_at fs (T i) l = bn \<longleftrightarrow> i = ino \<and> l = k" for l
    using owned_inj [OF ok(2), of ino k i l] slot bn(2) by metis
  then show "content fs' (T i) off = (if i = ino \<and> off div 8192 = k then buf (off mod 8192) else content fs (T i) off)"
    using k bn slot by (auto simp: content_slot slots w)
qed

text \<open>The effect of writing \<open>data\<close> at \<open>pos\<close> of the file \<open>ino\<close>: these bytes change and no others.\<close>

definition wrote ::
  "lufirafs \<Rightarrow> (nat \<Rightarrow> lfs_inode) \<Rightarrow> nat \<Rightarrow> nat \<Rightarrow> bytes \<Rightarrow> lfs_inode \<Rightarrow> lufirafs \<Rightarrow> bool" where
  "wrote fs T ino pos data n' fs' \<longleftrightarrow>
     frame fs fs' \<and> owned fs' (T(ino := n')) \<and> attrs n' = attrs (T ino) \<and>
     (\<forall>off. content fs' n' off =
        (if pos \<le> off \<and> off < pos + length data then data ! (off - pos) else content fs (T ino) off)) \<and>
     (\<forall>i. i \<noteq> ino \<longrightarrow> content fs' (T i) = content fs (T i))"

lemma keeps_wrote:
  assumes "keeps_files fs T fs' (T(ino := n'))"
  shows "wrote fs T ino pos [] n' fs'"
proof -
  have c: "content fs' ((T(ino := n')) i) = content fs (T i)" "attrs ((T(ino := n')) i) = attrs (T i)" for i
    using assms by (simp_all add: keeps_files_def)
  have "frame fs fs'" "owned fs' (T(ino := n'))" using assms by (simp_all add: keeps_files_def)
  moreover have "content fs' n' = content fs (T ino)" "attrs n' = attrs (T ino)" using c [of ino] by simp_all
  moreover have "content fs' (T i) = content fs (T i)" if "i \<noteq> ino" for i using c(1) [of i] that by simp
  ultimately show ?thesis by (auto simp: wrote_def)
qed

lemma wrote_append:
  assumes "wrote fs T ino pos d1 n1 fs1" "wrote fs1 (T(ino := n1)) ino (pos + length d1) d2 n2 fs2"
  shows "wrote fs T ino pos (d1 @ d2) n2 fs2"
proof -
  have "content fs2 n2 off = (if pos \<le> off \<and> off < pos + length (d1 @ d2) then (d1 @ d2) ! (off - pos)
      else content fs (T ino) off)" for off
    using assms by (auto simp: wrote_def nth_append diff_diff_left)
  then show ?thesis using assms by (auto simp: wrote_def intro: frame_trans)
qed

lemma wrote_ok: "wrote fs T ino pos d n' fs' \<Longrightarrow> fs_ok fs' \<and> owned fs' (T(ino := n'))"
  by (simp add: wrote_def frame_def)

text \<open>The block as it goes to disk: the old bytes outside the chunk, the new ones inside.\<close>

definition chunk_buffer :: "buffer \<Rightarrow> nat \<Rightarrow> bytes \<Rightarrow> nat \<Rightarrow> buffer" where
  "chunk_buffer old off data chunk =
     (if off \<noteq> 0 \<or> chunk \<noteq> 8192 then blit old off (\<lambda>i. data ! i) 0 chunk else blit (\<lambda>_. 0) 0 (\<lambda>i. data ! i) 0 chunk)"

lemma chunk_buffer_at:
  assumes "x < 8192"
  shows "chunk_buffer old off data chunk x = (if off \<le> x \<and> x < off + chunk then data ! (x - off) else old x)"
  using assms by (auto simp: chunk_buffer_def blit_def)

lemma in_chunk:
  assumes "chunk \<le> 8192 - pos mod 8192"
  shows "pos \<le> off \<and> off < pos + chunk \<longleftrightarrow>
    off div 8192 = pos div 8192 \<and> pos mod 8192 \<le> off mod 8192 \<and> off mod 8192 < pos mod 8192 + (chunk :: nat)"
    "pos \<le> off \<and> off < pos + chunk \<Longrightarrow> off - pos = off mod 8192 - pos mod 8192"
proof -
  let ?l = "pos \<le> off \<and> off < pos + chunk"
  let ?r = "off div 8192 = pos div 8192 \<and> pos mod 8192 \<le> off mod 8192 \<and> off mod 8192 < pos mod 8192 + chunk"
  have p: "pos = 8192 * (pos div 8192) + pos mod 8192" and o: "off = 8192 * (off div 8192) + off mod 8192" by simp_all
  have lr: "?r" if ?l
  proof -
    have "off - pos < min (8192 - pos mod 8192) chunk" using that assms by auto
    from chunk_content(1,2) [OF this] that show ?r by simp linarith
  qed
  have rl: "?l" if ?r
  proof -
    have "off div 8192 = pos div 8192" using that by simp
    then have "off = 8192 * (pos div 8192) + off mod 8192" using o by simp
    then show ?l using p that by linarith
  qed
  show "?l = ?r" using lr rl by blast
  show "off - pos = off mod 8192 - pos mod 8192" if ?l
  proof -
    have "off - pos < min (8192 - pos mod 8192) chunk" using that assms by auto
    from chunk_content(2) [OF this] that show ?thesis by simp
  qed
qed

lemma write_chunk_ok:
  assumes ok: "fs_ok fs" "owned fs T" and g: "get_block_post fs T ino (pos div 8192) True bn n1 fs1" and bn: "bn \<noteq> 0"
    and chunk: "chunk \<le> 8192 - pos mod 8192" "chunk \<le> length data"
    and fs2: "ticks fs1 fs2" and old: "pos mod 8192 \<noteq> 0 \<or> chunk \<noteq> 8192 \<Longrightarrow> (\<forall>i<8192. old i = block_at fs1 bn i)"
    and fs3: "fs3 = snd (write_data_block fs2 bn (chunk_buffer old (pos mod 8192) data chunk))"
  shows "wrote fs T ino pos (take chunk data) n1 fs3"
proof -
  let ?T = "T(ino := n1)"
  have kf: "keeps_files fs T fs1 ?T" and ptr: "ptr_at fs1 n1 (pos div 8192) = bn" using g by (auto simp: get_block_post_def)
  then have ok1: "fs_ok fs1" "owned fs1 ?T" by (auto simp: keeps_files_def frame_def)
  have kf2: "keeps_files fs T fs2 ?T" by (rule keeps_files_trans [OF kf ticks_keeps_files [OF ok1(1) fs2 ok1(2)]])
  then have ok2: "fs_ok fs2" "owned fs2 ?T" by (auto simp: keeps_files_def frame_def)
  have ptr2: "ptr_at fs2 (?T ino) (pos div 8192) = bn" using ptr ptr_at_cong [OF ticksD(4) [OF fs2]] by simp
  note w = write_file_block [where T = ?T, OF ok2 ptr2 bn fs3]
  have c2: "content fs2 (?T i) = content fs (T i)" for i using kf2 by (simp add: keeps_files_def)
  have "content fs3 n1 off = (if pos \<le> off \<and> off < pos + chunk then data ! (off - pos) else content fs (T ino) off)" for off
  proof (cases "off div 8192 = pos div 8192")
    case True
    have m: "off mod 8192 < 8192" by simp
    have "old (off mod 8192) = content fs (T ino) off"
      if "\<not> (pos mod 8192 \<le> off mod 8192 \<and> off mod 8192 < pos mod 8192 + chunk)"
    proof -
      have "pos mod 8192 \<noteq> 0 \<or> chunk \<noteq> 8192" using that by auto
      then have "old (off mod 8192) = block_at fs2 bn (off mod 8192)" using old ticksD(4) [OF fs2] by simp
      moreover have "content fs2 (?T ino) off = block_at fs2 bn (off mod 8192)"
        using ptr2 bn True by (simp add: content_def)
      ultimately show ?thesis by (simp only: c2)
    qed
    then show ?thesis
      using w(3) [of ino off] True in_chunk [OF chunk(1), of off] chunk_buffer_at [OF m, of old "pos mod 8192" data chunk]
      by auto
  next
    case False
    then show ?thesis using w(3) [of ino off] in_chunk(1) [OF chunk(1), of off] c2 [of ino] by auto
  qed
  moreover have "content fs3 (T i) = content fs (T i)" if "i \<noteq> ino" for i
    using w(3) [of i] c2 [of i] that by (simp add: fun_eq_iff)
  moreover have "attrs n1 = attrs (T ino)" using kf by (simp add: keeps_files_def) (metis fun_upd_same)
  ultimately show ?thesis
    using kf2 w(1,2) chunk(2) by (auto simp: wrote_def keeps_files_def intro: frame_trans)
qed

lemma write_loop_chunk:
  assumes ok: "fs_ok fs" "owned fs T" and n: "T ino = n" and data: "data \<noteq> []" "pos + length data \<le> 2060 * 8192"
    and chunk: "chunk = min (8192 - pos mod 8192) (length data)"
  obtains (full) n1 fs1 where "write_loop fs n pos data = (0, True, n1, fs1)" "wrote fs T ino pos [] n1 fs1" "disk_full fs1"
  | (step) n1 fs3 where "wrote fs T ino pos (take chunk data) n1 fs3"
      "write_loop fs n pos data = (case write_loop fs3 n1 (pos + chunk) (drop chunk data) of (w, full, n2, fs4) \<Rightarrow>
         (chunk + w, full, n2, fs4))"
proof -
  obtain bn n1 fs1 where g: "inode_get_block fs n (pos div 8192) True = (bn, n1, fs1)"
    by (cases "inode_get_block fs n (pos div 8192) True") auto
  have "pos < 2060 * 8192" using data by (cases data) auto
  then have "pos div 8192 < 2060" by (simp add: less_mult_imp_div_less)
  note post = inode_get_block_ok [OF ok n this g]
  note loop = write_loop.simps [of fs n pos data]
  show thesis
  proof (cases "bn = 0")
    case True
    then have "write_loop fs n pos data = (0, True, n1, fs1)" using data g by (simp add: loop Let_def)
    moreover have "wrote fs T ino pos [] n1 fs1" "disk_full fs1"
      using post True by (auto simp: get_block_post_def intro: keeps_wrote)
    ultimately show thesis by (rule full)
  next
    case False
    have ok1: "fs_ok fs1" "owned fs1 (T(ino := n1))" and ptr: "ptr_at fs1 n1 (pos div 8192) = bn"
      using post by (auto simp: get_block_post_def keeps_files_def frame_def)
    have "used_block fs1 bn" using owned_ptr_used [OF ok1(2), of ino "pos div 8192"] ptr False by simp
    then obtain buf where rd: "read_data_block fs1 bn = (Some buf, fs1\<lparr>ios := ios fs1 + 1\<rparr>)"
      and buf: "\<And>i. i < 8192 \<Longrightarrow> buf i = block_at fs1 bn i" using read_data_block_ok [OF ok1(1)] by metis
    define fs2 where "fs2 = (if pos mod 8192 \<noteq> 0 \<or> chunk \<noteq> 8192 then fs1\<lparr>ios := ios fs1 + 1\<rparr> else fs1)"
    define fs3 where "fs3 = snd (write_data_block fs2 bn (chunk_buffer buf (pos mod 8192) data chunk))"
    have t: "ticks fs1 fs2" by (simp add: fs2_def ticks_ios ticks_refl)
    have "write_loop fs n pos data = (case write_loop fs3 n1 (pos + chunk) (drop chunk data) of (w, full, n2, fs4) \<Rightarrow>
         (chunk + w, full, n2, fs4))"
      using data(1) g False rd
      by (simp only: loop Let_def chunk [symmetric]) (simp add: fs3_def fs2_def chunk_buffer_def)
    moreover have "wrote fs T ino pos (take chunk data) n1 fs3"
      by (rule write_chunk_ok [OF ok post False _ _ t _ fs3_def]) (simp_all add: chunk buf)
    ultimately show thesis using step by blast
  qed
qed

lemma write_loop_ok:
  assumes "fs_ok fs" "owned fs T" "T ino = n" "pos + length data \<le> 2060 * 8192"
  shows "\<exists>w full n' fs'. write_loop fs n pos data = (w, full, n', fs') \<and> w \<le> length data \<and>
    wrote fs T ino pos (take w data) n' fs' \<and> (if full then w < length data \<and> disk_full fs' else w = length data)"
  using assms
proof (induction data arbitrary: fs T n pos rule: length_induct)
  case (1 data)
  show ?case
  proof (cases "data = []")
    case True
    have "wrote fs T ino pos [] n fs"
      using keeps_wrote [of fs T fs ino n pos] ticks_keeps_files [OF 1(2) ticks_refl 1(3)] 1(4) by (metis fun_upd_triv)
    then show ?thesis using True by (auto simp: write_loop.simps [of fs n pos "[]"])
  next
    case False
    define chunk where "chunk = min (8192 - pos mod 8192) (length data)"
    have pos: "0 < chunk" "chunk \<le> length data" using False by (auto simp: chunk_def)
    from 1(2,3,4) False 1(5) chunk_def show ?thesis
    proof (cases rule: write_loop_chunk)
      case (full n1 fs1)
      then show ?thesis using False by auto
    next
      case (step n1 fs3)
      have "length (drop chunk data) < length data" using pos False by simp
      moreover have "fs_ok fs3" "owned fs3 (T(ino := n1))" using wrote_ok [OF step(1)] by auto
      ultimately obtain w full n' fs' where
        ih: "write_loop fs3 n1 (pos + chunk) (drop chunk data) = (w, full, n', fs')" "w \<le> length (drop chunk data)"
          "wrote fs3 (T(ino := n1)) ino (pos + chunk) (take w (drop chunk data)) n' fs'"
          "if full then w < length (drop chunk data) \<and> disk_full fs' else w = length (drop chunk data)"
        using 1(1) [rule_format, of "drop chunk data" fs3 "T(ino := n1)" n1 "pos + chunk"] 1(5) pos by fastforce
      have "wrote fs T ino pos (take (chunk + w) data) n' fs'"
        using wrote_append [OF step(1), of "take w (drop chunk data)" n' fs'] ih(3) pos by (simp add: take_add)
      then show ?thesis using step(2) ih pos by (auto split: if_splits)
    qed
  qed
qed

subsection \<open>The inode table\<close>

lemma words_inode_words: "length (i_direct n) = 12 \<Longrightarrow> words_inode (inode_words n) = n"
  by (simp add: words_inode_def inode_words_def nth_append)

lemma length_inode_words: "length (i_direct n) = 12 \<Longrightarrow> length (inode_words n) = 19"
  by (simp add: inode_words_def)

definition inode_fits :: "lfs_inode \<Rightarrow> bool" where
  "inode_fits n \<longleftrightarrow> length (i_direct n) = 12 \<and> (\<forall>w\<in>set (inode_words n). w < 2 ^ 32)"

lemma words_inode_fits:
  assumes "length ws = 19" "\<forall>w\<in>set ws. w < 2 ^ 32"
  shows "inode_fits (words_inode ws)"
proof -
  have "set (inode_words (words_inode ws)) \<subseteq> set ws"
    using assms(1) by (auto simp: inode_words_def words_inode_def dest: in_set_takeD in_set_dropD)
  then show ?thesis using assms by (auto simp: inode_fits_def words_inode_def)
qed

lemma stored_inode_fits: "inode_fits (stored_inode fs ino)"
proof (cases "lufirafs_read_inode fs ino")
  case None
  then show ?thesis by (simp add: stored_inode_def inode_fits_def empty_inode_def inode_words_def)
next
  case (Some n)
  then have "n = words_inode (get_words (image fs) (inode_offset fs ino) 19)"
    by (simp add: lufirafs_read_inode_def split: if_splits)
  moreover have "\<forall>w\<in>set (get_words (image fs) (inode_offset fs ino) 19). w < 2 ^ 32"
    using load32_less by (auto simp: get_words_def)
  ultimately show ?thesis using Some words_inode_fits by (simp add: stored_inode_def)
qed

lemma write_inode_ok:
  assumes ok: "fs_ok fs" and ino: "0 < ino" "ino \<le> inode_count (sb fs)" and n: "inode_fits n"
    and fs': "fs' = snd (lufirafs_write_inode fs ino n)"
  shows "stored_inode fs' = (stored_inode fs)(ino := n)" "fs_ok fs'" "same_geometry (sb fs) (sb fs')"
    "lba_offset fs' = lba_offset fs" "block_at fs' = block_at fs" "used_block fs' = used_block fs"
proof -
  define f where "f = put_words (image fs) (inode_offset fs ino) (inode_words n)"
  define db where "db = dirty_bitmap fs'"
  have eq: "fs' = fs\<lparr>image := f, dirty_bitmap := db\<rparr>"
    using ino by (simp add: fs' lufirafs_write_inode_def mark_dirty_eq f_def db_def)
  have g: "geometry (sb fs) (lba_offset fs)" using ok by (simp add: fs_ok_def)
  have len: "length (inode_words n) = 19" using n by (simp add: inode_fits_def length_inode_words)
  note off = inode_offset_range [OF g]
  show "fs_ok fs'" "same_geometry (sb fs) (sb fs')" "lba_offset fs' = lba_offset fs" "block_at fs' = block_at fs"
    using ok by (simp_all add: eq fs_ok_def same_geometry_def block_at_def fun_eq_iff)
  have "f (bitmap_start (sb fs) * 8192 + b div 8) = image fs (bitmap_start (sb fs) * 8192 + b div 8)"
    if "b < total_blocks (sb fs)" for b
    unfolding f_def by (rule put_words_outside) (use bitmap_byte_range(2) [OF g that] off(1) [OF ino] in simp)
  then show "used_block fs' = used_block fs"
    by (auto simp: eq used_block_def block_bitmap_test_def fun_eq_iff)
  show "stored_inode fs' = (stored_inode fs)(ino := n)"
  proof
    fix i
    have o: "inode_offset fs' i = inode_offset fs i" by (simp add: eq inode_offset_def)
    show "stored_inode fs' i = ((stored_inode fs)(ino := n)) i"
    proof (cases "0 < i \<and> i \<le> inode_count (sb fs)")
      case True
      show ?thesis
      proof (cases "i = ino")
        case True
        have "get_words f (inode_offset fs ino) 19 = inode_words n"
          using get_put_words [of "inode_words n" "image fs" "inode_offset fs ino"] n len by (simp add: f_def inode_fits_def)
        then show ?thesis
          using True ino n o words_inode_words [of n]
          by (simp add: stored_inode_def lufirafs_read_inode_def inode_fits_def) (simp add: eq)
      next
        case False
        have "(i - 1) * 76 + 76 \<le> (ino - 1) * 76 \<or> (ino - 1) * 76 + 76 \<le> (i - 1) * 76" using False True ino by auto
        then have "get_words f (inode_offset fs i) 19 = get_words (image fs) (inode_offset fs i) 19"
          unfolding f_def using off(1) [OF ino] off(1) [of i] True
          by (intro get_words_outside) (auto simp: len)
        then show ?thesis using False o by (simp add: stored_inode_def lufirafs_read_inode_def) (simp add: eq)
      qed
    next
      case False
      then have "i \<noteq> ino" using ino by auto
      then show ?thesis using False by (auto simp: stored_inode_def lufirafs_read_inode_def eq)
    qed
  qed
qed

text \<open>A sound file system: the invariant of a mounted, working volume.\<close>

definition lufirafs_sound :: "lufirafs \<Rightarrow> bool" where
  "lufirafs_sound fs \<longleftrightarrow> fs_ok fs \<and> owned fs (stored_inode fs)"

definition valid_ino :: "lufirafs \<Rightarrow> nat \<Rightarrow> bool" where
  "valid_ino fs ino \<longleftrightarrow> 0 < ino \<and> ino \<le> inode_count (sb fs)"

lemma read_stored: "valid_ino fs ino \<Longrightarrow> lufirafs_read_inode fs ino = Some (stored_inode fs ino)"
  by (simp add: valid_ino_def stored_inode_def lufirafs_read_inode_def)

lemma slot_attrs: "slot_at fs (n\<lparr>i_size := s\<rparr>) k = slot_at fs n k" "content fs (n\<lparr>i_size := s\<rparr>) off = content fs n off"
  by (simp_all add: slot_at_def content_def ptr_at_def)

lemma owned_fits:
  assumes "fs_ok fs" "owned fs T" "attrs (T ino) = attrs m" "inode_fits m"
  shows "inode_fits (T ino)"
proof -
  have small: "slot_at fs (T ino) k < 2 ^ 32" for k
    using owned_used [OF assms(2), of ino k] assms(1)
    by (cases "slot_at fs (T ino) k = 0") (auto simp: used_block_def fs_ok_def geometry_def)
  have len: "length (i_direct (T ino)) = 12" by (rule owned_length [OF assms(2)])
  have "i_direct (T ino) ! k < 2 ^ 32" if "k < 12" for k
    using small [of k] that by (simp add: slot_at_def ptr_at_def)
  then have "\<forall>w\<in>set (i_direct (T ino)). w < 2 ^ 32" using len by (auto simp: in_set_conv_nth)
  moreover have "i_indirect (T ino) < 2 ^ 32" using small [of INDIRECT_SLOT] by (simp add: slot_at_def)
  moreover have "i_mode (T ino) = i_mode m" "i_size (T ino) = i_size m" "i_links (T ino) = i_links m"
    "i_uid (T ino) = i_uid m" "i_gid (T ino) = i_gid m" "i_perm (T ino) = i_perm m"
    using arg_cong [OF assms(3), of i_mode] arg_cong [OF assms(3), of i_size] arg_cong [OF assms(3), of i_links]
      arg_cong [OF assms(3), of i_uid] arg_cong [OF assms(3), of i_gid] arg_cong [OF assms(3), of i_perm]
    by (simp_all add: attrs_def)
  ultimately show ?thesis using assms(4) len by (auto simp: inode_fits_def inode_words_def)
qed

section \<open>Reads and writes of whole files\<close>

lemma lufirafs_write_spec:
  assumes sound: "lufirafs_sound fs" "valid_ino fs ino" and range: "offset + length data \<le> LUFIRAFS_MAX_FILE_SIZE"
  obtains w fs' where "lufirafs_write fs ino offset data = (if w = 0 \<and> data \<noteq> [] then - 1 else int w, fs')"
    "w \<le> length data" "w < length data \<Longrightarrow> disk_full fs'" "lufirafs_sound fs'" "inode_count (sb fs') = inode_count (sb fs)"
    "i_size (stored_inode fs' ino) = max (i_size (stored_inode fs ino)) (offset + w)"
    "\<And>off. content fs' (stored_inode fs' ino) off =
       (if offset \<le> off \<and> off < offset + w then data ! (off - offset) else content fs (stored_inode fs ino) off)"
    "\<And>i. i \<noteq> ino \<Longrightarrow> stored_inode fs' i = stored_inode fs i \<and> content fs' (stored_inode fs' i) = content fs (stored_inode fs i)"
proof -
  let ?T = "stored_inode fs" and ?n = "stored_inode fs ino" and ?fs1 = "fs\<lparr>ooms := ooms fs + 1\<rparr>"
  have ok: "fs_ok fs" "owned fs ?T" using sound(1) by (auto simp: lufirafs_sound_def)
  note t = ticks_ooms [of fs "ooms fs + 1"]
  have k1: "keeps_files fs ?T ?fs1 ?T" by (rule ticks_keeps_files [OF ok(1) t ok(2)])
  have "fs_ok ?fs1" "owned ?fs1 ?T" using k1 by (auto simp: keeps_files_def frame_def)
  from write_loop_ok [OF this refl, of offset data ino] range
  obtain w full n1 fs2 where loop: "write_loop ?fs1 ?n offset data = (w, full, n1, fs2)" and w: "w \<le> length data"
    and wr: "wrote ?fs1 ?T ino offset (take w data) n1 fs2"
    and full: "if full then w < length data \<and> disk_full fs2 else w = length data"
    by (auto simp: LUFIRAFS_MAX_FILE_SIZE_def)
  have wr0: "wrote fs ?T ino offset (take w data) n1 fs2"
    using wr keeps_content [OF ticks_keeps [OF ok(1) t]] ticksD(7) [OF t] ok(1)
    by (auto simp: wrote_def intro: frame_trans)
  define n2 where "n2 = (if offset + w > i_size n1 then n1\<lparr>i_size := offset + w\<rparr> else n1)"
  define fs3 where "fs3 = snd (lufirafs_write_inode fs2 ino n2)"
  have fr: "frame fs fs2" "owned fs2 (?T(ino := n1))" "attrs n1 = attrs ?n" using wr0 by (auto simp: wrote_def)
  have ino: "0 < ino" "ino \<le> inode_count (sb fs2)"
    using sound(2) fr(1) by (auto simp: valid_ino_def frame_def same_geometry_def)
  have "inode_fits ((?T(ino := n1)) ino)"
    by (rule owned_fits [OF frame_ok [OF fr(1)] fr(2), of ino ?n]) (simp_all add: fr(3) stored_inode_fits)
  moreover have "offset + w < 2 ^ 32" using w range by (simp add: LUFIRAFS_MAX_FILE_SIZE_def)
  ultimately have "inode_fits n2" by (simp add: n2_def inode_fits_def inode_words_def)
  note wi = write_inode_ok [OF frame_ok [OF fr(1)] ino this fs3_def]
  have st: "stored_inode fs3 = ?T(ino := n2)" using wi(1) fr(1) by (simp add: frame_def)
  have slots: "slot_at fs3 ((?T(ino := n2)) i) k = slot_at fs2 ((?T(ino := n1)) i) k" for i k
    using ptr_at_cong [OF wi(5)] by (simp add: slot_at_def n2_def) (simp add: ptr_at_def)
  have len: "length (i_direct ((?T(ino := n2)) i)) = 12" for i
    using owned_length [OF fr(2), of i] by (auto simp: n2_def split: if_splits)
  have own: "owned fs3 (stored_inode fs3)"
    using fr(2) len unfolding owned_def st slots wi(6) by blast
  have cont: "content fs3 m = content fs2 m" for m
    using ptr_at_cong [OF wi(5)] by (intro ext) (simp add: content_def wi(5) Let_def)
  have cont2: "content fs3 n2 off = content fs2 n1 off" for off
    unfolding cont by (simp add: n2_def slot_attrs)
  show thesis
  proof (rule that [of w fs3])
    show "lufirafs_write fs ino offset data = (if w = 0 \<and> data \<noteq> [] then - 1 else int w, fs3)"
      using read_stored [OF sound(2)] range tmp_buffer_ok [OF ok(1)] loop full
      by (auto simp: lufirafs_write_def Let_def n2_def fs3_def split: if_splits)
    show "w < length data \<Longrightarrow> disk_full fs3"
      using full wi(3,6) by (auto simp: disk_full_def same_geometry_def split: if_splits)
    show "lufirafs_sound fs3" using own wi(2) by (simp add: lufirafs_sound_def)
    show "inode_count (sb fs3) = inode_count (sb fs)" using wi(3) fr(1) by (simp add: frame_def same_geometry_def)
    show "i_size (stored_inode fs3 ino) = max (i_size ?n) (offset + w)"
      using arg_cong [OF fr(3), of i_size] by (simp add: st n2_def attrs_def max_def)
    show "content fs3 (stored_inode fs3 ino) off =
       (if offset \<le> off \<and> off < offset + w then data ! (off - offset) else content fs ?n off)" for off
      using wr0 w by (auto simp: st cont2 wrote_def)
    show "stored_inode fs3 i = ?T i \<and> content fs3 (stored_inode fs3 i) = content fs (?T i)" if "i \<noteq> ino" for i
      using wr0 that by (simp add: st cont wrote_def)
  qed (rule w)
qed

lemma lufirafs_read_spec:
  assumes sound: "lufirafs_sound fs" "valid_ino fs ino" and range: "offset + count < 2 ^ 31"
  obtains fs' where "lufirafs_read fs ino offset count =
      (let out = map (content fs (stored_inode fs ino)) [offset..<min (offset + count) (i_size (stored_inode fs ino))]
       in (int (length out), out, fs'))" "ticks fs fs'"
proof -
  let ?n = "stored_inode fs ino"
  define fs1 where "fs1 = fs\<lparr>ooms := ooms fs + 1\<rparr>"
  have ok: "fs_ok fs" "owned fs (stored_inode fs)" using sound(1) by (auto simp: lufirafs_sound_def)
  note t = ticks_ooms [of fs "ooms fs + 1", folded fs1_def]
  have k1: "keeps_files fs (stored_inode fs) fs1 (stored_inode fs)" by (rule ticks_keeps_files [OF ok(1) t ok(2)])
  have ok1: "fs_ok fs1" "owned fs1 (stored_inode fs)" using k1 by (auto simp: keeps_files_def frame_def)
  have c1: "content fs1 ?n = content fs ?n" by (simp add: keeps_content [OF ticks_keeps [OF ok(1) t]])
  show thesis
  proof (cases "offset \<ge> i_size ?n")
    case True
    then have "lufirafs_read fs ino offset count = (0, [], fs)"
      by (simp add: lufirafs_read_def read_stored [OF sound(2)])
    then show thesis using that [OF _ ticks_refl] True by simp
  next
    case False
    define count1 where "count1 = (if wrap32 (offset + count) > i_size ?n then i_size ?n - offset else count)"
    have e: "offset + count1 = min (offset + count) (i_size ?n)" "offset + count1 < 2 ^ 31"
      using range False by (auto simp: count1_def wrap32_def)
    obtain fs' where loop: "read_loop fs1 ?n offset count1 = (map (content fs1 ?n) [offset..<offset + count1], fs')" "ticks fs1 fs'"
      using read_loop_ok [OF ok1 refl, of offset count1 ino] e(2) by auto
    have "sint (of_nat count1 :: u32) = int count1"
      using e(2) by (simp add: signed_of_nat signed_take_bit_int_eq_self)
    then have "lufirafs_read fs ino offset count = (int count1, map (content fs ?n) [offset..<offset + count1], fs')"
      using False loop(1) tmp_buffer_ok [OF ok(1), folded fs1_def]
      by (simp add: lufirafs_read_def read_stored [OF sound(2)] count1_def [symmetric] c1 Let_def)
    then show thesis using that [OF _ ticks_trans [OF t loop(2)]] by (simp add: e(1) [symmetric])
  qed
qed

section \<open>Synchronising and mounting again\<close>

text \<open>Byte \<open>a\<close> of the metadata as it is on the disk, and where a transfer left it.\<close>

definition meta_disk :: "lufirafs \<Rightarrow> nat \<Rightarrow> u8" where
  "meta_disk fs a = disk fs (lba_offset fs * 512 + a)"

definition meta_dirty :: "lufirafs \<Rightarrow> nat \<Rightarrow> bool" where
  "meta_dirty fs a \<longleftrightarrow> bitmap_test (dirty_bitmap fs) (a div 8192)"

text \<open>
  After \<open>sync_block\<close> on the blocks below \<open>k\<close>: a byte that was written out is the
  byte of the image, every other one is as before; without failures nothing below \<open>k\<close> stays dirty.
\<close>

definition synced_upto :: "lufirafs \<Rightarrow> nat \<Rightarrow> lufirafs \<Rightarrow> bool" where
  "synced_upto fs k fs' \<longleftrightarrow> image fs' = image fs \<and> sb fs' = sb fs \<and> lba_offset fs' = lba_offset fs \<and>
     io_fails fs' = io_fails fs \<and> (\<forall>a. meta_dirty fs' a \<longrightarrow> meta_dirty fs a) \<and>
     (\<forall>a. k \<le> a div 8192 \<longrightarrow> meta_dirty fs' a = meta_dirty fs a) \<and>
     (\<forall>a. meta_disk fs' a = (if meta_dirty fs a \<and> \<not> meta_dirty fs' a then image fs a else meta_disk fs a)) \<and>
     (io_fails fs = (\<lambda>_. False) \<longrightarrow> (\<forall>a. a div 8192 < k \<longrightarrow> \<not> meta_dirty fs' a))"

lemma synced_upto_trans:
  assumes "synced_upto fs k fs1" "\<And>a. meta_dirty fs2 a = (meta_dirty fs1 a \<and> \<not> (a div 8192 = k \<and> clean))"
    "image fs2 = image fs1" "sb fs2 = sb fs1" "lba_offset fs2 = lba_offset fs1" "io_fails fs2 = io_fails fs1"
    "\<And>a. meta_disk fs2 a = (if meta_dirty fs1 a \<and> a div 8192 = k \<and> clean then image fs1 a else meta_disk fs1 a)"
    "io_fails fs1 = (\<lambda>_. False) \<Longrightarrow> \<forall>a. meta_dirty fs1 a \<and> a div 8192 = k \<longrightarrow> clean"
  shows "synced_upto fs (Suc k) fs2"
  using assms unfolding synced_upto_def by (intro conjI allI impI) (auto simp: less_Suc_eq)

lemma sync_block_upto:
  assumes up: "synced_upto fs k fs1" and lba: "lba_offset fs + (k + 1) * 16 < 2 ^ 32"
  shows "synced_upto fs (Suc k) (sync_block k fs1)"
proof (cases "bitmap_test (dirty_bitmap fs1) k \<and> \<not> io_fails fs1 (ios fs1)")
  case False
  have "sync_block k fs1 = (if bitmap_test (dirty_bitmap fs1) k then fs1\<lparr>ios := ios fs1 + 1\<rparr> else fs1)"
    using False by (auto simp: sync_block_def disk_write_sectors_def)
  then show ?thesis
    using up False
    by (intro synced_upto_trans [OF up, of _ False]) (auto simp: meta_dirty_def meta_disk_def)
next
  case True
  let ?base = "lba_offset fs1 * 512"
  have l: "lba_offset fs1 = lba_offset fs" using up by (simp add: synced_upto_def)
  define d where "d = blit (disk fs1) ((lba_offset fs1 + k * 16) * 512) (\<lambda>i. image fs1 (k * 8192 + i)) 0 8192"
  have "wrap32 (lba_offset fs1 + k * 16) = lba_offset fs1 + k * 16" using lba l by (simp add: wrap32_def)
  then have eq: "sync_block k fs1 = fs1\<lparr>ios := ios fs1 + 1, disk := d, dirty_bitmap := bitmap_clear (dirty_bitmap fs1) k\<rparr>"
    using True by (simp add: sync_block_def disk_write_sectors_def d_def)
  have base: "(lba_offset fs1 + k * 16) * 512 = ?base + k * 8192" by (simp add: algebra_simps)
  have "d (?base + a) = (if a div 8192 = k then image fs1 a else disk fs1 (?base + a))" for a
  proof (cases "a div 8192 = k")
    case True
    then have "k * 8192 \<le> a" "a < k * 8192 + 8192" by auto
    then show ?thesis using True by (simp add: d_def base blit_inside)
  next
    case False
    then have "a < k * 8192 \<or> k * 8192 + 8192 \<le> a" by (metis div_nat_eqI mult.commute mult_Suc_right add.commute not_le)
    then show ?thesis using False by (auto simp: d_def base blit_def)
  qed
  then show ?thesis
    using True
    by (intro synced_upto_trans [OF up, of _ True]) (auto simp: eq meta_dirty_def meta_disk_def bitmap_test_clear)
qed

lemma lufirafs_sync_upto:
  assumes "lba_offset fs + data_start (sb fs) * 16 < 2 ^ 32"
  shows "synced_upto fs (data_start (sb fs)) (lufirafs_sync fs)"
proof -
  have "synced_upto fs k (fold sync_block [0..<k] fs)" if "k \<le> data_start (sb fs)" for k
    using that
  proof (induction k)
    case 0
    then show ?case by (simp add: synced_upto_def)
  next
    case (Suc k)
    then show ?case using assms sync_block_upto [of fs k "fold sync_block [0..<k] fs"] by simp
  qed
  then show ?thesis by (simp add: lufirafs_sync_def)
qed

lemma init_loop_ok:
  assumes "io_fails fs = (\<lambda>_. False)" "lba_offset fs + m < 2 ^ 32" "d \<le> m"
  shows "\<exists>f k. init_loop fs d m = (True, fs\<lparr>image := f, ios := k\<rparr>) \<and>
    (\<forall>a. f a = (if d * 512 \<le> a \<and> a < m * 512 then meta_disk fs a else image fs a))"
  using assms
proof (induction "m - d" arbitrary: fs d rule: less_induct)
  case less
  show ?case
  proof (cases "d = m")
    case True
    then show ?thesis by (intro exI [of _ "image fs"] exI [of _ "ios fs"]) (auto simp: init_loop.simps [of fs m m])
  next
    case False
    define c where "c = min 255 (m - d)"
    have c: "0 < c" "d + c \<le> m" using False less.prems(3) by (auto simp: c_def)
    define f1 where "f1 = blit (image fs) (d * 512) (\<lambda>i. disk fs ((lba_offset fs + d) * 512 + i)) 0 (c * 512)"
    define fs1 where "fs1 = fs\<lparr>ios := ios fs + 1, image := f1\<rparr>"
    have "wrap32 (lba_offset fs + d) = lba_offset fs + d" using less.prems by (simp add: wrap32_def)
    then have step: "init_loop fs d m = init_loop fs1 (d + c) m"
      using False less.prems(1,3)
      by (simp add: init_loop.simps [of fs d m] disk_read_sectors_def Let_def c_def fs1_def f1_def)
    have "m - (d + c) < m - d" using c by auto
    from less.hyps [OF this, of fs1] obtain f k where ih: "init_loop fs1 (d + c) m = (True, fs1\<lparr>image := f, ios := k\<rparr>)"
      "\<And>a. f a = (if (d + c) * 512 \<le> a \<and> a < m * 512 then meta_disk fs1 a else image fs1 a)"
      using less.prems c by (auto simp: fs1_def)
    have "f a = (if d * 512 \<le> a \<and> a < m * 512 then meta_disk fs a else image fs a)" for a
      using c by (auto simp: ih(2) meta_disk_def fs1_def f1_def blit_def algebra_simps)
    moreover have "init_loop fs d m = (True, fs\<lparr>image := f, ios := k\<rparr>)" by (simp add: step ih(1)) (simp add: fs1_def)
    ultimately show ?thesis by blast
  qed
qed

text \<open>The volume can be mounted: its superblock is in block 0 of the image.\<close>

definition mountable :: "lufirafs \<Rightarrow> bool" where
  "mountable fs \<longleftrightarrow> fs_ok fs \<and> load_superblock (image fs) = sb fs \<and> sb_magic (sb fs) = LUFIRAFS_MAGIC \<and>
     sb_block_size (sb fs) = LUFIRAFS_BLOCK_SIZE"

text \<open>Every clean block of the metadata is on the disk.\<close>

definition clean_on_disk :: "lufirafs \<Rightarrow> bool" where
  "clean_on_disk fs \<longleftrightarrow> (\<forall>a < data_start (sb fs) * 8192. meta_dirty fs a \<or> meta_disk fs a = image fs a)"

lemma load_superblock_cong:
  assumes "\<And>i. i < 8192 \<Longrightarrow> f i = g i"
  shows "load_superblock f = load_superblock g"
proof -
  have "load32 f a = load32 g a" if "a < 8000" for a by (rule load32_cong) (use that in \<open>simp add: assms\<close>)
  moreover have "(\<lambda>i. if i < 8192 - 52 then f (52 + i) else 0) = (\<lambda>i. if i < 8192 - 52 then g (52 + i) else 0)"
    using assms by (auto simp: fun_eq_iff)
  ultimately show ?thesis by (simp add: load_superblock_def)
qed

lemma lufirafs_init_ok:
  assumes "io_fails fs = (\<lambda>_. False)" "oom fs = (\<lambda>_. False)"
    and s: "load_superblock (\<lambda>i. disk fs (lba * 512 + i)) = s" "sb_magic s = LUFIRAFS_MAGIC" "sb_block_size s = LUFIRAFS_BLOCK_SIZE"
    and r: "lba + data_start s * 16 < 2 ^ 32"
  shows "\<exists>fs'. lufirafs_init fs lba = (0, fs') \<and> sb fs' = s \<and> lba_offset fs' = lba \<and> disk fs' = disk fs \<and>
    io_fails fs' = io_fails fs \<and> oom fs' = oom fs \<and> dirty_bitmap fs' = (\<lambda>_. 0) \<and> next_free_block fs' = data_start s \<and>
    (\<forall>a < data_start s * 8192. image fs' a = disk fs (lba * 512 + a))"
proof -
  define fs3 where "fs3 = fs\<lparr>lba_offset := lba, ios := ios fs + 1, sb := s, image_size := wrap32 (data_start s * 8192),
    ooms := ooms fs + 1\<rparr>"
  have m: "wrap32 (data_start s * 16) = data_start s * 16" using r by (simp add: wrap32_def)
  have "io_fails fs3 = (\<lambda>_. False)" "lba_offset fs3 + data_start s * 16 < 2 ^ 32" using assms by (auto simp: fs3_def)
  from init_loop_ok [OF this, of 0] obtain f k where
    l: "init_loop fs3 0 (data_start s * 16) = (True, fs3\<lparr>image := f, ios := k\<rparr>)"
    and f: "\<And>a. f a = (if a < data_start s * 16 * 512 then meta_disk fs3 a else image fs3 a)" by auto
  have eq: "lufirafs_init fs lba =
      (0, fs3\<lparr>image := f, ios := k, ooms := ooms fs3 + 1, dirty_bitmap := \<lambda>_. 0, next_free_block := data_start s\<rparr>)"
    using assms(1-5) m l
    by (simp add: lufirafs_init_def disk_read_sectors_def tmp_buffer_def Let_def fs3_def)
  show ?thesis
    unfolding eq using f by (intro exI conjI) (rule refl, auto simp: fs3_def meta_disk_def)
qed

text \<open>Mounting again after a sync: the dirty blocks come from the image, the others from the old disk.\<close>

lemma remount_image:
  assumes ok: "mountable fs" and sb0: "\<And>a. a < 8192 \<Longrightarrow> meta_dirty fs a \<or> meta_disk fs a = image fs a"
  shows "\<exists>fs'. lufirafs_init (lufirafs_sync fs) (lba_offset fs) = (0, fs') \<and> sb fs' = sb fs \<and>
    (\<forall>a < data_start (sb fs) * 8192. image fs' a = (if meta_dirty fs a then image fs a else meta_disk fs a)) \<and>
    (\<forall>b \<ge> data_start (sb fs). block_at fs' b = block_at fs b) \<and> fs_ok fs'"
proof -
  let ?s = "lufirafs_sync fs"
  have g: "geometry (sb fs) (lba_offset fs)" and nf: "io_fails fs = (\<lambda>_. False)" "oom fs = (\<lambda>_. False)"
    using ok by (auto simp: mountable_def fs_ok_def)
  have lba: "lba_offset fs + data_start (sb fs) * 16 < 2 ^ 32" and ds: "0 < data_start (sb fs)"
    using g by (auto simp: geometry_def)
  note up = lufirafs_sync_upto [OF lba, unfolded synced_upto_def]
  have oom: "oom ?s = oom fs"
  proof -
    have "oom (sync_block b x) = oom x" for b x by (simp add: sync_block_def disk_write_sectors_def split: prod.splits)
    then have "oom (fold sync_block bs x) = oom x" for bs x by (induction bs arbitrary: x) simp_all
    then show ?thesis by (simp add: lufirafs_sync_def)
  qed
  have clean: "\<not> meta_dirty ?s a" if "a < data_start (sb fs) * 8192" for a
  proof -
    have "a div 8192 < data_start (sb fs)" using that by (simp add: less_mult_imp_div_less)
    then show ?thesis using up nf by auto
  qed
  have md: "meta_disk ?s a = (if meta_dirty fs a then image fs a else meta_disk fs a)" if "a < data_start (sb fs) * 8192" for a
    using up clean [OF that] by auto
  have "load_superblock (\<lambda>i. disk ?s (lba_offset fs * 512 + i)) = load_superblock (image fs)"
  proof (rule load_superblock_cong)
    fix i :: nat assume i: "i < 8192"
    then show "disk ?s (lba_offset fs * 512 + i) = image fs i"
      using md [of i] sb0 [of i] ds up by (auto simp: meta_disk_def)
  qed
  then obtain fs' where fs': "lufirafs_init ?s (lba_offset fs) = (0, fs')" "sb fs' = sb fs" "lba_offset fs' = lba_offset fs"
    "disk fs' = disk ?s" "io_fails fs' = (\<lambda>_. False)" "oom fs' = (\<lambda>_. False)" "next_free_block fs' = data_start (sb fs)"
    "\<And>a. a < data_start (sb fs) * 8192 \<Longrightarrow> image fs' a = disk ?s (lba_offset fs * 512 + a)"
    using lufirafs_init_ok [of ?s "lba_offset fs" "sb fs"] ok up nf oom lba by (auto simp: mountable_def)
  have "block_at fs' b = block_at fs b" if "data_start (sb fs) \<le> b" for b
  proof
    fix i
    have "meta_disk ?s (b * 8192 + i) = meta_disk fs (b * 8192 + i)" if "i < 8192"
    proof -
      have "(b * 8192 + i) div 8192 = b" using that by simp
      then have "meta_dirty ?s (b * 8192 + i) = meta_dirty fs (b * 8192 + i)" using up \<open>data_start (sb fs) \<le> b\<close> by simp
      then show ?thesis using up by simp
    qed
    moreover have "(lba_offset fs + b * 16) * 512 + i = lba_offset fs * 512 + (b * 8192 + i)" by simp
    ultimately show "block_at fs' b i = block_at fs b i"
      using up by (simp only: block_at_def fs' meta_disk_def) auto
  qed
  moreover have "fs_ok fs'" using fs' g by (simp add: fs_ok_def geometry_def)
  moreover have "image fs' a = (if meta_dirty fs a then image fs a else meta_disk fs a)" if "a < data_start (sb fs) * 8192" for a
    using fs'(8) [OF that] md [OF that] up by (simp add: meta_disk_def)
  ultimately show ?thesis using fs' by blast
qed

section \<open>A small volume\<close>

text \<open>Forty blocks, formatted, with no file: what the witnesses below start from.\<close>

definition demo_sb :: superblock where "demo_sb = lufirafs_compute_layout 40 (\<lambda>_. 0)"

definition demo_fs :: lufirafs where
  "demo_fs = \<lparr>image = put_words (\<lambda>_. 0) 0 (superblock_words demo_sb), image_size = 7 * 8192, lba_offset = 2048, sb = demo_sb,
     dirty_bitmap = (\<lambda>_. 0), next_free_block = 7,
     disk = (\<lambda>a. put_words (\<lambda>_. 0) 0 (superblock_words demo_sb) (a - 2048 * 512)),
     io_fails = (\<lambda>_. False), ios = 0, oom = (\<lambda>_. False), ooms = 0\<rparr>"

lemma demo_sb_fields:
  "total_blocks demo_sb = 40" "bitmap_start demo_sb = 1" "inode_table_start demo_sb = 2" "inode_count demo_sb = 512"
  "data_start demo_sb = 7" "sb_magic demo_sb = LUFIRAFS_MAGIC" "sb_block_size demo_sb = LUFIRAFS_BLOCK_SIZE"
  by (simp_all add: demo_sb_def lufirafs_compute_layout_def wrap32_def Let_def LUFIRAFS_BLOCK_SIZE_def)

lemma load_put_superblock:
  assumes "\<forall>w\<in>set (superblock_words s). w < 2 ^ 32" "\<And>i. i < 8140 \<Longrightarrow> f (52 + i) = sb_reserved s i"
    "\<And>i. 8140 \<le> i \<Longrightarrow> sb_reserved s i = 0"
  shows "load_superblock (put_words f 0 (superblock_words s)) = s"
proof -
  let ?f = "put_words f 0 (superblock_words s)"
  have w: "load32 ?f (4 * i) = superblock_words s ! i" if "i < 13" for i
  proof -
    have "get_words ?f 0 13 = superblock_words s"
      using get_put_words [OF assms(1), of f 0] by (simp add: length_superblock_words)
    then have "get_words ?f 0 13 ! i = superblock_words s ! i" by simp
    then show ?thesis using that by (simp add: get_words_def)
  qed
  have r: "(\<lambda>i. if i < 8192 - 52 then ?f (52 + i) else 0) = sb_reserved s"
    using assms(2,3) by (auto simp: fun_eq_iff put_words_outside length_superblock_words)
  show ?thesis
    unfolding load_superblock_def r
    using w [of 0] w [of 1] w [of 2] w [of 3] w [of 4] w [of 5] w [of 6] w [of 7] w [of 8] w [of 9] w [of 10] w [of 11] w [of 12]
    by (simp add: superblock_words_def del: put_words.simps)
qed

lemma demo_mountable: "mountable demo_fs" "clean_on_disk demo_fs"
proof -
  have "load_superblock (image demo_fs) = demo_sb"
    unfolding demo_fs_def lufirafs.simps
    by (rule load_put_superblock)
      (auto simp: superblock_words_def demo_sb_def lufirafs_compute_layout_def wrap32_def Let_def LUFIRAFS_MAGIC_def)
  moreover have "fs_ok demo_fs"
    by (simp add: fs_ok_def geometry_def demo_fs_def demo_sb_fields)
  ultimately show "mountable demo_fs" by (simp add: mountable_def demo_fs_def demo_sb_fields)
  show "clean_on_disk demo_fs" by (simp add: clean_on_disk_def meta_disk_def demo_fs_def)
qed

lemma demo_sound: "lufirafs_sound demo_fs"
proof -
  have "stored_inode demo_fs ino = empty_inode" for ino
  proof (cases "0 < ino \<and> ino \<le> inode_count (sb demo_fs)")
    case True
    have "image demo_fs a = 0" if "8192 \<le> a" for a
      using that by (simp add: demo_fs_def put_words_outside length_superblock_words)
    moreover have "inode_offset demo_fs ino = 2 * 8192 + (ino - 1) * 76"
      using inode_offset_range(1) [of demo_fs "lba_offset demo_fs" ino] True demo_mountable(1)
      by (simp add: mountable_def fs_ok_def) (simp add: demo_fs_def demo_sb_fields)
    ultimately have "get_words (image demo_fs) (inode_offset demo_fs ino) 19 = replicate 19 0"
      by (intro nth_equalityI) (auto simp: get_words_def load32_def)
    then show ?thesis
      using True by (auto simp: stored_inode_def lufirafs_read_inode_def words_inode_def empty_inode_def numeral_eq_Suc)
  qed (auto simp: stored_inode_def lufirafs_read_inode_def)
  then have "stored_inode demo_fs = (\<lambda>_. empty_inode)" by (simp add: fun_eq_iff)
  moreover have "slot_at fs empty_inode k = 0" for fs k by (auto simp: slot_at_def ptr_at_def empty_inode_def)
  ultimately show ?thesis
    using demo_mountable(1) by (simp add: lufirafs_sound_def owned_def mountable_def) (simp add: empty_inode_def)
qed

lemma demo_valid_ino: "valid_ino demo_fs 2" "valid_ino demo_fs 108"
  by (simp_all add: valid_ino_def demo_fs_def demo_sb_fields)

section \<open>Properties\<close>

text \<open>C22: On a sound volume, \<open>lufirafs_write\<close> writes a prefix of the data, all of it
  unless the volume is full, and reports its length (-1 for none). The file then
  reads the new bytes inside the written range and the old ones outside, its size
  grows as far as needed, every other inode and every other file's bytes are
  unchanged, and the volume stays sound: no block is shared, lost or out of range.
\<close>

theorem lufirafs_write_exact:
  assumes "lufirafs_sound fs" "valid_ino fs ino" "offset + length data \<le> LUFIRAFS_MAX_FILE_SIZE"
  shows "case lufirafs_write fs ino offset data of (r, fs') \<Rightarrow>
    lufirafs_sound fs' \<and>
    (\<exists>w \<le> length data. r = (if w = 0 \<and> data \<noteq> [] then - 1 else int w) \<and> (w = length data \<or> disk_full fs') \<and>
       i_size (stored_inode fs' ino) = max (i_size (stored_inode fs ino)) (offset + w) \<and>
       (\<forall>off. content fs' (stored_inode fs' ino) off =
          (if offset \<le> off \<and> off < offset + w then data ! (off - offset) else content fs (stored_inode fs ino) off)) \<and>
       (\<forall>i. i \<noteq> ino \<longrightarrow> stored_inode fs' i = stored_inode fs i \<and>
          content fs' (stored_inode fs' i) = content fs (stored_inode fs i)))"
proof -
  obtain w fs' where eq: "lufirafs_write fs ino offset data = (if w = 0 \<and> data \<noteq> [] then - 1 else int w, fs')"
    and w: "w \<le> length data" "w < length data \<Longrightarrow> disk_full fs'" and s: "lufirafs_sound fs'"
    and sz: "i_size (stored_inode fs' ino) = max (i_size (stored_inode fs ino)) (offset + w)"
    and c: "\<And>off. content fs' (stored_inode fs' ino) off =
       (if offset \<le> off \<and> off < offset + w then data ! (off - offset) else content fs (stored_inode fs ino) off)"
    and o: "\<And>i. i \<noteq> ino \<Longrightarrow> stored_inode fs' i = stored_inode fs i \<and> content fs' (stored_inode fs' i) = content fs (stored_inode fs i)"
    using lufirafs_write_spec [OF assms] by metis
  have "w = length data \<or> disk_full fs'" using w by linarith
  with s sz c o w(1) show ?thesis unfolding eq split_conv by blast
qed

theorem lufirafs_write_exact_witness:
  "lufirafs_sound demo_fs \<and> (case lufirafs_write demo_fs 2 8190 [1, 2, 3] of (r, fs') \<Rightarrow>
     lufirafs_sound fs' \<and> (\<exists>w \<le> 3. (w = 3 \<or> disk_full fs') \<and> i_size (stored_inode fs' 2) \<ge> 8190 + w))"
  using lufirafs_write_exact [OF demo_sound demo_valid_ino(1), of 8190 "[1, 2, 3]"] demo_sound
  by (auto simp: LUFIRAFS_MAX_FILE_SIZE_def)

text \<open>C23: What \<open>lufirafs_write\<close> has written, \<open>lufirafs_read\<close> returns: reading the
  same range back gives the same bytes, unless the volume is full.
\<close>

theorem lufirafs_write_read:
  assumes "lufirafs_sound fs" "valid_ino fs ino" "offset + length data \<le> LUFIRAFS_MAX_FILE_SIZE"
  shows "case lufirafs_write fs ino offset data of (r, fs') \<Rightarrow>
    (case lufirafs_read fs' ino offset (length data) of (r', out, _) \<Rightarrow>
       r = int (length data) \<and> r' = r \<and> out = data \<or> disk_full fs')"
proof -
  obtain w fs' where eq: "lufirafs_write fs ino offset data = (if w = 0 \<and> data \<noteq> [] then - 1 else int w, fs')"
    and w: "w \<le> length data" "w < length data \<Longrightarrow> disk_full fs'" and s: "lufirafs_sound fs'" "inode_count (sb fs') = inode_count (sb fs)"
    and sz: "i_size (stored_inode fs' ino) = max (i_size (stored_inode fs ino)) (offset + w)"
    and c: "\<And>off. content fs' (stored_inode fs' ino) off =
       (if offset \<le> off \<and> off < offset + w then data ! (off - offset) else content fs (stored_inode fs ino) off)"
    using lufirafs_write_spec [OF assms] by metis
  have v: "valid_ino fs' ino" using assms(2) s(2) by (simp add: valid_ino_def)
  have r: "offset + length data < 2 ^ 31" using assms(3) by (simp add: LUFIRAFS_MAX_FILE_SIZE_def)
  obtain fs2 where rd: "lufirafs_read fs' ino offset (length data) =
      (let out = map (content fs' (stored_inode fs' ino)) [offset..<min (offset + length data) (i_size (stored_inode fs' ino))]
       in (int (length out), out, fs2))"
    by (rule lufirafs_read_spec [OF s(1) v r])
  show ?thesis
  proof (cases "w = length data")
    case True
    then have "min (offset + length data) (i_size (stored_inode fs' ino)) = offset + length data" using sz by simp
    moreover have "map (content fs' (stored_inode fs' ino)) [offset..<offset + length data] = data"
      using True c by (intro nth_equalityI) auto
    ultimately show ?thesis using eq rd True by (simp add: Let_def)
  next
    case False
    then show ?thesis using w eq rd by (simp add: Let_def)
  qed
qed

theorem lufirafs_write_read_witness:
  "lufirafs_sound demo_fs \<and> (case lufirafs_write demo_fs 2 8190 [1, 2, 3] of (r, fs') \<Rightarrow>
    (case lufirafs_read fs' 2 8190 3 of (r', out, _) \<Rightarrow> r = 3 \<and> r' = r \<and> out = [1, 2, 3] \<or> disk_full fs'))"
  using lufirafs_write_read [OF demo_sound demo_valid_ino(1), of 8190 "[1, 2, 3]"] demo_sound
  by (simp add: LUFIRAFS_MAX_FILE_SIZE_def numeral_3_eq_3)



subsection \<open>Inodes across a block boundary\<close>

text \<open>
  \<open>lufirafs_write_inode\<close> marks the block where the inode starts. Records of 76
  bytes do not divide the block of 8192, so that inode 108 has its first fifteen
  fields in one block of the table and the last four in the next.
\<close>

lemma straddling_image:
  assumes g: "geometry (sb fs) (lba_offset fs)" "108 \<le> inode_count (sb fs)" and n: "inode_fits n"
    and fs1: "fs1 = snd (lufirafs_write_inode fs 108 n)"
  shows "image fs1 = put_words (image fs) (inode_table_start (sb fs) * 8192 + 8132) (inode_words n)"
    "\<And>a. \<not> meta_dirty fs a \<Longrightarrow> a < data_start (sb fs) * 8192 \<Longrightarrow> meta_dirty fs1 a \<longleftrightarrow> a div 8192 = inode_table_start (sb fs)"
    "sb fs1 = sb fs" "lba_offset fs1 = lba_offset fs" "disk fs1 = disk fs" "io_fails fs1 = io_fails fs" "oom fs1 = oom fs"
    "next_free_block fs1 = next_free_block fs"
proof -
  have off: "inode_offset fs 108 = inode_table_start (sb fs) * 8192 + 8132" using inode_offset_range(1) [OF g(1)] g(2) by simp
  have ds: "inode_table_start (sb fs) < data_start (sb fs)"
    using g by (simp add: geometry_def)
  have "(inode_table_start (sb fs) * 8192 + 8132) div 8192 = inode_table_start (sb fs)" by simp
  then have eq: "fs1 = fs\<lparr>image := put_words (image fs) (inode_table_start (sb fs) * 8192 + 8132) (inode_words n),
      dirty_bitmap := bitmap_set (dirty_bitmap fs) (inode_table_start (sb fs))\<rparr>"
    using g(2) ds by (simp add: fs1 lufirafs_write_inode_def mark_dirty_eq off)
  show "image fs1 = put_words (image fs) (inode_table_start (sb fs) * 8192 + 8132) (inode_words n)"
    "sb fs1 = sb fs" "lba_offset fs1 = lba_offset fs" "disk fs1 = disk fs" "io_fails fs1 = io_fails fs" "oom fs1 = oom fs"
    "next_free_block fs1 = next_free_block fs"
    by (simp_all add: eq)
  show "meta_dirty fs1 a \<longleftrightarrow> a div 8192 = inode_table_start (sb fs)" if "\<not> meta_dirty fs a" for a
    using that by (simp add: eq meta_dirty_def)
qed

lemma stored_inode_words:
  assumes "geometry (sb fs) lba" "0 < ino" "ino \<le> inode_count (sb fs)"
  shows "stored_inode fs ino = words_inode (get_words (image fs) (inode_table_start (sb fs) * 8192 + (ino - 1) * 76) 19)"
  using assms inode_offset_range(1) [OF assms] by (simp add: stored_inode_def lufirafs_read_inode_def)

lemma straddling_remount:
  assumes ok: "mountable fs" "clean_on_disk fs" "108 \<le> inode_count (sb fs)" "inode_fits n"
    and clean: "\<And>a. a < data_start (sb fs) * 8192 \<Longrightarrow> \<not> meta_dirty fs a"
    and fs1: "fs1 = snd (lufirafs_write_inode fs 108 n)"
  shows "\<exists>fs'. lufirafs_init (lufirafs_sync fs1) (lba_offset fs) = (0, fs') \<and> sb fs' = sb fs \<and>
    (\<forall>a < data_start (sb fs) * 8192. image fs' a = (if a div 8192 = inode_table_start (sb fs) then image fs1 a else image fs a))"
proof -
  let ?its = "inode_table_start (sb fs)" and ?ds = "data_start (sb fs)"
  have g: "geometry (sb fs) (lba_offset fs)" using ok by (simp add: mountable_def fs_ok_def)
  have its: "1 < ?its" "8192 < ?ds * 8192" using g ok(3) by (auto simp: geometry_def)
  note f1 = straddling_image [OF g ok(3,4) fs1]
  have low: "image fs1 a = image fs a" if "a < 8192" for a unfolding f1(1) by (rule put_words_outside) (use its that in simp)
  have cd: "meta_disk fs1 a = image fs a" if "a < ?ds * 8192" for a
    using ok(2) clean [OF that] that by (auto simp: clean_on_disk_def meta_disk_def f1)
  have m: "mountable fs1"
    using ok(1) load_superblock_cong [of "image fs1" "image fs", OF low] by (simp add: mountable_def fs_ok_def f1)
  have "meta_dirty fs1 a \<or> meta_disk fs1 a = image fs1 a" if "a < 8192" for a
    using cd [of a] low [OF that] that its by simp
  from remount_image [OF m this] obtain fs' where
    "lufirafs_init (lufirafs_sync fs1) (lba_offset fs1) = (0, fs')" "sb fs' = sb fs1"
    and img: "\<And>a. a < ?ds * 8192 \<Longrightarrow> image fs' a = (if meta_dirty fs1 a then image fs1 a else meta_disk fs1 a)"
    using f1(3) by auto
  moreover have "image fs' a = (if a div 8192 = ?its then image fs1 a else image fs a)" if "a < ?ds * 8192" for a
    using img [OF that] f1(2) [OF clean [OF that] that] cd [OF that] by simp
  ultimately show ?thesis using f1(3,4) by auto
qed

text \<open>C25: An inode that crosses a block boundary of the inode table is torn by a
  sync. On a clean volume, write inode 108, synchronise and mount again: mode,
  size and direct pointers are the new ones, but the indirect pointer, owner, group
  and permissions are those from before the write, because the second block was not marked dirty.
\<close>

theorem lufirafs_straddling_inode_torn:
  assumes ok: "mountable fs" "clean_on_disk fs" "108 \<le> inode_count (sb fs)" "inode_fits n"
    and clean: "\<And>a. a < data_start (sb fs) * 8192 \<Longrightarrow> \<not> meta_dirty fs a"
  shows "\<exists>fs'. lufirafs_init (lufirafs_sync (snd (lufirafs_write_inode fs 108 n))) (lba_offset fs) = (0, fs') \<and>
    stored_inode fs' 108 = n\<lparr>i_indirect := i_indirect (stored_inode fs 108), i_uid := i_uid (stored_inode fs 108),
      i_gid := i_gid (stored_inode fs 108), i_perm := i_perm (stored_inode fs 108)\<rparr>"
proof -
  define fs1 where "fs1 = snd (lufirafs_write_inode fs 108 n)"
  let ?its = "inode_table_start (sb fs)" and ?ds = "data_start (sb fs)"
  let ?o = "?its * 8192 + 8132" and ?ws = "inode_words n"
  have g: "geometry (sb fs) (lba_offset fs)" using ok by (simp add: mountable_def fs_ok_def)
  have its: "?o + 76 \<le> ?ds * 8192" using g ok(3) by (auto simp: geometry_def)
  have len: "length ?ws = 19" "length (i_direct n) = 12" using ok(4) by (auto simp: inode_fits_def length_inode_words)
  obtain fs' where i: "lufirafs_init (lufirafs_sync fs1) (lba_offset fs) = (0, fs')" "sb fs' = sb fs"
    and img: "\<And>a. a < ?ds * 8192 \<Longrightarrow> image fs' a = (if a div 8192 = ?its then image fs1 a else image fs a)"
    using straddling_remount [OF ok clean fs1_def] by blast
  have "get_words (image fs1) ?o 19 = ?ws"
    using get_put_words [of ?ws "image fs" ?o] ok(4) len straddling_image(1) [OF g ok(3,4) fs1_def] by (simp add: inode_fits_def)
  then have new: "load32 (image fs1) (?o + 4 * j) = ?ws ! j" if "j < 19" for j
    using that by (auto simp: get_words_def list_eq_iff_nth_eq)
  have block: "(?o + 4 * j + i) div 8192 = (if j < 15 then ?its else ?its + 1)" if "j < 19" "i < 4" for i j
    using that by (auto intro!: div_nat_eqI)
  have "load32 (image fs') (?o + 4 * j) = load32 (if j < 15 then image fs1 else image fs) (?o + 4 * j)" if "j < 19" for j
    by (rule load32_cong) (use its that block [OF that] img in auto)
  then have "get_words (image fs') ?o 19 = take 15 ?ws @ drop 15 (get_words (image fs) ?o 19)"
    using len new by (intro nth_equalityI) (auto simp: get_words_def nth_append min_def)
  moreover have "stored_inode fs' 108 = words_inode (get_words (image fs') ?o 19)"
    "stored_inode fs 108 = words_inode (get_words (image fs) ?o 19)"
    using stored_inode_words [of fs' "lba_offset fs" 108] stored_inode_words [OF g, of 108] g ok(3) i(2) by simp_all
  ultimately have "stored_inode fs' 108 = n\<lparr>i_indirect := i_indirect (stored_inode fs 108), i_uid := i_uid (stored_inode fs 108),
      i_gid := i_gid (stored_inode fs 108), i_perm := i_perm (stored_inode fs 108)\<rparr>"
    using len by (simp add: words_inode_def nth_append inode_words_def)
  then show ?thesis using i(1) fs1_def by auto
qed

theorem lufirafs_straddling_inode_torn_witness:
  "\<exists>fs'. lufirafs_init (lufirafs_sync (snd (lufirafs_write_inode demo_fs 108 (new_inode 1 1000 1000 420)))) 2048 = (0, fs') \<and>
     i_mode (stored_inode fs' 108) = 1 \<and> i_perm (stored_inode fs' 108) = i_perm (stored_inode demo_fs 108)"
proof -
  have n: "inode_fits (new_inode 1 1000 1000 420)" by (simp add: inode_fits_def inode_words_def new_inode_def empty_inode_def)
  have "lba_offset demo_fs = 2048" "108 \<le> inode_count (sb demo_fs)" "\<not> meta_dirty demo_fs a" for a
    by (simp_all add: demo_fs_def demo_sb_fields meta_dirty_def bitmap_test_def)
  then show ?thesis
    using lufirafs_straddling_inode_torn [OF demo_mountable _ n] by (auto simp: new_inode_def)
qed

end
