(* ===== verification/Lufirafs_Dir.thy ===== *)
theory Lufirafs_Dir
  imports Lufirafs
begin

text \<open>
  Directories of the native file system as tables of entries. The searches of
  kernel/fs/lufirafs/lufirafs.c (model in Lufirafs) walk the blocks of a
  directory; here they are related to the list of its 64-byte entries, and
  \<open>lufirafs_create\<close> is shown to extend that table by one name.
\<close>

section \<open>Searching changes nothing\<close>

lemma tmp_buffer_ticks: "tmp_buffer fs = (r, fs1) \<Longrightarrow> ticks fs fs1"
  by (auto simp: tmp_buffer_def ticks_ooms)

lemma read_data_block_ticks: "read_data_block fs b = (r, fs1) \<Longrightarrow> ticks fs fs1"
  by (auto simp: read_data_block_def disk_read_sectors_def ticks_ios ticks_refl split: if_splits)

lemma indirect_get_block_ticks:
  assumes "indirect_get_block fs n idx False = (bn, n1, fs1)"
  shows "ticks fs fs1 \<and> n1 = n"
proof -
  obtain ok fs2 where t: "tmp_buffer fs = (ok, fs2)" by fastforce
  obtain r fs3 where rd: "read_data_block fs2 (i_indirect n) = (r, fs3)" by fastforce
  have "ticks fs fs2" "ticks fs fs3"
    using tmp_buffer_ticks [OF t] ticks_trans [OF tmp_buffer_ticks [OF t] read_data_block_ticks [OF rd]] by auto
  then show ?thesis
    using assms t rd by (auto simp: indirect_get_block_def Let_def split: bool.splits option.splits)
qed

lemma inode_get_block_ticks:
  assumes "inode_get_block fs n k False = (bn, n1, fs1)"
  shows "ticks fs fs1 \<and> n1 = n"
  using assms indirect_get_block_ticks [of fs n "k - 12" bn n1 fs1]
  by (auto simp: inode_get_block_def ticks_refl split: if_splits)

text \<open>One block of a directory: \<open>None\<close> for a hole or an unreadable block.\<close>

definition dir_block :: "lufirafs \<Rightarrow> lfs_inode \<Rightarrow> nat \<Rightarrow> nat \<times> buffer option \<times> lufirafs" where
  "dir_block fs n b =
    (case inode_get_block fs n b False of (bn, n1, fs1) \<Rightarrow>
       case (if bn = 0 then (None, fs1) else read_data_block fs1 bn) of (r, fs2) \<Rightarrow> (bn, r, fs2))"

lemma dir_block_ticks:
  assumes "dir_block fs n b = (bn, r, fs1)"
  shows "ticks fs fs1"
proof -
  obtain bn' n1 fs2 where g: "inode_get_block fs n b False = (bn', n1, fs2)"
    by (cases "inode_get_block fs n b False") auto
  obtain r' fs3 where rd: "read_data_block fs2 bn' = (r', fs3)" by fastforce
  have "ticks fs fs2" using inode_get_block_ticks [OF g] by blast
  moreover have "fs1 = (if bn' = 0 then fs2 else fs3)" using assms g rd by (auto simp: dir_block_def)
  ultimately show ?thesis using ticks_trans read_data_block_ticks [OF rd] by auto
qed

lemma dir_search_step:
  "dir_search P fs n (b # bs) =
    (case dir_block fs n b of
       (bn, None, fs1) \<Rightarrow> dir_search P fs1 n bs
     | (bn, Some buf, fs1) \<Rightarrow>
         (case first_in (P buf) 0 128 of Some i \<Rightarrow> (Some (bn, buf, i), fs1) | None \<Rightarrow> dir_search P fs1 n bs))"
proof -
  obtain bn n1 fs1 where g: "inode_get_block fs n b False = (bn, n1, fs1)" by (cases "inode_get_block fs n b False") auto
  then have "n1 = n" using inode_get_block_ticks by blast
  then show ?thesis using g by (auto simp: dir_block_def split: prod.splits option.splits)
qed

declare dir_search.simps(2) [simp del]

lemma dir_search_ticks: "dir_search P fs n bs = (r, fs1) \<Longrightarrow> ticks fs fs1"
proof (induction bs arbitrary: fs)
  case Nil
  then show ?case by (simp add: ticks_refl)
next
  case (Cons b bs)
  obtain bn res fs2 where d: "dir_block fs n b = (bn, res, fs2)" by (cases "dir_block fs n b") auto
  note t = dir_block_ticks [OF d]
  show ?case
  proof (cases "\<exists>buf i. res = Some buf \<and> first_in (P buf) 0 128 = Some i")
    case True
    then show ?thesis using Cons.prems d t by (auto simp: dir_search_step)
  next
    case False
    then have "dir_search P fs2 n bs = (r, fs1)" using Cons.prems d by (auto simp: dir_search_step split: option.splits)
    then show ?thesis using Cons.IH ticks_trans [OF t] by blast
  qed
qed

lemma lookup_in_dir_ticks:
  assumes "lookup_in_dir fs d name = (r, fs1)"
  shows "ticks fs fs1"
proof (cases "\<exists>n. lufirafs_read_inode fs d = Some n \<and> i_mode n = 2")
  case False
  then have "fs1 = fs" using assms by (auto simp: lookup_in_dir_def split: option.splits if_splits)
  then show ?thesis by (simp add: ticks_refl)
next
  case True
  then obtain n where n: "lufirafs_read_inode fs d = Some n" "i_mode n = 2" by blast
  obtain ok fs2 where t: "tmp_buffer fs = (ok, fs2)" by fastforce
  obtain res fs3 where s: "dir_search (named name) fs2 n [0..<blocks_of (i_size n)] = (res, fs3)" by fastforce
  have "fs1 = (if ok then fs3 else fs2)"
    using assms n t s by (cases ok; cases res) (auto simp: lookup_in_dir_def)
  then show ?thesis
    using tmp_buffer_ticks [OF t] ticks_trans [OF tmp_buffer_ticks [OF t] dir_search_ticks [OF s]] by simp
qed

lemma lookup_loop_ticks: "lookup_loop fs cur p = (r, fs1) \<Longrightarrow> ticks fs fs1"
proof (induction "length p" arbitrary: fs cur p rule: less_induct)
  case less
  define c where "c = take LUFIRAFS_MAX_NAME (takeWhile (\<lambda>c. c \<noteq> 47) p)"
  define rest where "rest = dropWhile (\<lambda>c. c = 47) (drop (length c) p)"
  show ?case
  proof (cases "p = []")
    case True
    then show ?thesis using less.prems by (simp add: lookup_loop.simps [of fs cur "[]"] ticks_refl)
  next
    case False
    then have short: "length rest < length p" using lookup_rest_shorter c_def rest_def by blast
    show ?thesis
    proof (cases "c = []")
      case True
      then show ?thesis using less False short by (simp add: lookup_loop.simps [of fs cur p] Let_def c_def [symmetric] rest_def)
    next
      case c: False
      obtain n fs2 where l: "lookup_in_dir fs cur c = (n, fs2)" by fastforce
      show ?thesis
      proof (cases n)
        case None
        then show ?thesis
          using less.prems False c l lookup_in_dir_ticks [OF l] by (simp add: lookup_loop.simps [of fs cur p] Let_def c_def [symmetric])
      next
        case (Some nx)
        then have "lookup_loop fs2 nx rest = (r, fs1)"
          using less.prems False c l by (simp add: lookup_loop.simps [of fs cur p] Let_def c_def [symmetric] rest_def)
        from ticks_trans [OF lookup_in_dir_ticks [OF l] less.hyps [OF short this]] show ?thesis .
      qed
    qed
  qed
qed

lemma lufirafs_lookup_ticks: "lufirafs_lookup fs d p = (r, fs1) \<Longrightarrow> ticks fs fs1"
  by (auto simp: lufirafs_lookup_def intro: lookup_loop_ticks split: if_splits)

section \<open>The table of entries\<close>

text \<open>
  Entry \<open>k\<close> of a directory with contents \<open>c\<close>: its inode number and its name, which
  ends at a terminator or at the end of the block.
\<close>

definition dent_ino :: "(nat \<Rightarrow> u8) \<Rightarrow> nat \<Rightarrow> nat" where
  "dent_ino c k = load32 c (64 * k)"

definition dent_name :: "(nat \<Rightarrow> u8) \<Rightarrow> nat \<Rightarrow> bytes" where
  "dent_name c k = takeWhile (\<lambda>x. x \<noteq> 0) (map c [64 * k + 4..<8192 * (k div 128 + 1)])"

definition dent_matches :: "(nat \<Rightarrow> u8) \<Rightarrow> bytes \<Rightarrow> nat \<Rightarrow> bool" where
  "dent_matches c name k \<longleftrightarrow> dent_ino c k \<noteq> 0 \<and> dent_name c k = name"

definition dir_lookup :: "(nat \<Rightarrow> u8) \<Rightarrow> nat \<Rightarrow> bytes \<Rightarrow> nat option" where
  "dir_lookup c m name = map_option (dent_ino c) (first_in (dent_matches c name) 0 m)"

text \<open>A buffer that holds block \<open>b\<close> shows the entries \<open>128 * b\<close> to \<open>128 * b + 127\<close>.\<close>

definition holds_block :: "(nat \<Rightarrow> u8) \<Rightarrow> nat \<Rightarrow> buffer \<Rightarrow> bool" where
  "holds_block c b buf \<longleftrightarrow> (\<forall>j<8192. buf j = c (8192 * b + j))"

lemma block_entry_index: "i < 128 \<Longrightarrow> (128 * b + i) div 128 = b" "i < 128 \<Longrightarrow> (128 * b + i) mod 128 = i" for i b :: nat
  by auto

lemma holds_dent:
  assumes "holds_block c b buf" "i < 128"
  shows "dirent_inode buf i = dent_ino c (128 * b + i)" "dirent_name buf i = dent_name c (128 * b + i)"
proof -
  have off: "64 * (128 * b + i) = 8192 * b + 64 * i" by simp
  show "dirent_inode buf i = dent_ino c (128 * b + i)"
    unfolding dirent_inode_def dent_ino_def off
    by (rule load32_cong) (use assms in \<open>simp add: holds_block_def add.assoc\<close>)
  have "map buf [64 * i + 4..<8192] = map c [8192 * b + (64 * i + 4)..<8192 * b + 8192]"
    using assms by (intro nth_equalityI) (auto simp: holds_block_def add.assoc)
  moreover have "8192 * ((128 * b + i) div 128 + 1) = 8192 * b + 8192" using block_entry_index(1) [OF assms(2)] by simp
  ultimately show "dirent_name buf i = dent_name c (128 * b + i)"
    by (simp only: dirent_name_def dent_name_def off add.assoc)
qed

text \<open>What a search tells of a directory: the first entry in a block that exists and satisfies the condition.\<close>

definition block_hit :: "(nat \<Rightarrow> nat) \<Rightarrow> (nat \<Rightarrow> bool) \<Rightarrow> nat \<Rightarrow> bool" where
  "block_hit ptr Q k \<longleftrightarrow> ptr (k div 128) \<noteq> 0 \<and> Q k"

lemma dir_block_ok:
  assumes "fs_ok fs" "owned fs T" "T ino = n"
  obtains r fs1 where "dir_block fs n b = (ptr_at fs n b, r, fs1)" "ticks fs fs1"
    "ptr_at fs n b = 0 \<Longrightarrow> r = None" "ptr_at fs n b \<noteq> 0 \<Longrightarrow> \<exists>buf. r = Some buf \<and> holds_block (content fs n) b buf"
proof -
  obtain fs1 where g: "inode_get_block fs n b False = (ptr_at fs n b, n, fs1)" "ticks fs fs1"
    by (rule inode_get_block_lookup [OF assms])
  show thesis
  proof (cases "ptr_at fs n b = 0")
    case True
    then show thesis using that [of None fs1] g by (simp add: dir_block_def)
  next
    case False
    have "fs_ok fs1" "used_block fs1 (ptr_at fs n b)"
      using assms ticksD(1,5) [OF g(2)] owned_ptr_used [OF assms(2), of ino] False by auto
    then obtain buf where rd: "read_data_block fs1 (ptr_at fs n b) = (Some buf, fs1\<lparr>ios := ios fs1 + 1\<rparr>)"
      and buf: "\<And>i. i < 8192 \<Longrightarrow> buf i = block_at fs1 (ptr_at fs n b) i" using read_data_block_ok by metis
    have "holds_block (content fs n) b buf"
      using buf False ticksD(4) [OF g(2)] by (simp add: holds_block_def content_def Let_def)
    then show thesis
      using that [of "Some buf" "fs1\<lparr>ios := ios fs1 + 1\<rparr>"] False g rd ticks_trans [OF g(2) ticks_ios] by (simp add: dir_block_def)
  qed
qed

text \<open>The conditions searched for look at the entry only.\<close>

definition entry_test :: "(buffer \<Rightarrow> nat \<Rightarrow> bool) \<Rightarrow> (nat \<Rightarrow> u8) \<Rightarrow> (nat \<Rightarrow> bool) \<Rightarrow> bool" where
  "entry_test P c Q \<longleftrightarrow> (\<forall>b buf i. holds_block c b buf \<longrightarrow> i < 128 \<longrightarrow> P buf i = Q (128 * b + i))"

lemma first_in_blocks:
  assumes "k < 128 * (b + 1)" "128 * b \<le> (k :: nat)"
  shows "\<exists>i<128. k = 128 * b + i"
  using assms by (intro exI [of _ "k - 128 * b"]) auto

lemma dir_search_ok:
  assumes "fs_ok fs" "owned fs T" "T ino = n" "entry_test P (content fs n) Q" "a \<le> nb"
  shows "\<exists>fs1. ticks fs fs1 \<and> (case first_in (block_hit (ptr_at fs n) Q) (128 * a) (128 * nb) of
     None \<Rightarrow> dir_search P fs n [a..<nb] = (None, fs1)
   | Some k \<Rightarrow> \<exists>buf. dir_search P fs n [a..<nb] = (Some (ptr_at fs n (k div 128), buf, k mod 128), fs1) \<and>
       holds_block (content fs n) (k div 128) buf)"
  using assms
proof (induction "nb - a" arbitrary: a fs)
  case 0
  then have "first_in (block_hit (ptr_at fs n) Q) (128 * a) (128 * nb) = None" by (auto simp: first_in_None)
  then show ?case using 0 ticks_refl by auto
next
  case (Suc m)
  let ?H = "block_hit (ptr_at fs n) Q"
  have a: "a < nb" "m = nb - (a + 1)" using Suc.hyps(2) by auto
  obtain r fs1 where d: "dir_block fs n a = (ptr_at fs n a, r, fs1)" and t: "ticks fs fs1"
    and hole: "ptr_at fs n a = 0 \<Longrightarrow> r = None" and blk: "ptr_at fs n a \<noteq> 0 \<Longrightarrow> \<exists>buf. r = Some buf \<and> holds_block (content fs n) a buf"
    by (rule dir_block_ok [OF Suc.prems(1-3), of a]) auto
  have up: "[a..<nb] = a # [a + 1..<nb]" using a by (simp add: upt_conv_Cons)
  show ?case
  proof (cases "\<exists>k. 128 * a \<le> k \<and> k < 128 * (a + 1) \<and> ?H k")
    case True
    then have p: "ptr_at fs n a \<noteq> 0" using first_in_blocks block_entry_index(1) by (fastforce simp: block_hit_def)
    then obtain buf where buf: "r = Some buf" "holds_block (content fs n) a buf" using blk by blast
    have eq: "P buf i = ?H (128 * a + i)" if "i < 128" for i
      using Suc.prems(4) buf(2) that p block_entry_index(1) [OF that, of a] by (simp add: entry_test_def block_hit_def)
    obtain i0 where "i0 < 128" "?H (128 * a + i0)" using True first_in_blocks by blast
    then have "P buf i0" "i0 < 128" using eq by auto
    then obtain i where i: "first_in (P buf) 0 128 = Some i"
      by (cases "first_in (P buf) 0 128") (auto simp: first_in_None)
    then have i2: "i < 128" "?H (128 * a + i)" "\<And>j. j < i \<Longrightarrow> \<not> ?H (128 * a + j)"
      using eq by (auto simp: first_in_Some)
    have "first_in ?H (128 * a) (128 * nb) = Some (128 * a + i)"
      unfolding first_in_Some
    proof (intro conjI allI impI)
      show "128 * a + i < 128 * nb" using i2(1) a by linarith
      show "\<not> ?H j" if "128 * a \<le> j \<and> j < 128 * a + i" for j
        using i2(3) [of "j - 128 * a"] that by (simp add: less_diff_conv2)
    qed (use i2 in auto)
    moreover have "dir_search P fs n [a..<nb] = (Some (ptr_at fs n a, buf, i), fs1)"
      unfolding up dir_search_step using d buf i by simp
    ultimately show ?thesis using t buf(2) block_entry_index [OF i2(1)] by auto
  next
    case False
    have fi: "first_in ?H (128 * a) (128 * nb) = first_in ?H (128 * (a + 1)) (128 * nb)"
      by (rule first_in_skip) (use False in auto)
    have ds: "dir_search P fs n [a..<nb] = dir_search P fs1 n [a + 1..<nb]"
    proof (cases "ptr_at fs n a = 0")
      case True
      then show ?thesis unfolding up dir_search_step using d hole by simp
    next
      case p: False
      then obtain buf where buf: "r = Some buf" "holds_block (content fs n) a buf" using blk by blast
      have "\<not> P buf i" if "i < 128" for i
      proof -
        have "\<not> ?H (128 * a + i)" using False that by auto
        then show ?thesis
          using Suc.prems(4) buf(2) that p block_entry_index(1) [OF that, of a] by (simp add: entry_test_def block_hit_def)
      qed
      then have "first_in (P buf) 0 128 = None" by (simp add: first_in_None)
      then show ?thesis unfolding up dir_search_step using d buf by simp
    qed
    have k: "keeps fs fs1" by (rule ticks_keeps [OF Suc.prems(1) t])
    have eqs: "content fs1 = content fs" "ptr_at fs1 = ptr_at fs"
      using keeps_content [OF k] ptr_at_cong [OF ticksD(4) [OF t]] by simp_all
    have own: "owned fs1 T" using keeps_keeps_files [OF k Suc.prems(2)] by (simp add: keeps_files_def)
    have "a + 1 \<le> nb" using a by simp
    from Suc.hyps(1) [OF a(2) keeps_ok [OF k] own Suc.prems(3) _ this, unfolded eqs, OF Suc.prems(4)]
    obtain fs2 where "ticks fs1 fs2" and "case first_in ?H (128 * (a + 1)) (128 * nb) of
        None \<Rightarrow> dir_search P fs1 n [a + 1..<nb] = (None, fs2)
      | Some k \<Rightarrow> \<exists>buf. dir_search P fs1 n [a + 1..<nb] = (Some (ptr_at fs n (k div 128), buf, k mod 128), fs2) \<and>
          holds_block (content fs n) (k div 128) buf" by blast
    then show ?thesis using ticks_trans [OF t] unfolding fi ds by blast
  qed
qed

lemma first_in_cong: "(\<And>k. i \<le> k \<Longrightarrow> k < n \<Longrightarrow> P k = Q k) \<Longrightarrow> first_in P i n = first_in Q i n"
  unfolding first_in_def by (rule find_cong) auto

lemma hole_entry:
  assumes "ptr_at fs n (k div 128) = 0"
  shows "dent_ino (content fs n) k = 0"
proof -
  have "content fs n (64 * k + j) = 0" if "j < 64" for j
  proof -
    have "(64 * k + j) div 8192 = k div 128"
    proof -
      have "64 * k + j < 64 * (k + 1)" using that by simp
      then have "(64 * k + j) div 64 = k" by (intro div_nat_eqI) auto
      then have "(64 * k + j) div 64 div 128 = k div 128" by simp
      then show ?thesis by (simp flip: div_mult2_eq)
    qed
    then show ?thesis using assms by (simp add: content_def)
  qed
  then have "load32 (content fs n) (64 * k) = load32 (\<lambda>_. 0) 0" by (intro load32_cong) auto
  then show ?thesis by (simp add: dent_ino_def load32_zero)
qed

lemma named_entry_test: "entry_test (named name) c (dent_matches c name)"
  by (simp add: entry_test_def named_def dent_matches_def holds_dent)

lemma free_entry_test: "entry_test (\<lambda>buf i. dirent_inode buf i = 0) c (\<lambda>k. dent_ino c k = 0)"
  by (simp add: entry_test_def holds_dent)

abbreviation dir_slots :: "lfs_inode \<Rightarrow> nat" where
  "dir_slots n \<equiv> 128 * blocks_of (i_size n)"

lemma lookup_search_ok:
  assumes "fs_ok fs" "owned fs T" "T d = n"
  shows "\<exists>fs1 r. dir_search (named name) fs n [0..<blocks_of (i_size n)] = (r, fs1) \<and> ticks fs fs1 \<and>
    map_option (\<lambda>(bn, buf, i). dirent_inode buf i) r = dir_lookup (content fs n) (dir_slots n) name \<and>
    (\<forall>bn buf i. r = Some (bn, buf, i) \<longrightarrow> (\<exists>k < dir_slots n. dent_matches (content fs n) name k \<and> bn = ptr_at fs n (k div 128) \<and>
       bn \<noteq> 0 \<and> i = k mod 128 \<and> holds_block (content fs n) (k div 128) buf))"
proof -
  let ?c = "content fs n" and ?H = "block_hit (ptr_at fs n) (dent_matches (content fs n) name)"
  have "?H k = dent_matches ?c name k" for k using hole_entry [of fs n k] by (cases "ptr_at fs n (k div 128) = 0") (auto simp: block_hit_def dent_matches_def)
  then have fi: "first_in ?H 0 (dir_slots n) = first_in (dent_matches ?c name) 0 (dir_slots n)"
    by (intro first_in_cong) simp
  obtain fs1 where t: "ticks fs fs1" and s: "case first_in ?H 0 (dir_slots n) of
      None \<Rightarrow> dir_search (named name) fs n [0..<blocks_of (i_size n)] = (None, fs1)
    | Some k \<Rightarrow> \<exists>buf. dir_search (named name) fs n [0..<blocks_of (i_size n)] = (Some (ptr_at fs n (k div 128), buf, k mod 128), fs1) \<and>
        holds_block ?c (k div 128) buf"
    using dir_search_ok [OF assms named_entry_test, of 0 "blocks_of (i_size n)"] by auto
  show ?thesis
  proof (cases "first_in ?H 0 (dir_slots n)")
    case None
    then have "dir_lookup ?c (dir_slots n) name = None" using fi by (simp add: dir_lookup_def)
    then show ?thesis using s None t by auto
  next
    case (Some k)
    then obtain buf where b: "dir_search (named name) fs n [0..<blocks_of (i_size n)] = (Some (ptr_at fs n (k div 128), buf, k mod 128), fs1)"
      "holds_block ?c (k div 128) buf" using s by auto
    have k: "k < dir_slots n" "?H k" using Some by (auto simp: first_in_Some)
    have "dirent_inode buf (k mod 128) = dent_ino ?c k" using holds_dent(1) [OF b(2), of "k mod 128"] by simp
    moreover have "dir_lookup ?c (dir_slots n) name = Some (dent_ino ?c k)" unfolding dir_lookup_def fi [symmetric] Some by simp
    ultimately show ?thesis using b t k by (auto simp: block_hit_def)
  qed
qed

lemma lookup_in_dir_ok:
  assumes "lufirafs_sound fs" "valid_ino fs d" "i_mode (stored_inode fs d) = 2"
  shows "\<exists>fs1. lookup_in_dir fs d name =
      (dir_lookup (content fs (stored_inode fs d)) (dir_slots (stored_inode fs d)) name, fs1) \<and> ticks fs fs1"
proof -
  let ?n = "stored_inode fs d"
  have ok: "fs_ok fs" "owned fs (stored_inode fs)" using assms(1) by (auto simp: lufirafs_sound_def)
  define fs0 where "fs0 = fs\<lparr>ooms := ooms fs + 1\<rparr>"
  note t0 = ticks_ooms [of fs "ooms fs + 1", folded fs0_def]
  have k0: "keeps fs fs0" by (rule ticks_keeps [OF ok(1) t0])
  have ok0: "fs_ok fs0" "owned fs0 (stored_inode fs)"
    using keeps_ok [OF k0] keeps_keeps_files [OF k0 ok(2)] by (auto simp: keeps_files_def)
  obtain fs1 r where s: "dir_search (named name) fs0 ?n [0..<blocks_of (i_size ?n)] = (r, fs1)" "ticks fs0 fs1"
    "map_option (\<lambda>(bn, buf, i). dirent_inode buf i) r = dir_lookup (content fs ?n) (dir_slots ?n) name"
    using lookup_search_ok [OF ok0, of d ?n name, OF refl] keeps_content [OF k0] by auto
  have "lookup_in_dir fs d name = (map_option (\<lambda>(bn, buf, i). dirent_inode buf i) r, fs1)"
    using read_stored [OF assms(2)] assms(3) tmp_buffer_ok [OF ok(1), folded fs0_def] s(1)
    by (cases r) (auto simp: lookup_in_dir_def)
  then show ?thesis using s(2,3) ticks_trans [OF t0] by auto
qed

subsection \<open>Changing an entry\<close>

definition terminated :: "(nat \<Rightarrow> u8) \<Rightarrow> nat \<Rightarrow> bool" where
  "terminated c k \<longleftrightarrow> (\<exists>j<60. c (64 * k + 4 + j) = 0)"

text \<open>Names that fit an entry.\<close>

definition entry_name :: "bytes \<Rightarrow> bool" where
  "entry_name name \<longleftrightarrow> length name \<le> LUFIRAFS_MAX_NAME \<and> 0 \<notin> set name"

lemma takeWhile_prefix:
  assumes "a \<le> b" "b \<le> e" "\<exists>j. a \<le> j \<and> j < b \<and> c j = (0 :: u8)"
  shows "takeWhile (\<lambda>x. x \<noteq> 0) (map c [a..<e]) = takeWhile (\<lambda>x. x \<noteq> 0) (map c [a..<b])"
proof -
  have "[a..<e] = [a..<b] @ [b..<e]" using assms(1,2) by (metis le_Suc_ex upt_add_eq_append)
  moreover obtain j where "a \<le> j" "j < b" "c j = 0" using assms(3) by blast
  ultimately show ?thesis by (simp only: map_append) (subst takeWhile_append1 [where x = "c j"]; auto)
qed

lemma entry_end: "64 * k + 64 \<le> 8192 * (k div 128 + 1)" for k :: nat
proof -
  have gen: "64 * (128 * q + r) + 64 \<le> 8192 * (q + 1)" if "r < 128" for q r :: nat using that by simp
  have "k mod 128 < 128" by simp
  from gen [OF this, of "k div 128"] show ?thesis by (simp only: mult_div_mod_eq)
qed

lemma dent_name_terminated:
  "terminated c k \<Longrightarrow> dent_name c k = takeWhile (\<lambda>x. x \<noteq> 0) (map c [64 * k + 4..<64 * k + 64])"
proof -
  assume "terminated c k"
  then obtain j where "j < 60" "c (64 * k + 4 + j) = 0" by (auto simp: terminated_def)
  then have "\<exists>j. 64 * k + 4 \<le> j \<and> j < 64 * k + 64 \<and> c j = 0" by (intro exI [of _ "64 * k + 4 + j"]) auto
  then show ?thesis unfolding dent_name_def using entry_end [of k] by (intro takeWhile_prefix) auto
qed

definition set_dent :: "(nat \<Rightarrow> u8) \<Rightarrow> nat \<Rightarrow> nat \<Rightarrow> bytes \<Rightarrow> nat \<Rightarrow> u8" where
  "set_dent c k ino name = copy_name (store32 c (64 * k) ino) (64 * k + 4) name LUFIRAFS_MAX_NAME"

lemma copy_name_at:
  "entry_name name \<Longrightarrow> copy_name f a name LUFIRAFS_MAX_NAME x =
     (if a \<le> x \<and> x < a + length name then name ! (x - a) else if x = a + length name then 0 else f x)"
  by (auto simp: copy_name_def entry_name_def blit_def Let_def min_def)

lemma entry_name_length: "entry_name name \<Longrightarrow> length name \<le> 59"
  by (simp add: entry_name_def LUFIRAFS_MAX_NAME_def)

lemma set_dent_outside:
  assumes "entry_name name" "x < 64 * k \<or> 64 * k + 64 \<le> x"
  shows "set_dent c k ino name x = c x"
  using assms(2) entry_name_length [OF assms(1)]
  by (auto simp: set_dent_def copy_name_at [OF assms(1)] store32_outside)

text \<open>The new entry reads as written, every other terminated entry as before.\<close>

lemma set_dent_same:
  assumes "entry_name name" "ino < 2 ^ 32"
  shows "dent_ino (set_dent c k ino name) k = ino" "dent_name (set_dent c k ino name) k = name"
    "terminated (set_dent c k ino name) k"
proof -
  note at = copy_name_at [OF assms(1)] and len = entry_name_length [OF assms(1)]
  have "load32 (set_dent c k ino name) (64 * k) = load32 (store32 c (64 * k) ino) (64 * k)"
    by (rule load32_cong) (simp add: set_dent_def at)
  then show "dent_ino (set_dent c k ino name) k = ino" using assms(2) by (simp add: dent_ino_def load32_store32_same)
  have zero: "set_dent c k ino name (64 * k + 4 + length name) = 0" by (simp add: set_dent_def at)
  then show t: "terminated (set_dent c k ino name) k" using len unfolding terminated_def by (intro exI [of _ "length name"]) simp
  have "64 * k + 64 = (64 * k + 4 + length name) + (60 - length name)" using len by simp
  then have split: "[64 * k + 4..<64 * k + 64] = [64 * k + 4..<64 * k + 4 + length name] @ [64 * k + 4 + length name..<64 * k + 64]"
    by (metis le_add1 upt_add_eq_append)
  have "map (set_dent c k ino name) [64 * k + 4..<64 * k + 4 + length name] = name"
    by (intro nth_equalityI) (auto simp: set_dent_def at)
  moreover have "map (set_dent c k ino name) [64 * k + 4 + length name..<64 * k + 64] =
      0 # map (set_dent c k ino name) [64 * k + 4 + length name + 1..<64 * k + 64]"
    using len zero by (simp add: upt_conv_Cons)
  ultimately have "map (set_dent c k ino name) [64 * k + 4..<64 * k + 64] =
      name @ 0 # map (set_dent c k ino name) [64 * k + 4 + length name + 1..<64 * k + 64]"
    unfolding split by simp
  moreover have "takeWhile (\<lambda>x. x \<noteq> 0) name = name" using assms(1) by (auto simp: entry_name_def takeWhile_eq_all_conv)
  ultimately show "dent_name (set_dent c k ino name) k = name"
    unfolding dent_name_terminated [OF t] using assms(1) by (simp add: entry_name_def takeWhile_append2)
qed

lemma entry_cong:
  assumes "\<And>x. 64 * k \<le> x \<Longrightarrow> x < 64 * k + 64 \<Longrightarrow> c' x = c x"
  shows "dent_ino c' k = dent_ino c k" "terminated c k \<Longrightarrow> dent_name c' k = dent_name c k" "terminated c' k = terminated c k"
proof -
  show "dent_ino c' k = dent_ino c k" unfolding dent_ino_def by (rule load32_cong) (simp add: assms)
  show t: "terminated c' k = terminated c k" unfolding terminated_def using assms by auto
  have "map c' [64 * k + 4..<64 * k + 64] = map c [64 * k + 4..<64 * k + 64]" using assms by auto
  then show "dent_name c' k = dent_name c k" if "terminated c k"
    using t that by (simp only: dent_name_terminated)
qed

lemma set_dent_other:
  assumes "entry_name name" "j \<noteq> k"
  shows "dent_ino (set_dent c k ino name) j = dent_ino c j"
    "terminated c j \<Longrightarrow> dent_name (set_dent c k ino name) j = dent_name c j"
    "terminated (set_dent c k ino name) j = terminated c j"
proof -
  have "set_dent c k ino name x = c x" if "64 * j \<le> x" "x < 64 * j + 64" for x
  proof (rule set_dent_outside [OF assms(1)])
    have "j + 1 \<le> k \<or> k + 1 \<le> j" using assms(2) by linarith
    then show "x < 64 * k \<or> 64 * k + 64 \<le> x" using that by linarith
  qed
  from entry_cong [of j "set_dent c k ino name" c, OF this] show
    "dent_ino (set_dent c k ino name) j = dent_ino c j"
    "terminated c j \<Longrightarrow> dent_name (set_dent c k ino name) j = dent_name c j"
    "terminated (set_dent c k ino name) j = terminated c j" by auto
qed

text \<open>Every entry in use has a terminated name.\<close>

definition table_ok :: "(nat \<Rightarrow> u8) \<Rightarrow> nat \<Rightarrow> bool" where
  "table_ok c m \<longleftrightarrow> (\<forall>k<m. dent_ino c k \<noteq> 0 \<longrightarrow> terminated c k)"

lemma table_ok_set:
  assumes "table_ok c m" "entry_name name" "ino < 2 ^ 32"
  shows "table_ok (set_dent c k ino name) m"
  using assms set_dent_other [OF assms(2)] set_dent_same(3) [OF assms(2,3)] unfolding table_ok_def by metis

lemma dir_lookup_set:
  assumes t: "table_ok c m" and k: "k < m" "dent_ino c k = 0" and name: "entry_name name" and ino: "0 < ino" "ino < 2 ^ 32"
    and new: "dir_lookup c m name = None"
  shows "dir_lookup (set_dent c k ino name) m name = Some ino"
    "name' \<noteq> name \<Longrightarrow> dir_lookup (set_dent c k ino name) m name' = dir_lookup c m name'"
proof -
  let ?c = "set_dent c k ino name"
  have other: "dent_matches ?c nm j = dent_matches c nm j" if "j < m" "j \<noteq> k" for nm j
    using set_dent_other [OF name that(2)] t that by (auto simp: dent_matches_def table_ok_def)
  have same: "dent_matches ?c nm k = (nm = name)" for nm
    using set_dent_same [OF name ino(2)] ino by (auto simp: dent_matches_def)
  have "first_in (dent_matches ?c name) 0 m = Some k"
    using new k same other by (auto simp: dir_lookup_def first_in_None first_in_Some)
  then show "dir_lookup ?c m name = Some ino" using set_dent_same(1) [OF name ino(2)] by (simp add: dir_lookup_def)
  show "dir_lookup ?c m name' = dir_lookup c m name'" if "name' \<noteq> name"
  proof -
    have "dent_matches ?c name' j = dent_matches c name' j" if "j < m" for j
      using other [OF that] same [of name'] \<open>name' \<noteq> name\<close> k(2) by (cases "j = k") (auto simp: dent_matches_def)
    then have eq: "first_in (dent_matches ?c name') 0 m = first_in (dent_matches c name') 0 m" by (intro first_in_cong) simp
    show ?thesis
    proof (cases "first_in (dent_matches c name') 0 m")
      case (Some j)
      then have "j \<noteq> k" using k(2) by (auto simp: first_in_Some dent_matches_def)
      then show ?thesis using eq Some set_dent_other(1) [OF name] by (simp add: dir_lookup_def)
    qed (simp add: dir_lookup_def eq)
  qed
qed

section \<open>Adding an entry\<close>

lemma fresh_keeps_files: "fresh_block fs b fs' \<Longrightarrow> owned fs T \<Longrightarrow> keeps_files fs T fs' T"
  using fresh_block_files [of fs T b fs'] fresh_block_bounds(5) [of fs b fs']
  by (auto simp: keeps_files_def fun_eq_iff)

lemma indirect_get_block_fail:
  assumes ok: "fs_ok fs" "owned fs T" and n: "T ino = n" "i_indirect n \<noteq> 0" "idx < 2048"
    and g: "indirect_get_block fs n idx True = (0, n1, fs1)"
  shows "n1 = n \<and> ticks fs fs1"
proof -
  obtain b fs2 where t: "tmp_buffer fs = (b, fs2)" by fastforce
  obtain r fs3 where rd: "read_data_block fs2 (i_indirect n) = (r, fs3)" by fastforce
  obtain nb fs4 where a: "alloc_block fs3 = (nb, fs4)" by fastforce
  have t2: "ticks fs fs2" and t3: "ticks fs fs3"
    using tmp_buffer_ticks [OF t] ticks_trans [OF tmp_buffer_ticks [OF t] read_data_block_ticks [OF rd]] by auto
  have "fs_ok fs3" using ok(1) ticksD(1) [OF t3] by simp
  from alloc_block_ok [OF this a] have "nb = 0 \<Longrightarrow> fs4 = fs3" by auto
  then show ?thesis
    using g t rd a t2 t3 by (auto simp: indirect_get_block_def Let_def split: bool.splits option.splits if_splits)
qed

text \<open>A failed request may have taken a block for the pointers, but changes no file of the table.\<close>

lemma inode_get_block_fail:
  assumes ok: "fs_ok fs" "owned fs T" and n: "T ino = n" and g: "inode_get_block fs n k True = (0, n1, fs1)"
  shows "keeps_files fs T fs1 T"
proof -
  have refl: "keeps_files fs T fs T" by (rule ticks_keeps_files [OF ok(1) ticks_refl ok(2)])
  obtain nb fs2 where a: "alloc_block fs = (nb, fs2)" by fastforce
  note al = alloc_block_ok [OF ok(1) a]
  consider "fs1 = fs" | "12 \<le> k" "k - 12 < 2048" "i_indirect n \<noteq> 0" "indirect_get_block fs n (k - 12) True = (0, n1, fs1)"
    | "12 \<le> k" "k - 12 < 2048" "i_indirect n = 0" "nb \<noteq> 0"
      "indirect_get_block fs2 (n\<lparr>i_indirect := nb\<rparr>) (k - 12) True = (0, n1, fs1)"
    using g a al by (auto simp: inode_get_block_def LUFIRAFS_PTRS_PER_BLOCK_def split: if_splits)
  then show ?thesis
  proof cases
    case 1
    then show ?thesis using refl by simp
  next
    case 2
    then show ?thesis using indirect_get_block_fail [OF ok n] ticks_keeps_files [OF ok(1) _ ok(2)] by blast
  next
    case 3
    then have fresh: "fresh_block fs nb fs2" using al by auto
    let ?T = "T(ino := n\<lparr>i_indirect := nb\<rparr>)"
    have own: "owned fs2 ?T" "fs_ok fs2"
      using set_indirect_keeps_files [OF ok(2) fresh n 3(3)] by (auto simp: keeps_files_def frame_def)
    have "ticks fs2 fs1" using indirect_get_block_fail [OF own(2,1), of ino] 3 by simp
    moreover have kf: "keeps_files fs T fs2 T" by (rule fresh_keeps_files [OF fresh ok(2)])
    ultimately show ?thesis
      using keeps_files_trans [OF kf ticks_keeps_files [OF own(2)]] by (simp add: keeps_files_def)
  qed
qed

text \<open>Writing back an inode whose pointers are those of the table in memory.\<close>

lemma commit_inode:
  assumes ok: "fs_ok fs" "owned fs ((stored_inode fs)(ino := n1))" and ino: "valid_ino fs ino" and fits: "inode_fits n2"
    and ptrs: "i_direct n2 = i_direct n1" "i_indirect n2 = i_indirect n1"
    and fs': "fs' = snd (lufirafs_write_inode fs ino n2)"
  shows "lufirafs_sound fs'" "stored_inode fs' = (stored_inode fs)(ino := n2)" "content fs' = content fs"
    "content fs n2 = content fs n1" "same_geometry (sb fs) (sb fs')" "block_at fs' = block_at fs" "used_block fs' = used_block fs"
proof -
  note w = write_inode_ok [OF ok(1) _ _ fits fs'] and v = ino [unfolded valid_ino_def]
  have st: "stored_inode fs' = (stored_inode fs)(ino := n2)" and blk: "block_at fs' = block_at fs"
    and used: "used_block fs' = used_block fs" and geo: "same_geometry (sb fs) (sb fs')" and ok': "fs_ok fs'"
    using w v by auto
  have same: "slot_at f n2 k = slot_at f n1 k" "content f n2 off = content f n1 off" for f k off
    using ptrs by (simp_all add: slot_at_def ptr_at_def content_def)
  have "slot_at fs' m k = slot_at fs m k" for m k by (rule slot_at_cong) (simp add: blk)
  then have slots: "slot_at fs' (((stored_inode fs)(ino := n2)) i) k = slot_at fs (((stored_inode fs)(ino := n1)) i) k" for i k
    using same(1) by simp
  have len: "length (i_direct (((stored_inode fs)(ino := n2)) i)) = 12" for i
    using owned_length [OF ok(2), of i] ptrs by (auto split: if_splits)
  have "owned fs' (stored_inode fs')" using ok(2) len unfolding owned_def st slots used by blast
  then show "lufirafs_sound fs'" using ok' by (simp add: lufirafs_sound_def)
  show "content fs n2 = content fs n1" using same(2) by auto
  show "content fs' = content fs" by (intro ext) (simp add: content_def ptr_at_def blk Let_def)
qed (use write_inode_ok [OF ok(1) _ _ fits fs'] ino in \<open>auto simp: valid_ino_def\<close>)

lemma holds_set:
  assumes "holds_block c b buf" "i < 128" "entry_name name" "j < 8192"
  shows "set_dirent buf i ino name j = set_dent c (128 * b + i) ino name (8192 * b + j)"
proof -
  have off: "64 * (128 * b + i) = 8192 * b + 64 * i" by simp
  have "store32 buf (64 * i) ino j = store32 c (8192 * b + 64 * i) ino (8192 * b + j)"
    using assms(1,4) by (auto simp: store32_def holds_block_def)
  then show ?thesis
    by (simp add: set_dirent_def set_dent_def off copy_name_at [OF assms(3)] add.assoc)
qed

text \<open>
  A directory as the finite map from names to inode numbers that it stands for, the
  well-formed directories, and volumes that agree on all inodes but a few.
\<close>

definition dir_map :: "lufirafs \<Rightarrow> nat \<Rightarrow> bytes \<Rightarrow> nat option" where
  "dir_map fs d = dir_lookup (content fs (stored_inode fs d)) (dir_slots (stored_inode fs d))"

definition dir_ok :: "lufirafs \<Rightarrow> nat \<Rightarrow> bool" where
  "dir_ok fs d \<longleftrightarrow> valid_ino fs d \<and> i_mode (stored_inode fs d) = 2 \<and> i_size (stored_inode fs d) \<le> LUFIRAFS_MAX_FILE_SIZE \<and>
     table_ok (content fs (stored_inode fs d)) (dir_slots (stored_inode fs d))"

definition same_file :: "lufirafs \<Rightarrow> lufirafs \<Rightarrow> nat \<Rightarrow> bool" where
  "same_file fs fs' i \<longleftrightarrow> stored_inode fs' i = stored_inode fs i \<and> content fs' (stored_inode fs i) = content fs (stored_inode fs i)"

definition volume_keeps :: "lufirafs \<Rightarrow> lufirafs \<Rightarrow> nat set \<Rightarrow> bool" where
  "volume_keeps fs fs' X \<longleftrightarrow> lufirafs_sound fs' \<and> same_geometry (sb fs) (sb fs') \<and> (\<forall>i. i \<notin> X \<longrightarrow> same_file fs fs' i)"

lemma same_file_trans: "same_file fs fs1 i \<Longrightarrow> same_file fs1 fs2 i \<Longrightarrow> same_file fs fs2 i"
  unfolding same_file_def by metis

lemma volume_keeps_trans: "volume_keeps fs fs1 X \<Longrightarrow> volume_keeps fs1 fs2 Y \<Longrightarrow> volume_keeps fs fs2 (X \<union> Y)"
  by (auto simp: volume_keeps_def same_geometry_def intro: same_file_trans)

lemma volume_keeps_valid: "volume_keeps fs fs' X \<Longrightarrow> valid_ino fs' i = valid_ino fs i"
  by (simp add: volume_keeps_def valid_ino_def same_geometry_def)

lemma same_file_dir:
  "same_file fs fs' d \<Longrightarrow> volume_keeps fs fs' X \<Longrightarrow> dir_ok fs' d = dir_ok fs d"
  "same_file fs fs' d \<Longrightarrow> dir_map fs' d = dir_map fs d"
  by (simp_all add: same_file_def dir_ok_def dir_map_def volume_keeps_valid)

lemma keeps_files_volume:
  assumes "keeps_files fs (stored_inode fs) fs' (stored_inode fs)"
  shows "volume_keeps fs fs' {}"
proof -
  have f: "frame fs fs'" "owned fs' (stored_inode fs)" using assms by (auto simp: keeps_files_def)
  then have st: "stored_inode fs' = stored_inode fs" by (simp add: frame_def)
  have "content fs' (stored_inode fs i) = content fs (stored_inode fs i)" for i using assms by (simp add: keeps_files_def)
  then show ?thesis using f st by (simp add: volume_keeps_def same_file_def lufirafs_sound_def frame_def)
qed

lemma ticks_volume: "lufirafs_sound fs \<Longrightarrow> ticks fs fs' \<Longrightarrow> volume_keeps fs fs' {}"
  using keeps_files_volume ticks_keeps_files by (auto simp: lufirafs_sound_def)

lemma set_entry_block:
  assumes sound: "lufirafs_sound fs" and bn: "bn = ptr_at fs (stored_inode fs d) (k div 128)" "bn \<noteq> 0"
    and buf: "holds_block (content fs (stored_inode fs d)) (k div 128) buf" and name: "entry_name name"
    and fs': "fs' = snd (write_data_block fs bn (set_dirent buf (k mod 128) ino name))"
  shows "volume_keeps fs fs' {d}" "stored_inode fs' = stored_inode fs"
    "content fs' (stored_inode fs d) = set_dent (content fs (stored_inode fs d)) k ino name"
proof -
  let ?T = "stored_inode fs" and ?c = "content fs (stored_inode fs d)"
  have ok: "fs_ok fs" "owned fs ?T" using sound by (auto simp: lufirafs_sound_def)
  note w = write_file_block [OF ok bn(1) [symmetric] bn(2) fs']
  show st: "stored_inode fs' = ?T" using w(1) by (simp add: frame_def)
  have "content fs' (?T i) = content fs (?T i)" if "i \<noteq> d" for i using w(3) [of i] that by auto
  then show "volume_keeps fs fs' {d}"
    using w(1,2) st by (simp add: volume_keeps_def lufirafs_sound_def same_file_def frame_def)
  show "content fs' (?T d) = set_dent ?c k ino name"
  proof
    fix off
    show "content fs' (?T d) off = set_dent ?c k ino name off"
    proof (cases "off div 8192 = k div 128")
      case True
      then have "8192 * (k div 128) + off mod 8192 = off" by (metis mult_div_mod_eq)
      then show ?thesis
        using w(3) [of d off] True holds_set [OF buf _ name, of "k mod 128" "off mod 8192" ino] by simp
    next
      case False
      have "off < 64 * k \<or> 64 * k + 64 \<le> off"
      proof (rule ccontr)
        assume "\<not> ?thesis"
        then have "off div 64 = k" by (intro div_nat_eqI) auto
        then have "k div 128 = off div 8192" using div_mult2_eq [of off 64 128] by simp
        then show False using False by simp
      qed
      then show ?thesis using w(3) [of d off] False set_dent_outside [OF name] by simp
    qed
  qed
qed

lemma extend_table:
  fixes c nb
  defines "c0 \<equiv> \<lambda>off. if off div 8192 = nb then 0 else c off"
  assumes t: "table_ok c (128 * nb)"
  shows "table_ok c0 (128 * (nb + 1))" "dir_lookup c0 (128 * (nb + 1)) name = dir_lookup c (128 * nb) name"
    "dent_ino c0 (128 * nb) = 0"
proof -
  have old: "c0 x = c x" if "k < 128 * nb" "64 * k \<le> x" "x < 64 * k + 64" for k x
  proof -
    have "x < 8192 * nb" using that by linarith
    then show ?thesis by (auto simp: c0_def)
  qed
  have new: "dent_ino c0 k = 0" if "128 * nb \<le> k" "k < 128 * (nb + 1)" for k
  proof -
    have "c0 x = 0" if "64 * k \<le> x" "x < 64 * k + 4" for x
    proof -
      have "x div 8192 = nb" using that \<open>128 * nb \<le> k\<close> \<open>k < 128 * (nb + 1)\<close> by (intro div_nat_eqI) simp_all
      then show ?thesis by (simp add: c0_def)
    qed
    then have "load32 c0 (64 * k) = load32 (\<lambda>_. 0) (64 * k)" by (intro load32_cong) simp
    then show ?thesis by (simp add: dent_ino_def load32_def)
  qed
  show z: "dent_ino c0 (128 * nb) = 0" by (rule new) simp_all
  have "terminated c0 k" if "k < 128 * (nb + 1)" "dent_ino c0 k \<noteq> 0" for k
  proof (cases "k < 128 * nb")
    case True
    then show ?thesis using t that(2) entry_cong(1,3) [of k c0 c, OF old [OF True]] by (simp add: table_ok_def)
  next
    case False
    then show ?thesis using new [of k] that by simp
  qed
  then show "table_ok c0 (128 * (nb + 1))" by (simp add: table_ok_def)
  have m: "dent_matches c0 name k = (k < 128 * nb \<and> dent_matches c name k)" if "k < 128 * (nb + 1)" for k
    using t new [of k] that entry_cong [of k c0 c, OF old [of k]]
    by (cases "k < 128 * nb") (auto simp: dent_matches_def table_ok_def)
  show "dir_lookup c0 (128 * (nb + 1)) name = dir_lookup c (128 * nb) name"
  proof (cases "first_in (dent_matches c name) 0 (128 * nb)")
    case None
    then have "first_in (dent_matches c0 name) 0 (128 * (nb + 1)) = None" using m by (auto simp: first_in_None)
    then show ?thesis by (simp add: dir_lookup_def None)
  next
    case (Some k)
    then have k: "k < 128 * nb" by (simp add: first_in_Some)
    have "first_in (dent_matches c0 name) 0 (128 * (nb + 1)) = Some k" using Some m by (auto simp: first_in_Some)
    then show ?thesis using entry_cong(1) [of k c0 c, OF old [OF k]] by (simp add: dir_lookup_def Some)
  qed
qed

lemma blocks_of_small:
  assumes "sz \<le> LUFIRAFS_MAX_FILE_SIZE"
  shows "blocks_of sz = (sz + 8191) div 8192" "blocks_of sz \<le> 2060"
proof -
  have "sz \<le> 16875520" using assms by (simp add: LUFIRAFS_MAX_FILE_SIZE_def)
  then show eq: "blocks_of sz = (sz + 8191) div 8192" by (simp add: blocks_of_def wrap32_def)
  show "blocks_of sz \<le> 2060" using div_le_mono [of "sz + 8191" "16875520 + 8191" 8192] \<open>sz \<le> 16875520\<close> unfolding eq by simp
qed

text \<open>What the growth of a directory leaves of its inode.\<close>

definition owner :: "lfs_inode \<Rightarrow> nat \<times> nat \<times> nat \<times> nat \<times> nat" where
  "owner n = (i_mode n, i_links n, i_uid n, i_gid n, i_perm n)"

lemma grow_block:
  assumes sound: "lufirafs_sound fs" "valid_ino fs d" and name: "entry_name name" and nb: "nb < 2060"
    and g: "inode_get_block fs (stored_inode fs d) nb True = (bn, n1, fs1)" "bn \<noteq> 0"
    and fs2: "fs2 = snd (write_data_block fs1 bn (set_dirent (\<lambda>_. 0) 0 ino name))"
    and fs3: "fs3 = snd (lufirafs_write_inode fs2 d (n1\<lparr>i_size := wrap32 ((nb + 1) * 8192)\<rparr>))"
  shows "volume_keeps fs fs3 {d}" "i_size (stored_inode fs3 d) = (nb + 1) * 8192" "owner (stored_inode fs3 d) = owner (stored_inode fs d)"
    "content fs3 (stored_inode fs3 d) =
       set_dent (\<lambda>off. if off div 8192 = nb then 0 else content fs (stored_inode fs d) off) (128 * nb) ino name"
proof -
  let ?T = "stored_inode fs" and ?c = "content fs (stored_inode fs d)" and ?T1 = "(stored_inode fs)(d := n1)"
  let ?c0 = "\<lambda>off. if off div 8192 = nb then 0 else content fs (stored_inode fs d) off"
  define n2 where "n2 = n1\<lparr>i_size := (nb + 1) * 8192\<rparr>"
  have size: "wrap32 ((nb + 1) * 8192) = (nb + 1) * 8192" using nb by (simp add: wrap32_def)
  have ok: "fs_ok fs" "owned fs ?T" using sound(1) by (auto simp: lufirafs_sound_def)
  note post = inode_get_block_ok [OF ok refl nb g(1), unfolded get_block_post_def]
  have kf: "keeps_files fs ?T fs1 ?T1" and ptr: "ptr_at fs1 (?T1 d) nb = bn" using post by auto
  have f1: "frame fs fs1" "owned fs1 ?T1" using kf by (auto simp: keeps_files_def)
  have c1: "content fs1 (?T1 i) = content fs (?T i)" "attrs (?T1 i) = attrs (?T i)" for i using kf by (auto simp: keeps_files_def)
  note w = write_file_block [OF frame_ok [OF f1(1)] f1(2) ptr g(2) fs2]
  have f2: "frame fs fs2" by (rule frame_trans [OF f1(1) w(1)])
  have st2: "stored_inode fs2 = ?T" using f2 by (simp add: frame_def)
  have "inode_fits (?T1 d)" by (rule owned_fits [OF frame_ok [OF f1(1)] f1(2) c1(2) stored_inode_fits])
  then have fits: "inode_fits n2" using nb by (simp add: n2_def inode_fits_def inode_words_def)
  have v2: "valid_ino fs2 d" using sound(2) f2 by (simp add: valid_ino_def frame_def same_geometry_def)
  have own2: "owned fs2 ((stored_inode fs2)(d := n1))" using w(2) unfolding st2 .
  have fs3': "fs3 = snd (lufirafs_write_inode fs2 d n2)" using fs3 unfolding size n2_def .
  have "i_direct n2 = i_direct n1" "i_indirect n2 = i_indirect n1" by (simp_all add: n2_def)
  note ci = commit_inode [OF frame_ok [OF f2] own2 v2 fits this fs3']
  have st3: "stored_inode fs3 = ?T(d := n2)" using ci(2) unfolding st2 .
  show "i_size (stored_inode fs3 d) = (nb + 1) * 8192" by (simp add: st3 n2_def)
  show "owner (stored_inode fs3 d) = owner (?T d)" using arg_cong [OF c1(2) [of d], of owner] by (simp add: st3 n2_def attrs_def owner_def)
  have other: "content fs2 (?T i) = content fs (?T i)" if "i \<noteq> d" for i
    using w(3) [of i] c1(1) [of i] that by auto
  show "volume_keeps fs fs3 {d}"
    using ci(1,3,5) st3 other f2 by (auto simp: volume_keeps_def same_file_def frame_def same_geometry_def)
  show "content fs3 (stored_inode fs3 d) = set_dent ?c0 (128 * nb) ino name"
  proof
    fix off
    have "content fs3 (stored_inode fs3 d) off = content fs2 n1 off" using ci(3,4) st3 by simp
    also have "\<dots> = (if off div 8192 = nb then set_dirent (\<lambda>_. 0) 0 ino name (off mod 8192) else ?c off)"
      using w(3) [of d off] c1(1) [of d] by simp
    also have "\<dots> = set_dent ?c0 (128 * nb) ino name off"
    proof (cases "off div 8192 = nb")
      case True
      have hb: "holds_block ?c0 nb (\<lambda>_. 0)" by (simp add: holds_block_def)
      have "8192 * nb + off mod 8192 = off" using True by (metis mult_div_mod_eq)
      then show ?thesis using True holds_set [OF hb _ name, of 0 "off mod 8192" ino] by simp
    next
      case False
      have "off < 64 * (128 * nb) \<or> 64 * (128 * nb) + 64 \<le> off"
      proof (rule ccontr)
        assume "\<not> ?thesis"
        then have "off div 8192 = nb" by (intro div_nat_eqI) simp_all
        then show False using False by simp
      qed
      then show ?thesis using False set_dent_outside [OF name, of off "128 * nb"] by simp
    qed
    finally show "content fs3 (stored_inode fs3 d) off = set_dent ?c0 (128 * nb) ino name off" .
  qed
qed

text \<open>What an update of one directory that adds the entry \<open>name\<close> does to the volume.\<close>

definition entry_added :: "lufirafs \<Rightarrow> nat \<Rightarrow> bytes \<Rightarrow> nat \<Rightarrow> lufirafs \<Rightarrow> bool" where
  "entry_added fs d name ino fs' \<longleftrightarrow> volume_keeps fs fs' {d} \<and> dir_ok fs' d \<and> owner (stored_inode fs' d) = owner (stored_inode fs d) \<and>
     (dir_map fs d name = None \<longrightarrow> dir_map fs' d = (dir_map fs d)(name \<mapsto> ino))"

lemma ticks_view:
  assumes "ticks fs fs1"
  shows "content fs1 = content fs" "ptr_at fs1 = ptr_at fs" "stored_inode fs1 = stored_inode fs"
proof -
  show p: "ptr_at fs1 = ptr_at fs" by (intro ext) (simp add: ptr_at_def ticksD(4) [OF assms])
  show "content fs1 = content fs" by (intro ext) (simp add: content_def p ticksD(4) [OF assms] Let_def)
qed (rule ticksD(6) [OF assms])

lemma free_search_ok:
  assumes "lufirafs_sound fs" "n = stored_inode fs d"
  shows "\<exists>fs1 r. dir_search (\<lambda>buf i. dirent_inode buf i = 0) fs n [0..<blocks_of (i_size n)] = (r, fs1) \<and> ticks fs fs1 \<and>
    (\<forall>bn buf i. r = Some (bn, buf, i) \<longrightarrow> (\<exists>k < dir_slots n. dent_ino (content fs1 n) k = 0 \<and>
       bn = ptr_at fs1 n (k div 128) \<and> bn \<noteq> 0 \<and> i = k mod 128 \<and> holds_block (content fs1 n) (k div 128) buf))"
proof -
  let ?P = "\<lambda>buf i. dirent_inode buf i = 0"
  let ?H = "block_hit (ptr_at fs n) (\<lambda>k. dent_ino (content fs n) k = 0)"
  have ok: "fs_ok fs" "owned fs (stored_inode fs)" using assms(1) by (auto simp: lufirafs_sound_def)
  obtain fs1 where t: "ticks fs fs1" and s: "case first_in ?H 0 (dir_slots n) of
      None \<Rightarrow> dir_search ?P fs n [0..<blocks_of (i_size n)] = (None, fs1)
    | Some k \<Rightarrow> \<exists>buf. dir_search ?P fs n [0..<blocks_of (i_size n)] = (Some (ptr_at fs n (k div 128), buf, k mod 128), fs1) \<and>
        holds_block (content fs n) (k div 128) buf"
    using dir_search_ok [OF ok assms(2) [symmetric] free_entry_test, of 0 "blocks_of (i_size n)"] by auto
  show ?thesis
  proof (cases "first_in ?H 0 (dir_slots n)")
    case None
    then show ?thesis using s t by auto
  next
    case (Some k)
    then have "k < dir_slots n" "?H k" by (auto simp: first_in_Some)
    then show ?thesis using s t Some by (auto simp: block_hit_def ticks_view [OF t])
  qed
qed

lemma reuse_entry:
  assumes sound: "lufirafs_sound fs" and d: "dir_ok fs d" and name: "entry_name name" and ino: "0 < ino" "ino < 2 ^ 32"
    and k: "k < dir_slots (stored_inode fs d)" "dent_ino (content fs (stored_inode fs d)) k = 0"
    and bn: "bn = ptr_at fs (stored_inode fs d) (k div 128)" "bn \<noteq> 0"
    and buf: "holds_block (content fs (stored_inode fs d)) (k div 128) buf"
  shows "entry_added fs d name ino (snd (write_data_block fs bn (set_dirent buf (k mod 128) ino name)))"
proof -
  define fs' where "fs' = snd (write_data_block fs bn (set_dirent buf (k mod 128) ino name))"
  note w = set_entry_block [OF sound bn buf name fs'_def]
  have t: "table_ok (content fs (stored_inode fs d)) (dir_slots (stored_inode fs d))" using d by (simp add: dir_ok_def)
  have "dir_ok fs' d"
    using d table_ok_set [OF t name ino(2)] volume_keeps_valid [OF w(1)] by (simp add: dir_ok_def w(2,3))
  moreover have "dir_map fs' d = (dir_map fs d)(name \<mapsto> ino)" if "dir_map fs d name = None"
    using dir_lookup_set [OF t k name ino] that by (auto simp: dir_map_def w(2,3))
  ultimately show ?thesis using w(1,2) by (simp add: entry_added_def fs'_def)
qed

lemma grow_entry:
  assumes sound: "lufirafs_sound fs" and d: "dir_ok fs d" and name: "entry_name name" and ino: "0 < ino" "ino < 2 ^ 32"
    and nb: "nb = blocks_of (i_size (stored_inode fs d))" "nb < 2060"
    and g: "inode_get_block fs (stored_inode fs d) nb True = (bn, n1, fs1)" "bn \<noteq> 0"
    and fs2: "fs2 = snd (write_data_block fs1 bn (set_dirent (\<lambda>_. 0) 0 ino name))"
    and fs3: "fs3 = snd (lufirafs_write_inode fs2 d (n1\<lparr>i_size := wrap32 ((nb + 1) * 8192)\<rparr>))"
  shows "entry_added fs d name ino fs3"
proof -
  have v: "valid_ino fs d" and m: "i_mode (stored_inode fs d) = 2"
    and t: "table_ok (content fs (stored_inode fs d)) (128 * nb)" using d by (auto simp: dir_ok_def nb)
  note gr = grow_block [OF sound v name nb(2) g fs2 fs3] and ex = extend_table [OF t]
  have sz: "(nb + 1) * 8192 \<le> LUFIRAFS_MAX_FILE_SIZE" using nb(2) by (simp add: LUFIRAFS_MAX_FILE_SIZE_def)
  have "((nb + 1) * 8192 + 8191) div 8192 = nb + 1" by (intro div_nat_eqI) simp_all
  then have blk: "blocks_of ((nb + 1) * 8192) = nb + 1" using blocks_of_small(1) [OF sz] by simp
  then have slots: "dir_slots (stored_inode fs3 d) = 128 * (nb + 1)" unfolding gr(2) by simp
  have k: "128 * nb < 128 * (nb + 1)" by simp
  have "dir_ok fs3 d"
    using table_ok_set [OF ex(1) name ino(2)] volume_keeps_valid [OF gr(1)] v m sz
      gr(3) unfolding dir_ok_def gr(2,4) blk by (simp add: owner_def)
  moreover have "dir_map fs3 d = (dir_map fs d)(name \<mapsto> ino)" if "dir_map fs d name = None"
  proof
    fix nm
    have "dir_lookup (content fs (stored_inode fs d)) (128 * nb) name = None" using that by (simp add: dir_map_def nb)
    then show "dir_map fs3 d nm = ((dir_map fs d)(name \<mapsto> ino)) nm"
      using dir_lookup_set [OF ex(1) k ex(3) name ino, unfolded ex(2)] unfolding dir_map_def slots gr(4) nb by simp
  qed
  ultimately show ?thesis using gr(1,3) by (simp add: entry_added_def)
qed

lemma add_dirent_ok:
  assumes sound: "lufirafs_sound fs" and d: "dir_ok fs d" and name: "entry_name name" and ino: "0 < ino" "ino < 2 ^ 32"
    and a: "add_dirent fs d name ino = (r, fs')"
  shows "r = 0 \<and> entry_added fs d name ino fs' \<or> r = - 1 \<and> volume_keeps fs fs' {}"
proof -
  let ?n = "stored_inode fs d"
  have ok: "fs_ok fs" "owned fs (stored_inode fs)" using sound by (auto simp: lufirafs_sound_def)
  have v: "valid_ino fs d" and sz: "i_size ?n \<le> LUFIRAFS_MAX_FILE_SIZE" using d by (auto simp: dir_ok_def)
  define fs0 where "fs0 = fs\<lparr>ooms := ooms fs + 1\<rparr>"
  have v0: "volume_keeps fs fs0 {}" unfolding fs0_def by (rule ticks_volume [OF sound ticks_ooms])
  have step: "dir_ok g d" "stored_inode g d = ?n" "dir_map g d = dir_map fs d" "lufirafs_sound g" if "volume_keeps fs g {}" for g
    using that d same_file_dir [of fs g d] by (auto simp: volume_keeps_def same_file_def)
  obtain fs1 s where s: "dir_search (\<lambda>buf i. dirent_inode buf i = 0) fs0 ?n [0..<blocks_of (i_size ?n)] = (s, fs1)"
    and t: "ticks fs0 fs1" and hit: "\<forall>bn buf i. s = Some (bn, buf, i) \<longrightarrow> (\<exists>k < dir_slots ?n. dent_ino (content fs1 ?n) k = 0 \<and>
       bn = ptr_at fs1 ?n (k div 128) \<and> bn \<noteq> 0 \<and> i = k mod 128 \<and> holds_block (content fs1 ?n) (k div 128) buf)"
    using free_search_ok [OF step(4) [OF v0] step(2) [OF v0, symmetric]] by blast
  have v1: "volume_keeps fs fs1 {}" using volume_keeps_trans [OF v0 ticks_volume [OF step(4) [OF v0] t]] by simp
  have lift: "entry_added fs d name ino g" if "entry_added fs1 d name ino g" for g
    using that volume_keeps_trans [OF v1, of g "{d}"] step(2,3) [OF v1] by (simp add: entry_added_def)
  note st1 = step(2) [OF v1] and fs1 = step(4) [OF v1] step(1) [OF v1] name ino
  have code: "add_dirent fs d name ino = (case s of Some (bn, buf, i) \<Rightarrow> (0, snd (write_data_block fs1 bn (set_dirent buf i ino name)))
      | None \<Rightarrow> (case inode_get_block fs1 ?n (blocks_of (i_size ?n)) True of (bn, n1, fs3) \<Rightarrow>
          if bn = 0 then (- 1, fs3)
          else (0, snd (lufirafs_write_inode (snd (write_data_block fs3 bn (set_dirent (\<lambda>_. 0) 0 ino name))) d
                 (n1\<lparr>i_size := wrap32 ((blocks_of (i_size ?n) + 1) * 8192)\<rparr>)))))"
    using read_stored [OF v] tmp_buffer_ok [OF ok(1), folded fs0_def] s by (simp add: add_dirent_def Let_def split: option.splits prod.splits)
  show ?thesis
  proof (cases s)
    case (Some p)
    obtain bn buf i where p: "p = (bn, buf, i)" by (cases p)
    then obtain k where k: "k < dir_slots ?n" "dent_ino (content fs1 ?n) k = 0" "bn = ptr_at fs1 ?n (k div 128)" "bn \<noteq> 0"
      "i = k mod 128" "holds_block (content fs1 ?n) (k div 128) buf" using hit Some by blast
    from reuse_entry [OF fs1, of k bn buf, unfolded st1, OF k(1-4,6)] show ?thesis
      using a code Some p k(5) lift by simp
  next
    case None
    obtain bn n1 fs3 where g: "inode_get_block fs1 ?n (blocks_of (i_size ?n)) True = (bn, n1, fs3)" by (metis prod_cases3)
    show ?thesis
    proof (cases "bn = 0")
      case True
      have "fs_ok fs1" "owned fs1 (stored_inode fs1)" using fs1(1) by (auto simp: lufirafs_sound_def)
      from keeps_files_volume [OF inode_get_block_fail [OF this st1]] g True have "volume_keeps fs1 fs3 {}" by simp
      then show ?thesis using volume_keeps_trans [OF v1] a code None g True by fastforce
    next
      case False
      have "blocks_of (i_size ?n) \<noteq> 2060" using g False by (auto simp: inode_get_block_def LUFIRAFS_PTRS_PER_BLOCK_def)
      then have nb: "blocks_of (i_size ?n) < 2060" using blocks_of_small(2) [OF sz] by simp
      from grow_entry [OF fs1 refl _ _ False refl refl, unfolded st1, OF nb g] show ?thesis
        using a code None g False lift by simp
    qed
  qed
qed

section \<open>Creating files and directories\<close>

lemma owned_clear:
  assumes "owned fs T" "i_direct n = replicate 12 0" "i_indirect n = 0"
  shows "owned fs (T(i := n))"
proof -
  have "slot_at fs n k = 0" for k using assms(2,3) by (simp add: slot_at_def ptr_at_def)
  then have "slot_at fs ((T(i := n)) j) k = (if j = i then 0 else slot_at fs (T j) k)" for j k by simp
  then show ?thesis using assms unfolding owned_def by (simp split: if_splits)
qed

lemma write_fresh_inode:
  assumes sound: "lufirafs_sound fs" "valid_ino fs ino" and n: "i_direct n = replicate 12 0" "i_indirect n = 0" "inode_fits n"
    and fs': "fs' = snd (lufirafs_write_inode fs ino n)"
  shows "volume_keeps fs fs' {ino}" "stored_inode fs' ino = n"
proof -
  have ok: "fs_ok fs" "owned fs (stored_inode fs)" using sound(1) by (auto simp: lufirafs_sound_def)
  note ci = commit_inode [OF ok(1) owned_clear [OF ok(2) n(1,2)] sound(2) n(3) refl refl fs']
  show "stored_inode fs' ino = n" by (simp add: ci(2))
  show "volume_keeps fs fs' {ino}" using ci(1,2,3,5) by (simp add: volume_keeps_def same_file_def)
qed

lemma keeps_volume: "lufirafs_sound fs \<Longrightarrow> keeps fs fs' \<Longrightarrow> volume_keeps fs fs' {}"
  by (intro keeps_files_volume keeps_keeps_files) (simp_all add: lufirafs_sound_def)

lemma superblock_volume:
  assumes sound: "lufirafs_sound fs"
  shows "volume_keeps fs (write_superblock (fs\<lparr>sb := (sb fs)\<lparr>free_inodes := f\<rparr>\<rparr>)) {}"
proof -
  define g where "g = fs\<lparr>sb := (sb fs)\<lparr>free_inodes := f\<rparr>\<rparr>"
  have "keeps fs ((write_superblock g)\<lparr>next_free_block := next_free_block fs\<rparr>)"
    unfolding g_def using sound by (intro write_superblock_keeps) (simp_all add: lufirafs_sound_def fs_ok_def same_geometry_def)
  moreover have "(write_superblock g)\<lparr>next_free_block := next_free_block fs\<rparr> = write_superblock g"
    by (simp add: write_superblock_def mark_dirty_eq g_def)
  ultimately show ?thesis using keeps_volume [OF sound] unfolding g_def by simp
qed

lemma alloc_inode_ok:
  assumes sound: "lufirafs_sound fs" and a: "alloc_inode fs = (ino, fs')"
  shows "ino = 0 \<and> fs' = fs \<and> (\<forall>i. valid_ino fs i \<longrightarrow> i_mode (stored_inode fs i) \<noteq> 0) \<or>
    valid_ino fs ino \<and> i_mode (stored_inode fs ino) = 0 \<and> volume_keeps fs fs' {}"
proof (cases "first_in (inode_is_free fs) 1 (inode_count (sb fs) + 1)")
  case None
  then have "\<not> inode_is_free fs i" if "valid_ino fs i" for i using that by (simp add: first_in_None valid_ino_def)
  then show ?thesis using a None by (auto simp: alloc_inode_def inode_is_free_def read_stored)
next
  case (Some i)
  then have i: "valid_ino fs i" "inode_is_free fs i" by (auto simp: first_in_Some valid_ino_def)
  have "volume_keeps fs (write_superblock fs) {}" using superblock_volume [OF sound, of "free_inodes (sb fs)"] by simp
  then have "volume_keeps fs fs' {}" "ino = i"
    using a Some superblock_volume [OF sound] by (auto simp: alloc_inode_def split: if_splits)
  then show ?thesis using i read_stored [OF i(1)] by (simp add: inode_is_free_def)
qed

lemma free_inode_slot_ok:
  assumes sound: "lufirafs_sound fs" "valid_ino fs ino"
  shows "volume_keeps fs (free_inode_slot fs ino) {ino}" "stored_inode (free_inode_slot fs ino) ino = empty_inode"
proof -
  define fs1 where "fs1 = snd (lufirafs_write_inode fs ino empty_inode)"
  have "inode_fits empty_inode" by (simp add: inode_fits_def empty_inode_def inode_words_def)
  then have w: "volume_keeps fs fs1 {ino}" "stored_inode fs1 ino = empty_inode"
    using write_fresh_inode [OF sound _ _ _ fs1_def] by (auto simp: empty_inode_def)
  then have v: "volume_keeps fs1 (free_inode_slot fs ino) {}"
    using superblock_volume [of fs1] by (simp add: free_inode_slot_def fs1_def [symmetric] Let_def volume_keeps_def)
  show "volume_keeps fs (free_inode_slot fs ino) {ino}" using volume_keeps_trans [OF w(1) v] by simp
  show "stored_inode (free_inode_slot fs ino) ino = empty_inode" using v w(2) by (simp add: volume_keeps_def same_file_def)
qed

lemma empty_dir_map: "i_size (stored_inode fs d) = 0 \<Longrightarrow> dir_map fs d = Map.empty"
  by (intro ext) (simp add: dir_map_def dir_lookup_def blocks_of_def wrap32_def first_in_None)

lemma entry_added_map:
  assumes "entry_added fs d name ino fs'" "dir_map fs d name = None"
  shows "volume_keeps fs fs' {d}" "lufirafs_sound fs'" "dir_ok fs' d" "dir_map fs' d = (dir_map fs d)(name \<mapsto> ino)"
    "owner (stored_inode fs' d) = owner (stored_inode fs d)"
  using assms by (simp_all add: entry_added_def volume_keeps_def)

text \<open>A new inode: an empty file, or a directory with its two dot entries.\<close>

definition fresh_inode :: "lufirafs \<Rightarrow> nat \<Rightarrow> nat \<Rightarrow> nat \<Rightarrow> nat \<Rightarrow> nat \<Rightarrow> nat \<Rightarrow> bool" where
  "fresh_inode fs parent ino mode uid gid perm \<longleftrightarrow>
     owner (stored_inode fs ino) = (mode, if mode = 2 then 2 else 1, uid, gid, perm) \<and>
     (if mode = 2 then dir_ok fs ino \<and> dir_map fs ino = [dot_name \<mapsto> ino, dotdot_name \<mapsto> parent]
      else i_size (stored_inode fs ino) = 0)"

lemma fresh_inode_same: "same_file fs fs' ino \<Longrightarrow> volume_keeps fs fs' X \<Longrightarrow> fresh_inode fs' p ino mode uid gid perm = fresh_inode fs p ino mode uid gid perm"
  using same_file_dir [of fs fs' ino] by (auto simp: fresh_inode_def same_file_def)

lemma valid_ino_bound: "lufirafs_sound fs \<Longrightarrow> valid_ino fs i \<Longrightarrow> 0 < i \<and> i < 2 ^ 32"
  by (auto simp: lufirafs_sound_def fs_ok_def geometry_def valid_ino_def)

lemma dot_names: "entry_name dot_name" "entry_name dotdot_name" "dot_name \<noteq> dotdot_name"
  by (simp_all add: entry_name_def dot_name_def dotdot_name_def LUFIRAFS_MAX_NAME_def)

lemma dot_entries_ok:
  assumes sound: "lufirafs_sound fs" "dir_ok fs ino" "valid_ino fs parent" and empty: "dir_map fs ino = Map.empty"
    and i: "(case add_dirent fs ino dot_name ino of (r, fs1) \<Rightarrow>
              if r \<noteq> 0 then (r, fs1) else add_dirent fs1 ino dotdot_name parent) = (r, fs')"
  shows "volume_keeps fs fs' {ino} \<and> (r = 0 \<longrightarrow> dir_ok fs' ino \<and> owner (stored_inode fs' ino) = owner (stored_inode fs ino) \<and>
    dir_map fs' ino = [dot_name \<mapsto> ino, dotdot_name \<mapsto> parent])"
proof -
  have v: "valid_ino fs ino" using sound(2) by (simp add: dir_ok_def)
  obtain r1 fs1 where a1: "add_dirent fs ino dot_name ino = (r1, fs1)" by fastforce
  have p1: "r1 = 0 \<and> entry_added fs ino dot_name ino fs1 \<or> r1 = - 1 \<and> volume_keeps fs fs1 {}"
    using add_dirent_ok [OF sound(1,2) dot_names(1) _ _ a1] valid_ino_bound [OF sound(1) v] by simp
  show ?thesis
  proof (cases "r1 = 0")
    case False
    then show ?thesis using p1 i a1 by (auto simp: volume_keeps_def)
  next
    case r1: True
    then have e: "entry_added fs ino dot_name ino fs1" using p1 by simp
    note e1 = entry_added_map [OF e, unfolded empty, OF refl]
    have a2: "add_dirent fs1 ino dotdot_name parent = (r, fs')" using i a1 r1 by simp
    have p2: "r = 0 \<and> entry_added fs1 ino dotdot_name parent fs' \<or> r = - 1 \<and> volume_keeps fs1 fs' {}"
      using add_dirent_ok [OF e1(2,3) dot_names(2) _ _ a2] valid_ino_bound [OF sound(1,3)] by simp
    have new: "dir_map fs1 ino dotdot_name = None" using dot_names(3) unfolding e1(4) by simp
    have "dir_ok fs' ino \<and> owner (stored_inode fs' ino) = owner (stored_inode fs ino) \<and>
        dir_map fs' ino = [dot_name \<mapsto> ino, dotdot_name \<mapsto> parent]" if "r = 0"
      using entry_added_map [OF _ new] p2 that e1(4,5) by simp
    moreover have "volume_keeps fs1 fs' {ino}" using p2 by (auto simp: entry_added_def volume_keeps_def)
    then have "volume_keeps fs fs' {ino}" using volume_keeps_trans [OF e1(1)] by fastforce
    ultimately show ?thesis by simp
  qed
qed

lemma init_inode_ok:
  assumes sound: "lufirafs_sound fs" "valid_ino fs ino" "valid_ino fs parent"
    and args: "mode = 1 \<or> mode = 2" "uid < 2 ^ 32" "gid < 2 ^ 32" "perm < 2 ^ 32"
    and fs1: "fs1 = snd (lufirafs_write_inode fs ino (new_inode mode uid gid perm))"
    and i: "(if mode = 2 then (case add_dirent fs1 ino dot_name ino of (r, fs4) \<Rightarrow>
              if r \<noteq> 0 then (r, fs4) else add_dirent fs4 ino dotdot_name parent) else (0, fs1)) = (r, fs')"
  shows "volume_keeps fs fs' {ino} \<and> (r = 0 \<longrightarrow> fresh_inode fs' parent ino mode uid gid perm)"
proof -
  have "inode_fits (new_inode mode uid gid perm)"
    using args by (auto simp: inode_fits_def new_inode_def empty_inode_def inode_words_def)
  then have w: "volume_keeps fs fs1 {ino}" "stored_inode fs1 ino = new_inode mode uid gid perm"
    using write_fresh_inode [OF sound(1,2) _ _ _ fs1] by (auto simp: new_inode_def empty_inode_def)
  have own: "owner (stored_inode fs1 ino) = (mode, if mode = 2 then 2 else 1, uid, gid, perm)" "i_size (stored_inode fs1 ino) = 0"
    unfolding w(2) by (simp_all add: owner_def new_inode_def empty_inode_def)
  show ?thesis
  proof (cases "mode = 2")
    case False
    then show ?thesis using i w(1) own by (simp add: fresh_inode_def)
  next
    case True
    have s1: "lufirafs_sound fs1" using w(1) by (simp add: volume_keeps_def)
    have d1: "dir_ok fs1 ino"
      using own True sound(2) volume_keeps_valid [OF w(1)]
      by (simp add: dir_ok_def owner_def table_ok_def blocks_of_def wrap32_def)
    have v1: "valid_ino fs1 parent" using sound(3) volume_keeps_valid [OF w(1)] by simp
    from dot_entries_ok [OF s1 d1 v1 empty_dir_map [OF own(2)], of r fs'] i True
    have k: "volume_keeps fs1 fs' {ino}" and f: "r = 0 \<longrightarrow> fresh_inode fs' parent ino mode uid gid perm"
      using own(1) by (simp_all add: fresh_inode_def)
    show ?thesis using volume_keeps_trans [OF w(1) k] f by simp
  qed
qed

text \<open>The last steps of \<open>lufirafs_create\<close>: the entry in the parent, or the way back.\<close>

lemma free_taken_inode:
  assumes "volume_keeps fs fs1 {ino}" "valid_ino fs ino"
  shows "stored_inode (free_inode_slot fs1 ino) ino = empty_inode \<and> volume_keeps fs (free_inode_slot fs1 ino) {ino}"
proof -
  have "lufirafs_sound fs1" "valid_ino fs1 ino" using assms volume_keeps_valid [OF assms(1)] by (simp_all add: volume_keeps_def)
  from free_inode_slot_ok [OF this] show ?thesis using volume_keeps_trans [OF assms(1)] by fastforce
qed

lemma create_finish:
  assumes d: "dir_ok fs parent" and name: "entry_name name" and ino: "valid_ino fs ino" "i_mode (stored_inode fs ino) = 0"
    and p: "i_mode (stored_inode fs parent) = 2" and new: "dir_map fs parent name = None"
    and k5: "volume_keeps fs fs5 {ino}" and f5: "r5 = 0 \<Longrightarrow> fresh_inode fs5 parent ino mode uid gid perm"
    and code: "(r, res, fs') = (if r5 \<noteq> (0 :: int) then (- 3, None, free_inode_slot fs5 ino)
      else case add_dirent fs5 parent name ino of (r2, fs6) \<Rightarrow>
        if r2 \<noteq> 0 then (- 3, None, free_inode_slot fs6 ino) else (0, Some ino, fs6))"
  shows "r = (- 3 :: int) \<and> res = None \<and>
      (\<exists>ino. i_mode (stored_inode fs ino) = 0 \<and> stored_inode fs' ino = empty_inode \<and> volume_keeps fs fs' {ino}) \<or>
    r = 0 \<and> (\<exists>ino. res = Some ino \<and> valid_ino fs ino \<and> i_mode (stored_inode fs ino) = 0 \<and> volume_keeps fs fs' {parent, ino} \<and>
        fresh_inode fs' parent ino mode uid gid perm \<and> dir_ok fs' parent \<and>
        dir_map fs' parent = (dir_map fs parent)(name \<mapsto> ino))"
proof (cases "r5 = 0")
  case False
  then show ?thesis using code free_taken_inode [OF k5 ino(1)] ino(2) by auto
next
  case True
  have ne: "parent \<noteq> ino" using ino(2) p by auto
  have s5: "lufirafs_sound fs5" and sf: "same_file fs fs5 parent" using k5 ne by (auto simp: volume_keeps_def)
  have d5: "dir_ok fs5 parent" and m5: "dir_map fs5 parent = dir_map fs parent" using same_file_dir [OF sf] d k5 by auto
  have v5: "valid_ino fs5 ino" using ino(1) volume_keeps_valid [OF k5] by simp
  obtain r2 fs6 where a: "add_dirent fs5 parent name ino = (r2, fs6)" by fastforce
  have p6: "r2 = 0 \<and> entry_added fs5 parent name ino fs6 \<or> r2 = - 1 \<and> volume_keeps fs5 fs6 {}"
    using add_dirent_ok [OF s5 d5 name _ _ a] valid_ino_bound [OF s5 v5] by simp
  show ?thesis
  proof (cases "r2 = 0")
    case False
    then have "volume_keeps fs fs6 {ino}" using p6 volume_keeps_trans [OF k5, of fs6 "{}"] by simp
    then show ?thesis using code True a False free_taken_inode [OF _ ino(1)] ino(2) by auto
  next
    case r2: True
    then have e: "entry_added fs5 parent name ino fs6" using p6 by simp
    note e6 = entry_added_map [OF e, unfolded m5, OF new]
    have "same_file fs5 fs6 ino" using e6(1) ne by (auto simp: volume_keeps_def)
    then have "fresh_inode fs6 parent ino mode uid gid perm" using fresh_inode_same [OF _ e6(1)] f5 True by blast
    moreover have "volume_keeps fs fs6 {parent, ino}" using volume_keeps_trans [OF k5 e6(1)] by (simp add: insert_commute)
    ultimately show ?thesis using code True a r2 ino e6(3,4) by simp
  qed
qed

lemma lookup_dir_map: "lufirafs_sound fs \<Longrightarrow> dir_ok fs d \<Longrightarrow> fst (lookup_in_dir fs d name) = dir_map fs d name"
  using lookup_in_dir_ok [of fs d name] by (auto simp: dir_ok_def dir_map_def)

definition demo_root :: lufirafs where
  "demo_root = snd (lufirafs_write_inode demo_fs 1 (new_inode 2 0 0 493))"

lemma demo_root_ok: "lufirafs_sound demo_root" "dir_ok demo_root 1" "dir_map demo_root 1 = Map.empty"
proof -
  have v: "valid_ino demo_fs 1" by (simp add: valid_ino_def demo_fs_def demo_sb_fields)
  have "inode_fits (new_inode 2 0 0 493)" by (simp add: inode_fits_def inode_words_def new_inode_def empty_inode_def)
  then have w: "volume_keeps demo_fs demo_root {1}" "stored_inode demo_root 1 = new_inode 2 0 0 493"
    using write_fresh_inode [OF demo_sound v _ _ _ demo_root_def] by (auto simp: new_inode_def empty_inode_def)
  show "lufirafs_sound demo_root" using w(1) by (simp add: volume_keeps_def)
  have z: "i_size (stored_inode demo_root 1) = 0" "i_mode (stored_inode demo_root 1) = 2"
    unfolding w(2) by (simp_all add: new_inode_def empty_inode_def)
  show "dir_map demo_root 1 = Map.empty" by (rule empty_dir_map [OF z(1)])
  show "dir_ok demo_root 1" using v z volume_keeps_valid [OF w(1)]
    by (simp add: dir_ok_def table_ok_def blocks_of_def wrap32_def)
qed

text \<open>C20: On a sound volume, \<open>lufirafs_create\<close> treats a well-formed directory as the finite map from names
  to inode numbers it stands for. If the name is taken it returns -1 and no file changes; if no inode is free, -2
  and no file changes; if the disk has no room for an entry, -3 and only the inode it had taken, free before, is
  free again. Otherwise it returns 0 and an inode that was free, whose owner, mode and permissions are the ones
  asked for, which is empty or, for a directory, holds just the entries "." and "..", and the directory is the old
  map with the new name added: every other name still finds the inode it found before, and all
  other files keep their inode and their bytes. The volume stays sound in every case.\<close>

theorem lufirafs_create_refines_map:
  assumes "lufirafs_sound fs" "dir_ok fs parent" "entry_name name" "name \<noteq> []"
    and "mode = 1 \<or> mode = 2" "uid < 2 ^ 32" "gid < 2 ^ 32" "perm < 2 ^ 32"
    and c: "lufirafs_create fs parent name mode uid gid perm = (r, res, fs')"
  shows "dir_map fs parent name \<noteq> None \<and> r = - 1 \<and> res = None \<and> volume_keeps fs fs' {} \<or>
    dir_map fs parent name = None \<and> r = - 2 \<and> res = None \<and> volume_keeps fs fs' {} \<and>
      (\<forall>i. valid_ino fs i \<longrightarrow> i_mode (stored_inode fs i) \<noteq> 0) \<or>
    dir_map fs parent name = None \<and> r = - 3 \<and> res = None \<and>
      (\<exists>ino. i_mode (stored_inode fs ino) = 0 \<and> stored_inode fs' ino = empty_inode \<and> volume_keeps fs fs' {ino}) \<or>
    dir_map fs parent name = None \<and> r = 0 \<and>
      (\<exists>ino. res = Some ino \<and> valid_ino fs ino \<and> i_mode (stored_inode fs ino) = 0 \<and> volume_keeps fs fs' {parent, ino} \<and>
        fresh_inode fs' parent ino mode uid gid perm \<and> dir_ok fs' parent \<and>
        (\<forall>nm. fst (lookup_in_dir fs' parent nm) = ((dir_map fs parent)(name \<mapsto> ino)) nm))"
proof -
  let ?free = "\<lambda>i. i_mode (stored_inode fs i) = 0"
  have d: "valid_ino fs parent" "i_mode (stored_inode fs parent) = 2" using assms(2) by (auto simp: dir_ok_def)
  obtain fs1 where l: "lookup_in_dir fs parent name = (dir_map fs parent name, fs1)" and t: "ticks fs fs1"
    using lookup_in_dir_ok [OF assms(1) d] by (auto simp: dir_map_def)
  have k1: "volume_keeps fs fs1 {}" by (rule ticks_volume [OF assms(1) t])
  show ?thesis
  proof (cases "dir_map fs parent name")
    case (Some x)
    then show ?thesis using c l k1 assms(4) by (auto simp: lufirafs_create_def)
  next
    case new: None
    obtain ino fs2 where al: "alloc_inode fs1 = (ino, fs2)" by fastforce
    have s1: "lufirafs_sound fs1" using k1 by (simp add: volume_keeps_def)
    note st1 = ticks_view(3) [OF t]
    have v1: "valid_ino fs1 i = valid_ino fs i" for i by (rule volume_keeps_valid [OF k1])
    note ok = alloc_inode_ok [OF s1 al, unfolded st1 v1]
    show ?thesis
    proof (cases "ino = 0")
      case True
      then show ?thesis using ok c l k1 assms(4) al new by (auto simp: lufirafs_create_def valid_ino_def)
    next
      case False
      then have ino: "valid_ino fs ino" "?free ino" and k12: "volume_keeps fs1 fs2 {}" using ok by auto
      have k2: "volume_keeps fs fs2 {}" using volume_keeps_trans [OF k1 k12] by simp
      define fs3 where "fs3 = snd (lufirafs_write_inode fs2 ino (new_inode mode uid gid perm))"
      obtain r5 fs5 where i5: "(if mode = 2 then (case add_dirent fs3 ino dot_name ino of (r, fs4) \<Rightarrow>
          if r \<noteq> 0 then (r, fs4) else add_dirent fs4 ino dotdot_name parent) else (0, fs3)) = (r5, fs5)" by fastforce
      have code: "(r, res, fs') = (if r5 \<noteq> 0 then (- 3, None, free_inode_slot fs5 ino)
          else case add_dirent fs5 parent name ino of (r2, fs6) \<Rightarrow>
            if r2 \<noteq> 0 then (- 3, None, free_inode_slot fs6 ino) else (0, Some ino, fs6))"
        using c l assms(4) new al False i5 [unfolded fs3_def] by (simp add: lufirafs_create_def Let_def)
      have "valid_ino fs2 ino" "valid_ino fs2 parent" "lufirafs_sound fs2"
        using ino d volume_keeps_valid [OF k2] k2 by (simp_all add: volume_keeps_def)
      from init_inode_ok [OF this(3,1,2) assms(5-8) fs3_def i5]
      have k25: "volume_keeps fs2 fs5 {ino}" and f5: "r5 = 0 \<Longrightarrow> fresh_inode fs5 parent ino mode uid gid perm" by auto
      have k5: "volume_keeps fs fs5 {ino}" using volume_keeps_trans [OF k2 k25] by simp
      from create_finish [OF assms(2,3) ino d(2) new k5 f5 code] show ?thesis
        using new lookup_dir_map [of fs' parent] unfolding volume_keeps_def by auto
    qed
  qed
qed

theorem lufirafs_create_refines_map_witness:
  "dir_ok demo_root 1 \<and> (case lufirafs_create demo_root 1 [102, 111, 111] 2 5 6 493 of (r, res, fs') \<Rightarrow>
     lufirafs_sound fs' \<and> r \<noteq> - 1 \<and> (r = 0 \<longrightarrow> (\<exists>ino. res = Some ino \<and> fst (lookup_in_dir fs' 1 [102, 111, 111]) = Some ino \<and>
       dir_map fs' ino = [dot_name \<mapsto> ino, dotdot_name \<mapsto> 1])))"
proof -
  obtain r res fs' where c: "lufirafs_create demo_root 1 [102, 111, 111] 2 5 6 493 = (r, res, fs')" by (metis prod_cases3)
  have "entry_name [102, 111, 111]" by (simp add: entry_name_def LUFIRAFS_MAX_NAME_def)
  from lufirafs_create_refines_map [OF demo_root_ok(1,2) this _ _ _ _ _ c] show ?thesis
    using demo_root_ok(2,3) c by (auto simp: volume_keeps_def fresh_inode_def)
qed

end
