(* ===== verification/Shm.thy ===== *)
theory Shm
  imports Pmm
begin

text \<open>
  The registry of shared memory regions, kernel/system/mm/shm.c, and the helper
  of kernel/system/syscall/syscall.c that allocates the pages of a region. A
  region counts one reference per mapped page; its pages go back to the physical
  allocator with the last of them. The outcome of \<open>kmalloc\<close> for the array of
  page addresses is an input. Reference counts are mathematical integers.
\<close>

section \<open>The code\<close>

definition MAX_SHARED_REGIONS :: nat where "MAX_SHARED_REGIONS = 16"
definition MAX_SHARED_REGION_PAGES :: nat where "MAX_SHARED_REGION_PAGES = 4096"

record shared_region =
  shm_in_use :: bool
  shm_refcount :: int
  shm_num_pages :: nat
  shm_pages :: "nat list"

definition no_region :: shared_region where
  "no_region = \<lparr>shm_in_use = False, shm_refcount = 0, shm_num_pages = 0, shm_pages = []\<rparr>"

record shm =
  g_regions :: "shared_region list"
  frames :: pmm

definition shm_init :: "shm \<Rightarrow> shm" where
  "shm_init s = s\<lparr>g_regions := replicate MAX_SHARED_REGIONS no_region\<rparr>"

definition shm_create :: "shm \<Rightarrow> nat list \<Rightarrow> nat \<Rightarrow> bool \<Rightarrow> int \<times> shm" where
  "shm_create s pages npages oom =
    (if npages = 0 \<or> npages > MAX_SHARED_REGION_PAGES then (- 1, s)
     else case first_index (\<lambda>r. \<not> shm_in_use r) (g_regions s) of
            None \<Rightarrow> (- 1, s)
          | Some slot \<Rightarrow>
              if oom then (- 1, s)
              else (int slot, s\<lparr>g_regions := (g_regions s)[slot :=
                     \<lparr>shm_in_use = True, shm_refcount = int npages, shm_num_pages = npages,
                      shm_pages = take npages pages\<rparr>]\<rparr>))"

definition region_live :: "shm \<Rightarrow> int \<Rightarrow> bool" where
  "region_live s rid \<longleftrightarrow> 0 \<le> rid \<and> rid < int MAX_SHARED_REGIONS \<and> shm_in_use (g_regions s ! nat rid)"

definition shm_add_ref :: "shm \<Rightarrow> int \<Rightarrow> shm" where
  "shm_add_ref s rid =
    (if \<not> region_live s rid then s
     else let r = g_regions s ! nat rid
          in s\<lparr>g_regions := (g_regions s)[nat rid := r\<lparr>shm_refcount := shm_refcount r + 1\<rparr>]\<rparr>)"

definition shm_release :: "shm \<Rightarrow> int \<Rightarrow> shm" where
  "shm_release s rid =
    (if \<not> region_live s rid then s
     else let r0 = g_regions s ! nat rid; r = r0\<lparr>shm_refcount := shm_refcount r0 - 1\<rparr>
          in if shm_refcount r > 0 then s\<lparr>g_regions := (g_regions s)[nat rid := r]\<rparr>
             else s\<lparr>g_regions := (g_regions s)[nat rid := r\<lparr>shm_pages := [], shm_in_use := False, shm_num_pages := 0\<rparr>],
                    frames := release_pages pmm_free_page (take (shm_num_pages r) (shm_pages r)) (frames s)\<rparr>)"

definition shm_get_pages :: "shm \<Rightarrow> int \<Rightarrow> nat \<Rightarrow> (nat list \<times> nat) option" where
  "shm_get_pages s rid max_pages =
    (if \<not> region_live s rid then None
     else let r = g_regions s ! nat rid
          in Some (take (min (shm_num_pages r) max_pages) (shm_pages r), shm_num_pages r))"

definition shm_get_num_pages :: "shm \<Rightarrow> int \<Rightarrow> nat" where
  "shm_get_num_pages s rid = (if \<not> region_live s rid then 0 else shm_num_pages (g_regions s ! nat rid))"

definition shm_find_region_by_page :: "shm \<Rightarrow> nat \<Rightarrow> int" where
  "shm_find_region_by_page s phys =
    (case first_index (\<lambda>r. shm_in_use r \<and> phys \<in> set (take (shm_num_pages r) (shm_pages r))) (g_regions s) of
       None \<Rightarrow> - 1 | Some i \<Rightarrow> int i)"

text \<open>Allocating the pages of a region, with everything given back on failure.\<close>

definition net_fetch_make_body_shm :: "shm \<Rightarrow> nat \<Rightarrow> bool \<Rightarrow> bool \<Rightarrow> int \<times> shm" where
  "net_fetch_make_body_shm s cap oom oom_create =
    (let npages = wrap64 (cap + 4096 - 1) div 4096
     in if oom then (- 1, s)
        else case alloc_pages pmm_alloc_page npages (frames s) of (pages, f1) \<Rightarrow>
          if length pages < npages then (- 1, s\<lparr>frames := release_pages pmm_free_page pages f1\<rparr>)
          else case shm_create (s\<lparr>frames := f1\<rparr>) pages npages oom_create of (rid, s1) \<Rightarrow>
                 if rid < 0 then (- 1, s1\<lparr>frames := release_pages pmm_free_page pages (frames s1)\<rparr>)
                 else (rid, s1))"

section \<open>No page is lost or freed twice\<close>

definition region_pages :: "shared_region \<Rightarrow> nat list" where
  "region_pages r = (if shm_in_use r then map (\<lambda>a. a div 4096) (shm_pages r) else [])"

definition pages_at :: "shm \<Rightarrow> nat \<Rightarrow> nat set" where
  "pages_at s i = set (region_pages (g_regions s ! i))"

definition region_ok :: "shared_region \<Rightarrow> bool" where
  "region_ok r \<longleftrightarrow> (shm_in_use r \<longrightarrow> 0 < shm_refcount r \<and> shm_num_pages r = length (shm_pages r) \<and>
     (\<forall>a\<in>set (shm_pages r). a mod 4096 = 0))"

text \<open>The pages \<open>A\<close> are split between the allocator and the live regions.\<close>

definition shm_inv :: "nat set \<Rightarrow> shm \<Rightarrow> bool" where
  "shm_inv A s \<longleftrightarrow> length (g_regions s) = 16 \<and> pmm_inv (frames s) \<and> A \<subseteq> allocatable (frames s) \<and>
     (\<forall>i<16. region_ok (g_regions s ! i) \<and> pages_at s i \<inter> avail_pages (frames s) = {}) \<and>
     (\<forall>i<16. \<forall>j<16. i \<noteq> j \<longrightarrow> pages_at s i \<inter> pages_at s j = {}) \<and>
     avail_pages (frames s) \<union> (\<Union>i<16. pages_at s i) = A"

lemma pages_at_update:
  "length (g_regions s) = 16 \<Longrightarrow> i < 16 \<Longrightarrow>
   pages_at (s\<lparr>g_regions := (g_regions s)[i := r], frames := f\<rparr>) j = (if j = i then set (region_pages r) else pages_at s j)"
  by (simp add: pages_at_def)

lemma shm_inv_update:
  assumes inv: "shm_inv A s" and i: "i < 16" and r: "region_ok r" and f: "pmm_inv f" "allocatable f = allocatable (frames s)"
    and split: "set (region_pages r) \<inter> avail_pages f = {}"
      "avail_pages f \<union> set (region_pages r) = avail_pages (frames s) \<union> pages_at s i"
  shows "shm_inv A (s\<lparr>g_regions := (g_regions s)[i := r], frames := f\<rparr>)"
proof -
  let ?s = "s\<lparr>g_regions := (g_regions s)[i := r], frames := f\<rparr>"
  have len: "length (g_regions s) = 16" using inv by (simp add: shm_inv_def)
  note upd = pages_at_update [OF len i, where r = r and f = f]
  have dis: "pages_at s j \<inter> pages_at s k = {}" if "j < 16" "k < 16" "j \<noteq> k" for j k
    using inv that by (simp add: shm_inv_def)
  have av: "pages_at s j \<inter> avail_pages (frames s) = {}" and rok: "region_ok (g_regions s ! j)" if "j < 16" for j
    using inv that by (simp_all add: shm_inv_def)
  have other: "pages_at s j \<inter> (avail_pages f \<union> set (region_pages r)) = {}" if "j < 16" "j \<noteq> i" for j
    unfolding split(2) using dis [OF that(1) i that(2)] av [OF that(1)] by blast
  have "(\<Union>j<16. pages_at ?s j) = set (region_pages r) \<union> (\<Union>j\<in>{..<16} - {i}. pages_at s j)"
    using i by (auto simp: upd split: if_splits)
  moreover have "(\<Union>j<16. pages_at s j) = pages_at s i \<union> (\<Union>j\<in>{..<16} - {i}. pages_at s j)"
    using i by auto
  ultimately have "avail_pages f \<union> (\<Union>j<16. pages_at ?s j) = A" using inv split(2) by (auto simp: shm_inv_def)
  moreover have "region_ok (g_regions ?s ! j) \<and> pages_at ?s j \<inter> avail_pages f = {}" if "j < 16" for j
    using rok [OF that] that r split(1) other [of j] len i by (auto simp: upd nth_list_update)
  moreover have "pages_at ?s j \<inter> pages_at ?s k = {}" if "j < 16" "k < 16" "j \<noteq> k" for j k
    using dis [OF that] that other [of j] other [of k] by (auto simp: upd)
  ultimately show ?thesis using inv f len by (simp add: shm_inv_def)
qed

lemma pages_of_addresses: "map (\<lambda>a. a div 4096) (map (\<lambda>p. p * 4096) ps) = (ps :: nat list)"
  by (simp add: o_def)

lemma shm_add_ref_inv:
  assumes "shm_inv A s"
  shows "shm_inv A (shm_add_ref s rid)"
proof (cases "region_live s rid")
  case True
  let ?i = "nat rid" and ?r = "g_regions s ! nat rid"
  have i: "?i < 16" using True by (auto simp: region_live_def MAX_SHARED_REGIONS_def)
  have "shm_inv A (s\<lparr>g_regions := (g_regions s)[?i := ?r\<lparr>shm_refcount := shm_refcount ?r + 1\<rparr>], frames := frames s\<rparr>)"
    using assms i by (intro shm_inv_update) (auto simp: shm_inv_def region_ok_def region_pages_def pages_at_def)
  then show ?thesis using True by (simp add: shm_add_ref_def Let_def)
qed (use assms in \<open>simp add: shm_add_ref_def\<close>)

text \<open>A release keeps the split; the pages move to the allocator with the last reference.\<close>

lemma shm_release_inv:
  assumes inv: "shm_inv A s"
  shows "shm_inv A (shm_release s rid)"
    "region_live s rid \<Longrightarrow> avail_pages (frames (shm_release s rid)) =
       avail_pages (frames s) \<union> (if shm_refcount (g_regions s ! nat rid) = 1 then pages_at s (nat rid) else {})"
proof -
  let ?i = "nat rid" and ?r = "g_regions s ! nat rid"
  have "shm_inv A (shm_release s rid) \<and> (region_live s rid \<longrightarrow> avail_pages (frames (shm_release s rid)) =
       avail_pages (frames s) \<union> (if shm_refcount ?r = 1 then pages_at s ?i else {}))"
  proof (cases "region_live s rid")
    case False
    then show ?thesis using inv by (simp add: shm_release_def)
  next
    case True
    then have i: "?i < 16" and use: "shm_in_use ?r" by (auto simp: region_live_def MAX_SHARED_REGIONS_def)
    have ok: "region_ok ?r" "pmm_inv (frames s)" and sub: "pages_at s ?i \<subseteq> allocatable (frames s)"
      using inv i by (auto simp: shm_inv_def)
    show ?thesis
    proof (cases "shm_refcount ?r - 1 > 0")
      case more: True
      have "shm_inv A (s\<lparr>g_regions := (g_regions s)[?i := ?r\<lparr>shm_refcount := shm_refcount ?r - 1\<rparr>], frames := frames s\<rparr>)"
        using inv i more by (intro shm_inv_update) (auto simp: shm_inv_def region_ok_def region_pages_def pages_at_def)
      then show ?thesis using True more by (simp add: shm_release_def Let_def)
    next
      case last: False
      let ?ps = "map (\<lambda>a. a div 4096) (shm_pages ?r)"
      let ?f = "release_pages pmm_free_page (shm_pages ?r) (frames s)"
      have addr: "map (\<lambda>p. p * 4096) ?ps = shm_pages ?r"
        using ok(1) use by (auto simp: region_ok_def o_def intro!: map_idI)
      have pat: "pages_at s ?i = set ?ps" using use by (simp add: pages_at_def region_pages_def)
      have f: "pmm_inv ?f" "avail_pages ?f = avail_pages (frames s) \<union> set ?ps"
        using pages.release_pages_props [OF ok(2), of ?ps] sub unfolding addr pat by auto
      have "allocatable (release_pages pmm_free_page as x) = allocatable x" for as x
        by (induction as arbitrary: x) (auto simp: release_pages_def allocatable_def pmm_free_page_def Let_def)
      then have "shm_inv A (s\<lparr>g_regions := (g_regions s)[?i := ?r\<lparr>shm_refcount := shm_refcount ?r - 1, shm_pages := [],
          shm_in_use := False, shm_num_pages := 0\<rparr>], frames := ?f\<rparr>)"
        using inv i f pat by (intro shm_inv_update) (auto simp: region_ok_def region_pages_def)
      moreover have "take (shm_num_pages ?r) (shm_pages ?r) = shm_pages ?r" "shm_refcount ?r = 1"
        using ok(1) use last by (auto simp: region_ok_def)
      ultimately show ?thesis using True last f(2) pat by (simp add: shm_release_def Let_def)
    qed
  qed
  then show "shm_inv A (shm_release s rid)" "region_live s rid \<Longrightarrow> avail_pages (frames (shm_release s rid)) =
       avail_pages (frames s) \<union> (if shm_refcount ?r = 1 then pages_at s ?i else {})" by auto
qed

lemma release_allocatable: "allocatable (release_pages pmm_free_page as x) = allocatable x"
  by (induction as arbitrary: x) (auto simp: release_pages_def allocatable_def pmm_free_page_def Let_def)

lemma shm_inv_frames:
  assumes "shm_inv A s" "pmm_inv f" "avail_pages f = avail_pages (frames s)" "allocatable f = allocatable (frames s)"
  shows "shm_inv A (s\<lparr>frames := f\<rparr>)"
  using assms by (simp add: shm_inv_def pages_at_def)

lemma net_fetch_make_body_shm_inv:
  assumes inv: "shm_inv A s"
  shows "shm_inv A (snd (net_fetch_make_body_shm s cap oom oom2))"
proof (cases oom)
  case False
  define n where "n = wrap64 (cap + 4096 - 1) div 4096"
  obtain as f1 where al: "alloc_pages pmm_alloc_page n (frames s) = (as, f1)" by fastforce
  have pinv: "pmm_inv (frames s)" using inv by (simp add: shm_inv_def)
  obtain ps where ps: "as = map (\<lambda>p. p * 4096) ps" "set ps \<subseteq> avail_pages (frames s)"
    "avail_pages f1 = avail_pages (frames s) - set ps" "pmm_inv f1" "allocatable f1 = allocatable (frames s)"
    using pages.alloc_pages_props [OF pinv al] by metis
  have undone: "shm_inv A (s\<lparr>frames := release_pages pmm_free_page as f1\<rparr>)"
    using pages.rollback [OF pinv al] ps(5) by (intro shm_inv_frames [OF inv]) (auto simp: release_allocatable)
  have body: "snd (net_fetch_make_body_shm s cap oom oom2) =
     (if length as < n then s\<lparr>frames := release_pages pmm_free_page as f1\<rparr>
      else case shm_create (s\<lparr>frames := f1\<rparr>) as n oom2 of (rid, s1) \<Rightarrow>
        if rid < 0 then s1\<lparr>frames := release_pages pmm_free_page as (frames s1)\<rparr> else s1)"
    using False al by (simp add: net_fetch_make_body_shm_def Let_def n_def split: prod.splits)
  show ?thesis
  proof (cases "length as < n")
    case True
    then show ?thesis using body undone by simp
  next
    case len: False
    obtain rid s1 where c: "shm_create (s\<lparr>frames := f1\<rparr>) as n oom2 = (rid, s1)" by fastforce
    show ?thesis
    proof (cases "rid < 0")
      case True
      then have "s1 = s\<lparr>frames := f1\<rparr>" using c by (auto simp: shm_create_def split: if_splits option.splits)
      then show ?thesis using body len c True undone by simp
    next
      case pos: False
      then obtain i where i: "first_index (\<lambda>r. \<not> shm_in_use r) (g_regions s) = Some i"
        and s1: "s1 = s\<lparr>g_regions := (g_regions s)[i := \<lparr>shm_in_use = True, shm_refcount = int n, shm_num_pages = n,
            shm_pages = take n as\<rparr>], frames := f1\<rparr>" and n: "0 < n"
        using c by (auto simp: shm_create_def split: if_splits option.splits)
      have i16: "i < 16" and free: "pages_at s i = {}"
        using first_index_SomeD [OF i] inv by (auto simp: shm_inv_def pages_at_def region_pages_def)
      have n_len: "length as = n" using len pages.alloc_pages_props [OF pinv al] by auto
      have "shm_inv A s1"
        unfolding s1
      proof (rule shm_inv_update [OF inv i16])
        show "region_ok \<lparr>shm_in_use = True, shm_refcount = int n, shm_num_pages = n, shm_pages = take n as\<rparr>"
          using n n_len ps(1) by (auto simp: region_ok_def)
        have rp: "region_pages \<lparr>shm_in_use = True, shm_refcount = int n, shm_num_pages = n, shm_pages = take n as\<rparr> = ps"
          using n_len ps(1) by (simp add: region_pages_def o_def)
        show "set (region_pages \<lparr>shm_in_use = True, shm_refcount = int n, shm_num_pages = n, shm_pages = take n as\<rparr>) \<inter>
            avail_pages f1 = {}" using ps(3) unfolding rp by auto
        show "avail_pages f1 \<union> set (region_pages \<lparr>shm_in_use = True, shm_refcount = int n, shm_num_pages = n, shm_pages = take n as\<rparr>) =
            avail_pages (frames s) \<union> pages_at s i" using ps(2,3) free unfolding rp by auto
      qed (use ps in auto)
      then show ?thesis using body len c pos by simp
    qed
  qed
qed (use inv in \<open>simp add: net_fetch_make_body_shm_def Let_def\<close>)

text \<open>Histories: regions are created, referenced and released in any order.\<close>

inductive shm_reach :: "shm \<Rightarrow> shm \<Rightarrow> bool" for s0 where
  start: "shm_reach s0 s0"
| create: "shm_reach s0 s \<Longrightarrow> shm_reach s0 (snd (net_fetch_make_body_shm s cap oom oom2))"
| add_ref: "shm_reach s0 s \<Longrightarrow> shm_reach s0 (shm_add_ref s rid)"
| release: "shm_reach s0 s \<Longrightarrow> shm_reach s0 (shm_release s rid)"

lemma shm_reach_inv: "shm_reach s0 s \<Longrightarrow> shm_inv A s0 \<Longrightarrow> shm_inv A s"
  by (induction rule: shm_reach.induct)
    (auto intro: net_fetch_make_body_shm_inv shm_add_ref_inv shm_release_inv)

lemma shm_find_region:
  assumes inv: "shm_inv A s" and i: "i < 16" "shm_in_use (g_regions s ! i)" "phys \<in> set (shm_pages (g_regions s ! i))"
  shows "shm_find_region_by_page s phys = int i"
proof -
  let ?P = "\<lambda>r. shm_in_use r \<and> phys \<in> set (take (shm_num_pages r) (shm_pages r))"
  have len: "length (g_regions s) = 16" and ok: "\<And>j. j < 16 \<Longrightarrow> region_ok (g_regions s ! j)"
    using inv by (auto simp: shm_inv_def)
  have at: "phys div 4096 \<in> pages_at s j" if "j < 16" "?P (g_regions s ! j)" for j
    using that in_set_takeD by (fastforce simp: pages_at_def region_pages_def)
  have Pi: "?P (g_regions s ! i)" using i ok [OF i(1)] by (simp add: region_ok_def)
  have "\<not> ?P (g_regions s ! j)" if "j < i" for j
  proof
    assume "?P (g_regions s ! j)"
    then have "phys div 4096 \<in> pages_at s i \<inter> pages_at s j" using at [OF i(1) Pi] at [of j] i(1) that by auto
    moreover have "pages_at s i \<inter> pages_at s j = {}" using inv i(1) that by (simp add: shm_inv_def)
    ultimately show False by blast
  qed
  then have "first_index ?P (g_regions s) = Some i" using Pi len i(1) by (auto simp: first_index_Some)
  then show ?thesis by (simp add: shm_find_region_by_page_def)
qed

lemma shm_start_inv:
  "pmm_inv (frames s) \<Longrightarrow> shm_inv (avail_pages (frames s)) (shm_init s)"
  by (auto simp: shm_inv_def shm_init_def MAX_SHARED_REGIONS_def no_region_def region_ok_def pages_at_def region_pages_def
      avail_pages_def nth_replicate)



end
