(* ===== verification/Paging.thy ===== *)
theory Paging
  imports Shm
begin

text \<open>
  The page tables of the kernel, kernel/system/mm/paging.c: mapping and
  unmapping 4 KB pages with the splitting of 2 MB pages, address translation,
  the checks of user pointers, the construction and the release of address
  spaces, device memory and start-up. A table is known by its physical address,
  which the callers take from \<open>pmm_alloc_page\<close> or from an entry and is therefore
  page-aligned. The flushes of the translation cache are left out.
\<close>

section \<open>The code: entries and indices\<close>

definition PAGE_PRESENT :: u64 where "PAGE_PRESENT = 0x001"
definition PAGE_WRITE :: u64 where "PAGE_WRITE = 0x002"
definition PAGE_USER :: u64 where "PAGE_USER = 0x004"
definition PAGE_PCD :: u64 where "PAGE_PCD = 0x010"
definition PAGE_HUGE :: u64 where "PAGE_HUGE = 0x080"
definition PAGE_IDENTITY_SHARED :: u64 where "PAGE_IDENTITY_SHARED = 0x200"
definition PAGE_MMAP_SHARED :: u64 where "PAGE_MMAP_SHARED = 0x400"
definition PAGE_MMIO_NOFREE :: u64 where "PAGE_MMIO_NOFREE = 0x800"
definition ADDR_MASK :: u64 where "ADDR_MASK = 0x000FFFFFFFFFF000"
definition PHYSMAP_PML4_INDEX :: nat where "PHYSMAP_PML4_INDEX = 256"
definition KERNEL_PHYSMAP_BASE :: nat where "KERNEL_PHYSMAP_BASE = 0xFFFF800000000000"
definition KERNEL_MMIO_BASE :: u64 where "KERNEL_MMIO_BASE = 0xFFFFA00000000000"

definition PML4_INDEX :: "u64 \<Rightarrow> nat" where "PML4_INDEX v = unat (drop_bit 39 v AND 0x1FF)"
definition PDPT_INDEX :: "u64 \<Rightarrow> nat" where "PDPT_INDEX v = unat (drop_bit 30 v AND 0x1FF)"
definition PD_INDEX :: "u64 \<Rightarrow> nat" where "PD_INDEX v = unat (drop_bit 21 v AND 0x1FF)"
definition PT_INDEX :: "u64 \<Rightarrow> nat" where "PT_INDEX v = unat (drop_bit 12 v AND 0x1FF)"

definition has :: "u64 \<Rightarrow> u64 \<Rightarrow> bool" where "has e flag \<longleftrightarrow> e AND flag \<noteq> 0"

definition paddr_to_entry :: "u64 \<Rightarrow> u64 \<Rightarrow> u64" where
  "paddr_to_entry phys flags = (phys AND ADDR_MASK) OR (flags AND 0xFFF)"

text \<open>The table an entry points to, as a physical address.\<close>

definition entry_table :: "u64 \<Rightarrow> nat" where "entry_table e = unat (e AND ADDR_MASK)"

text \<open>
  Page tables in memory by physical address and index, the registry of shared
  regions with the physical allocator, the two tables the kernel remembers, the
  register CR3 and the next free address for device memory.
\<close>

record paging =
  tables :: "nat \<Rightarrow> nat \<Rightarrow> u64"
  shared :: shm
  kernel_pml4 :: nat
  kernel_pdpt :: nat
  cr3 :: nat
  mmio_next_free :: u64

definition phys_to_virt :: "nat \<Rightarrow> nat" where
  "phys_to_virt phys = wrap64 (KERNEL_PHYSMAP_BASE + phys)"

definition get_current_pml4 :: "paging \<Rightarrow> nat" where
  "get_current_pml4 st = cr3 st"

definition set_entry :: "paging \<Rightarrow> nat \<Rightarrow> nat \<Rightarrow> u64 \<Rightarrow> paging" where
  "set_entry st t i e = st\<lparr>tables := (tables st)(t := (tables st t)(i := e))\<rparr>"

definition set_table :: "paging \<Rightarrow> nat \<Rightarrow> (nat \<Rightarrow> u64) \<Rightarrow> paging" where
  "set_table st t f = st\<lparr>tables := (tables st)(t := (\<lambda>i. if i < 512 then f i else tables st t i))\<rparr>"

definition table_alloc :: "paging \<Rightarrow> nat \<times> paging" where
  "table_alloc st = (case pmm_alloc_page (frames (shared st)) of (phys, f1) \<Rightarrow> (phys, st\<lparr>shared := (shared st)\<lparr>frames := f1\<rparr>\<rparr>))"

definition page_free :: "paging \<Rightarrow> nat \<Rightarrow> paging" where
  "page_free st phys = st\<lparr>shared := (shared st)\<lparr>frames := pmm_free_page (frames (shared st)) phys\<rparr>\<rparr>"

section \<open>The code: mapping and unmapping\<close>

definition get_or_create_table :: "paging \<Rightarrow> nat \<Rightarrow> nat \<Rightarrow> bool \<Rightarrow> nat option \<times> paging" where
  "get_or_create_table st parent index create =
    (if \<not> has (tables st parent index) PAGE_PRESENT then
       (if \<not> create then (None, st)
        else case table_alloc st of (phys, st1) \<Rightarrow>
          if phys = 0 then (None, st1)
          else (Some phys, set_table (set_entry st1 parent index
                  (paddr_to_entry (of_nat phys) (PAGE_PRESENT OR PAGE_WRITE OR PAGE_USER))) phys (\<lambda>_. 0)))
     else let e = tables st parent index OR PAGE_USER
          in (Some (entry_table e), set_entry st parent index e))"

text \<open>A 2 MB page in the way is split into 512 pages of 4 KB; \<open>False\<close> if there is no memory.\<close>

definition split_huge :: "paging \<Rightarrow> nat \<Rightarrow> nat \<Rightarrow> bool \<times> paging" where
  "split_huge st pd_table pd_idx =
    (let huge_entry = tables st pd_table pd_idx
     in if has huge_entry PAGE_PRESENT \<and> has huge_entry PAGE_HUGE then
          (let phys_base = huge_entry AND ADDR_MASK; pde_flags = (huge_entry AND 0xFFF) AND NOT PAGE_HUGE
           in case table_alloc st of (pt_phys, st1) \<Rightarrow>
                if pt_phys = 0 then (False, st1)
                else (True, set_entry (set_table st1 pt_phys
                       (\<lambda>i. paddr_to_entry (phys_base + of_nat i * 4096) (pde_flags OR PAGE_IDENTITY_SHARED)))
                       pd_table pd_idx (paddr_to_entry (of_nat pt_phys) pde_flags)))
        else (True, st))"

definition map_page_in_pml4 :: "paging \<Rightarrow> nat \<Rightarrow> u64 \<Rightarrow> u64 \<Rightarrow> u64 \<Rightarrow> int \<times> paging" where
  "map_page_in_pml4 st pml4 virt phys flags =
    (if phys_to_virt pml4 = 0 then (- 1, st)
     else case get_or_create_table st pml4 (PML4_INDEX virt) True of
       (None, st1) \<Rightarrow> (- 1, st1)
     | (Some pdpt_table, st1) \<Rightarrow>
         (case get_or_create_table st1 pdpt_table (PDPT_INDEX virt) True of
            (None, st2) \<Rightarrow> (- 1, st2)
          | (Some pd_table, st2) \<Rightarrow>
              (case split_huge st2 pd_table (PD_INDEX virt) of
                 (False, st3) \<Rightarrow> (- 1, st3)
               | (True, st3) \<Rightarrow>
                   (case get_or_create_table st3 pd_table (PD_INDEX virt) True of
                      (None, st4) \<Rightarrow> (- 1, st4)
                    | (Some pt_table, st4) \<Rightarrow>
                        (0, set_entry st4 pt_table (PT_INDEX virt)
                              ((phys AND ADDR_MASK) OR (flags AND 0xFFF) OR PAGE_PRESENT))))))"

definition map_page :: "paging \<Rightarrow> u64 \<Rightarrow> u64 \<Rightarrow> u64 \<Rightarrow> int \<times> paging" where
  "map_page st virt phys flags = map_page_in_pml4 st (get_current_pml4 st) virt phys flags"

text \<open>Giving back the page of a leaf entry, directly or through the registry of shared regions.\<close>

definition release_leaf :: "paging \<Rightarrow> u64 \<Rightarrow> paging" where
  "release_leaf st e =
    (let phys = entry_table e
     in if has e PAGE_MMIO_NOFREE then st
        else if has e PAGE_MMAP_SHARED then
          (let rid = shm_find_region_by_page (shared st) phys
           in if rid \<ge> 0 then st\<lparr>shared := shm_release (shared st) rid\<rparr> else page_free st phys)
        else page_free st phys)"

definition unmap_page :: "paging \<Rightarrow> u64 \<Rightarrow> paging" where
  "unmap_page st virt =
    (let pml4 = get_current_pml4 st; pml4e = tables st pml4 (PML4_INDEX virt)
     in if phys_to_virt pml4 = 0 \<or> \<not> has pml4e PAGE_PRESENT then st
        else let pdpte = tables st (entry_table pml4e) (PDPT_INDEX virt)
         in if \<not> has pdpte PAGE_PRESENT then st
            else let pd_table = entry_table pdpte; pde = tables st pd_table (PD_INDEX virt)
             in if \<not> has pde PAGE_PRESENT then st
                else if has pde PAGE_HUGE then st
                else let pt_table = entry_table pde; pte = tables st pt_table (PT_INDEX virt)
                 in set_entry (if entry_table pte \<noteq> 0 then release_leaf st pte else st) pt_table (PT_INDEX virt) 0)"

section \<open>The code: translation and access checks\<close>

definition get_physical_address_in_pml4 :: "paging \<Rightarrow> nat \<Rightarrow> u64 \<Rightarrow> u64" where
  "get_physical_address_in_pml4 st pml4 virt =
    (let pml4e = tables st pml4 (PML4_INDEX virt)
     in if phys_to_virt pml4 = 0 \<or> \<not> has pml4e PAGE_PRESENT then 0
        else let pdpte = tables st (entry_table pml4e) (PDPT_INDEX virt)
         in if \<not> has pdpte PAGE_PRESENT then 0
            else let pde = tables st (entry_table pdpte) (PD_INDEX virt)
             in if \<not> has pde PAGE_PRESENT then 0
                else if has pde PAGE_HUGE then (pde AND ADDR_MASK) + (virt AND 0x1FFFFF)
                else let pte = tables st (entry_table pde) (PT_INDEX virt)
                 in if \<not> has pte PAGE_PRESENT then 0 else (pte AND ADDR_MASK) + (virt AND 0xFFF))"

definition is_user_accessible :: "paging \<Rightarrow> nat \<Rightarrow> u64 \<Rightarrow> bool \<Rightarrow> bool" where
  "is_user_accessible st pml4 virt need_write =
    (let pml4e = tables st pml4 (PML4_INDEX virt)
     in if phys_to_virt pml4 = 0 \<or> \<not> has pml4e PAGE_PRESENT \<or> \<not> has pml4e PAGE_USER then False
        else let pdpte = tables st (entry_table pml4e) (PDPT_INDEX virt)
         in if \<not> has pdpte PAGE_PRESENT \<or> \<not> has pdpte PAGE_USER then False
            else let pde = tables st (entry_table pdpte) (PD_INDEX virt)
             in if \<not> has pde PAGE_PRESENT then False
                else if has pde PAGE_HUGE then
                  (if \<not> has pde PAGE_USER then False
                   else if need_write \<and> \<not> has pde PAGE_WRITE then False else True)
                else if \<not> has pde PAGE_USER then False
                else let pte = tables st (entry_table pde) (PT_INDEX virt)
                 in if \<not> has pte PAGE_PRESENT \<or> \<not> has pte PAGE_USER then False
                    else if need_write \<and> \<not> has pte PAGE_WRITE then False else True)"

text \<open>The loop over the pages of a range; \<open>None\<close> stands for a loop that does not end.\<close>

partial_function (option) user_range_loop :: "paging \<Rightarrow> nat \<Rightarrow> u64 \<Rightarrow> u64 \<Rightarrow> bool \<Rightarrow> bool option" where
  "user_range_loop st pml4 page last_page need_write =
    (if \<not> is_user_accessible st pml4 page need_write then Some False
     else if page = last_page then Some True
     else user_range_loop st pml4 (page + 4096) last_page need_write)"

definition is_user_range_valid :: "paging \<Rightarrow> nat \<Rightarrow> u64 \<Rightarrow> u64 \<Rightarrow> bool \<Rightarrow> bool option" where
  "is_user_range_valid st pml4 addr len need_write =
    (if len = 0 then Some True
     else let end_addr = addr + len - 1
      in if end_addr < addr then Some False
         else user_range_loop st pml4 (addr AND NOT 0xFFF) (end_addr AND NOT 0xFFF) need_write)"

definition get_physical_address :: "paging \<Rightarrow> u64 \<Rightarrow> u64" where
  "get_physical_address st virt = get_physical_address_in_pml4 st (get_current_pml4 st) virt"

section \<open>The code: whole address spaces\<close>

definition clone_gigabyte :: "nat \<Rightarrow> nat \<Rightarrow> paging \<Rightarrow> paging" where
  "clone_gigabyte new_pdpt gb st =
    (let e = tables st (kernel_pdpt st) gb
     in if \<not> has e PAGE_PRESENT then st
        else case table_alloc st of (new_pd_phys, st1) \<Rightarrow>
          if new_pd_phys = 0 then st1
          else set_entry (set_table st1 new_pd_phys (tables st1 (entry_table e))) new_pdpt gb
                 (paddr_to_entry (of_nat new_pd_phys) (e AND 0xFFF)))"

definition clone_low_identity_map :: "paging \<Rightarrow> nat \<Rightarrow> paging" where
  "clone_low_identity_map st dest_pml4 =
    (case table_alloc st of (new_pdpt_phys, st1) \<Rightarrow>
       if new_pdpt_phys = 0 then st1
       else set_entry (fold (clone_gigabyte new_pdpt_phys) [0..<512] (set_table st1 new_pdpt_phys (\<lambda>_. 0))) dest_pml4 0
              (paddr_to_entry (of_nat new_pdpt_phys) (PAGE_PRESENT OR PAGE_WRITE)))"

definition free_leaf :: "nat \<Rightarrow> nat \<Rightarrow> paging \<Rightarrow> paging" where
  "free_leaf pt i st =
    (let e = tables st pt i
     in if \<not> has e PAGE_PRESENT then st else if has e PAGE_IDENTITY_SHARED then st else release_leaf st e)"

definition free_pt :: "nat \<Rightarrow> nat \<Rightarrow> paging \<Rightarrow> paging" where
  "free_pt pd i st =
    (let e = tables st pd i
     in if \<not> has e PAGE_PRESENT then st else if has e PAGE_HUGE then st
        else page_free (fold (free_leaf (entry_table e)) [0..<512] st) (entry_table e))"

definition free_pd :: "nat \<Rightarrow> nat \<Rightarrow> paging \<Rightarrow> paging" where
  "free_pd pdpt i st =
    (let e = tables st pdpt i
     in if \<not> has e PAGE_PRESENT then st else page_free (fold (free_pt (entry_table e)) [0..<512] st) (entry_table e))"

definition free_pdpt :: "nat \<Rightarrow> nat \<Rightarrow> paging \<Rightarrow> paging" where
  "free_pdpt pml4 i st =
    (let e = tables st pml4 i
     in if \<not> has e PAGE_PRESENT then st else page_free (fold (free_pd (entry_table e)) [0..<512] st) (entry_table e))"

definition free_user_address_space :: "paging \<Rightarrow> nat \<Rightarrow> paging" where
  "free_user_address_space st pml4 =
    (if phys_to_virt pml4 = 0 then st else page_free (fold (free_pdpt pml4) [0..<256] st) pml4)"

definition sync_entry :: "nat \<Rightarrow> nat \<Rightarrow> nat \<Rightarrow> paging \<Rightarrow> paging" where
  "sync_entry dest src i st =
    (let e = tables st src i; src_table = entry_table e
     in if \<not> has e PAGE_PRESENT then st
        else if \<not> has (tables st dest i) PAGE_PRESENT then
          (case table_alloc st of (new_table_phys, st1) \<Rightarrow>
             if new_table_phys = 0 then st1
             else let st2 = set_entry st1 dest i ((of_nat new_table_phys AND NOT 0xFFF) OR (tables st1 src i AND 0xFFF))
                  in set_table st2 new_table_phys (tables st2 src_table))
        else set_table st (entry_table (tables st dest i)) (tables st src_table))"

definition sync_kernel_mappings :: "paging \<Rightarrow> nat \<Rightarrow> nat \<Rightarrow> paging" where
  "sync_kernel_mappings st dest_pml4 src_pml4 = fold (sync_entry dest_pml4 src_pml4) [256..<512] st"

section \<open>The code: device memory and start-up\<close>

fun mmio_loop :: "paging \<Rightarrow> u64 \<Rightarrow> u64 \<Rightarrow> nat \<Rightarrow> bool \<times> paging" where
  "mmio_loop st virt phys 0 = (True, st)"
| "mmio_loop st virt phys (Suc n) =
    (case map_page st virt phys (PAGE_PRESENT OR PAGE_WRITE OR PAGE_PCD) of
       (r, st1) \<Rightarrow> if r \<noteq> 0 then (False, st1) else mmio_loop st1 (virt + 4096) (phys + 4096) n)"

definition mmio_map :: "paging \<Rightarrow> u64 \<Rightarrow> u64 \<Rightarrow> u64 option \<times> paging" where
  "mmio_map st phys size0 =
    (let sz = (if size0 = 0 then 0x2000 else size0); phys_page = phys AND NOT 0xFFF; phys_offset = phys - phys_page;
         map_size = (phys_offset + sz + 4096 - 1) AND NOT 0xFFF; virt_base = mmio_next_free st
     in case mmio_loop (st\<lparr>mmio_next_free := virt_base + map_size\<rparr>) virt_base phys_page (unat map_size div 4096) of
          (False, st1) \<Rightarrow> (None, st1)
        | (True, st1) \<Rightarrow> (Some (virt_base + phys_offset), st1))"

text \<open>\<open>None\<close> is the endless halt when no page is left for a directory.\<close>

fun build_identity_pdpt :: "paging \<Rightarrow> nat \<Rightarrow> nat \<Rightarrow> nat \<Rightarrow> paging option" where
  "build_identity_pdpt st pdpt gb 0 = Some st"
| "build_identity_pdpt st pdpt gb (Suc n) =
    (case table_alloc st of (pd_phys, st1) \<Rightarrow>
       if pd_phys = 0 then None
       else build_identity_pdpt
              (set_table (set_entry (set_table st1 pd_phys (\<lambda>_. 0)) pdpt gb (paddr_to_entry (of_nat pd_phys) (PAGE_PRESENT OR PAGE_WRITE)))
                 pd_phys (\<lambda>i. paddr_to_entry (push_bit 30 (of_nat gb) + push_bit 21 (of_nat i)) (PAGE_PRESENT OR PAGE_WRITE OR PAGE_HUGE)))
              pdpt (gb + 1) n)"

definition mapped_gigabytes :: "efi_desc list \<Rightarrow> nat \<Rightarrow> nat \<Rightarrow> nat" where
  "mapped_gigabytes ds fb_base fb_size =
    (let fb_end = wrap64 (fb_base + fb_size); mp = (if fb_end > max_phys ds then fb_end else max_phys ds);
         mem_gb = wrap64 (mp + 2 ^ 30 - 1) div 2 ^ 30
     in if mem_gb > 512 then 512 else mem_gb)"

text \<open>The three static tables lie at the given addresses.\<close>

definition paging_init :: "paging \<Rightarrow> efi_desc list \<Rightarrow> nat \<Rightarrow> nat \<Rightarrow> nat \<Rightarrow> nat \<Rightarrow> nat \<Rightarrow> paging option" where
  "paging_init st ds fb_base fb_size pml4_table pdpt_table physmap_pdpt =
    (let st1 = st\<lparr>kernel_pml4 := pml4_table, kernel_pdpt := pdpt_table\<rparr>;
         st2 = set_table (set_table (set_table st1 pml4_table (\<lambda>_. 0)) pdpt_table (\<lambda>_. 0)) physmap_pdpt (\<lambda>_. 0);
         st3 = set_entry st2 pml4_table 0 (paddr_to_entry (of_nat pdpt_table) (PAGE_PRESENT OR PAGE_WRITE));
         st4 = set_entry st3 pml4_table PHYSMAP_PML4_INDEX (paddr_to_entry (of_nat physmap_pdpt) (PAGE_PRESENT OR PAGE_WRITE));
         mem_gb = mapped_gigabytes ds fb_base fb_size
     in case build_identity_pdpt st4 pdpt_table 0 mem_gb of
          None \<Rightarrow> None
        | Some st5 \<Rightarrow>
            (case build_identity_pdpt st5 physmap_pdpt 0 mem_gb of
               None \<Rightarrow> None
             | Some st6 \<Rightarrow> Some (st6\<lparr>cr3 := pml4_table\<rparr>)))"

section \<open>Bits of entries\<close>

lemma bit_ADDR_MASK: "bit ADDR_MASK n \<longleftrightarrow> 12 \<le> n \<and> n < 52"
proof -
  have eq: "ADDR_MASK = push_bit 12 (mask 40)" by (simp add: ADDR_MASK_def mask_eq_exp_minus_1 push_bit_eq_mult)
  show ?thesis unfolding eq by (auto simp: bit_push_bit_iff bit_mask_iff)
qed

lemma bit_0xFFF: "bit (0xFFF :: int) n \<longleftrightarrow> n < 12"
proof -
  have eq: "(0xFFF :: int) = mask 12" by (simp add: mask_eq_exp_minus_1)
  show ?thesis unfolding eq by (simp add: bit_mask_iff)
qed

lemma has_bit:
  assumes "k < 64"
  shows "has e (2 ^ k) \<longleftrightarrow> bit e k"
proof -
  have "e AND 2 ^ k = (if bit e k then 2 ^ k else 0)"
    by (rule bit_word_eqI) (auto simp: bit_simps)
  moreover have "(2 :: u64) ^ k \<noteq> 0" using assms by (simp add: exp_eq_zero_iff)
  ultimately show ?thesis by (auto simp: has_def)
qed

lemma has_flags [simp]:
  "has e PAGE_PRESENT = bit e 0" "has e PAGE_WRITE = bit e 1" "has e PAGE_USER = bit e 2" "has e PAGE_HUGE = bit e 7"
  "has e PAGE_IDENTITY_SHARED = bit e 9" "has e PAGE_MMAP_SHARED = bit e 10" "has e PAGE_MMIO_NOFREE = bit e 11"
  using has_bit [of 0 e] has_bit [of 1 e] has_bit [of 2 e] has_bit [of 7 e] has_bit [of 9 e] has_bit [of 10 e] has_bit [of 11 e]
  by (simp_all add: PAGE_PRESENT_def PAGE_WRITE_def PAGE_USER_def PAGE_HUGE_def PAGE_IDENTITY_SHARED_def PAGE_MMAP_SHARED_def PAGE_MMIO_NOFREE_def)

lemma bit_flags:
  "bit PAGE_PRESENT n \<longleftrightarrow> n = 0" "bit PAGE_WRITE n \<longleftrightarrow> n = 1" "bit PAGE_USER n \<longleftrightarrow> n = 2" "bit PAGE_HUGE n \<longleftrightarrow> n = 7"
  "bit PAGE_IDENTITY_SHARED n \<longleftrightarrow> n = 9" "bit PAGE_PCD n \<longleftrightarrow> n = 4"
proof -
  have "bit ((2 :: u64) ^ k) n \<longleftrightarrow> n = k" if "k < 64" for k using that by (auto simp: bit_simps)
  from this [of 0] this [of 1] this [of 2] this [of 7] this [of 9] this [of 4]
  show "bit PAGE_PRESENT n \<longleftrightarrow> n = 0" "bit PAGE_WRITE n \<longleftrightarrow> n = 1" "bit PAGE_USER n \<longleftrightarrow> n = 2" "bit PAGE_HUGE n \<longleftrightarrow> n = 7"
    "bit PAGE_IDENTITY_SHARED n \<longleftrightarrow> n = 9" "bit PAGE_PCD n \<longleftrightarrow> n = 4"
    by (simp_all add: PAGE_PRESENT_def PAGE_WRITE_def PAGE_USER_def PAGE_HUGE_def PAGE_IDENTITY_SHARED_def PAGE_PCD_def)
qed

lemma bit_paddr_to_entry:
  "bit (paddr_to_entry phys flags) n \<longleftrightarrow> (if n < 12 then bit flags n else n < 52 \<and> bit phys n)"
  by (auto simp: paddr_to_entry_def bit_simps bit_ADDR_MASK bit_0xFFF)

lemma paddr_to_entry_mask [simp]: "paddr_to_entry phys flags AND ADDR_MASK = phys AND ADDR_MASK"
  by (rule bit_word_eqI) (auto simp: bit_simps bit_paddr_to_entry bit_ADDR_MASK)

lemma leaf_mask [simp]: "((phys AND ADDR_MASK) OR (flags AND 0xFFF) OR PAGE_PRESENT) AND ADDR_MASK = phys AND ADDR_MASK"
  by (rule bit_word_eqI) (auto simp: bit_simps bit_ADDR_MASK bit_0xFFF bit_flags)

lemma user_mask [simp]: "(e OR PAGE_USER) AND ADDR_MASK = e AND ADDR_MASK"
  by (rule bit_word_eqI) (auto simp: bit_simps bit_ADDR_MASK bit_flags)

text \<open>The address of a page survives in an entry.\<close>

definition page_addr :: "nat \<Rightarrow> bool" where
  "page_addr a \<longleftrightarrow> a mod 4096 = 0 \<and> a < 2 ^ 39"

lemma page_addr_mask:
  assumes "page_addr a"
  shows "of_nat a AND ADDR_MASK = (of_nat a :: u64)"
proof (rule bit_word_eqI)
  fix n assume "n < LENGTH(64)"
  obtain q where a: "a = q * 2 ^ 12" "q < 2 ^ 27" using assms by (auto simp: page_addr_def elim!: dvdE)
  have "bit a n \<Longrightarrow> 12 \<le> n \<and> n < 39"
  proof -
    assume b: "bit a n"
    have "a = push_bit 12 (take_bit 27 q)" using a by (simp add: push_bit_eq_mult take_bit_nat_eq_self)
    then show ?thesis using b by (auto simp: bit_push_bit_iff bit_take_bit_iff)
  qed
  then show "bit (of_nat a AND ADDR_MASK) n = bit (of_nat a :: u64) n"
    by (auto simp: bit_simps bit_ADDR_MASK)
qed

lemma entry_table_simps [simp]:
  "entry_table (e OR PAGE_USER) = entry_table e"
  "page_addr a \<Longrightarrow> entry_table (paddr_to_entry (of_nat a) flags) = a"
  by (simp_all add: entry_table_def page_addr_mask) (simp add: page_addr_def take_bit_nat_eq_self unsigned_of_nat)

section \<open>Page tables as trees\<close>

text \<open>
  The table reached from the root \<open>p\<close> along a list of indices, and the entries by
  path: an entry below an absent table reads as zero, which is what every walk of
  the code makes of it.
\<close>

definition next_table :: "u64 \<Rightarrow> nat option" where
  "next_table e = (if bit e 0 \<and> \<not> bit e 7 then Some (entry_table e) else None)"

fun table_at :: "(nat \<Rightarrow> nat \<Rightarrow> u64) \<Rightarrow> nat \<Rightarrow> nat list \<Rightarrow> nat option" where
  "table_at T p [] = Some p"
| "table_at T p (i # is) = (case next_table (T p i) of None \<Rightarrow> None | Some a \<Rightarrow> table_at T a is)"

definition entry_at :: "(nat \<Rightarrow> nat \<Rightarrow> u64) \<Rightarrow> nat \<Rightarrow> nat list \<Rightarrow> nat \<Rightarrow> u64" where
  "entry_at T p q i = (case table_at T p q of None \<Rightarrow> 0 | Some a \<Rightarrow> T a i)"

definition valid_path :: "nat list \<Rightarrow> bool" where
  "valid_path q \<longleftrightarrow> length q \<le> 3 \<and> (\<forall>i\<in>set q. i < 512)"

definition tree_inj :: "(nat \<Rightarrow> nat \<Rightarrow> u64) \<Rightarrow> nat \<Rightarrow> bool" where
  "tree_inj T p \<longleftrightarrow> (\<forall>q r a. valid_path q \<and> valid_path r \<and> table_at T p q = Some a \<and> table_at T p r = Some a \<longrightarrow> q = r)"

lemma table_at_snoc:
  "table_at T p (q @ [i]) = (case table_at T p q of None \<Rightarrow> None | Some a \<Rightarrow> next_table (T a i))"
  by (induction q arbitrary: p) (auto split: option.splits)

lemma valid_path_snoc: "valid_path (q @ [i]) \<longleftrightarrow> valid_path q \<and> length q < 3 \<and> i < 512"
  by (auto simp: valid_path_def)

lemma tree_injD: "tree_inj T p \<Longrightarrow> valid_path q \<Longrightarrow> valid_path r \<Longrightarrow> table_at T p q = Some a \<Longrightarrow> table_at T p r = Some a \<Longrightarrow> q = r"
  by (auto simp: tree_inj_def)

text \<open>A changed entry that leads to the same table, or one of a table of leaves.\<close>

lemma update_entry:
  fixes T a i e
  defines "T' \<equiv> T(a := (T a)(i := e))"
  assumes inj: "tree_inj T p" and q: "valid_path q" "table_at T p q = Some a" and e: "length q = 3 \<or> next_table e = next_table (T a i)"
  shows "valid_path r \<Longrightarrow> table_at T' p r = table_at T p r"
    "valid_path r \<Longrightarrow> entry_at T' p r j = (if r = q \<and> j = i then e else entry_at T p r j)"
proof -
  show tab: "table_at T' p r = table_at T p r" if "valid_path r" for r
    using that
  proof (induction r rule: rev_induct)
    case (snoc j s)
    then have s: "valid_path s" "length s < 3" "table_at T' p s = table_at T p s" by (auto simp: valid_path_snoc)
    show ?case
    proof (cases "table_at T p s")
      case (Some c)
      have "next_table (T' c j) = next_table (T c j)"
        using tree_injD [OF inj q(1) s(1) q(2)] Some e s(2) by (auto simp: T'_def)
      then show ?thesis using s(3) Some by (simp add: table_at_snoc)
    qed (use s(3) in \<open>simp add: table_at_snoc\<close>)
  qed simp
  show "entry_at T' p r j = (if r = q \<and> j = i then e else entry_at T p r j)" if "valid_path r"
  proof (cases "table_at T p r")
    case (Some c)
    have "c = a \<longleftrightarrow> r = q" using tree_injD [OF inj that q(1) Some] q(2) Some by auto
    then show ?thesis using tab [OF that] Some by (auto simp: entry_at_def T'_def)
  qed (use tab [OF that] q(2) in \<open>auto simp: entry_at_def\<close>)
qed

text \<open>A new table \<open>b\<close> below an entry that led nowhere.\<close>

lemma insert_table:
  fixes T a i e b f
  defines "T' \<equiv> (T(a := (T a)(i := e)))(b := (\<lambda>j. if j < 512 then f j else T b j))"
  assumes inj: "tree_inj T p" and q: "valid_path (q @ [i])" "table_at T p q = Some a"
    and e: "next_table (T a i) = None" "next_table e = Some b"
    and fresh: "\<And>r. valid_path r \<Longrightarrow> table_at T p r \<noteq> Some b"
    and f: "length q = 2 \<or> (\<forall>j<512. next_table (f j) = None)"
  shows "valid_path r \<Longrightarrow> table_at T' p r = (if r = q @ [i] then Some b else table_at T p r)"
    "valid_path r \<Longrightarrow> j < 512 \<Longrightarrow> entry_at T' p r j =
       (if r = q \<and> j = i then e else if r = q @ [i] then f j else entry_at T p r j)"
proof -
  have vq: "valid_path q" using q(1) by (simp add: valid_path_snoc)
  have ab: "a \<noteq> b" using fresh [OF vq] q(2) by auto
  have old: "table_at T p (q @ [i]) = None" by (simp add: table_at_snoc q(2) e(1))
  show tab: "table_at T' p r = (if r = q @ [i] then Some b else table_at T p r)" if "valid_path r" for r
    using that
  proof (induction r rule: rev_induct)
    case (snoc j s)
    then have s: "valid_path s" "length s < 3" "j < 512" and IH: "table_at T' p s = (if s = q @ [i] then Some b else table_at T p s)"
      by (auto simp: valid_path_snoc)
    show ?case
    proof (cases "s = q @ [i]")
      case True
      then have "next_table (f j) = None" using f s by auto
      then have "next_table (T' b j) = None" using s(3) by (simp add: T'_def)
      moreover have "table_at T p (s @ [j]) = None" using table_at_snoc [of T p s j] old True by simp
      moreover have "s @ [j] \<noteq> q @ [i]" using True by simp
      ultimately show ?thesis using IH True table_at_snoc [of T' p s j] by simp
    next
      case False
      show ?thesis
      proof (cases "table_at T p s")
        case None
        then have "s \<noteq> q" using q(2) by auto
        then show ?thesis using IH False None by (simp add: table_at_snoc)
      next
        case (Some c)
        have cb: "c \<noteq> b" using fresh [OF s(1)] Some by auto
        show ?thesis
        proof (cases "s = q \<and> j = i")
          case True
          moreover have "T' a i = e" using ab by (simp add: T'_def)
          ultimately show ?thesis using IH False q(2) e(2) by (simp add: table_at_snoc)
        next
          case other: False
          have "c = a \<Longrightarrow> s = q" using tree_injD [OF inj s(1) vq Some] q(2) by simp
          then have "T' c j = T c j" using other cb by (auto simp: T'_def)
          then show ?thesis using IH False Some other by (auto simp: table_at_snoc)
        qed
      qed
    qed
  qed simp
  show "entry_at T' p r j = (if r = q \<and> j = i then e else if r = q @ [i] then f j else entry_at T p r j)"
    if "valid_path r" "j < 512"
  proof (cases "r = q @ [i]")
    case True
    then show ?thesis using tab [OF that(1)] that(2) by (simp add: entry_at_def T'_def)
  next
    case False
    show ?thesis
    proof (cases "table_at T p r")
      case (Some c)
      have "c \<noteq> b" "c = a \<longleftrightarrow> r = q" using fresh [OF that(1)] Some tree_injD [OF inj that(1) vq] q(2) by auto
      then show ?thesis using False tab [OF that(1)] Some by (auto simp: entry_at_def T'_def)
    qed (use tab [OF that(1)] False q(2) in \<open>auto simp: entry_at_def\<close>)
  qed
qed

text \<open>
  A well-formed address space: its tables are distinct pages that the allocator
  has handed out, all within the physical map, and 2 MB pages occur in page
  directories only and are aligned.
\<close>

definition shape :: "nat \<Rightarrow> u64 \<Rightarrow> bool" where
  "shape n e \<longleftrightarrow> (bit e 0 \<and> bit e 7 \<longrightarrow> 2 \<le> n \<and> (n = 2 \<longrightarrow> (\<forall>k. 12 \<le> k \<and> k < 21 \<longrightarrow> \<not> bit e k)))"

definition tree_ok :: "paging \<Rightarrow> nat \<Rightarrow> bool" where
  "tree_ok st p \<longleftrightarrow> pmm_inv (frames (shared st)) \<and> total_pages (frames (shared st)) \<le> 2 ^ 27 \<and> tree_inj (tables st) p \<and>
     (\<forall>q a. valid_path q \<and> table_at (tables st) p q = Some a \<longrightarrow> page_addr a \<and> a div 4096 \<notin> avail_pages (frames (shared st))) \<and>
     (\<forall>q i. valid_path q \<and> i < 512 \<longrightarrow> shape (length q) (entry_at (tables st) p q i))"

lemma tree_okI:
  assumes "pmm_inv (frames (shared st))" "total_pages (frames (shared st)) \<le> 2 ^ 27" "tree_inj (tables st) p"
    "\<And>q a. valid_path q \<Longrightarrow> table_at (tables st) p q = Some a \<Longrightarrow> page_addr a \<and> a div 4096 \<notin> avail_pages (frames (shared st))"
    "\<And>q i. valid_path q \<Longrightarrow> i < 512 \<Longrightarrow> shape (length q) (entry_at (tables st) p q i)"
  shows "tree_ok st p"
  using assms unfolding tree_ok_def by blast

lemma tree_okD:
  assumes "tree_ok st p"
  shows "pmm_inv (frames (shared st))" "total_pages (frames (shared st)) \<le> 2 ^ 27" "tree_inj (tables st) p"
    "valid_path q \<Longrightarrow> table_at (tables st) p q = Some a \<Longrightarrow> page_addr a"
    "valid_path q \<Longrightarrow> table_at (tables st) p q = Some a \<Longrightarrow> a div 4096 \<notin> avail_pages (frames (shared st))"
    "valid_path q \<Longrightarrow> i < 512 \<Longrightarrow> shape (length q) (entry_at (tables st) p q i)"
  using assms by (auto simp: tree_ok_def)

lemma table_alloc_ok:
  assumes "tree_ok st p" "table_alloc st = (b, st1)"
  shows "b = 0 \<and> st1 = st \<or>
    b \<noteq> 0 \<and> page_addr b \<and> b div 4096 \<in> avail_pages (frames (shared st)) \<and> tables st1 = tables st \<and>
    pmm_inv (frames (shared st1)) \<and> total_pages (frames (shared st1)) = total_pages (frames (shared st)) \<and>
    avail_pages (frames (shared st1)) = avail_pages (frames (shared st)) - {b div 4096}"
proof -
  let ?f = "frames (shared st)"
  obtain f1 where a: "pmm_alloc_page ?f = (b, f1)" and st1: "st1 = st\<lparr>shared := (shared st)\<lparr>frames := f1\<rparr>\<rparr>"
    using assms(2) by (auto simp: table_alloc_def split: prod.splits)
  note inv = tree_okD(1) [OF assms(1)]
  show ?thesis
  proof (cases "avail_pages ?f = {}")
    case True
    then show ?thesis using pages.al_fail [OF inv] a st1 by simp
  next
    case False
    then obtain n where n: "n \<in> avail_pages ?f" "b = n * 4096" "f1 = take_page ?f n"
      using pmm_alloc_page_cases [OF inv] a by auto
    have f: "n \<in> free_set ?f" "512 \<le> n" "n < total_pages ?f" using n(1) by (auto simp: avail_pages_def allocatable_def)
    have "page_addr b" using f tree_okD(2) [OF assms(1)] by (simp add: page_addr_def n(2))
    moreover have "avail_pages f1 = avail_pages ?f - {n}" using take_page_sets [OF f(1)] by (auto simp: avail_pages_def n(3))
    ultimately show ?thesis using n f(2) take_page_inv [OF inv f(1,2)] by (simp add: st1)
  qed
qed

lemma set_entry_ok:
  assumes ok: "tree_ok st p" and q: "valid_path q" "table_at (tables st) p q = Some a" and i: "i < 512"
    and e: "length q = 3 \<or> next_table e = next_table (tables st a i)" "shape (length q) e"
  shows "tree_ok (set_entry st a i e) p"
    "valid_path r \<Longrightarrow> table_at (tables (set_entry st a i e)) p r = table_at (tables st) p r"
    "valid_path r \<Longrightarrow> entry_at (tables (set_entry st a i e)) p r j = (if r = q \<and> j = i then e else entry_at (tables st) p r j)"
proof -
  let ?st = "set_entry st a i e"
  have t: "tables ?st = (tables st)(a := (tables st a)(i := e))" "shared ?st = shared st"
    by (simp_all add: set_entry_def)
  note u = update_entry [OF tree_okD(3) [OF ok] q e(1), folded t(1)]
  show tab: "table_at (tables ?st) p r = table_at (tables st) p r" if "valid_path r" for r by (rule u(1) [OF that])
  show ent: "entry_at (tables ?st) p r j = (if r = q \<and> j = i then e else entry_at (tables st) p r j)" if "valid_path r" for r j
    by (rule u(2) [OF that])
  have 1: "tree_inj (tables ?st) p"
    unfolding tree_inj_def using tab tree_injD [OF tree_okD(3) [OF ok]] by metis
  have 2: "page_addr c \<and> c div 4096 \<notin> avail_pages (frames (shared ?st))"
    if "valid_path r" "table_at (tables ?st) p r = Some c" for r c
    using tab [OF that(1)] that(2) tree_okD(4,5) [OF ok that(1)] by (simp add: t(2))
  have 3: "shape (length r) (entry_at (tables ?st) p r j)" if "valid_path r" "j < 512" for r j
    using ent [OF that(1)] e(2) tree_okD(6) [OF ok that] by auto
  show "tree_ok ?st p" by (rule tree_okI [OF _ _ 1 2 3]) (use tree_okD(1,2) [OF ok] in \<open>simp_all only: t(2)\<close>)
qed

lemma insert_table_ok:
  assumes ok: "tree_ok st p" and al: "table_alloc st = (b, st1)" "b \<noteq> 0"
    and q: "valid_path (q @ [i])" "table_at (tables st) p q = Some a"
    and e: "next_table (tables st a i) = None" "next_table e = Some b" "shape (length q) e"
    and f: "length q = 2 \<or> (\<forall>j<512. next_table (f j) = None)" "\<forall>j<512. shape (length q + 1) (f j)"
    and st': "tables st' = ((tables st)(a := (tables st a)(i := e)))(b := (\<lambda>j. if j < 512 then f j else tables st b j))"
      "shared st' = shared st1"
  shows "tree_ok st' p"
    "valid_path r \<Longrightarrow> table_at (tables st') p r = (if r = q @ [i] then Some b else table_at (tables st) p r)"
    "valid_path r \<Longrightarrow> j < 512 \<Longrightarrow> entry_at (tables st') p r j =
       (if r = q \<and> j = i then e else if r = q @ [i] then f j else entry_at (tables st) p r j)"
proof -
  have b: "page_addr b" "b div 4096 \<in> avail_pages (frames (shared st))" "pmm_inv (frames (shared st1))"
    "total_pages (frames (shared st1)) = total_pages (frames (shared st))"
    "avail_pages (frames (shared st1)) = avail_pages (frames (shared st)) - {b div 4096}"
    using table_alloc_ok [OF ok al(1)] al(2) by auto
  have fresh: "table_at (tables st) p r \<noteq> Some b" if "valid_path r" for r using tree_okD(5) [OF ok that] b(2) by auto
  note u = insert_table [OF tree_okD(3) [OF ok] q e(1,2) fresh f(1), folded st'(1)]
  show tab: "table_at (tables st') p r = (if r = q @ [i] then Some b else table_at (tables st) p r)" if "valid_path r" for r
    by (rule u(1)) (use that in auto)
  show ent: "entry_at (tables st') p r j =
       (if r = q \<and> j = i then e else if r = q @ [i] then f j else entry_at (tables st) p r j)" if "valid_path r" "j < 512" for r j
    by (rule u(2)) (use that in auto)
  have 1: "tree_inj (tables st') p"
    unfolding tree_inj_def using tab fresh tree_injD [OF tree_okD(3) [OF ok]] by (metis option.inject)
  have 2: "page_addr c \<and> c div 4096 \<notin> avail_pages (frames (shared st'))"
    if "valid_path r" "table_at (tables st') p r = Some c" for r c
    using tab [OF that(1)] that(2) b tree_okD(4,5) [OF ok that(1)] by (auto simp: st'(2) split: if_splits)
  have 3: "shape (length r) (entry_at (tables st') p r j)" if "valid_path r" "j < 512" for r j
    using ent [OF that] e(3) f(2) that tree_okD(6) [OF ok that] by auto
  show "tree_ok st' p" by (rule tree_okI [OF _ _ 1 2 3]) (use b(3,4) tree_okD(2) [OF ok] in \<open>simp_all only: st'(2)\<close>)
qed

lemma index_less: "unat (x AND 0x1FF :: u64) < 512"
proof -
  have eq: "x AND 0x1FF = take_bit 9 x" by (simp add: take_bit_eq_mask mask_eq_exp_minus_1)
  show ?thesis unfolding eq using take_bit_nat_less_exp [of 9 "unat x"] by (simp add: unsigned_take_bit_eq)
qed

lemma indices [simp]: "PML4_INDEX v < 512" "PDPT_INDEX v < 512" "PD_INDEX v < 512" "PT_INDEX v < 512"
  by (simp_all add: PML4_INDEX_def PDPT_INDEX_def PD_INDEX_def PT_INDEX_def index_less)

text \<open>The four entries on the way to an address.\<close>

abbreviation pml4e_of :: "paging \<Rightarrow> nat \<Rightarrow> u64 \<Rightarrow> u64" where
  "pml4e_of st p v \<equiv> entry_at (tables st) p [] (PML4_INDEX v)"
abbreviation pdpte_of :: "paging \<Rightarrow> nat \<Rightarrow> u64 \<Rightarrow> u64" where
  "pdpte_of st p v \<equiv> entry_at (tables st) p [PML4_INDEX v] (PDPT_INDEX v)"
abbreviation pde_of :: "paging \<Rightarrow> nat \<Rightarrow> u64 \<Rightarrow> u64" where
  "pde_of st p v \<equiv> entry_at (tables st) p [PML4_INDEX v, PDPT_INDEX v] (PD_INDEX v)"
abbreviation pte_of :: "paging \<Rightarrow> nat \<Rightarrow> u64 \<Rightarrow> u64" where
  "pte_of st p v \<equiv> entry_at (tables st) p [PML4_INDEX v, PDPT_INDEX v, PD_INDEX v] (PT_INDEX v)"

lemma upper_not_huge:
  assumes "tree_ok st p"
  shows "\<not> (bit (pml4e_of st p v) 0 \<and> bit (pml4e_of st p v) 7)" "\<not> (bit (pdpte_of st p v) 0 \<and> bit (pdpte_of st p v) 7)"
  using tree_okD(6) [OF assms, of "[]" "PML4_INDEX v"] tree_okD(6) [OF assms, of "[PML4_INDEX v]" "PDPT_INDEX v"]
  by (auto simp: shape_def valid_path_def)

lemma root_visible: "tree_ok st p \<Longrightarrow> phys_to_virt p \<noteq> 0"
  using tree_okD(4) [of st p "[]" p] by (auto simp: valid_path_def page_addr_def phys_to_virt_def KERNEL_PHYSMAP_BASE_def wrap64_def)

lemma walk_entries:
  assumes "tree_ok st p"
  shows "tables st p (PML4_INDEX v) = pml4e_of st p v"
    "bit (pml4e_of st p v) 0 \<Longrightarrow> tables st (entry_table (pml4e_of st p v)) (PDPT_INDEX v) = pdpte_of st p v"
    "\<not> bit (pml4e_of st p v) 0 \<Longrightarrow> pdpte_of st p v = 0"
    "bit (pdpte_of st p v) 0 \<Longrightarrow> tables st (entry_table (pdpte_of st p v)) (PD_INDEX v) = pde_of st p v"
    "\<not> bit (pdpte_of st p v) 0 \<Longrightarrow> pde_of st p v = 0"
    "bit (pde_of st p v) 0 \<Longrightarrow> \<not> bit (pde_of st p v) 7 \<Longrightarrow> tables st (entry_table (pde_of st p v)) (PT_INDEX v) = pte_of st p v"
    "\<not> (bit (pde_of st p v) 0 \<and> \<not> bit (pde_of st p v) 7) \<Longrightarrow> pte_of st p v = 0"
  using upper_not_huge [OF assms, of v] by (auto simp: entry_at_def next_table_def split: option.splits if_splits)

lemma phys_view:
  assumes "tree_ok st p"
  shows "get_physical_address_in_pml4 st p v =
    (if bit (pde_of st p v) 0 \<and> bit (pde_of st p v) 7 then (pde_of st p v AND ADDR_MASK) + (v AND 0x1FFFFF)
     else if bit (pte_of st p v) 0 then (pte_of st p v AND ADDR_MASK) + (v AND 0xFFF) else 0)"
proof (cases "bit (pml4e_of st p v) 0 \<and> bit (pdpte_of st p v) 0 \<and> bit (pde_of st p v) 0")
  case True
  then show ?thesis using walk_entries [OF assms, of v] root_visible [OF assms] by (simp add: get_physical_address_in_pml4_def Let_def)
next
  case False
  then have "\<not> bit (pde_of st p v) 0" "\<not> bit (pte_of st p v) 0"
    using walk_entries(3,5,7) [OF assms, of v] by auto
  then show ?thesis using False walk_entries(1,2,4) [OF assms, of v] by (auto simp: get_physical_address_in_pml4_def Let_def)
qed

lemma user_view:
  assumes "tree_ok st p"
  shows "is_user_accessible st p v w \<longleftrightarrow>
    bit (pml4e_of st p v) 0 \<and> bit (pml4e_of st p v) 2 \<and> bit (pdpte_of st p v) 0 \<and> bit (pdpte_of st p v) 2 \<and>
    bit (pde_of st p v) 0 \<and> bit (pde_of st p v) 2 \<and>
    (if bit (pde_of st p v) 7 then w \<longrightarrow> bit (pde_of st p v) 1
     else bit (pte_of st p v) 0 \<and> bit (pte_of st p v) 2 \<and> (w \<longrightarrow> bit (pte_of st p v) 1))"
proof (cases "bit (pml4e_of st p v) 0 \<and> bit (pdpte_of st p v) 0 \<and> bit (pde_of st p v) 0")
  case True
  then show ?thesis using walk_entries [OF assms, of v] root_visible [OF assms] by (cases "bit (pde_of st p v) 7") (auto simp: is_user_accessible_def Let_def)
next
  case False
  then show ?thesis using walk_entries(1,2,4) [OF assms, of v] by (auto simp: is_user_accessible_def Let_def)
qed

text \<open>
  What an address space does with an address: whether it is mapped, to which
  physical address, for user code, writable. \<open>user_ok\<close>: a leaf open to user code
  is not hidden by the levels above it.
\<close>

definition page_view :: "paging \<Rightarrow> nat \<Rightarrow> u64 \<Rightarrow> bool \<times> u64 \<times> bool \<times> bool" where
  "page_view st p v =
    (let pde = pde_of st p v; pte = pte_of st p v
     in if bit pde 0 \<and> bit pde 7 then (True, (pde AND ADDR_MASK) + (v AND 0x1FFFFF), bit pde 2, bit pde 1)
        else (bit pte 0, (pte AND ADDR_MASK) + (v AND 0xFFF), bit pte 2, bit pte 1))"

definition user_ok :: "paging \<Rightarrow> nat \<Rightarrow> bool" where
  "user_ok st p \<longleftrightarrow> (\<forall>v present a user write. page_view st p v = (present, a, user, write) \<and> present \<and> user \<longrightarrow>
     bit (pml4e_of st p v) 2 \<and> bit (pdpte_of st p v) 2 \<and> bit (pde_of st p v) 2)"

lemma translation_view:
  assumes "tree_ok st p" "page_view st p v = (present, a, user, write)"
  shows "get_physical_address_in_pml4 st p v = (if present then a else 0)"
    "user_ok st p \<Longrightarrow> is_user_accessible st p v w \<longleftrightarrow> present \<and> user \<and> (w \<longrightarrow> write)"
proof -
  show "get_physical_address_in_pml4 st p v = (if present then a else 0)"
    using assms(2) unfolding phys_view [OF assms(1)] by (auto simp: page_view_def Let_def split: if_splits)
  assume u: "user_ok st p"
  note walk = walk_entries(3,5,7) [OF assms(1), of v]
  show "is_user_accessible st p v w \<longleftrightarrow> present \<and> user \<and> (w \<longrightarrow> write)"
  proof (cases "present \<and> user")
    case True
    then have "bit (pml4e_of st p v) 2" "bit (pdpte_of st p v) 2" "bit (pde_of st p v) 2"
      using u assms(2) unfolding user_ok_def by blast+
    moreover have pde: "bit (pde_of st p v) 0"
      by (rule ccontr) (use True assms(2) walk in \<open>auto simp: page_view_def Let_def split: if_splits\<close>)
    then have pdpte: "bit (pdpte_of st p v) 0" by (rule contrapos_pp) (simp add: walk)
    then have "bit (pml4e_of st p v) 0" by (rule contrapos_pp) (simp add: walk)
    ultimately show ?thesis
      using True assms(2) pde pdpte unfolding user_view [OF assms(1)] by (auto simp: page_view_def Let_def split: if_splits)
  next
    case False
    then show ?thesis
      using assms(2) unfolding user_view [OF assms(1)] by (auto simp: page_view_def Let_def split: if_splits)
  qed
qed

text \<open>Steps that add tables and open upper levels but leave every page as it is.\<close>

definition keeps_pages :: "paging \<Rightarrow> nat \<Rightarrow> paging \<Rightarrow> bool" where
  "keeps_pages st p st' \<longleftrightarrow> tree_ok st' p \<and>
     (\<forall>r a. valid_path r \<and> table_at (tables st) p r = Some a \<longrightarrow> table_at (tables st') p r = Some a) \<and>
     (\<forall>r j. valid_path (r @ [j]) \<and> bit (entry_at (tables st) p r j) 2 \<longrightarrow> bit (entry_at (tables st') p r j) 2) \<and>
     (\<forall>v. page_view st' p v = page_view st p v)"

lemma keeps_pages_refl: "tree_ok st p \<Longrightarrow> keeps_pages st p st"
  by (simp add: keeps_pages_def)

lemma keeps_pages_trans: "keeps_pages st p st1 \<Longrightarrow> keeps_pages st1 p st2 \<Longrightarrow> keeps_pages st p st2"
  by (simp add: keeps_pages_def)

lemma page_view_upper:
  assumes q: "length q \<le> 2" and same: "\<And>r j. valid_path r \<Longrightarrow> j < 512 \<Longrightarrow> (r, j) \<noteq> (q, i) \<Longrightarrow> entry_at T' p r j = entry_at (tables st) p r j"
    and nh: "length q = 2 \<Longrightarrow> \<not> (bit (entry_at (tables st) p q i) 0 \<and> bit (entry_at (tables st) p q i) 7) \<and> \<not> bit (entry_at T' p q i) 7"
    and T': "T' = tables st'"
  shows "page_view st' p v = page_view st p v"
proof -
  have vp: "valid_path [PML4_INDEX v, PDPT_INDEX v]" "valid_path [PML4_INDEX v, PDPT_INDEX v, PD_INDEX v]" by (simp_all add: valid_path_def)
  have "q \<noteq> [PML4_INDEX v, PDPT_INDEX v, PD_INDEX v]" using q by auto
  then have pte: "pte_of st' p v = pte_of st p v" using same [OF vp(2), of "PT_INDEX v"] by (auto simp: T')
  show ?thesis
  proof (cases "([PML4_INDEX v, PDPT_INDEX v], PD_INDEX v) = (q, i)")
    case True
    then have "\<not> (bit (pde_of st p v) 0 \<and> bit (pde_of st p v) 7)" "\<not> bit (pde_of st' p v) 7" using nh by (auto simp: T')
    then show ?thesis by (auto simp: page_view_def pte Let_def)
  next
    case False
    then have "pde_of st' p v = pde_of st p v" using same [OF vp(1), of "PD_INDEX v"] by (simp add: T')
    then show ?thesis by (simp add: page_view_def pte)
  qed
qed

lemma shape_user:
  assumes "shape n e"
  shows "shape n (e OR PAGE_USER)"
proof -
  have b: "bit (e OR PAGE_USER) k = bit e k" if "k \<noteq> 2" for k using that by (simp add: bit_or_iff bit_flags)
  have k: "bit (e OR PAGE_USER) k = bit e k" if "12 \<le> k \<and> k < 21" for k by (rule b) (use that in linarith)
  have "bit (e OR PAGE_USER) 0 = bit e 0" "bit (e OR PAGE_USER) 7 = bit e 7" by (rule b, linarith)+
  then show ?thesis using assms k unfolding shape_def by blast
qed

text \<open>The outcome of \<open>get_or_create_table\<close>: below \<open>(q, i)\<close> there is a table, open to user code.\<close>

definition table_ready :: "paging \<Rightarrow> nat \<Rightarrow> nat list \<Rightarrow> nat \<Rightarrow> nat \<Rightarrow> paging \<Rightarrow> bool" where
  "table_ready st p q i b st' \<longleftrightarrow> keeps_pages st p st' \<and> table_at (tables st') p (q @ [i]) = Some b \<and>
     bit (entry_at (tables st') p q i) 2 \<and> \<not> bit (entry_at (tables st') p q i) 7 \<and>
     (\<forall>r j. valid_path r \<and> j < 512 \<and> (r, j) \<noteq> (q, i) \<longrightarrow> entry_at (tables st') p r j = entry_at (tables st) p r j)"

lemma table_readyI:
  assumes q: "valid_path (q @ [i])" and nh: "\<not> (bit (entry_at (tables st) p q i) 0 \<and> bit (entry_at (tables st) p q i) 7)"
    and tree: "tree_ok st' p" and e: "bit e 2" "\<not> bit e 7"
    and tab: "\<And>r. valid_path r \<Longrightarrow> table_at (tables st') p r = (if r = q @ [i] then Some b else table_at (tables st) p r)"
    and old: "table_at (tables st) p (q @ [i]) = None \<or> table_at (tables st) p (q @ [i]) = Some b"
    and ents: "\<And>r j. valid_path r \<Longrightarrow> j < 512 \<Longrightarrow> entry_at (tables st') p r j = (if (r, j) = (q, i) then e else entry_at (tables st) p r j)"
  shows "table_ready st p q i b st'"
proof -
  have vq: "valid_path q" "length q \<le> 2" "i < 512" using q by (auto simp: valid_path_snoc)
  have same: "entry_at (tables st') p r j = entry_at (tables st) p r j" if "valid_path r" "j < 512" "(r, j) \<noteq> (q, i)" for r j
    using ents [OF that(1,2)] that(3) by auto
  have at: "entry_at (tables st') p q i = e" using ents [OF vq(1,3)] by simp
  have "page_view st' p v = page_view st p v" for v
    by (rule page_view_upper [where i = i and T' = "tables st'", OF vq(2) same]) (use nh e(2) in \<open>simp_all only: at\<close>, auto)
  moreover have "table_at (tables st') p r = Some c" if "valid_path r" "table_at (tables st) p r = Some c" for r c
    using tab [OF that(1)] that(2) old by auto
  moreover have "bit (entry_at (tables st') p r j) 2" if "valid_path (r @ [j])" "bit (entry_at (tables st) p r j) 2" for r j
    using ents [of r j] that e(1) by (simp add: valid_path_snoc split: if_splits)
  ultimately have "keeps_pages st p st'" using tree by (simp add: keeps_pages_def)
  then show ?thesis using tab [OF q] same at e by (simp add: table_ready_def)
qed

lemma get_or_create_ok:
  assumes ok: "tree_ok st p" and q: "valid_path (q @ [i])" "table_at (tables st) p q = Some a"
    and nh: "length q = 2 \<Longrightarrow> \<not> (bit (tables st a i) 0 \<and> bit (tables st a i) 7)"
    and g: "get_or_create_table st a i True = (res, st')"
  shows "case res of None \<Rightarrow> keeps_pages st p st' | Some b \<Rightarrow> table_ready st p q i b st'"
proof -
  let ?T = "tables st" and ?e = "tables st a i"
  have vq: "valid_path q" "length q \<le> 2" "i < 512" using q(1) by (auto simp: valid_path_snoc)
  have ent: "entry_at ?T p q i = ?e" by (simp add: entry_at_def q(2))
  have sh: "shape (length q) ?e" using tree_okD(6) [OF ok vq(1,3)] by (simp add: ent)
  then have nh': "\<not> (bit ?e 0 \<and> bit ?e 7)" using nh vq(2) by (cases "length q = 2") (auto simp: shape_def)
  then have nh'': "\<not> (bit (entry_at ?T p q i) 0 \<and> bit (entry_at ?T p q i) 7)" by (simp add: ent)
  show ?thesis
  proof (cases "bit ?e 0")
    case True
    have nt: "next_table (?e OR PAGE_USER) = next_table ?e" "next_table ?e = Some (entry_table ?e)"
      using True nh' by (auto simp: next_table_def bit_simps bit_flags)
    note u = set_entry_ok [OF ok vq(1) q(2) vq(3) disjI2 [OF nt(1)] shape_user [OF sh]]
    have old: "table_at ?T p (q @ [i]) = Some (entry_table ?e)" by (simp add: table_at_snoc q(2) nt(2))
    have st': "st' = set_entry st a i (?e OR PAGE_USER)" "res = Some (entry_table ?e)"
      using g True by (simp_all add: get_or_create_table_def Let_def)
    have e: "bit (?e OR PAGE_USER) 2" "\<not> bit (?e OR PAGE_USER) 7" using True nh' by (simp_all add: bit_simps bit_flags)
    have tab: "table_at (tables st') p r = (if r = q @ [i] then Some (entry_table ?e) else table_at ?T p r)" if "valid_path r" for r
      using u(2) [OF that] old by (simp add: st'(1))
    have ents: "entry_at (tables st') p r j = (if (r, j) = (q, i) then ?e OR PAGE_USER else entry_at ?T p r j)" if "valid_path r" for r j
      using u(3) [OF that] by (simp add: st'(1))
    have "tree_ok st' p" using u(1) st'(1) by simp
    from table_readyI [OF q(1) nh'' this e tab disjI2 [OF old] ents] show ?thesis by (simp add: st'(2))
  next
    case False
    obtain b st1 where al: "table_alloc st = (b, st1)" by fastforce
    show ?thesis
    proof (cases "b = 0")
      case True
      then have "res = None" "st' = st" using g False al table_alloc_ok [OF ok al] by (auto simp: get_or_create_table_def)
      then show ?thesis using keeps_pages_refl [OF ok] by simp
    next
      case b: False
      let ?new = "paddr_to_entry (of_nat b) (PAGE_PRESENT OR PAGE_WRITE OR PAGE_USER)"
      have pb: "page_addr b" "tables st1 = ?T" using table_alloc_ok [OF ok al] b by auto
      have bits: "bit ?new 0" "bit ?new 2" "\<not> bit ?new 7" by (simp_all add: bit_paddr_to_entry bit_simps bit_flags)
      have nt: "next_table ?e = None" "next_table ?new = Some b" using False bits pb(1) by (simp_all add: next_table_def)
      have old: "table_at ?T p (q @ [i]) = None" by (simp add: table_at_snoc q(2) nt(1))
      have st': "tables st' = (?T(a := (?T a)(i := ?new)))(b := (\<lambda>j. if j < 512 then 0 else ?T b j))" "shared st' = shared st1" "res = Some b"
        using g False al b pb(2) tree_okD(5) [OF ok vq(1) q(2)] table_alloc_ok [OF ok al]
        by (auto simp: get_or_create_table_def set_table_def set_entry_def fun_eq_iff)
      have z: "next_table 0 = None" "shape n 0" for n by (simp_all add: next_table_def shape_def)
      have "shape (length q) ?new" using bits by (simp add: shape_def)
      then have u: "tree_ok st' p" "\<And>r. valid_path r \<Longrightarrow> table_at (tables st') p r = (if r = q @ [i] then Some b else table_at ?T p r)"
        "\<And>r j. valid_path r \<Longrightarrow> j < 512 \<Longrightarrow> entry_at (tables st') p r j =
           (if r = q \<and> j = i then ?new else if r = q @ [i] then 0 else entry_at ?T p r j)"
        using insert_table_ok [OF ok al b q nt _ _ _ st'(1,2)] z by simp_all
      have ents: "entry_at (tables st') p r j = (if (r, j) = (q, i) then ?new else entry_at ?T p r j)" if "valid_path r" "j < 512" for r j
        using u(3) [OF that] old by (simp add: entry_at_def)
      from table_readyI [OF q(1) nh'' u(1) bits(2,3) u(2) disjI1 [OF old] ents] show ?thesis by (simp add: st'(3))
    qed
  qed
qed

subsection \<open>Splitting a 2 MB page\<close>

lemma bit_0x1FFFFF: "bit (0x1FFFFF :: int) n \<longleftrightarrow> n < 21"
proof -
  have eq: "(0x1FFFFF :: int) = mask 21" by (simp add: mask_eq_exp_minus_1)
  show ?thesis unfolding eq by (simp add: bit_mask_iff)
qed

lemma page_in_huge:
  fixes v :: u64
  shows "bit (of_nat (PT_INDEX v) * 4096 :: u64) n \<longleftrightarrow> 12 \<le> n \<and> n < 21 \<and> bit v n"
    "v AND 0x1FFFFF = of_nat (PT_INDEX v) * 4096 + (v AND 0xFFF)"
proof -
  have m: "drop_bit 12 v AND 0x1FF = take_bit 9 (drop_bit 12 v)" by (simp add: take_bit_eq_mask mask_eq_exp_minus_1)
  have eq: "of_nat (PT_INDEX v) * 4096 = push_bit 12 (take_bit 9 (drop_bit 12 v))"
    unfolding PT_INDEX_def m by (simp add: push_bit_eq_mult)
  show b: "bit (of_nat (PT_INDEX v) * 4096 :: u64) n \<longleftrightarrow> 12 \<le> n \<and> n < 21 \<and> bit v n" for n
  proof -
    have "bit v n \<Longrightarrow> n < 64" using bit_imp_le_length [of v n] by simp
    then show ?thesis unfolding eq bit_push_bit_iff bit_take_bit_iff bit_drop_bit_eq by auto
  qed
  have "of_nat (PT_INDEX v) * 4096 + (v AND 0xFFF) = of_nat (PT_INDEX v) * 4096 OR (v AND 0xFFF)"
    by (rule disjunctive_add) (auto simp: b bit_and_iff bit_numeral_word_iff bit_0xFFF)
  moreover have "v AND 0x1FFFFF = of_nat (PT_INDEX v) * 4096 OR (v AND 0xFFF)"
    by (rule bit_word_eqI) (auto simp: b bit_and_iff bit_or_iff bit_numeral_word_iff bit_0xFFF bit_0x1FFFFF)
  ultimately show "v AND 0x1FFFFF = of_nat (PT_INDEX v) * 4096 + (v AND 0xFFF)" by simp
qed

lemma split_address:
  assumes "\<forall>k. 12 \<le> k \<and> k < 21 \<longrightarrow> \<not> bit e k"
  shows "(((e AND ADDR_MASK) + of_nat (PT_INDEX v) * 4096) AND ADDR_MASK) + (v AND 0xFFF) = (e AND ADDR_MASK) + (v AND 0x1FFFFF)"
proof -
  have "(e AND ADDR_MASK) + of_nat (PT_INDEX v) * 4096 = (e AND ADDR_MASK) OR of_nat (PT_INDEX v) * 4096"
    by (rule disjunctive_add) (use assms in \<open>auto simp: page_in_huge(1) bit_and_iff\<close>)
  moreover have "((e AND ADDR_MASK) OR of_nat (PT_INDEX v) * 4096) AND ADDR_MASK = (e AND ADDR_MASK) OR of_nat (PT_INDEX v) * 4096"
    by (rule bit_word_eqI) (auto simp: page_in_huge(1) bit_and_iff bit_or_iff bit_ADDR_MASK)
  ultimately have "((e AND ADDR_MASK) + of_nat (PT_INDEX v) * 4096) AND ADDR_MASK = (e AND ADDR_MASK) + of_nat (PT_INDEX v) * 4096"
    by simp
  then show ?thesis by (simp add: page_in_huge(2) add.assoc)
qed

lemma page_view_split:
  assumes q: "valid_path (q @ [i])" "length q = 2"
    and e: "entry_at (tables st) p q i = e" "bit e 0" "bit e 7" "\<forall>k. 12 \<le> k \<and> k < 21 \<longrightarrow> \<not> bit e k" and e': "\<not> bit e' 7"
    and f: "\<And>j. f j AND ADDR_MASK = ((e AND ADDR_MASK) + of_nat j * 4096) AND ADDR_MASK"
      "\<And>j. bit (f j) 0" "\<And>j. bit (f j) 1 = bit e 1" "\<And>j. bit (f j) 2 = bit e 2"
    and ents: "\<And>r j. valid_path r \<Longrightarrow> j < 512 \<Longrightarrow> entry_at (tables st') p r j =
      (if r = q \<and> j = i then e' else if r = q @ [i] then f j else entry_at (tables st) p r j)"
  shows "page_view st' p v = page_view st p v"
proof -
  let ?q = "[PML4_INDEX v, PDPT_INDEX v]"
  have vp: "valid_path ?q" "valid_path (?q @ [PD_INDEX v])" by (simp_all add: valid_path_def)
  have pde: "pde_of st' p v = (if ?q = q \<and> PD_INDEX v = i then e' else pde_of st p v)"
    using ents [OF vp(1), of "PD_INDEX v"] q(2) by auto
  have "?q @ [PD_INDEX v] \<noteq> q" using q(2) by auto
  then have pte: "pte_of st' p v = (if ?q = q \<and> PD_INDEX v = i then f (PT_INDEX v) else pte_of st p v)"
    using ents [OF vp(2), of "PT_INDEX v"] q(2) by (auto simp: append_eq_Cons_conv)
  show ?thesis
  proof (cases "?q = q \<and> PD_INDEX v = i")
    case True
    then have old: "pde_of st p v = e" using e(1) by auto
    have new: "pde_of st' p v = e'" "pte_of st' p v = f (PT_INDEX v)" using pde pte True by simp_all
    show ?thesis
      unfolding page_view_def Let_def old new using e(2,3) e' f(2,3,4) [of "PT_INDEX v"] split_address [OF e(4), of v]
      by (simp only: f(1)) simp
  next
    case False
    then have "pde_of st' p v = pde_of st p v" "pte_of st' p v = pte_of st p v" using pde pte by auto
    then show ?thesis by (simp only: page_view_def)
  qed
qed

lemma split_huge_ok:
  assumes ok: "tree_ok st p" and q: "valid_path (q @ [i])" "length q = 2" "table_at (tables st) p q = Some a"
    and s: "split_huge st a i = (fine, st')"
  shows "keeps_pages st p st'" "fine \<Longrightarrow> \<not> (bit (tables st' a i) 0 \<and> bit (tables st' a i) 7)"
proof -
  let ?T = "tables st" and ?e = "tables st a i"
  have vq: "valid_path q" "i < 512" using q(1) by (auto simp: valid_path_snoc)
  have ent: "entry_at ?T p q i = ?e" by (simp add: entry_at_def q(3))
  obtain b st1 where al: "table_alloc st = (b, st1)" by fastforce
  note alloc = table_alloc_ok [OF ok al]
  have "keeps_pages st p st' \<and> (fine \<longrightarrow> \<not> (bit (tables st' a i) 0 \<and> bit (tables st' a i) 7))"
  proof (cases "bit ?e 0 \<and> bit ?e 7 \<and> b \<noteq> 0")
    case False
    then have "st' = st \<and> (fine \<longrightarrow> \<not> (bit ?e 0 \<and> bit ?e 7))"
      using s al alloc by (auto simp: split_huge_def Let_def split: if_splits)
    then show ?thesis using keeps_pages_refl [OF ok] by auto
  next
    case True
    define pf where "pf = (?e AND 0xFFF) AND NOT PAGE_HUGE"
    define e' where "e' = paddr_to_entry (of_nat b) pf"
    define f where "f j = paddr_to_entry ((?e AND ADDR_MASK) + of_nat j * 4096) (pf OR PAGE_IDENTITY_SHARED)" for j
    have pb: "page_addr b" "tables st1 = ?T" "b \<noteq> a" using alloc True tree_okD(5) [OF ok vq(1) q(3)] by auto
    have bits: "bit e' 0" "\<not> bit e' 7" "bit e' 2 = bit ?e 2" "\<And>j. bit (f j) 0" "\<And>j. \<not> bit (f j) 7"
      "\<And>j. bit (f j) 1 = bit ?e 1" "\<And>j. bit (f j) 2 = bit ?e 2"
      using True by (simp_all add: e'_def f_def pf_def bit_paddr_to_entry bit_simps bit_flags bit_0xFFF)
    have nt: "next_table ?e = None" "next_table e' = Some b" using True bits pb(1) by (simp_all add: next_table_def e'_def)
    have sh: "shape (length q) e'" "\<forall>j<512. shape (length q + 1) (f j)" using bits by (simp_all add: shape_def)
    have al4: "\<forall>k. 12 \<le> k \<and> k < 21 \<longrightarrow> \<not> bit ?e k"
      using tree_okD(6) [OF ok vq] True q(2) unfolding ent shape_def by blast
    have st'_eq: "st' = set_entry (set_table st1 b f) a i e'" "fine"
      using s True al unfolding split_huge_def Let_def has_flags pf_def [symmetric] e'_def f_def [abs_def] by simp_all
    have st': "tables st' = (?T(a := (?T a)(i := e')))(b := (\<lambda>j. if j < 512 then f j else ?T b j))" "shared st' = shared st1"
      using pb(2,3) unfolding st'_eq by (simp_all add: set_table_def set_entry_def fun_eq_iff)
    note u = insert_table_ok [OF ok al _ q(1,3) nt sh(1) disjI1 [OF q(2)] sh(2) st']
    have b0: "b \<noteq> 0" using True by simp
    have "page_view st' p v = page_view st p v" for v
      by (rule page_view_split [OF q(1,2) ent _ _ al4 bits(2) _ bits(4,6,7) u(3)]) (use True b0 in \<open>simp_all add: f_def\<close>)
    moreover have "table_at (tables st') p r = Some c" if "valid_path r" "table_at ?T p r = Some c" for r c
      using u(2) [OF b0 that(1)] that(2) nt(1) q(3) by (auto simp: table_at_snoc)
    moreover have "bit (entry_at (tables st') p r j) 2" if "valid_path (r @ [j])" "bit (entry_at ?T p r j) 2" for r j
      using u(3) [OF b0, of r j] that q(2) bits(3) ent by (auto simp: valid_path_snoc)
    moreover have "tables st' a i = e'" using pb(3) by (simp add: st'(1))
    ultimately show ?thesis using u(1) [OF b0] bits(2) by (simp add: keeps_pages_def)
  qed
  then show "keeps_pages st p st'" "fine \<Longrightarrow> \<not> (bit (tables st' a i) 0 \<and> bit (tables st' a i) 7)" by auto
qed

subsection \<open>Mapping a page\<close>

definition same_page :: "u64 \<Rightarrow> u64 \<Rightarrow> bool" where
  "same_page w v \<longleftrightarrow> PML4_INDEX w = PML4_INDEX v \<and> PDPT_INDEX w = PDPT_INDEX v \<and> PD_INDEX w = PD_INDEX v \<and> PT_INDEX w = PT_INDEX v"

definition mapped :: "paging \<Rightarrow> nat \<Rightarrow> u64 \<Rightarrow> u64 \<Rightarrow> u64 \<Rightarrow> paging \<Rightarrow> bool" where
  "mapped st p v phys flags st' \<longleftrightarrow> tree_ok st' p \<and>
     (\<forall>r j. valid_path (r @ [j]) \<and> bit (entry_at (tables st) p r j) 2 \<longrightarrow> bit (entry_at (tables st') p r j) 2) \<and>
     bit (pml4e_of st' p v) 2 \<and> bit (pdpte_of st' p v) 2 \<and> bit (pde_of st' p v) 2 \<and>
     (\<forall>w. page_view st' p w =
        (if same_page w v then (True, (phys AND ADDR_MASK) + (w AND 0xFFF), bit flags 2, bit flags 1) else page_view st p w))"

lemma set_leaf_ok:
  assumes ok: "tree_ok st p" and t: "table_at (tables st) p [PML4_INDEX v, PDPT_INDEX v, PD_INDEX v] = Some a"
    and pde: "\<not> bit (pde_of st p v) 7"
    and up: "bit (pml4e_of st p v) 2" "bit (pdpte_of st p v) 2" "bit (pde_of st p v) 2"
  shows "mapped st p v phys flags (set_entry st a (PT_INDEX v) ((phys AND ADDR_MASK) OR (flags AND 0xFFF) OR PAGE_PRESENT))"
proof -
  let ?q = "[PML4_INDEX v, PDPT_INDEX v, PD_INDEX v]" and ?e = "(phys AND ADDR_MASK) OR (flags AND 0xFFF) OR PAGE_PRESENT"
  let ?st = "set_entry st a (PT_INDEX v) ?e"
  have q: "valid_path ?q" "length ?q = 3" "shape (length ?q) ?e" by (simp_all add: valid_path_def shape_def)
  note u = set_entry_ok [OF ok q(1) t indices(4) disjI1 [OF q(2)] q(3)]
  have bits: "bit ?e 0" "bit ?e 1 = bit flags 1" "bit ?e 2 = bit flags 2"
    by (simp_all add: bit_simps bit_flags bit_ADDR_MASK bit_0xFFF)
  have short: "entry_at (tables ?st) p r j = entry_at (tables st) p r j" if "valid_path r" "length r < 3" for r j
    using u(3) [OF that(1)] that(2) by auto
  have up': "pml4e_of ?st p w = pml4e_of st p w" "pdpte_of ?st p w = pdpte_of st p w" "pde_of ?st p w = pde_of st p w" for w
    by (rule short; simp add: valid_path_def)+
  have "valid_path [PML4_INDEX w, PDPT_INDEX w, PD_INDEX w]" for w by (simp add: valid_path_def)
  from u(3) [OF this] have pte: "pte_of ?st p w = (if same_page w v then ?e else pte_of st p w)" for w
    by (auto simp: same_page_def)
  have "page_view ?st p w = (if same_page w v then (True, (phys AND ADDR_MASK) + (w AND 0xFFF), bit flags 2, bit flags 1) else page_view st p w)" for w
  proof (cases "same_page w v")
    case True
    then have "\<not> bit (pde_of st p w) 7" using pde by (simp add: same_page_def)
    then show ?thesis unfolding page_view_def up' pte Let_def using True bits by (simp only: leaf_mask) simp
  next
    case False
    then show ?thesis unfolding page_view_def up' pte by simp
  qed
  then show ?thesis using u(1) up short unfolding mapped_def up' by (auto simp: valid_path_snoc)
qed

lemma keeps_mapped: "keeps_pages st p st1 \<Longrightarrow> mapped st1 p v phys flags st2 \<Longrightarrow> mapped st p v phys flags st2"
  by (simp add: keeps_pages_def mapped_def)

lemma keeps_pagesD:
  assumes "keeps_pages st p st'"
  shows "tree_ok st' p" "valid_path r \<Longrightarrow> table_at (tables st) p r = Some a \<Longrightarrow> table_at (tables st') p r = Some a"
    "valid_path (r @ [j]) \<Longrightarrow> bit (entry_at (tables st) p r j) 2 \<Longrightarrow> bit (entry_at (tables st') p r j) 2"
  using assms by (auto simp: keeps_pages_def)

text \<open>The second half, from the page directory down.\<close>

lemma map_page_low:
  assumes ok: "tree_ok st p" and t2: "table_at (tables st) p [PML4_INDEX v, PDPT_INDEX v] = Some t2"
    and up: "bit (pml4e_of st p v) 2" "bit (pdpte_of st p v) 2"
    and m: "(case split_huge st t2 (PD_INDEX v) of
        (False, st3) \<Rightarrow> (- 1, st3)
      | (True, st3) \<Rightarrow> (case get_or_create_table st3 t2 (PD_INDEX v) True of
           (None, st4) \<Rightarrow> (- 1, st4)
         | (Some pt_table, st4) \<Rightarrow> (0, set_entry st4 pt_table (PT_INDEX v) ((phys AND ADDR_MASK) OR (flags AND 0xFFF) OR PAGE_PRESENT)))) = (r :: int, st')"
  shows "r = 0 \<and> mapped st p v phys flags st' \<or> r = - 1 \<and> keeps_pages st p st'"
proof -
  let ?q = "[PML4_INDEX v, PDPT_INDEX v]"
  have vp: "valid_path ?q" "valid_path (?q @ [PD_INDEX v])" "valid_path ([] @ [PML4_INDEX v])" "valid_path ([PML4_INDEX v] @ [PDPT_INDEX v])"
    by (simp_all add: valid_path_def)
  obtain fine st3 where s: "split_huge st t2 (PD_INDEX v) = (fine, st3)" by fastforce
  note split = split_huge_ok [OF ok vp(2) _ t2 s, simplified]
  note ok3 = keeps_pagesD(1) [OF split(1)] and t3 = keeps_pagesD(2) [OF split(1) vp(1) t2]
  show ?thesis
  proof (cases fine)
    case False
    then show ?thesis using m s split(1) by simp
  next
    case True
    obtain r1 st4 where g: "get_or_create_table st3 t2 (PD_INDEX v) True = (r1, st4)" by fastforce
    have s4: "case r1 of None \<Rightarrow> keeps_pages st3 p st4 | Some b \<Rightarrow> table_ready st3 p ?q (PD_INDEX v) b st4"
      by (rule get_or_create_ok [OF ok3 vp(2) t3 _ g]) (use split(2) True in simp)
    show ?thesis
    proof (cases r1)
      case None
      then show ?thesis using m s True g s4 keeps_pages_trans [OF split(1)] by simp
    next
      case (Some b)
      then have tr: "table_ready st3 p ?q (PD_INDEX v) b st4" using s4 by simp
      then have k34: "keeps_pages st3 p st4" by (simp add: table_ready_def)
      note k4 = keeps_pages_trans [OF split(1) k34]
      have u4: "bit (pml4e_of st4 p v) 2" "bit (pdpte_of st4 p v) 2"
        using keeps_pagesD(3) [OF k4 vp(3)] keeps_pagesD(3) [OF k4 vp(4)] up by simp_all
      have "r = 0" "st' = set_entry st4 b (PT_INDEX v) ((phys AND ADDR_MASK) OR (flags AND 0xFFF) OR PAGE_PRESENT)"
        using m s True g Some by simp_all
      then have "mapped st4 p v phys flags st'"
        using set_leaf_ok [OF keeps_pagesD(1) [OF k4] _ _ u4, of b phys flags] tr by (simp add: table_ready_def)
      then show ?thesis using keeps_mapped [OF k4] m s True g Some by simp
    qed
  qed
qed

lemma map_page_ok:
  assumes ok: "tree_ok st p" and m: "map_page_in_pml4 st p v phys flags = (r, st')"
  shows "r = 0 \<and> mapped st p v phys flags st' \<or> r = - 1 \<and> keeps_pages st p st'"
proof -
  let ?i4 = "PML4_INDEX v" and ?i3 = "PDPT_INDEX v" and ?i2 = "PD_INDEX v"
  have vp: "valid_path ([] @ [?i4])" "valid_path ([?i4] @ [?i3])" "valid_path ([?i4, ?i3] @ [?i2])" by (simp_all add: valid_path_def)
  obtain r3 st1 where g1: "get_or_create_table st p ?i4 True = (r3, st1)" by fastforce
  have s1: "case r3 of None \<Rightarrow> keeps_pages st p st1 | Some b \<Rightarrow> table_ready st p [] ?i4 b st1"
    by (rule get_or_create_ok [OF ok vp(1) _ _ g1]) simp_all
  show ?thesis
  proof (cases r3)
    case None
    then show ?thesis using m g1 s1 root_visible [OF ok] by (simp add: map_page_in_pml4_def)
  next
    case (Some t3)
    then have t3: "table_ready st p [] ?i4 t3 st1" using s1 by simp
    then have k1: "keeps_pages st p st1" and ok1: "tree_ok st1 p" by (auto simp: table_ready_def keeps_pages_def)
    obtain r2 st2 where g2: "get_or_create_table st1 t3 ?i3 True = (r2, st2)" by fastforce
    have s2: "case r2 of None \<Rightarrow> keeps_pages st1 p st2 | Some b \<Rightarrow> table_ready st1 p [?i4] ?i3 b st2"
      by (rule get_or_create_ok [OF ok1 vp(2) _ _ g2]) (use t3 in \<open>simp_all add: table_ready_def\<close>)
    show ?thesis
    proof (cases r2)
      case None
      then show ?thesis using m g1 Some g2 s2 keeps_pages_trans [OF k1] root_visible [OF ok] by (simp add: map_page_in_pml4_def)
    next
      case t: (Some t2)
      then have t2: "table_ready st1 p [?i4] ?i3 t2 st2" using s2 by simp
      then have k12: "keeps_pages st1 p st2" by (simp add: table_ready_def)
      note k2 = keeps_pages_trans [OF k1 k12]
      have "bit (pml4e_of st1 p v) 2" using t3 by (simp add: table_ready_def)
      then have u2: "bit (pml4e_of st2 p v) 2" using keeps_pagesD(3) [OF k12 vp(1)] by simp
      have tab: "table_at (tables st2) p [?i4, ?i3] = Some t2" "bit (pdpte_of st2 p v) 2" using t2 by (simp_all add: table_ready_def)
      from map_page_low [OF keeps_pagesD(1) [OF k2] tab(1) u2 tab(2), of phys flags r st'] show ?thesis
        using m g1 Some g2 t root_visible [OF ok] keeps_pages_trans [OF k2] keeps_mapped [OF k2] by (auto simp: map_page_in_pml4_def)
    qed
  qed
qed

lemma mapped_user_ok:
  assumes u: "user_ok st p" and m: "mapped st p v phys flags st'"
  shows "user_ok st' p"
  unfolding user_ok_def
proof (intro allI impI)
  fix w present a user wr
  assume w: "page_view st' p w = (present, a, user, wr) \<and> present \<and> user"
  have up: "bit (pml4e_of st' p v) 2" "bit (pdpte_of st' p v) 2" "bit (pde_of st' p v) 2" using m by (simp_all add: mapped_def)
  have mono: "bit (entry_at (tables st') p r j) 2" if "valid_path (r @ [j])" "bit (entry_at (tables st) p r j) 2" for r j
    using m that by (auto simp: mapped_def)
  show "bit (pml4e_of st' p w) 2 \<and> bit (pdpte_of st' p w) 2 \<and> bit (pde_of st' p w) 2"
  proof (cases "same_page w v")
    case True
    then show ?thesis using up by (simp add: same_page_def)
  next
    case False
    then have "page_view st p w = (present, a, user, wr)" using m w by (simp add: mapped_def)
    then have "bit (pml4e_of st p w) 2" "bit (pdpte_of st p w) 2" "bit (pde_of st p w) 2"
      using u w unfolding user_ok_def by blast+
    then show ?thesis
      using mono [of "[]" "PML4_INDEX w"] mono [of "[PML4_INDEX w]" "PDPT_INDEX w"] mono [of "[PML4_INDEX w, PDPT_INDEX w]" "PD_INDEX w"]
      by (simp add: valid_path_def)
  qed
qed

lemma keeps_user_ok:
  assumes u: "user_ok st p" and k: "keeps_pages st p st'"
  shows "user_ok st' p"
  unfolding user_ok_def
proof (intro allI impI)
  fix w present a user wr
  assume w: "page_view st' p w = (present, a, user, wr) \<and> present \<and> user"
  then have "page_view st p w = (present, a, user, wr)" using k by (simp add: keeps_pages_def)
  then have "bit (pml4e_of st p w) 2" "bit (pdpte_of st p w) 2" "bit (pde_of st p w) 2"
    using u w unfolding user_ok_def by blast+
  then show "bit (pml4e_of st' p w) 2 \<and> bit (pdpte_of st' p w) 2 \<and> bit (pde_of st' p w) 2"
    using keeps_pagesD(3) [OF k, of "[]" "PML4_INDEX w"] keeps_pagesD(3) [OF k, of "[PML4_INDEX w]" "PDPT_INDEX w"]
      keeps_pagesD(3) [OF k, of "[PML4_INDEX w, PDPT_INDEX w]" "PD_INDEX w"]
    by (simp add: valid_path_def)
qed

text \<open>C28: Mapping a page in a well-formed address space maps exactly that page. When \<open>map_page_in_pml4\<close>
  returns 0, every address of the 4 KB page translates into the given frame and is open to user code and to user
  writes exactly as the flags say. Every other address keeps its translation and its access rights,
  although the code may have split the 2 MB page around it and opens the upper levels to user code on its way; when it
  returns -1, all addresses do. The address space stays well formed.\<close>

theorem map_page_exact:
  assumes "tree_ok st p" "user_ok st p" "map_page_in_pml4 st p v phys flags = (r, st')"
  shows "tree_ok st' p \<and> user_ok st' p \<and> (r = 0 \<or> r = - 1) \<and> (\<forall>w need_write.
    get_physical_address_in_pml4 st' p w =
      (if r = 0 \<and> same_page w v then (phys AND ADDR_MASK) + (w AND 0xFFF) else get_physical_address_in_pml4 st p w) \<and>
    is_user_accessible st' p w need_write =
      (if r = 0 \<and> same_page w v then has flags PAGE_USER \<and> (need_write \<longrightarrow> has flags PAGE_WRITE)
       else is_user_accessible st p w need_write))"
proof -
  have cases: "r = 0 \<and> mapped st p v phys flags st' \<or> r = - 1 \<and> keeps_pages st p st'" by (rule map_page_ok [OF assms(1,3)])
  then have ok: "tree_ok st' p" "user_ok st' p"
    using mapped_user_ok [OF assms(2)] keeps_user_ok [OF assms(2)] by (auto simp: mapped_def keeps_pages_def)
  have view: "page_view st' p w = (if r = 0 \<and> same_page w v then (True, (phys AND ADDR_MASK) + (w AND 0xFFF), bit flags 2, bit flags 1)
      else page_view st p w)" for w
    using cases by (auto simp: mapped_def keeps_pages_def)
  have "get_physical_address_in_pml4 st' p w =
      (if r = 0 \<and> same_page w v then (phys AND ADDR_MASK) + (w AND 0xFFF) else get_physical_address_in_pml4 st p w) \<and>
    is_user_accessible st' p w need_write =
      (if r = 0 \<and> same_page w v then has flags PAGE_USER \<and> (need_write \<longrightarrow> has flags PAGE_WRITE)
       else is_user_accessible st p w need_write)" for w need_write
  proof (cases "r = 0 \<and> same_page w v")
    case True
    then show ?thesis using view [of w] translation_view [OF ok(1) _] ok(2) by simp
  next
    case False
    obtain present a user wr where "page_view st p w = (present, a, user, wr)" by (metis prod_cases4)
    moreover from this have "page_view st' p w = (present, a, user, wr)" using view [of w] False by simp
    ultimately show ?thesis
      unfolding if_not_P [OF False] using translation_view [OF ok(1)] translation_view [OF assms(1)] assms(2) ok(2) by simp
  qed
  then show ?thesis using ok cases by blast
qed

text \<open>A small address space: one 2 MB page at address 0, with its tables in the first pages.\<close>

definition demo_tables :: "nat \<Rightarrow> nat \<Rightarrow> u64" where
  "demo_tables t i = (if i \<noteq> 0 then 0 else if t = 0x1000 then 0x2003 else if t = 0x2000 then 0x3003 else if t = 0x3000 then 0x83 else 0)"

definition demo_frames :: pmm where
  "demo_frames = \<lparr>pmm_bitmap = (\<lambda>_. 0), total_pages = 600, used_pages = 0, next_free_page = 512\<rparr>"

definition demo_space :: paging where
  "demo_space = \<lparr>tables = demo_tables, shared = \<lparr>g_regions = replicate 16 no_region, frames = demo_frames\<rparr>,
     kernel_pml4 = 0x1000, kernel_pdpt = 0x2000, cr3 = 0x1000, mmio_next_free = KERNEL_MMIO_BASE\<rparr>"

lemma demo_next:
  "next_table (demo_tables 0x1000 i) = (if i = 0 then Some 0x2000 else None)"
  "next_table (demo_tables 0x2000 i) = (if i = 0 then Some 0x3000 else None)"
  "next_table (demo_tables 0x3000 i) = None"
proof -
  have "next_table 0x2003 = Some 0x2000" "next_table 0x3003 = Some 0x3000" "next_table 0x83 = None" "next_table 0 = None"
    by (simp_all add: next_table_def entry_table_def ADDR_MASK_def)
  then show "next_table (demo_tables 0x1000 i) = (if i = 0 then Some 0x2000 else None)"
    "next_table (demo_tables 0x2000 i) = (if i = 0 then Some 0x3000 else None)" "next_table (demo_tables 0x3000 i) = None"
    by (simp_all add: demo_tables_def)
qed

lemma demo_table_at:
  "table_at demo_tables 0x1000 r = Some a \<longleftrightarrow> r = [] \<and> a = 0x1000 \<or> r = [0] \<and> a = 0x2000 \<or> r = [0, 0] \<and> a = 0x3000"
proof -
  have 3: "table_at demo_tables 0x3000 r = Some a \<longleftrightarrow> r = [] \<and> a = 0x3000" for r a by (cases r) (auto simp: demo_next)
  have 2: "table_at demo_tables 0x2000 r = Some a \<longleftrightarrow> r = [] \<and> a = 0x2000 \<or> r = [0] \<and> a = 0x3000" for r a
    by (cases r) (auto simp: demo_next 3)
  show ?thesis by (cases r) (auto simp: demo_next 2)
qed

lemma demo_entry:
  "entry_at demo_tables 0x1000 q i = (if i \<noteq> 0 then 0 else if q = [] then 0x2003 else if q = [0] then 0x3003 else if q = [0, 0] then 0x83 else 0)"
proof (cases "table_at demo_tables 0x1000 q")
  case None
  moreover from this have "q \<noteq> []" "q \<noteq> [0]" "q \<noteq> [0, 0]" by (auto simp: demo_next)
  ultimately show ?thesis by (simp add: entry_at_def)
next
  case (Some a)
  then show ?thesis using demo_table_at [of q a] by (auto simp: entry_at_def demo_tables_def)
qed

lemma demo_space_ok: "tree_ok demo_space 0x1000" "user_ok demo_space 0x1000"
proof -
  have s: "tables demo_space = demo_tables" "frames (shared demo_space) = demo_frames" by (simp_all add: demo_space_def)
  have "used_set demo_frames = {}" by (simp add: used_set_def demo_frames_def bitmap_test_def)
  then have inv: "pmm_inv demo_frames" by (simp add: pmm_inv_def) (simp add: demo_frames_def)
  have low: "n \<notin> avail_pages demo_frames" if "n < 512" for n using that by (simp add: avail_pages_def allocatable_def)
  show "tree_ok demo_space 0x1000"
  proof (rule tree_okI, unfold s)
    show "tree_inj demo_tables 0x1000" by (auto simp: tree_inj_def demo_table_at)
    show "page_addr a \<and> a div 4096 \<notin> avail_pages demo_frames" if "table_at demo_tables 0x1000 q = Some a" for q a
      using that low by (auto simp: demo_table_at page_addr_def)
    show "shape (length q) (entry_at demo_tables 0x1000 q i)" if "valid_path q" for q i
    proof -
      have "\<not> bit (0x83 :: u64) k" if "12 \<le> k" for k
      proof -
        have "(0x83 :: u64) = take_bit 12 0x83" by simp
        then show ?thesis using that by (metis bit_take_bit_iff not_le)
      qed
      then show ?thesis by (auto simp: shape_def demo_entry)
    qed
  qed (use inv in \<open>simp_all add: demo_frames_def\<close>)
  show "user_ok demo_space 0x1000"
    unfolding user_ok_def page_view_def s Let_def demo_entry by (auto split: if_splits)
qed

theorem map_page_exact_witness:
  "tree_ok demo_space 0x1000 \<and> user_ok demo_space 0x1000 \<and>
   (case map_page_in_pml4 demo_space 0x1000 0x5000 0x240000 7 of (r, st') \<Rightarrow>
      get_physical_address_in_pml4 st' 0x1000 0x6123 = get_physical_address_in_pml4 demo_space 0x1000 0x6123 \<and>
      \<not> is_user_accessible st' 0x1000 0x6123 False \<and>
      (r = 0 \<longrightarrow> get_physical_address_in_pml4 st' 0x1000 0x5123 = 0x240123 \<and> is_user_accessible st' 0x1000 0x5123 True))"
proof -
  obtain r st' where m: "map_page_in_pml4 demo_space 0x1000 0x5000 0x240000 7 = (r, st')" by fastforce
  have same: "same_page 0x5123 0x5000" "\<not> same_page 0x6123 0x5000"
    by (simp_all add: same_page_def PML4_INDEX_def PDPT_INDEX_def PD_INDEX_def PT_INDEX_def)
  have "\<not> is_user_accessible demo_space 0x1000 0x6123 False"
    by (simp add: is_user_accessible_def demo_space_def demo_tables_def PML4_INDEX_def PDPT_INDEX_def PD_INDEX_def PT_INDEX_def Let_def)
  moreover have "((0x240000 :: u64) AND ADDR_MASK) + (0x5123 AND 0xFFF) = 0x240123" "has 7 PAGE_USER" "has 7 PAGE_WRITE"
    by (simp_all add: ADDR_MASK_def)
  ultimately show ?thesis using map_page_exact [OF demo_space_ok m] demo_space_ok m same by auto
qed

section \<open>Checking user pointers\<close>

lemma page_base: "(of_nat n :: u64) AND NOT 0xFFF = of_nat (n div 4096 * 4096)"
proof -
  have eq: "n div 4096 * 4096 = push_bit 12 (drop_bit 12 n)" by (simp add: push_bit_eq_mult drop_bit_eq_div)
  show ?thesis unfolding eq by (rule bit_word_eqI) (auto simp: bit_simps bit_0xFFF)
qed

lemma index_base:
  "PML4_INDEX (v AND NOT 0xFFF) = PML4_INDEX v" "PDPT_INDEX (v AND NOT 0xFFF) = PDPT_INDEX v"
  "PD_INDEX (v AND NOT 0xFFF) = PD_INDEX v" "PT_INDEX (v AND NOT 0xFFF) = PT_INDEX v"
proof -
  have d: "drop_bit k (v AND NOT 0xFFF) = drop_bit k v" if "12 \<le> k" for k
    by (rule bit_word_eqI) (use that in \<open>auto simp: bit_simps bit_0xFFF dest: bit_imp_le_length\<close>)
  have "drop_bit 39 (v AND NOT 0xFFF) = drop_bit 39 v" "drop_bit 30 (v AND NOT 0xFFF) = drop_bit 30 v"
    "drop_bit 21 (v AND NOT 0xFFF) = drop_bit 21 v" "drop_bit 12 (v AND NOT 0xFFF) = drop_bit 12 v" by (rule d, linarith)+
  then show "PML4_INDEX (v AND NOT 0xFFF) = PML4_INDEX v" "PDPT_INDEX (v AND NOT 0xFFF) = PDPT_INDEX v"
    "PD_INDEX (v AND NOT 0xFFF) = PD_INDEX v" "PT_INDEX (v AND NOT 0xFFF) = PT_INDEX v"
    unfolding PML4_INDEX_def PDPT_INDEX_def PD_INDEX_def PT_INDEX_def by (simp_all only:)
qed

lemma accessible_base: "is_user_accessible st p (v AND NOT 0xFFF) w = is_user_accessible st p v w"
  by (simp only: is_user_accessible_def index_base)

lemma accessible_page: "is_user_accessible st p (of_nat (n div 4096 * 4096)) w = is_user_accessible st p (of_nat n) w"
  using accessible_base [of st p "of_nat n" w] page_base [of n] by simp

lemma user_range_loop_total:
  assumes "(a + n) * 4096 < 2 ^ 64"
  shows "user_range_loop st p (of_nat (a * 4096)) (of_nat ((a + n) * 4096)) w =
    Some (\<forall>k \<le> n. is_user_accessible st p (of_nat ((a + k) * 4096)) w)"
  using assms
proof (induction n arbitrary: a)
  case 0
  then show ?case by (subst user_range_loop.simps) simp
next
  case (Suc n)
  have ne: "(of_nat (a * 4096) :: u64) \<noteq> of_nat ((a + Suc n) * 4096)"
  proof
    assume "(of_nat (a * 4096) :: u64) = of_nat ((a + Suc n) * 4096)"
    then have "unat (of_nat (a * 4096) :: u64) = unat (of_nat ((a + Suc n) * 4096) :: u64)" by (simp only:)
    then show False using Suc.prems by (simp only: unsigned_of_nat take_bit_nat_eq_self) (simp add: take_bit_nat_eq_self)
  qed
  have next_page: "(of_nat (a * 4096) + 4096 :: u64) = of_nat (Suc a * 4096)" by simp
  have IH: "user_range_loop st p (of_nat (Suc a * 4096)) (of_nat ((a + Suc n) * 4096)) w =
      Some (\<forall>k \<le> n. is_user_accessible st p (of_nat ((Suc a + k) * 4096)) w)"
    using Suc.IH [of "Suc a"] Suc.prems by simp
  have split: "(\<forall>k \<le> Suc n. P k) \<longleftrightarrow> P 0 \<and> (\<forall>k \<le> n. P (Suc k))" for P by (metis Suc_le_mono le0 not0_implies_Suc)
  show ?case
    using ne IH unfolding split [of "\<lambda>k. is_user_accessible st p (of_nat ((a + k) * 4096)) w"]
    by (subst user_range_loop.simps) (simp only: next_page, simp)
qed

text \<open>The bytes of a range are accessible exactly when its pages are.\<close>

lemma bytes_pages:
  assumes "0 < l" "a + l \<le> 2 ^ 64"
  shows "(\<forall>k < l. is_user_accessible st p (of_nat (a + k)) w) \<longleftrightarrow>
    (\<forall>j \<le> (a + l - 1) div 4096 - a div 4096. is_user_accessible st p (of_nat ((a div 4096 + j) * 4096)) w)" (is "?L = ?R")
proof
  assume L: ?L
  show ?R
  proof (intro allI impI)
    fix j assume j: "j \<le> (a + l - 1) div 4096 - a div 4096"
    define n where "n = max a ((a div 4096 + j) * 4096)"
    have le: "a div 4096 \<le> (a + l - 1) div 4096" using assms(1) by (intro div_le_mono) simp
    have "(a div 4096 + j) * 4096 \<le> (a + l - 1) div 4096 * 4096" using j le by (intro mult_le_mono1) linarith
    also have "\<dots> \<le> a + l - 1" by simp
    finally have n: "a \<le> n" "n < a + l" using assms by (auto simp: n_def)
    have "n div 4096 = a div 4096 + j"
    proof (cases "j = 0")
      case False
      then have "a \<le> (a div 4096 + j) * 4096" using dividend_less_div_times [of 4096 a] by simp
      then show ?thesis by (simp add: n_def max_def)
    qed (simp add: n_def max_def)
    moreover have "is_user_accessible st p (of_nat n) w" using L [rule_format, of "n - a"] n by simp
    ultimately show "is_user_accessible st p (of_nat ((a div 4096 + j) * 4096)) w" using accessible_page [of st p n w] by simp
  qed
next
  assume R: ?R
  show ?L
  proof (intro allI impI)
    fix k assume k: "k < l"
    have "a div 4096 \<le> (a + k) div 4096" "(a + k) div 4096 \<le> (a + l - 1) div 4096" using k by (auto intro: div_le_mono)
    then have "is_user_accessible st p (of_nat ((a + k) div 4096 * 4096)) w"
      using R by (metis diff_le_mono le_add_diff_inverse)
    then show "is_user_accessible st p (of_nat (a + k)) w" by (simp only: accessible_page)
  qed
qed

lemma unat_small: "n < 2 ^ 64 \<Longrightarrow> unat (of_nat n :: u64) = n"
  by (simp add: unsigned_of_nat take_bit_nat_eq_self)

lemma user_range_valid_iff:
  "is_user_range_valid st p addr len need_write =
    Some (unat addr + unat len \<le> 2 ^ 64 \<and> (\<forall>k < unat len. is_user_accessible st p (addr + of_nat k) need_write) \<or> len = 0)"
proof (cases "len = 0")
  case True
  then show ?thesis by (simp add: is_user_range_valid_def)
next
  case False
  define a l where "a = unat addr" and "l = unat len"
  have bounds: "a < 2 ^ 64" "l < 2 ^ 64" "0 < l" using unsigned_less [of addr] unsigned_less [of len] False
    by (simp_all add: a_def l_def unat_gt_0)
  have words: "addr = of_nat a" "len = of_nat l" by (simp_all add: a_def l_def)
  have end_addr: "addr + len - 1 = of_nat (a + l - 1)" using bounds(3) by (simp add: words of_nat_diff)
  show ?thesis
  proof (cases "a + l \<le> 2 ^ 64")
    case fits: True
    let ?n = "(a + l - 1) div 4096 - a div 4096"
    have "unat (addr + len - 1) = a + l - 1" unfolding end_addr by (rule unat_small) (use fits bounds in linarith)
    then have "\<not> addr + len - 1 < addr" using bounds(3) by (simp add: word_less_nat_alt a_def [symmetric])
    moreover have le: "a div 4096 \<le> (a + l - 1) div 4096" using bounds(3) by (intro div_le_mono) simp
    then have last: "(addr + len - 1) AND NOT 0xFFF = of_nat ((a div 4096 + ?n) * 4096)" unfolding end_addr page_base by simp
    have base: "addr AND NOT 0xFFF = of_nat (a div 4096 * 4096)" using page_base [of a] words(1) by simp
    have "(a div 4096 + ?n) * 4096 \<le> a + l - 1" using le by simp
    then have "(a div 4096 + ?n) * 4096 < 2 ^ 64" using fits bounds by linarith
    from user_range_loop_total [OF this, of st p need_write]
    have "user_range_loop st p (addr AND NOT 0xFFF) ((addr + len - 1) AND NOT 0xFFF) need_write =
        Some (\<forall>k<l. is_user_accessible st p (of_nat (a + k)) need_write)"
      unfolding last base bytes_pages [OF bounds(3) fits] .
    ultimately show ?thesis
      using False fits unfolding is_user_range_valid_def Let_def by (simp add: a_def l_def)
  next
    case wraps: False
    have "unat (addr + len - 1) = a + l - 1 - 2 ^ 64"
    proof -
      have "a + l - 1 = (a + l - 1 - 2 ^ 64) + 2 ^ 64" using wraps by simp
      then have "(of_nat (a + l - 1) :: u64) = of_nat (a + l - 1 - 2 ^ 64) + of_nat (2 ^ 64)" by (metis of_nat_add)
      also have "(of_nat (2 ^ 64) :: u64) = 0" by simp
      finally have eq: "addr + len - 1 = of_nat (a + l - 1 - 2 ^ 64)" unfolding end_addr by simp
      show ?thesis unfolding eq by (rule unat_small) (use bounds in linarith)
    qed
    then have "addr + len - 1 < addr" using bounds wraps by (simp add: word_less_nat_alt a_def [symmetric])
    then show ?thesis using False wraps by (simp add: is_user_range_valid_def Let_def a_def l_def)
  qed
qed


text \<open>C29: The check of user buffers is total and exact. For every state of the page tables, address and
  length the loop of \<open>is_user_range_valid\<close> ends, and it accepts exactly the ranges that do not wrap around the
  end of the address space and all of whose bytes user code may access, for writing if asked: the overflow test and the
  walk page by page neither miss a byte nor reject a good range, up to the very last byte of the address space.\<close>

theorem is_user_range_valid_exact:
  "is_user_range_valid st p addr len need_write =
    Some (unat addr + unat len \<le> 2 ^ 64 \<and> (\<forall>k < unat len. is_user_accessible st p (addr + of_nat k) need_write) \<or> len = 0)"
  by (rule user_range_valid_iff)

theorem is_user_range_valid_exact_witness:
  "is_user_range_valid demo_space 0x1000 0xFFFFFFFFFFFFFFFF 1 False = Some False \<and>
   is_user_range_valid demo_space 0x1000 0xFFFFFFFFFFFFFFFF 2 False = Some False"
proof -
  have no: "\<not> is_user_accessible demo_space 0x1000 v w" for v w
    by (simp add: is_user_accessible_def demo_space_def demo_tables_def Let_def)
  then show ?thesis
    using is_user_range_valid_exact [of demo_space "0x1000" "0xFFFFFFFFFFFFFFFF" 1 False]
      is_user_range_valid_exact [of demo_space "0x1000" "0xFFFFFFFFFFFFFFFF" 2 False] by simp
qed

end
