(* ===== verification/Mmap.thy ===== *)
theory Mmap
  imports Paging Driver
begin

text \<open>
  The memory system calls of kernel/system/syscall/syscall.c (\<open>mmap\<close>, \<open>munmap\<close>,
  device memory, DMA buffers, shared regions) and the construction of address
  spaces for new processes in kernel/system/process/process.c. The calls compose
  the allocator of virtual addresses of a process, the physical allocator, the
  page tables, the registry of shared regions and the claims of the drivers. The
  contents of ordinary pages (zeroing, copying) are not part of the state.
\<close>

section \<open>The code: virtual addresses\<close>

definition MMAP_AREA_START :: u64 where "MMAP_AREA_START = 0x0000600000000000"
definition MAX_MMAP_REGIONS :: nat where "MAX_MMAP_REGIONS = 32"
definition MAX_MMAP_FREE_RANGES :: nat where "MAX_MMAP_FREE_RANGES = 32"
definition MAX_DMA_ALLOC_PAGES :: nat where "MAX_DMA_ALLOC_PAGES = 4096"
definition PROT_WRITE :: u64 where "PROT_WRITE = 2"
definition PROT_EXEC :: u64 where "PROT_EXEC = 4"
definition MAP_SHARED :: u64 where "MAP_SHARED = 0x01"
definition MAP_FIXED :: u64 where "MAP_FIXED = 0x10"
definition MAP_ANONYMOUS :: u64 where "MAP_ANONYMOUS = 0x20"
definition PAGE_NX :: u64 where "PAGE_NX = 0x8000000000000000"

record mmap_region =
  r_addr :: u64
  r_length :: u64
  shared_id :: int

record mmap_free_range =
  f_addr :: u64
  f_length :: u64

text \<open>The part of \<open>process_t\<close> these calls use, with the page tables they change.\<close>

record vm_process =
  mmap_regions :: "mmap_region list"
  next_mmap_addr :: u64
  mmap_free_ranges :: "mmap_free_range list"
  page_table :: nat
  space :: paging

definition mmap_alloc_va :: "vm_process \<Rightarrow> u64 \<Rightarrow> u64 \<times> vm_process" where
  "mmap_alloc_va p aligned_len =
    (case first_index (\<lambda>r. f_length r \<ge> aligned_len \<and> f_length r > 0) (mmap_free_ranges p) of
       Some i \<Rightarrow>
         (let r = mmap_free_ranges p ! i
          in (f_addr r, p\<lparr>mmap_free_ranges := (mmap_free_ranges p)[i :=
                (if f_length r = aligned_len then \<lparr>f_addr = 0, f_length = 0\<rparr>
                 else \<lparr>f_addr = f_addr r + aligned_len, f_length = f_length r - aligned_len\<rparr>)]\<rparr>))
     | None \<Rightarrow> (next_mmap_addr p, p\<lparr>next_mmap_addr := next_mmap_addr p + aligned_len\<rparr>))"

definition mmap_free_va :: "vm_process \<Rightarrow> u64 \<Rightarrow> u64 \<Rightarrow> vm_process" where
  "mmap_free_va p addr len =
    (case first_index (\<lambda>r. f_length r = 0) (mmap_free_ranges p) of
       Some i \<Rightarrow> p\<lparr>mmap_free_ranges := (mmap_free_ranges p)[i := \<lparr>f_addr = addr, f_length = len\<rparr>]\<rparr>
     | None \<Rightarrow> p)"

definition free_slot :: "vm_process \<Rightarrow> nat option" where
  "free_slot p = first_index (\<lambda>r. r_length r = 0) (mmap_regions p)"

definition set_region :: "vm_process \<Rightarrow> nat \<Rightarrow> u64 \<Rightarrow> u64 \<Rightarrow> int \<Rightarrow> vm_process" where
  "set_region p slot base len rid =
    p\<lparr>mmap_regions := (mmap_regions p)[slot := \<lparr>r_addr = base, r_length = len, shared_id = rid\<rparr>]\<rparr>"

definition page_align :: "u64 \<Rightarrow> u64" where
  "page_align len = (len + 4096 - 1) AND NOT 0xFFF"

text \<open>Both roll-backs and \<open>sys_munmap\<close> undo mappings page by page, in the current address space.\<close>

definition unmap_pages :: "paging \<Rightarrow> u64 \<Rightarrow> nat \<Rightarrow> paging" where
  "unmap_pages st base n = fold (\<lambda>i st. unmap_page st (base + of_nat i * 4096)) [0..<n] st"

text \<open>Fresh pages mapped one after the other, up to the first failure; the pages that were mapped.\<close>

fun map_fresh_pages :: "paging \<Rightarrow> nat \<Rightarrow> u64 \<Rightarrow> u64 \<Rightarrow> nat \<Rightarrow> nat list \<times> paging" where
  "map_fresh_pages st pml4 virt page_flags 0 = ([], st)"
| "map_fresh_pages st pml4 virt page_flags (Suc n) =
    (case table_alloc st of (phys, st1) \<Rightarrow>
       if phys = 0 then ([], st1)
       else case map_page_in_pml4 st1 pml4 virt (of_nat phys) page_flags of (r, st2) \<Rightarrow>
         if r \<noteq> 0 then ([], page_free st2 phys)
         else case map_fresh_pages st2 pml4 (virt + 4096) page_flags n of (ps, st3) \<Rightarrow> (phys # ps, st3))"

text \<open>Given frames mapped one after the other, up to the first failure; how many were mapped.\<close>

fun map_frames :: "(paging \<Rightarrow> paging) \<Rightarrow> paging \<Rightarrow> nat \<Rightarrow> u64 \<Rightarrow> u64 list \<Rightarrow> u64 \<Rightarrow> nat \<times> paging" where
  "map_frames after st pml4 virt [] page_flags = (0, st)"
| "map_frames after st pml4 virt (phys # rest) page_flags =
    (case map_page_in_pml4 st pml4 virt phys page_flags of (r, st1) \<Rightarrow>
       if r \<noteq> 0 then (0, st1)
       else case map_frames after (after st1) pml4 (virt + 4096) rest page_flags of (n, st2) \<Rightarrow> (Suc n, st2))"

section \<open>The code: the system calls\<close>

text \<open>\<open>oom\<close> and \<open>oom_create\<close> are the outcomes of \<open>kmalloc\<close> here and in \<open>shm_create\<close>.\<close>

definition mmap_flags :: "u64 \<Rightarrow> bool \<Rightarrow> u64" where
  "mmap_flags prot want_shared =
    PAGE_PRESENT OR PAGE_USER OR (if has prot PROT_WRITE then PAGE_WRITE else 0) OR
    (if \<not> has prot PROT_EXEC then PAGE_NX else 0) OR (if want_shared then PAGE_MMAP_SHARED else 0)"

definition sys_mmap :: "vm_process \<Rightarrow> u64 \<Rightarrow> u64 \<Rightarrow> u64 \<Rightarrow> bool \<Rightarrow> bool \<Rightarrow> u64 \<times> vm_process" where
  "sys_mmap p len prot flags oom oom_create =
    (let aligned_len = page_align len; num_pages = unat aligned_len div 4096; want_shared = has flags MAP_SHARED
     in if len = 0 then (- 1, p)
        else if \<not> has flags MAP_ANONYMOUS then (- 1, p)
        else if has flags MAP_FIXED then (- 1, p)
        else if want_shared \<and> num_pages > MAX_SHARED_REGION_PAGES then (- 22, p)
        else case free_slot p of
          None \<Rightarrow> (- 1, p)
        | Some slot \<Rightarrow>
            (case mmap_alloc_va p aligned_len of (base, p1) \<Rightarrow>
               if want_shared \<and> oom then (- 1, p1)
               else case map_fresh_pages (space p1) (page_table p1) base (mmap_flags prot want_shared) num_pages of (pages, st) \<Rightarrow>
                 if length pages < num_pages
                 then (- 1, mmap_free_va (p1\<lparr>space := unmap_pages st base (length pages)\<rparr>) base aligned_len)
                 else if want_shared then
                   (case shm_create (shared st) pages num_pages oom_create of (rid, sh) \<Rightarrow>
                      if rid < 0
                      then (- 1, mmap_free_va (p1\<lparr>space := unmap_pages (st\<lparr>shared := sh\<rparr>) base num_pages\<rparr>) base aligned_len)
                      else (base, set_region (p1\<lparr>space := st\<lparr>shared := sh\<rparr>\<rparr>) slot base aligned_len rid))
                 else (base, set_region (p1\<lparr>space := st\<rparr>) slot base aligned_len (- 1))))"

definition sys_munmap :: "vm_process \<Rightarrow> u64 \<Rightarrow> u64 \<Rightarrow> u64 \<times> vm_process" where
  "sys_munmap p addr len =
    (let aligned_len = page_align len
     in if len = 0 then (- 1, p)
        else case first_index (\<lambda>r. r_length r \<noteq> 0 \<and> r_addr r = addr \<and> r_length r = aligned_len) (mmap_regions p) of
          None \<Rightarrow> (- 1, p)
        | Some i \<Rightarrow>
            (let p1 = p\<lparr>space := unmap_pages (space p) addr (unat aligned_len div 4096)\<rparr>;
                 p2 = p1\<lparr>mmap_regions := (mmap_regions p1)[i := (mmap_regions p1 ! i)\<lparr>r_addr := 0, r_length := 0\<rparr>]\<rparr>
             in (0, mmap_free_va p2 addr aligned_len)))"

definition sys_mmap_mmio :: "vm_process \<Rightarrow> driver \<Rightarrow> nat \<Rightarrow> u64 \<Rightarrow> u64 \<Rightarrow> u64 \<times> vm_process \<times> driver" where
  "sys_mmap_mmio p d pid phys_addr len =
    (if len = 0 then (- 1, p, d)
     else case driver_mmio_allowed d pid phys_addr len of (allowed, d1) \<Rightarrow>
       if \<not> allowed then (- 1, p, d1)
       else case free_slot p of
         None \<Rightarrow> (- 1, p, d1)
       | Some slot \<Rightarrow>
           (let phys_page = phys_addr AND NOT 0xFFF; phys_offset = phys_addr - phys_page;
                map_len = page_align (phys_offset + len); num_pages = unat map_len div 4096
            in case mmap_alloc_va p map_len of (base, p1) \<Rightarrow>
               case map_frames id (space p1) (page_table p1) base (map (\<lambda>i. phys_page + of_nat i * 4096) [0..<num_pages])
                      (PAGE_PRESENT OR PAGE_WRITE OR PAGE_USER OR PAGE_PCD OR PAGE_MMIO_NOFREE) of (n, st) \<Rightarrow>
                 if n < num_pages
                 then (- 1, mmap_free_va (p1\<lparr>space := unmap_pages st base n\<rparr>) base map_len, d1)
                 else (base + phys_offset, set_region (p1\<lparr>space := st\<rparr>) slot base map_len (- 1), d1)))"

text \<open>The second component is the value stored through the pointer of the caller.\<close>

definition sys_dma_alloc :: "vm_process \<Rightarrow> driver \<Rightarrow> nat \<Rightarrow> u64 \<Rightarrow> u64 \<Rightarrow> u64 \<times> nat option \<times> vm_process" where
  "sys_dma_alloc p d pid npages phys_out_ptr =
    (let n = unat npages; len = npages * 4096
     in if n = 0 \<or> n > MAX_DMA_ALLOC_PAGES then (- 1, None, p)
        else if \<not> driver_is_registered d pid then (- 1, None, p)
        else if is_user_range_valid (space p) (page_table p) phys_out_ptr 8 True \<noteq> Some True then (- 1, None, p)
        else case free_slot p of
          None \<Rightarrow> (- 1, None, p)
        | Some slot \<Rightarrow>
            (case pmm_alloc_contiguous_pages (frames (shared (space p))) n of (phys_base, f) \<Rightarrow>
               let st0 = (space p)\<lparr>shared := (shared (space p))\<lparr>frames := f\<rparr>\<rparr>
               in if phys_base = 0 then (- 1, None, p\<lparr>space := st0\<rparr>)
                  else case mmap_alloc_va (p\<lparr>space := st0\<rparr>) len of (base, p1) \<Rightarrow>
                    case map_frames id (space p1) (page_table p1) base (map (\<lambda>i. of_nat (phys_base + i * 4096)) [0..<n])
                           (PAGE_PRESENT OR PAGE_WRITE OR PAGE_USER) of (k, st) \<Rightarrow>
                      if k < n
                      then (- 1, None, mmap_free_va (p1\<lparr>space :=
                             fold (\<lambda>i st. page_free st (phys_base + i * 4096)) [k..<n] (unmap_pages st base k)\<rparr>) base len)
                      else (base, Some phys_base, set_region (p1\<lparr>space := st\<rparr>) slot base len (- 1))))"

definition sys_shm_create :: "vm_process \<Rightarrow> u64 \<Rightarrow> u64 \<Rightarrow> bool \<Rightarrow> bool \<Rightarrow> u64 \<times> int option \<times> vm_process" where
  "sys_shm_create p npages id_out_ptr oom oom_create =
    (let n = unat npages; len = npages * 4096
     in if n = 0 \<or> n > MAX_SHARED_REGION_PAGES then (- 1, None, p)
        else if is_user_range_valid (space p) (page_table p) id_out_ptr 4 True \<noteq> Some True then (- 1, None, p)
        else case free_slot p of
          None \<Rightarrow> (- 1, None, p)
        | Some slot \<Rightarrow>
            if oom then (- 1, None, p)
            else (case mmap_alloc_va p len of (base, p1) \<Rightarrow>
              case map_fresh_pages (space p1) (page_table p1) base (PAGE_PRESENT OR PAGE_WRITE OR PAGE_USER OR PAGE_MMAP_SHARED) n of (pages, st) \<Rightarrow>
                if length pages < n
                then (- 1, None, mmap_free_va (p1\<lparr>space := unmap_pages st base (length pages)\<rparr>) base len)
                else case shm_create (shared st) pages n oom_create of (rid, sh) \<Rightarrow>
                  if rid < 0
                  then (- 1, None, mmap_free_va (p1\<lparr>space := unmap_pages (st\<lparr>shared := sh\<rparr>) base n\<rparr>) base len)
                  else (base, Some rid, set_region (p1\<lparr>space := st\<lparr>shared := sh\<rparr>\<rparr>) slot base len rid)))"

definition sys_shm_attach :: "vm_process \<Rightarrow> u64 \<Rightarrow> bool \<Rightarrow> u64 \<times> vm_process" where
  "sys_shm_attach p shm_id oom =
    (let rid = sint (ucast shm_id :: u32); num_pages = shm_get_num_pages (shared (space p)) rid
     in if num_pages = 0 then (- 1, p)
        else if oom then (- 1, p)
        else case shm_get_pages (shared (space p)) rid num_pages of
          None \<Rightarrow> (- 1, p)
        | Some (pages, n) \<Rightarrow>
            (case free_slot p of
               None \<Rightarrow> (- 1, p)
             | Some slot \<Rightarrow>
                 (let len = of_nat n * 4096
                  in case mmap_alloc_va p len of (base, p1) \<Rightarrow>
                     case map_frames (\<lambda>st. st\<lparr>shared := shm_add_ref (shared st) rid\<rparr>) (space p1) (page_table p1) base (map of_nat pages)
                            (PAGE_PRESENT OR PAGE_WRITE OR PAGE_USER OR PAGE_MMAP_SHARED) of (k, st) \<Rightarrow>
                       if k < n then (- 1, mmap_free_va (p1\<lparr>space := unmap_pages st base k\<rparr>) base len)
                       else (base, set_region (p1\<lparr>space := st\<rparr>) slot base len rid))))"

section \<open>The code: address spaces of new processes\<close>

definition create_address_space :: "paging \<Rightarrow> nat \<Rightarrow> nat \<times> paging" where
  "create_address_space st kernel_pml4_phys =
    (case table_alloc st of (new_pml4, st1) \<Rightarrow>
       if new_pml4 = 0 then (0, st1)
       else (new_pml4, clone_low_identity_map
              (fold (\<lambda>i st. let e = tables st kernel_pml4_phys i
                             in if has e PAGE_PRESENT then set_entry st new_pml4 i (if i < 256 then e AND NOT PAGE_USER else e) else st)
                    [1..<512] (set_table st1 new_pml4 (\<lambda>_. 0))) new_pml4))"

text \<open>A loop that may end the function it is in.\<close>

fun loop_while :: "(nat \<Rightarrow> 's \<Rightarrow> bool \<times> 's) \<Rightarrow> nat list \<Rightarrow> 's \<Rightarrow> bool \<times> 's" where
  "loop_while f [] s = (True, s)"
| "loop_while f (i # is) s = (case f i s of (go, s1) \<Rightarrow> if go then loop_while f is s1 else (False, s1))"

definition clone_leaf :: "nat \<Rightarrow> nat \<Rightarrow> nat \<Rightarrow> paging \<Rightarrow> bool \<times> paging" where
  "clone_leaf new_pt src_pt i st =
    (let e = tables st src_pt i; rid = shm_find_region_by_page (shared st) (entry_table e)
     in if \<not> has e PAGE_PRESENT then (True, st)
        else if has e PAGE_MMAP_SHARED \<and> rid \<ge> 0 then (True, set_entry (st\<lparr>shared := shm_add_ref (shared st) rid\<rparr>) new_pt i e)
        else case table_alloc st of (new_phys, st1) \<Rightarrow>
          if new_phys = 0 then (False, st1)
          else (True, set_entry st1 new_pt i
                 ((of_nat new_phys AND ADDR_MASK) OR (e AND (0xFFF OR PAGE_NX) AND NOT PAGE_IDENTITY_SHARED))))"

text \<open>One level: a new zeroed table, filled by the level below, then linked with the flags of the source.\<close>

definition clone_table :: "(nat \<Rightarrow> nat \<Rightarrow> nat \<Rightarrow> paging \<Rightarrow> bool \<times> paging) \<Rightarrow> nat \<Rightarrow> nat \<Rightarrow> nat \<Rightarrow> paging \<Rightarrow> bool \<times> paging" where
  "clone_table below new_parent src_parent i st =
    (let e = tables st src_parent i
     in if \<not> has e PAGE_PRESENT then (True, st)
        else case table_alloc st of (new_table, st1) \<Rightarrow>
          if new_table = 0 then (False, st1)
          else case loop_while (below new_table (entry_table e)) [0..<512] (set_table st1 new_table (\<lambda>_. 0)) of (go, st2) \<Rightarrow>
            if \<not> go then (False, st2)
            else (True, set_entry st2 new_parent i ((of_nat new_table AND ADDR_MASK) OR (tables st2 src_parent i AND 0xFFF))))"

definition clone_pt :: "nat \<Rightarrow> nat \<Rightarrow> nat \<Rightarrow> paging \<Rightarrow> bool \<times> paging" where
  "clone_pt new_pd src_pd i st =
    (let e = tables st src_pd i
     in if has e PAGE_PRESENT \<and> has e PAGE_HUGE then (True, set_entry st new_pd i e)
        else clone_table clone_leaf new_pd src_pd i st)"

definition clone_address_space_deep :: "paging \<Rightarrow> nat \<Rightarrow> nat \<Rightarrow> nat \<times> paging" where
  "clone_address_space_deep st kernel_cr3 src_pml4 =
    (case create_address_space st kernel_cr3 of (new_pml4, st1) \<Rightarrow>
       if new_pml4 = 0 then (0, st1)
       else case loop_while (clone_table (clone_table clone_pt) new_pml4 src_pml4) [0..<256]
                   (sync_kernel_mappings st1 new_pml4 (cr3 st1)) of (go, st2) \<Rightarrow>
         if go then (new_pml4, st2) else (0, st2))"

definition fork_mmap :: "vm_process \<Rightarrow> vm_process \<Rightarrow> vm_process" where
  "fork_mmap parent child =
    child\<lparr>next_mmap_addr := next_mmap_addr parent, mmap_regions := mmap_regions parent, mmap_free_ranges := mmap_free_ranges parent\<rparr>"

section \<open>Virtual ranges never overlap\<close>

definition span :: "u64 \<Rightarrow> u64 \<Rightarrow> nat set" where
  "span a l = {unat a..<unat a + unat l}"

definition region_span :: "vm_process \<Rightarrow> nat \<Rightarrow> nat set" where
  "region_span p i = span (r_addr (mmap_regions p ! i)) (r_length (mmap_regions p ! i))"

definition free_span :: "vm_process \<Rightarrow> nat \<Rightarrow> nat set" where
  "free_span p i = span (f_addr (mmap_free_ranges p ! i)) (f_length (mmap_free_ranges p ! i))"

text \<open>The regions 0 to 31 and the free ranges 32 to 63 of a process as one family.\<close>

definition spans :: "vm_process \<Rightarrow> nat \<Rightarrow> nat set" where
  "spans p k = (if k < 32 then region_span p k else free_span p (k - 32))"

definition aligned :: "u64 \<Rightarrow> bool" where
  "aligned a \<longleftrightarrow> take_bit 12 a = 0"

definition va_aligned :: "vm_process \<Rightarrow> bool" where
  "va_aligned p \<longleftrightarrow> aligned (next_mmap_addr p) \<and> (\<forall>r\<in>set (mmap_regions p). aligned (r_addr r) \<and> aligned (r_length r)) \<and>
     (\<forall>r\<in>set (mmap_free_ranges p). aligned (f_addr r) \<and> aligned (f_length r))"

lemma aligned_iff: "aligned a \<longleftrightarrow> (\<exists>q. a = q * 4096)"
proof
  have push: "q * 4096 = push_bit 12 q" for q :: u64 by (simp add: push_bit_eq_mult)
  assume "aligned a"
  then have low: "\<not> bit a n" if "n < 12" for n using that by (metis aligned_def bit_0_eq bit_take_bit_iff bot_apply bot_bool_def)
  have "a = push_bit 12 (drop_bit 12 a)"
  proof (rule bit_word_eqI)
    fix n assume "n < LENGTH(64)"
    then show "bit a n = bit (push_bit 12 (drop_bit 12 a)) n"
      using low [of n] by (cases "n < 12") (auto simp: bit_push_bit_iff bit_drop_bit_eq)
  qed
  then show "\<exists>q. a = q * 4096" unfolding push by blast
next
  assume "\<exists>q. a = q * 4096"
  then obtain q where "a = push_bit 12 q" by (auto simp: push_bit_eq_mult)
  then show "aligned a" by (simp add: aligned_def take_bit_push_bit)
qed

lemma aligned_simps [simp]: "aligned 0" "aligned a \<Longrightarrow> aligned b \<Longrightarrow> aligned (a + b)" "aligned a \<Longrightarrow> aligned b \<Longrightarrow> aligned (a - b)"
  "aligned (a * 4096)" "aligned (page_align a)"
proof -
  show "aligned a \<Longrightarrow> aligned b \<Longrightarrow> aligned (a + b)" "aligned a \<Longrightarrow> aligned b \<Longrightarrow> aligned (a - b)"
    unfolding aligned_iff by (metis distrib_right) (metis left_diff_distrib)
  show "aligned (page_align a)"
    unfolding aligned_def page_align_def by (rule bit_word_eqI) (auto simp: bit_simps bit_0xFFF)
qed (auto simp: aligned_iff intro: exI [of _ 0])

lemma va_aligned_updates:
  "va_aligned p \<Longrightarrow> aligned (f_addr f) \<Longrightarrow> aligned (f_length f) \<Longrightarrow> va_aligned (p\<lparr>mmap_free_ranges := (mmap_free_ranges p)[i := f]\<rparr>)"
  "va_aligned p \<Longrightarrow> aligned (r_addr r) \<Longrightarrow> aligned (r_length r) \<Longrightarrow> va_aligned (p\<lparr>mmap_regions := (mmap_regions p)[i := r]\<rparr>)"
  by (auto simp: va_aligned_def dest!: set_update_subset_insert [THEN subsetD])

definition vm_inv :: "vm_process \<Rightarrow> bool" where
  "vm_inv p \<longleftrightarrow> va_aligned p \<and> length (mmap_regions p) = 32 \<and> length (mmap_free_ranges p) = 32 \<and>
     unat MMAP_AREA_START \<le> unat (next_mmap_addr p) \<and>
     (\<forall>k<64. spans p k \<subseteq> {unat MMAP_AREA_START..<unat (next_mmap_addr p)}) \<and>
     (\<forall>k<64. \<forall>l<64. k \<noteq> l \<longrightarrow> spans p k \<inter> spans p l = {})"

text \<open>A range that has been taken out of circulation and not been entered anywhere yet.\<close>

definition vm_pending :: "vm_process \<Rightarrow> u64 \<Rightarrow> u64 \<Rightarrow> bool" where
  "vm_pending p a l \<longleftrightarrow> vm_inv p \<and> aligned a \<and> aligned l \<and> span a l \<subseteq> {unat MMAP_AREA_START..<unat (next_mmap_addr p)} \<and> (\<forall>k<64. spans p k \<inter> span a l = {})"

lemma span_empty [simp]: "span a 0 = {}"
  by (simp add: span_def)

lemma spans_region: "length (mmap_regions p) = 32 \<Longrightarrow> i < 32 \<Longrightarrow>
  spans (p\<lparr>mmap_regions := (mmap_regions p)[i := r]\<rparr>) k = (if k = i then span (r_addr r) (r_length r) else spans p k)"
  by (auto simp: spans_def region_span_def free_span_def)

lemma spans_free: "length (mmap_free_ranges p) = 32 \<Longrightarrow> i < 32 \<Longrightarrow>
  spans (p\<lparr>mmap_free_ranges := (mmap_free_ranges p)[i := r]\<rparr>) k = (if k = i + 32 then span (f_addr r) (f_length r) else spans p k)"
  by (auto simp: spans_def region_span_def free_span_def)

lemma spans_space [simp]: "spans (p\<lparr>space := st\<rparr>) = spans p" "vm_inv (p\<lparr>space := st\<rparr>) = vm_inv p"
  "vm_pending (p\<lparr>space := st\<rparr>) a l = vm_pending p a l"
proof -
  show s: "spans (p\<lparr>space := st\<rparr>) = spans p" by (rule ext) (simp add: spans_def region_span_def free_span_def)
  then show "vm_inv (p\<lparr>space := st\<rparr>) = vm_inv p" "vm_pending (p\<lparr>space := st\<rparr>) a l = vm_pending p a l"
    by (simp_all add: vm_pending_def vm_inv_def va_aligned_def)
qed

lemma unat_add_small: "unat a + unat b < 2 ^ 64 \<Longrightarrow> unat (a + b) = unat a + unat b" for a b :: u64
  using unat_small [of "unat a + unat b"] by simp

lemma unat_sub_small: "b \<le> a \<Longrightarrow> unat (a - b) = unat a - unat b" for a b :: u64
proof -
  assume "b \<le> a"
  then have le: "unat b \<le> unat a" by (simp add: word_le_nat_alt)
  have "unat a < 2 ^ 64" using unsigned_less [of a] by simp
  then have "unat a - unat b < 2 ^ 64" by simp
  from unat_small [OF this] show ?thesis using le by (simp add: of_nat_diff)
qed

lemma vm_invD:
  assumes "vm_inv p"
  shows "length (mmap_free_ranges p) = 32" "length (mmap_regions p) = 32" "unat MMAP_AREA_START \<le> unat (next_mmap_addr p)"
    "k < 64 \<Longrightarrow> spans p k \<subseteq> {unat MMAP_AREA_START..<unat (next_mmap_addr p)}"
    "k < 64 \<Longrightarrow> l < 64 \<Longrightarrow> k \<noteq> l \<Longrightarrow> spans p k \<inter> spans p l = {}" "va_aligned p"
  using assms by (simp_all add: vm_inv_def)

lemma bump_range:
  assumes inv: "vm_inv p" and al: "aligned len" and fits: "unat (next_mmap_addr p) + unat len < 2 ^ 64"
    and p': "base = next_mmap_addr p" "p' = p\<lparr>next_mmap_addr := next_mmap_addr p + len\<rparr>"
  shows "vm_pending p' base len"
proof -
  note len = vm_invD(1,2) [OF inv] and start = vm_invD(3) [OF inv] and area = vm_invD(4) [OF inv] and dis = vm_invD(5) [OF inv]
  note n = unat_add_small [OF fits]
  have sp: "spans p' k = spans p k" for k by (simp add: p' spans_def region_span_def free_span_def)
  have area': "spans p' k \<subseteq> {unat MMAP_AREA_START..<unat (next_mmap_addr p)}" if "k < 64" for k using area [OF that] sp by simp
  have "spans p' k \<inter> span base len = {}" if "k < 64" for k using area' [OF that] by (fastforce simp: span_def p'(1))
  moreover have "spans p' k \<subseteq> {unat MMAP_AREA_START..<unat (next_mmap_addr p')}" if "k < 64" for k
    using area' [OF that] n by (fastforce simp: p'(2))
  moreover have "span base len \<subseteq> {unat MMAP_AREA_START..<unat (next_mmap_addr p')}"
    using start n by (auto simp: span_def p')
  moreover have "length (mmap_regions p') = 32" "length (mmap_free_ranges p') = 32" using len by (simp_all add: p'(2))
  moreover have "unat MMAP_AREA_START \<le> unat (next_mmap_addr p')" using start n by (simp add: p'(2))
  moreover have "aligned base" "va_aligned p'" using vm_invD(6) [OF inv] al by (simp_all add: p' va_aligned_def)
  ultimately show ?thesis using dis sp al by (simp add: vm_pending_def vm_inv_def)
qed

lemma take_free_range:
  assumes inv: "vm_inv p" and al: "aligned len" and i: "i < 32" "r = mmap_free_ranges p ! i" "len \<le> f_length r" "0 < f_length r"
    and r': "r' = (if f_length r = len then \<lparr>f_addr = 0, f_length = 0\<rparr> else \<lparr>f_addr = f_addr r + len, f_length = f_length r - len\<rparr>)"
    and p': "base = f_addr r" "p' = p\<lparr>mmap_free_ranges := (mmap_free_ranges p)[i := r']\<rparr>"
  shows "vm_pending p' base len"
proof -
  note len = vm_invD(1,2) [OF inv] and start = vm_invD(3) [OF inv] and area = vm_invD(4) [OF inv] and dis = vm_invD(5) [OF inv]
  have old: "spans p (i + 32) = span (f_addr r) (f_length r)" by (simp add: spans_def free_span_def i(2))
  have pos: "0 < unat (f_length r)" using i(4) by (simp add: word_less_nat_alt)
  have "span (f_addr r) (f_length r) \<subseteq> {unat MMAP_AREA_START..<unat (next_mmap_addr p)}" using area [of "i + 32"] i(1) old by simp
  moreover have "unat (f_addr r) + unat (f_length r) - 1 \<in> span (f_addr r) (f_length r)" using pos by (auto simp: span_def)
  ultimately have top: "unat (f_addr r) + unat (f_length r) \<le> unat (next_mmap_addr p)" using pos by fastforce
  have le: "unat len \<le> unat (f_length r)" using i(3) by (simp add: word_le_nat_alt)
  have "unat (next_mmap_addr p) < 2 ^ 64" using unsigned_less [of "next_mmap_addr p"] by simp
  then have "unat (f_addr r + len) = unat (f_addr r) + unat len" using top le by (intro unat_add_small) simp
  then have cut: "span (f_addr r') (f_length r') \<inter> span base len = {}" "span (f_addr r') (f_length r') \<union> span base len = spans p (i + 32)"
    using unat_sub_small [OF i(3)] le by (auto simp: r' old span_def p'(1))
  note sp = spans_free [OF len(1) i(1), of r', folded p'(2)]
  have nx: "next_mmap_addr p' = next_mmap_addr p" "length (mmap_regions p') = 32" "length (mmap_free_ranges p') = 32"
    using len by (simp_all add: p'(2))
  have "spans p' k \<inter> span base len = {}" if "k < 64" for k
    using dis [OF that, of "i + 32"] cut i(1) by (cases "k = i + 32") (auto simp: sp)
  moreover have "spans p' k \<subseteq> {unat MMAP_AREA_START..<unat (next_mmap_addr p')}" if "k < 64" for k
    using area [OF that] area [of "i + 32"] cut(2) i(1) by (auto simp: sp nx)
  moreover have "span base len \<subseteq> {unat MMAP_AREA_START..<unat (next_mmap_addr p')}"
    using area [of "i + 32"] cut(2) i(1) by (auto simp: nx)
  moreover have "spans p' k \<inter> spans p' l = {}" if "k < 64" "l < 64" "k \<noteq> l" for k l
    using dis [OF that] dis [of "i + 32" l] dis [of k "i + 32"] that cut(2) i(1) by (auto simp: sp)
  moreover have "aligned base" "va_aligned p'"
  proof -
    have "r \<in> set (mmap_free_ranges p)" using i(1,2) len(1) by simp
    then have ar: "aligned (f_addr r)" "aligned (f_length r)" using vm_invD(6) [OF inv] by (auto simp: va_aligned_def)
    then show "aligned base" by (simp add: p'(1))
    have "aligned (f_addr r')" "aligned (f_length r')" using ar al by (simp_all add: r')
    then show "va_aligned p'" unfolding p'(2) by (rule va_aligned_updates(1) [OF vm_invD(6) [OF inv]])
  qed
  ultimately show ?thesis using start al by (simp add: vm_pending_def vm_inv_def nx)
qed

lemma mmap_alloc_va_ok:
  assumes inv: "vm_inv p" and al: "aligned len" and fits: "unat (next_mmap_addr p) + unat len < 2 ^ 64"
    and a: "mmap_alloc_va p len = (base, p')"
  shows "vm_pending p' base len" "mmap_regions p' = mmap_regions p" "page_table p' = page_table p" "space p' = space p"
proof -
  show "mmap_regions p' = mmap_regions p" "page_table p' = page_table p" "space p' = space p"
    using a by (auto simp: mmap_alloc_va_def Let_def split: option.splits)
  show "vm_pending p' base len"
  proof (cases "first_index (\<lambda>r. f_length r \<ge> len \<and> f_length r > 0) (mmap_free_ranges p)")
    case None
    then show ?thesis using bump_range [OF inv al fits] a by (auto simp: mmap_alloc_va_def)
  next
    case (Some i)
    then have "i < 32" "len \<le> f_length (mmap_free_ranges p ! i)" "0 < f_length (mmap_free_ranges p ! i)"
      using first_index_SomeD [OF Some] vm_invD(1) [OF inv] by auto
    then show ?thesis using take_free_range [OF inv al _ refl _ _ refl refl refl, of i] a Some by (auto simp: mmap_alloc_va_def Let_def)
  qed
qed

lemma mmap_free_va_ok: "vm_pending p a l \<Longrightarrow> vm_inv (mmap_free_va p a l)"
proof (cases "first_index (\<lambda>r. f_length r = 0) (mmap_free_ranges p)")
  case None
  then show "vm_pending p a l \<Longrightarrow> ?thesis" by (simp add: mmap_free_va_def vm_pending_def)
next
  case (Some i)
  assume pend: "vm_pending p a l"
  then have inv: "vm_inv p" by (simp add: vm_pending_def)
  note len = vm_invD(1,2) [OF inv]
  have i: "i < 32" using first_index_SomeD [OF Some] len by simp
  define p' where "p' = mmap_free_va p a l"
  have p': "p' = p\<lparr>mmap_free_ranges := (mmap_free_ranges p)[i := \<lparr>f_addr = a, f_length = l\<rparr>]\<rparr>"
    by (simp add: p'_def mmap_free_va_def Some)
  note sp = spans_free [OF len(1) i, of "\<lparr>f_addr = a, f_length = l\<rparr>", folded p', simplified]
  have nx: "next_mmap_addr p' = next_mmap_addr p" "length (mmap_regions p') = 32" "length (mmap_free_ranges p') = 32"
    using len by (simp_all add: p')
  have new: "span a l \<subseteq> {unat MMAP_AREA_START..<unat (next_mmap_addr p)}" "spans p k \<inter> span a l = {}" if "k < 64" for k
    using pend that by (auto simp: vm_pending_def)
  have "spans p' k \<subseteq> {unat MMAP_AREA_START..<unat (next_mmap_addr p')}" if "k < 64" for k
    using vm_invD(4) [OF inv that] new(1) [OF that] by (simp add: sp nx)
  moreover have "spans p' k \<inter> spans p' m = {}" if "k < 64" "m < 64" "k \<noteq> m" for k m
    using vm_invD(5) [OF inv that] new(2) [OF that(1)] new(2) [OF that(2)] that(3) by (auto simp: sp)
  moreover have "va_aligned p'"
    unfolding p' by (rule va_aligned_updates(1) [OF vm_invD(6) [OF inv]]) (use pend in \<open>simp_all add: vm_pending_def\<close>)
  ultimately show "vm_inv (mmap_free_va p a l)" using vm_invD(3) [OF inv] by (simp add: vm_inv_def nx flip: p'_def)
qed

lemma set_region_ok:
  assumes pend: "vm_pending p a l" and slot: "free_slot p = Some i"
  shows "vm_inv (set_region p i a l rid)"
proof -
  have inv: "vm_inv p" using pend by (simp add: vm_pending_def)
  note len = vm_invD(1,2) [OF inv]
  have i: "i < 32" using first_index_SomeD [OF slot [unfolded free_slot_def]] len by simp
  define p' where "p' = set_region p i a l rid"
  have p': "p' = p\<lparr>mmap_regions := (mmap_regions p)[i := \<lparr>r_addr = a, r_length = l, shared_id = rid\<rparr>]\<rparr>"
    by (simp add: p'_def set_region_def)
  note sp = spans_region [OF len(2) i, of "\<lparr>r_addr = a, r_length = l, shared_id = rid\<rparr>", folded p', simplified]
  have nx: "next_mmap_addr p' = next_mmap_addr p" "length (mmap_regions p') = 32" "length (mmap_free_ranges p') = 32"
    using len by (simp_all add: p')
  have new: "span a l \<subseteq> {unat MMAP_AREA_START..<unat (next_mmap_addr p)}" "spans p k \<inter> span a l = {}" if "k < 64" for k
    using pend that by (auto simp: vm_pending_def)
  have "spans p' k \<subseteq> {unat MMAP_AREA_START..<unat (next_mmap_addr p')}" if "k < 64" for k
    using vm_invD(4) [OF inv that] new(1) [OF that] by (simp add: sp nx)
  moreover have "spans p' k \<inter> spans p' m = {}" if "k < 64" "m < 64" "k \<noteq> m" for k m
    using vm_invD(5) [OF inv that] new(2) [OF that(1)] new(2) [OF that(2)] that(3) by (auto simp: sp)
  moreover have "va_aligned p'"
    unfolding p' by (rule va_aligned_updates(2) [OF vm_invD(6) [OF inv]]) (use pend in \<open>simp_all add: vm_pending_def\<close>)
  ultimately show ?thesis using vm_invD(3) [OF inv] by (simp add: vm_inv_def nx flip: p'_def)
qed

lemma clear_region_pending:
  assumes inv: "vm_inv p" and i: "i < 32" and r: "r_length r = 0" "r_addr r = 0"
    and a: "a = r_addr (mmap_regions p ! i)" "l = r_length (mmap_regions p ! i)"
  shows "vm_pending (p\<lparr>mmap_regions := (mmap_regions p)[i := r]\<rparr>) a l"
proof -
  let ?p = "p\<lparr>mmap_regions := (mmap_regions p)[i := r]\<rparr>"
  note sp = spans_region [OF vm_invD(2) [OF inv] i, of r, unfolded r(1) span_empty]
  have old: "span a l = spans p i" using i by (simp add: a spans_def region_span_def)
  have i64: "i < 64" using i by simp
  have "va_aligned ?p" by (rule va_aligned_updates(2) [OF vm_invD(6) [OF inv]]) (simp_all add: r)
  then have "vm_inv ?p"
    using vm_invD [OF inv] unfolding vm_inv_def sp by auto
  moreover have "spans ?p k \<inter> span a l = {}" if "k < 64" for k
    using vm_invD(5) [OF inv that i64] unfolding sp old by auto
  moreover have "mmap_regions p ! i \<in> set (mmap_regions p)" using i vm_invD(2) [OF inv] by simp
  then have "aligned a" "aligned l" using vm_invD(6) [OF inv] by (auto simp: va_aligned_def a)
  ultimately show ?thesis using vm_invD(4) [OF inv i64] unfolding vm_pending_def old by simp
qed

text \<open>The calls, each with a request that does not run past the end of the address space.\<close>

inductive vm_step :: "vm_process \<Rightarrow> vm_process \<Rightarrow> bool" where
  mmap: "unat (next_mmap_addr p) + unat (page_align len) < 2 ^ 64 \<Longrightarrow> sys_mmap p len prot flags oom oom_create = (r, p') \<Longrightarrow> vm_step p p'"
| munmap: "sys_munmap p addr len = (r, p') \<Longrightarrow> vm_step p p'"
| mmap_mmio: "unat (next_mmap_addr p) + unat (page_align (phys - (phys AND NOT 0xFFF) + len)) < 2 ^ 64 \<Longrightarrow>
    sys_mmap_mmio p d pid phys len = (r, p', d') \<Longrightarrow> vm_step p p'"
| dma_alloc: "unat (next_mmap_addr p) + unat (npages * 4096) < 2 ^ 64 \<Longrightarrow> sys_dma_alloc p d pid npages out_ptr = (r, out, p') \<Longrightarrow> vm_step p p'"
| shm_create: "unat (next_mmap_addr p) + unat (npages * 4096) < 2 ^ 64 \<Longrightarrow>
    sys_shm_create p npages out_ptr oom oom_create = (r, out, p') \<Longrightarrow> vm_step p p'"
| shm_attach: "unat (next_mmap_addr p) + unat (of_nat (shm_get_num_pages (shared (space p)) (sint (ucast shm_id :: u32))) * 4096 :: u64) < 2 ^ 64 \<Longrightarrow>
    sys_shm_attach p shm_id oom = (r, p') \<Longrightarrow> vm_step p p'"

text \<open>What all of them do once they have their range: give it back, or enter it in a free slot, or drop it.\<close>

lemma range_settled:
  assumes "vm_inv p" "aligned len" "unat (next_mmap_addr p) + unat len < 2 ^ 64" "mmap_alloc_va p len = (base, p1)" "free_slot p = Some slot"
  shows "vm_inv p1" "vm_inv (mmap_free_va (p1\<lparr>space := st\<rparr>) base len)" "vm_inv (set_region (p1\<lparr>space := st\<rparr>) slot base len rid)"
proof -
  note a = mmap_alloc_va_ok [OF assms(1-4)]
  show "vm_inv p1" using a(1) by (simp add: vm_pending_def)
  have pend: "vm_pending (p1\<lparr>space := st\<rparr>) base len" using a(1) by simp
  show "vm_inv (mmap_free_va (p1\<lparr>space := st\<rparr>) base len)" by (rule mmap_free_va_ok [OF pend])
  show "vm_inv (set_region (p1\<lparr>space := st\<rparr>) slot base len rid)"
    by (rule set_region_ok [OF pend]) (use a(2) assms(5) in \<open>simp add: free_slot_def\<close>)
qed

lemma sys_mmap_inv:
  assumes "vm_inv p" "unat (next_mmap_addr p) + unat (page_align len) < 2 ^ 64" "sys_mmap p len prot flags oom oom_create = (r, p')"
  shows "vm_inv p'"
proof (cases "free_slot p")
  case None
  then show ?thesis using assms(1,3) by (auto simp: sys_mmap_def Let_def split: if_splits)
next
  case (Some slot)
  obtain base p1 where a: "mmap_alloc_va p (page_align len) = (base, p1)" by fastforce
  note s = range_settled [OF assms(1) aligned_simps(5) assms(2) a Some]
  show ?thesis using assms(1,3) s a Some by (auto simp: sys_mmap_def Let_def split: if_splits prod.splits)
qed

lemma sys_munmap_inv:
  assumes "vm_inv p" "sys_munmap p addr len = (r, p')"
  shows "vm_inv p'"
proof (cases "first_index (\<lambda>r. r_length r \<noteq> 0 \<and> r_addr r = addr \<and> r_length r = page_align len) (mmap_regions p)")
  case None
  then show ?thesis using assms by (auto simp: sys_munmap_def Let_def split: if_splits)
next
  case (Some i)
  then have i: "i < 32" "addr = r_addr (mmap_regions p ! i)" "page_align len = r_length (mmap_regions p ! i)"
    using first_index_SomeD [OF Some] vm_invD(2) [OF assms(1)] by auto
  let ?p = "p\<lparr>space := unmap_pages (space p) addr (unat (page_align len) div 4096)\<rparr>"
  let ?r = "(mmap_regions p ! i)\<lparr>r_addr := 0, r_length := 0\<rparr>"
  have "vm_pending (?p\<lparr>mmap_regions := (mmap_regions ?p)[i := ?r]\<rparr>) addr (page_align len)"
    by (rule clear_region_pending) (use assms(1) i in auto)
  from mmap_free_va_ok [OF this] show ?thesis
    using assms Some by (auto simp: sys_munmap_def Let_def split: if_splits)
qed

lemma sys_mmap_mmio_inv:
  assumes "vm_inv p" "unat (next_mmap_addr p) + unat (page_align (phys - (phys AND NOT 0xFFF) + len)) < 2 ^ 64"
    "sys_mmap_mmio p d pid phys len = (r, p', d')"
  shows "vm_inv p'"
proof (cases "free_slot p")
  case None
  then show ?thesis using assms(1,3) by (auto simp: sys_mmap_mmio_def Let_def split: if_splits prod.splits)
next
  case (Some slot)
  obtain base p1 where a: "mmap_alloc_va p (page_align (phys - (phys AND NOT 0xFFF) + len)) = (base, p1)" by fastforce
  note s = range_settled [OF assms(1) aligned_simps(5) assms(2) a Some]
  show ?thesis using assms(1,3) s(2,3) a Some unfolding sys_mmap_mmio_def Let_def by (auto split: if_splits prod.splits)
qed

lemma sys_dma_alloc_inv:
  assumes "vm_inv p" "unat (next_mmap_addr p) + unat (npages * 4096) < 2 ^ 64" "sys_dma_alloc p d pid npages out_ptr = (r, out, p')"
  shows "vm_inv p'"
proof (cases "free_slot p")
  case None
  then show ?thesis using assms(1,3) by (auto simp: sys_dma_alloc_def Let_def split: if_splits)
next
  case (Some slot)
  obtain phys f where c: "pmm_alloc_contiguous_pages (frames (shared (space p))) (unat npages) = (phys, f)" by fastforce
  define q where "q = p\<lparr>space := (space p)\<lparr>shared := (shared (space p))\<lparr>frames := f\<rparr>\<rparr>\<rparr>"
  obtain base p1 where a: "mmap_alloc_va q (npages * 4096) = (base, p1)" by fastforce
  have "vm_inv q" "unat (next_mmap_addr q) + unat (npages * 4096) < 2 ^ 64" "free_slot q = Some slot"
    using assms(1,2) Some by (simp_all add: q_def free_slot_def)
  note s = this(1) range_settled [OF this(1) aligned_simps(4) this(2) a this(3)]
  show ?thesis using assms(1,3) s c a Some
    unfolding sys_dma_alloc_def Let_def q_def by (auto split: if_splits prod.splits)
qed

lemma sys_shm_create_inv:
  assumes "vm_inv p" "unat (next_mmap_addr p) + unat (npages * 4096) < 2 ^ 64"
    "sys_shm_create p npages out_ptr oom oom_create = (r, out, p')"
  shows "vm_inv p'"
proof (cases "free_slot p")
  case None
  then show ?thesis using assms(1,3) by (auto simp: sys_shm_create_def Let_def split: if_splits)
next
  case (Some slot)
  obtain base p1 where a: "mmap_alloc_va p (npages * 4096) = (base, p1)" by fastforce
  note s = range_settled [OF assms(1) aligned_simps(4) assms(2) a Some]
  show ?thesis using assms(1,3) s(2,3) a Some by (auto simp: sys_shm_create_def Let_def split: if_splits prod.splits)
qed

lemma sys_shm_attach_inv:
  assumes "vm_inv p" "unat (next_mmap_addr p) + unat (of_nat (shm_get_num_pages (shared (space p)) (sint (ucast shm_id :: u32))) * 4096 :: u64) < 2 ^ 64"
    "sys_shm_attach p shm_id oom = (r, p')"
  shows "vm_inv p'"
proof -
  define rid where "rid = sint (ucast shm_id :: u32)"
  define n where "n = shm_get_num_pages (shared (space p)) rid"
  have gp: "m = n" if "shm_get_pages (shared (space p)) rid n = Some (pages, m)" for pages m
    using that by (auto simp: shm_get_pages_def n_def shm_get_num_pages_def Let_def split: if_splits)
  show ?thesis
  proof (cases "free_slot p")
    case None
    then show ?thesis using assms(1,3)
      unfolding sys_shm_attach_def Let_def by (auto split: if_splits option.splits)
  next
    case (Some slot)
    obtain base p1 where a: "mmap_alloc_va p (of_nat n * 4096) = (base, p1)" by fastforce
    note s = range_settled [OF assms(1) aligned_simps(4) assms(2) [folded rid_def, folded n_def] a Some]
    show ?thesis
    proof (cases "shm_get_pages (shared (space p)) rid n")
      case None
      then show ?thesis using assms(1,3)
        unfolding sys_shm_attach_def Let_def rid_def [symmetric] n_def [symmetric] by (auto split: if_splits)
    next
      case (Some pm)
      then obtain pages where "shm_get_pages (shared (space p)) rid n = Some (pages, n)" using gp by (cases pm) auto
      then show ?thesis using assms(1,3) s(2,3) a \<open>free_slot p = Some slot\<close>
        unfolding sys_shm_attach_def Let_def rid_def [symmetric] n_def [symmetric] by (auto split: if_splits prod.splits)
    qed
  qed
qed

lemmas vm_call_inv = sys_mmap_inv sys_munmap_inv sys_mmap_mmio_inv sys_dma_alloc_inv sys_shm_create_inv sys_shm_attach_inv

lemma vm_step_inv [kernel_inv]: "vm_step p p' \<Longrightarrow> vm_inv p \<Longrightarrow> vm_inv p'"
  by (induction rule: vm_step.induct) (blast intro: vm_call_inv)+

inductive vm_reach :: "vm_process \<Rightarrow> vm_process \<Rightarrow> bool" where
  start: "vm_reach p p"
| step: "vm_reach p p1 \<Longrightarrow> vm_step p1 p2 \<Longrightarrow> vm_reach p p2"
| fork: "vm_reach p p1 \<Longrightarrow> vm_reach p (fork_mmap p1 child)"

lemma fork_mmap_inv [kernel_inv]: "vm_inv p \<Longrightarrow> vm_inv (fork_mmap p child)"
proof -
  have "spans (fork_mmap p child) k = spans p k" for k by (simp add: spans_def region_span_def free_span_def fork_mmap_def)
  moreover have "va_aligned (fork_mmap p child) = va_aligned p" by (simp add: va_aligned_def fork_mmap_def)
  ultimately show "vm_inv p \<Longrightarrow> ?thesis" by (simp add: vm_inv_def) (simp add: fork_mmap_def)
qed

lemma vm_reach_inv: "vm_reach p p' \<Longrightarrow> vm_inv p \<Longrightarrow> vm_inv p'"
  by (induction rule: vm_reach.induct) (auto intro: vm_step_inv fork_mmap_inv)

text \<open>The tables of a new process.\<close>

definition reset_mmap :: "vm_process \<Rightarrow> vm_process" where
  "reset_mmap p = p\<lparr>next_mmap_addr := MMAP_AREA_START, mmap_regions := replicate MAX_MMAP_REGIONS \<lparr>r_addr = 0, r_length = 0, shared_id = 0\<rparr>,
     mmap_free_ranges := replicate MAX_MMAP_FREE_RANGES \<lparr>f_addr = 0, f_length = 0\<rparr>\<rparr>"

lemma reset_mmap_inv: "vm_inv (reset_mmap p)"
proof -
  have "spans (reset_mmap p) k = {}" if "k < 64" for k
    using that by (auto simp: spans_def region_span_def free_span_def reset_mmap_def MAX_MMAP_REGIONS_def MAX_MMAP_FREE_RANGES_def)
  moreover have "va_aligned (reset_mmap p)"
    by (simp add: va_aligned_def reset_mmap_def) (simp add: aligned_def MMAP_AREA_START_def)
  ultimately show ?thesis by (simp add: vm_inv_def) (simp add: reset_mmap_def MAX_MMAP_REGIONS_def MAX_MMAP_FREE_RANGES_def)
qed


definition demo_vm :: vm_process where
  "demo_vm = \<lparr>mmap_regions = [], next_mmap_addr = 0, mmap_free_ranges = [], page_table = 0x1000, space = demo_space\<rparr>"


section \<open>What \<open>mmap\<close> returns is usable memory\<close>

lemma table_alloc_keeps:
  assumes "tree_ok st p" "user_ok st p" "table_alloc st = (b, st1)"
  shows "tree_ok st1 p" "user_ok st1 p" "page_view st1 p w = page_view st p w"
proof -
  have t: "tables st1 = tables st" using assms(3) by (auto simp: table_alloc_def split: prod.splits)
  from table_alloc_ok [OF assms(1,3)] show "tree_ok st1 p"
  proof
    assume a: "b \<noteq> 0 \<and> page_addr b \<and> b div 4096 \<in> avail_pages (frames (shared st)) \<and> tables st1 = tables st \<and>
      pmm_inv (frames (shared st1)) \<and> total_pages (frames (shared st1)) = total_pages (frames (shared st)) \<and>
      avail_pages (frames (shared st1)) = avail_pages (frames (shared st)) - {b div 4096}"
    show ?thesis
      by (rule tree_okI) (use a tree_okD [OF assms(1)] in auto)
  qed (use assms(1) in simp)
  show "page_view st1 p w = page_view st p w" for w by (simp add: page_view_def t)
  then show "user_ok st1 p" using assms(2) unfolding user_ok_def t by simp
qed

lemma map_fresh_ok:
  assumes "tree_ok st p" "user_ok st p" "map_fresh_pages st p v flags n = (ps, st')" "length ps = n"
  shows "tree_ok st' p \<and> user_ok st' p \<and>
    (\<forall>w. (\<exists>k<n. same_page w (v + of_nat k * 4096)) \<longrightarrow> (\<exists>a. page_view st' p w = (True, a, bit flags 2, bit flags 1))) \<and>
    (\<forall>w. (\<forall>k<n. \<not> same_page w (v + of_nat k * 4096)) \<longrightarrow> page_view st' p w = page_view st p w)"
  using assms
proof (induction n arbitrary: st v ps)
  case 0
  then show ?case by simp
next
  case (Suc n)
  obtain b st1 where al: "table_alloc st = (b, st1)" by fastforce
  obtain r st2 where m: "map_page_in_pml4 st1 p v (of_nat b) flags = (r, st2)" by fastforce
  obtain qs st3 where f: "map_fresh_pages st2 p (v + 4096) flags n = (qs, st3)" by fastforce
  have b: "b \<noteq> 0" "r = 0" "ps = b # qs" "st' = st3" using Suc.prems(3,4) al m f by (auto split: if_splits)
  note k1 = table_alloc_keeps [OF Suc.prems(1,2) al]
  have mp: "mapped st1 p v (of_nat b) flags st2" using map_page_ok [OF k1(1) m] b(2) by simp
  then have ok2: "tree_ok st2 p" "user_ok st2 p" using mapped_user_ok [OF k1(2)] by (auto simp: mapped_def)
  have v2: "page_view st2 p w = (if same_page w v then (True, (of_nat b AND ADDR_MASK) + (w AND 0xFFF), bit flags 2, bit flags 1)
      else page_view st p w)" for w using mp k1(3) by (simp add: mapped_def)
  have f': "map_fresh_pages st2 p (v + 4096) flags n = (qs, st')" "length qs = n" using f b(3,4) Suc.prems(4) by simp_all
  note IH = Suc.IH [OF ok2 f']
  have shift: "v + 4096 + of_nat k * 4096 = v + of_nat (Suc k) * 4096" for k by (simp add: algebra_simps)
  have cases: "(\<exists>k<Suc n. same_page w (v + of_nat k * 4096)) \<longleftrightarrow>
      same_page w v \<or> (\<exists>k<n. same_page w (v + 4096 + of_nat k * 4096))" for w
    unfolding shift by (auto simp: less_Suc_eq_0_disj)
  have "\<exists>a. page_view st' p w = (True, a, bit flags 2, bit flags 1)" if "\<exists>k<Suc n. same_page w (v + of_nat k * 4096)" for w
  proof (cases "\<exists>k<n. same_page w (v + 4096 + of_nat k * 4096)")
    case True
    then show ?thesis using IH by blast
  next
    case False
    then have "page_view st' p w = page_view st2 p w" "same_page w v" using IH that cases by blast+
    then show ?thesis using v2 [of w] by simp
  qed
  moreover have "page_view st' p w = page_view st p w" if "\<not> (\<exists>k<Suc n. same_page w (v + of_nat k * 4096))" for w
  proof -
    have "page_view st' p w = page_view st2 p w" "\<not> same_page w v" using IH that cases by blast+
    then show ?thesis using v2 [of w] by simp
  qed
  ultimately show ?case using IH by blast
qed

lemma byte_page:
  assumes "aligned base"
  shows "same_page (base + of_nat k) (base + of_nat (k div 4096) * 4096)"
proof -
  obtain q where q: "base = q * 4096" using assms aligned_iff by auto
  have "base + of_nat k = of_nat (unat q * 4096 + k)" by (simp add: q)
  then have "(base + of_nat k) AND NOT 0xFFF = of_nat ((unat q * 4096 + k) div 4096 * 4096)" by (simp only: page_base)
  also have "\<dots> = base + of_nat (k div 4096) * 4096" by (simp add: q distrib_right)
  finally show ?thesis using index_base [of "base + of_nat k"] unfolding same_page_def by (simp only:)
qed

lemma page_align_value:
  assumes "unat len + 4095 < 2 ^ 64"
  shows "unat (page_align len) = (unat len + 4095) div 4096 * 4096"
proof -
  have "len + 4096 - 1 = of_nat (unat len + 4095)" by simp
  then have eq: "page_align len = of_nat ((unat len + 4095) div 4096 * 4096)" unfolding page_align_def by (simp only: page_base)
  have "(unat len + 4095) div 4096 * 4096 < 2 ^ 64"
    using assms div_times_less_eq_dividend [of "unat len + 4095" 4096] by linarith
  then show ?thesis unfolding eq by (rule unat_small)
qed

lemma mmap_flag_bits: "bit (mmap_flags prot sh) 2" "bit (mmap_flags prot sh) 1 = has prot PROT_WRITE"
  using has_bit [of 1 prot]
  by (simp_all add: mmap_flags_def bit_or_iff bit_flags PROT_WRITE_def) (simp_all add: PAGE_NX_def PAGE_MMAP_SHARED_def)

text \<open>The steps of a call that succeeds.\<close>

lemma shm_create_frames: "shm_create s pages n oom = (rid, s') \<Longrightarrow> frames s' = frames s"
  by (auto simp: shm_create_def split: if_splits option.splits)

lemma map_fresh_length: "map_fresh_pages st p v flags n = (ps, st') \<Longrightarrow> length ps \<le> n"
  by (induction n arbitrary: st v ps st') (force split: if_splits prod.splits)+

lemma sys_mmap_success:
  assumes "sys_mmap p len prot flags oom oom_create = (r, p')" "r \<noteq> - 1" "r \<noteq> - 22"
  obtains p1 pages st where "mmap_alloc_va p (page_align len) = (r, p1)" "len \<noteq> 0"
    "map_fresh_pages (space p1) (page_table p1) r (mmap_flags prot (has flags MAP_SHARED)) (unat (page_align len) div 4096) = (pages, st)"
    "length pages = unat (page_align len) div 4096" "tables (space p') = tables st" "frames (shared (space p')) = frames (shared st)"
    "page_table p' = page_table p1"
  using assms
  by (auto simp: sys_mmap_def Let_def set_region_def split: if_splits option.splits prod.splits dest!: shm_create_frames dest: map_fresh_length)

lemma same_tree:
  assumes "tree_ok st p" "user_ok st p" "tables st' = tables st" "frames (shared st') = frames (shared st)"
  shows "tree_ok st' p" "user_ok st' p" "page_view st' p w = page_view st p w"
proof -
  show "tree_ok st' p" by (rule tree_okI) (use tree_okD [OF assms(1)] assms(3,4) in auto)
  show "page_view st' p w = page_view st p w" for w by (simp add: page_view_def assms(3))
  then show "user_ok st' p" using assms(2) unfolding user_ok_def assms(3) by simp
qed

text \<open>A range of pages that are all user pages passes the pointer check.\<close>

lemma pages_valid_range:
  assumes "tree_ok st p" "user_ok st p" "aligned base" "unat base + unat len \<le> 2 ^ 64" "unat len \<le> n * 4096"
    and "\<And>w. \<exists>k<n. same_page w (base + of_nat k * 4096) \<Longrightarrow> \<exists>a. page_view st p w = (True, a, True, wr)"
  shows "is_user_range_valid st p base len wr = Some True"
proof -
  have "is_user_accessible st p (base + of_nat k) wr" if k: "k < unat len" for k
  proof -
    have "k div 4096 < n" using k assms(5) by (simp add: less_mult_imp_div_less)
    then obtain a where "page_view st p (base + of_nat k) = (True, a, True, wr)" using assms(6) byte_page [OF assms(3)] by blast
    then show ?thesis using translation_view(2) [OF assms(1) _ assms(2)] by simp
  qed
  then show ?thesis using assms(4) by (simp add: user_range_valid_iff)
qed

lemma same_view:
  assumes "tree_ok st' p" "user_ok st' p" "tree_ok st p" "user_ok st p" "page_view st' p w = page_view st p w"
  shows "get_physical_address_in_pml4 st' p w = get_physical_address_in_pml4 st p w \<and>
    is_user_accessible st' p w need_write = is_user_accessible st p w need_write"
proof -
  obtain present a user wr where v: "page_view st p w = (present, a, user, wr)" by (cases "page_view st p w")
  then have v': "page_view st' p w = (present, a, user, wr)" using assms(5) by simp
  show ?thesis using translation_view [OF assms(1) v'] translation_view [OF assms(3) v] assms(2,4) by simp
qed

lemma pending_fits:
  assumes "vm_pending p a l" "0 < unat l" "m \<le> unat l"
  shows "unat a + m \<le> 2 ^ 64"
proof -
  have "unat a + (unat l - 1) \<in> span a l" using assms(2) by (simp add: span_def)
  then have "unat a + (unat l - 1) < unat (next_mmap_addr p)" using assms(1) by (auto simp: vm_pending_def)
  moreover have "unat (next_mmap_addr p) < 2 ^ 64" using unsigned_less [of "next_mmap_addr p"] by simp
  ultimately show ?thesis using assms(2,3) by linarith
qed



text \<open>With enough untouched frames above the roving pointer, mapping cannot fail.\<close>

definition fresh :: "paging \<Rightarrow> nat \<Rightarrow> bool" where
  "fresh st n \<longleftrightarrow> (let f = frames (shared st) in 512 \<le> next_free_page f \<and> next_free_page f + n \<le> total_pages f \<and>
     (\<forall>i \<ge> next_free_page f. \<not> bitmap_test (pmm_bitmap f) i))"

lemma fresh_alloc:
  assumes "fresh st (Suc n)" "table_alloc st = (b, st1)"
  shows "b \<noteq> 0" "fresh st1 n" "tables st1 = tables st"
proof -
  let ?f = "frames (shared st)"
  have "first_in (\<lambda>i. \<not> bitmap_test (pmm_bitmap ?f) i) (next_free_page ?f) (total_pages ?f) = Some (next_free_page ?f)"
    using assms(1) by (auto simp: fresh_def Let_def first_in_Some)
  then have b: "b = next_free_page ?f * 4096" "st1 = st\<lparr>shared := (shared st)\<lparr>frames := take_page ?f (next_free_page ?f)\<rparr>\<rparr>"
    using assms(2) by (auto simp: table_alloc_def pmm_alloc_page_def)
  show "b \<noteq> 0" "fresh st1 n" "tables st1 = tables st" using assms(1) by (auto simp: b fresh_def Let_def take_page_def)
qed

lemma fresh_mono: "fresh st n \<Longrightarrow> m \<le> n \<Longrightarrow> fresh st m"
  by (simp add: fresh_def Let_def)

lemma fresh_tables: "fresh (set_entry st t i e) n = fresh st n" "fresh (set_table st t f) n = fresh st n"
  by (simp_all add: fresh_def set_entry_def set_table_def)

lemma fresh_get_or_create:
  assumes f: "fresh st (Suc n)" and g: "get_or_create_table st t i True = (r, st1)"
  shows "\<exists>b. r = Some b" "fresh st1 n"
proof -
  obtain b st2 where a: "table_alloc st = (b, st2)" by fastforce
  have m: "fresh st n" using fresh_mono [OF f] by simp
  show "\<exists>b. r = Some b" "fresh st1 n"
    using g a m fresh_alloc(1,2) [OF f a] by (auto simp: get_or_create_table_def Let_def fresh_tables split: if_splits)
qed

lemma fresh_split_huge:
  assumes f: "fresh st (Suc n)" and g: "split_huge st t i = (r, st1)"
  shows "r" "fresh st1 n"
proof -
  obtain b st2 where a: "table_alloc st = (b, st2)" by fastforce
  have m: "fresh st n" using fresh_mono [OF f] by simp
  show "r" "fresh st1 n"
    using g a m fresh_alloc(1,2) [OF f a] by (auto simp: split_huge_def Let_def fresh_tables split: if_splits)
qed

lemma fresh_map_page:
  assumes "fresh st (Suc (Suc (Suc (Suc n))))" "phys_to_virt p \<noteq> 0" "map_page_in_pml4 st p v phys flags = (r, st')"
  shows "r = 0" "fresh st' n"
proof -
  obtain r1 st1 where g1: "get_or_create_table st p (PML4_INDEX v) True = (r1, st1)" by fastforce
  obtain b1 where b1: "r1 = Some b1" "fresh st1 (Suc (Suc (Suc n)))" using fresh_get_or_create [OF assms(1) g1] by auto
  obtain r2 st2 where g2: "get_or_create_table st1 b1 (PDPT_INDEX v) True = (r2, st2)" by fastforce
  obtain b2 where b2: "r2 = Some b2" "fresh st2 (Suc (Suc n))" using fresh_get_or_create [OF b1(2) g2] by auto
  obtain r3 st3 where g3: "split_huge st2 b2 (PD_INDEX v) = (r3, st3)" by fastforce
  note b3 = fresh_split_huge [OF b2(2) g3]
  obtain r4 st4 where g4: "get_or_create_table st3 b2 (PD_INDEX v) True = (r4, st4)" by fastforce
  obtain b4 where b4: "r4 = Some b4" "fresh st4 n" using fresh_get_or_create [OF b3(2) g4] by auto
  show "r = 0" "fresh st' n" using assms(2,3) b1(1) b2(1) b3(1) b4 by (auto simp: map_page_in_pml4_def g1 g2 g3 g4 fresh_tables)
qed

lemma fresh_map_pages:
  assumes "fresh st (5 * n)" "phys_to_virt p \<noteq> 0" "map_fresh_pages st p v flags n = (ps, st')"
  shows "length ps = n"
  using assms
proof (induction n arbitrary: st v ps)
  case (Suc n)
  obtain b st1 where al: "table_alloc st = (b, st1)" by fastforce
  have f: "fresh st (Suc (Suc (Suc (Suc (Suc (5 * n))))))" by (rule fresh_mono [OF Suc.prems(1)]) simp
  note b = fresh_alloc [OF f al]
  obtain r st2 where m: "map_page_in_pml4 st1 p v (of_nat b) flags = (r, st2)" by fastforce
  note r = fresh_map_page [OF b(2) Suc.prems(2) m]
  show ?case using Suc.prems(3) Suc.IH [OF r(2) Suc.prems(2)] al m b(1) r(1) by (auto split: prod.splits)
qed simp

lemma sys_mmap_private_succeeds:
  assumes "fresh (space p) (5 * (unat (page_align len) div 4096))" "phys_to_virt (page_table p) \<noteq> 0" "len \<noteq> 0"
    "has flags MAP_ANONYMOUS" "\<not> has flags MAP_FIXED" "\<not> has flags MAP_SHARED" "free_slot p = Some slot"
  shows "fst (sys_mmap p len prot flags oom oom_create) = fst (mmap_alloc_va p (page_align len))"
proof -
  obtain base p1 where a: "mmap_alloc_va p (page_align len) = (base, p1)" by fastforce
  then have "page_table p1 = page_table p" "space p1 = space p" by (auto simp: mmap_alloc_va_def Let_def split: option.splits)
  then show ?thesis using assms a fresh_map_pages [OF assms(1,2)] by (simp add: sys_mmap_def Let_def split: prod.splits)
qed


end
