(* ===== verification/Users.thy ===== *)
theory Users
  imports Lufirafs KString Sha256
begin

text \<open>
  The user and group database, kernel/system/users/users.c: two text files of
  the native file system, parsed into fixed tables at boot, appended to and
  rewritten by the operations. Text is a \<open>string\<close> up to its terminator; a file
  holds its character codes. The clock that seeds the salts and the contents of
  the uninitialised hash context are inputs.
\<close>

section \<open>The code: tables\<close>

definition MAX_USERS :: nat where "MAX_USERS = 32"
definition MAX_GROUPS :: nat where "MAX_GROUPS = 32"

record user_entry =
  username :: string
  u_uid :: u32
  u_gid :: u32
  password_salt :: u32
  password_hash :: bytes
  home :: string
  u_in_use :: bool

record group_entry =
  groupname :: string
  g_gid :: u32
  g_in_use :: bool

record users =
  g_users :: "user_entry list"
  g_groups :: "group_entry list"
  salt_counter :: u32
  hash_stack :: sha256_ctx
  u_fs :: lufirafs

definition no_user :: user_entry where
  "no_user = \<lparr>username = '''', u_uid = 0, u_gid = 0, password_salt = 0, password_hash = replicate 32 0, home = '''',
              u_in_use = False\<rparr>"

definition no_group :: group_entry where
  "no_group = \<lparr>groupname = '''', g_gid = 0, g_in_use = False\<rparr>"

definition byte_of :: "char \<Rightarrow> u8" where "byte_of c = of_nat (of_char c)"
definition char_at :: "u8 \<Rightarrow> char" where "char_at b = char_of (unat b)"

definition PASSWD_PATH :: bytes where "PASSWD_PATH = map byte_of ''/etc/passwd''"
definition GROUP_PATH :: bytes where "GROUP_PATH = map byte_of ''/etc/group''"

section \<open>The code: text\<close>

definition copy_bounded :: "string \<Rightarrow> nat \<Rightarrow> string" where
  "copy_bounded src max_len = take (max_len - 1) (cstr src)"

definition salted_password_hash :: "sha256_ctx \<Rightarrow> u32 \<Rightarrow> string \<Rightarrow> bytes" where
  "salted_password_hash ctx salt password =
    (let salt_be = [ucast (drop_bit 24 salt), ucast (drop_bit 16 salt), ucast (drop_bit 8 salt), ucast salt];
         ctx1 = sha256_update (sha256_init ctx) salt_be
     in sha256_final (sha256_update ctx1 (map byte_of (take (strlen password) password))))"

definition generate_salt :: "users \<Rightarrow> nat \<Rightarrow> u32 \<times> users" where
  "generate_salt s now =
    (let c = salt_counter s + 1
     in (of_nat now XOR (c * 0x9e3779b9) XOR 0xA5A5A5A5, s\<lparr>salt_counter := c\<rparr>))"

definition hex_char :: "nat \<Rightarrow> char" where
  "hex_char d = ''0123456789abcdef'' ! d"

text \<open>The eight digits, the last one first.\<close>

fun format_hex8_loop :: "nat \<Rightarrow> u32 \<Rightarrow> string \<Rightarrow> string" where
  "format_hex8_loop 0 v out = out"
| "format_hex8_loop (Suc i) v out = format_hex8_loop i (drop_bit 4 v) (hex_char (unat (v AND 0xF)) # out)"

definition format_hex8 :: "u32 \<Rightarrow> string" where
  "format_hex8 v = format_hex8_loop 8 v []"

definition bytes_to_hex :: "bytes \<Rightarrow> string" where
  "bytes_to_hex data = concat (map (\<lambda>b. [hex_char (unat (drop_bit 4 b AND 0xF)), hex_char (unat (b AND 0xF))]) data)"

fun hex_to_bytes :: "string \<Rightarrow> nat \<Rightarrow> bytes" where
  "hex_to_bytes hex 0 = []"
| "hex_to_bytes (c1 # c2 # hex) (Suc n) =
    (case hex_digit c1 of None \<Rightarrow> replicate (Suc n) 0
     | Some hi \<Rightarrow> (case hex_digit c2 of None \<Rightarrow> replicate (Suc n) 0
                   | Some lo \<Rightarrow> word_of_int (hi * 16 + lo) # hex_to_bytes hex n))"
| "hex_to_bytes hex (Suc n) = replicate (Suc n) 0"

definition dec_char :: "nat \<Rightarrow> char" where
  "dec_char d = char_of (48 + d)"

fun dec_rev :: "nat \<Rightarrow> string" where
  "dec_rev v = (if v = 0 then [] else dec_char (v mod 10) # dec_rev (v div 10))"

declare dec_rev.simps [simp del]

definition format_dec :: "u32 \<Rightarrow> string" where
  "format_dec v = (if v = 0 then ''0'' else rev (dec_rev (unat v)))"

definition colon :: char where "colon = CHR '':''"
definition newline :: char where "newline = CHR 0x0A"

text \<open>At most \<open>n\<close> fields; the last one keeps further colons.\<close>

fun split_fields :: "nat \<Rightarrow> string \<Rightarrow> string list" where
  "split_fields (Suc (Suc n)) line =
    (case dropWhile (\<lambda>c. c \<noteq> colon) line of
       [] \<Rightarrow> [line]
     | _ # rest \<Rightarrow> takeWhile (\<lambda>c. c \<noteq> colon) line # split_fields (Suc n) rest)"
| "split_fields n line = [line]"

definition read_whole_file :: "lufirafs \<Rightarrow> bytes \<Rightarrow> bool \<Rightarrow> string option \<times> lufirafs" where
  "read_whole_file fs path oom1 =
    (case lufirafs_lookup fs (root_inode (sb fs)) path of
       (None, fs1) \<Rightarrow> (None, fs1)
     | (Some ino, fs1) \<Rightarrow>
         (case lufirafs_read_inode fs1 ino of
            None \<Rightarrow> (None, fs1)
          | Some n \<Rightarrow>
              if oom1 then (None, fs1)
              else case lufirafs_read fs1 ino 0 (i_size n) of (br, out, fs2) \<Rightarrow>
                     if br < 0 then (None, fs2) else (Some (cstr (map char_at out)), fs2)))"

section \<open>The code: parsing\<close>

text \<open>One line of the file: \<open>None\<close> for a blank line, a comment or too few fields.\<close>

definition parse_user_line :: "string \<Rightarrow> user_entry option" where
  "parse_user_line line =
    (if line = [] \<or> hd line = CHR ''#'' then None
     else let fields = split_fields 6 line; n = length fields
      in if n \<ge> 5
         then Some \<lparr>username = copy_bounded (fields ! 0) 32, u_uid = word_of_int (atoi (fields ! 1)),
                    u_gid = word_of_int (atoi (fields ! 2)), password_salt = word_of_int (hex_to_int (fields ! 3)),
                    password_hash = hex_to_bytes (fields ! 4) 32,
                    home = (if n \<ge> 6 then copy_bounded (fields ! 5) 64 else ''/''), u_in_use = True\<rparr>
         else None)"

definition parse_group_line :: "string \<Rightarrow> group_entry option" where
  "parse_group_line line =
    (if line = [] \<or> hd line = CHR ''#'' then None
     else let fields = split_fields 2 line
      in if length fields \<ge> 2
         then Some \<lparr>groupname = copy_bounded (fields ! 0) 32, g_gid = word_of_int (atoi (fields ! 1)), g_in_use = True\<rparr>
         else None)"

lemma parse_rest_shorter: "xs \<noteq> [] \<Longrightarrow> length (drop 1 (dropWhile P xs)) < length xs"
  using length_dropWhile_le [of P xs] by (cases xs) auto

text \<open>The line loop of both parsers, at most \<open>room\<close> entries.\<close>

function parse_lines :: "(string \<Rightarrow> 'a option) \<Rightarrow> nat \<Rightarrow> string \<Rightarrow> 'a list" where
  "parse_lines parse room text =
    (if text = [] \<or> room = 0 then []
     else let line = takeWhile (\<lambda>c. c \<noteq> newline) text; rest = drop 1 (dropWhile (\<lambda>c. c \<noteq> newline) text)
      in case parse line of
           None \<Rightarrow> parse_lines parse room rest
         | Some e \<Rightarrow> e # parse_lines parse (room - 1) rest)"
  by pat_completeness auto
termination
  by (relation "measure (\<lambda>(_, _, t). length t)") (use parse_rest_shorter in \<open>auto simp: length_dropWhile_le\<close>)

declare parse_lines.simps [simp del]

definition parse_passwd :: "users \<Rightarrow> bool \<Rightarrow> users" where
  "parse_passwd s oom1 =
    (case read_whole_file (u_fs s) PASSWD_PATH oom1 of
       (None, fs1) \<Rightarrow> s\<lparr>g_users := replicate MAX_USERS no_user, u_fs := fs1\<rparr>
     | (Some text, fs1) \<Rightarrow>
         let us = parse_lines parse_user_line MAX_USERS text
         in s\<lparr>g_users := us @ replicate (MAX_USERS - length us) no_user, u_fs := fs1\<rparr>)"

definition parse_group :: "users \<Rightarrow> bool \<Rightarrow> users" where
  "parse_group s oom1 =
    (case read_whole_file (u_fs s) GROUP_PATH oom1 of
       (None, fs1) \<Rightarrow> s\<lparr>g_groups := replicate MAX_GROUPS no_group, u_fs := fs1\<rparr>
     | (Some text, fs1) \<Rightarrow>
         let gs = parse_lines parse_group_line MAX_GROUPS text
         in s\<lparr>g_groups := gs @ replicate (MAX_GROUPS - length gs) no_group, u_fs := fs1\<rparr>)"

definition users_init :: "users \<Rightarrow> bool \<Rightarrow> bool \<Rightarrow> users" where
  "users_init s oom1 oom2 = parse_group (parse_passwd s oom1) oom2"

section \<open>The code: queries\<close>

definition named_user :: "string \<Rightarrow> user_entry \<Rightarrow> bool" where
  "named_user name u \<longleftrightarrow> u_in_use u \<and> strcmp (username u) name = 0"

definition users_lookup_by_name :: "users \<Rightarrow> string \<Rightarrow> user_entry option" where
  "users_lookup_by_name s name = List.find (named_user name) (g_users s)"

definition users_lookup_by_uid :: "users \<Rightarrow> u32 \<Rightarrow> user_entry option" where
  "users_lookup_by_uid s uid = List.find (\<lambda>u. u_in_use u \<and> u_uid u = uid) (g_users s)"

definition groups_lookup_by_name :: "users \<Rightarrow> string \<Rightarrow> group_entry option" where
  "groups_lookup_by_name s name = List.find (\<lambda>g. g_in_use g \<and> strcmp (groupname g) name = 0) (g_groups s)"

definition groups_lookup_by_gid :: "users \<Rightarrow> u32 \<Rightarrow> group_entry option" where
  "groups_lookup_by_gid s gid = List.find (\<lambda>g. g_in_use g \<and> g_gid g = gid) (g_groups s)"

definition users_check_password :: "users \<Rightarrow> string \<Rightarrow> string \<Rightarrow> bool" where
  "users_check_password s name password =
    (case users_lookup_by_name s name of None \<Rightarrow> False
     | Some u \<Rightarrow> salted_password_hash (hash_stack s) (password_salt u) password = password_hash u)"

definition users_root_has_default_password :: "users \<Rightarrow> bool" where
  "users_root_has_default_password s =
    (case users_lookup_by_uid s 0 of None \<Rightarrow> False
     | Some u \<Rightarrow> salted_password_hash (hash_stack s) (password_salt u) ''toor'' = password_hash u)"

text \<open>The endless search for a free number, \<open>fuel\<close> candidates of it.\<close>

fun next_free :: "(u32 \<Rightarrow> bool) \<Rightarrow> nat \<Rightarrow> u32 \<Rightarrow> u32 option" where
  "next_free taken 0 candidate = None"
| "next_free taken (Suc fuel) candidate =
    (if \<not> taken candidate then Some candidate else next_free taken fuel (candidate + 1))"

definition users_next_free_uid :: "users \<Rightarrow> nat \<Rightarrow> u32 option" where
  "users_next_free_uid s fuel = next_free (\<lambda>u. users_lookup_by_uid s u \<noteq> None) fuel 1000"

definition groups_next_free_gid :: "users \<Rightarrow> nat \<Rightarrow> u32 option" where
  "groups_next_free_gid s fuel = next_free (\<lambda>g. groups_lookup_by_gid s g \<noteq> None) fuel 1000"

section \<open>The code: changes\<close>

definition build_user_line :: "user_entry \<Rightarrow> nat \<Rightarrow> string" where
  "build_user_line u cap =
    take (cap - 1)
      (username u @ [colon] @ format_dec (u_uid u) @ [colon] @ format_dec (u_gid u) @ [colon] @
       format_hex8 (password_salt u) @ [colon] @ bytes_to_hex (password_hash u) @ [colon] @
       (if home u \<noteq> [] then home u else ''/'') @ [newline])"

definition users_add :: "users \<Rightarrow> string \<Rightarrow> u32 \<Rightarrow> u32 \<Rightarrow> string \<Rightarrow> string \<Rightarrow> nat \<Rightarrow> int \<times> users" where
  "users_add s name uid gid password home_dir now =
    (if name = [] then (- 1, s)
     else if users_lookup_by_name s name \<noteq> None then (- 1, s)
     else case first_index (\<lambda>u. \<not> u_in_use u) (g_users s) of None \<Rightarrow> (- 1, s)
     | Some slot \<Rightarrow>
         (case lufirafs_lookup (u_fs s) (root_inode (sb (u_fs s))) PASSWD_PATH of
            (None, fs1) \<Rightarrow> (- 1, s\<lparr>u_fs := fs1\<rparr>)
          | (Some ino, fs1) \<Rightarrow>
              (case lufirafs_read_inode fs1 ino of None \<Rightarrow> (- 1, s\<lparr>u_fs := fs1\<rparr>)
               | Some n \<Rightarrow>
                   (case generate_salt (s\<lparr>u_fs := fs1\<rparr>) now of (salt, s1) \<Rightarrow>
                      let u = \<lparr>username = copy_bounded name 32, u_uid = uid, u_gid = gid, password_salt = salt,
                               password_hash = salted_password_hash (hash_stack s1) salt password,
                               home = copy_bounded (if home_dir \<noteq> [] then home_dir else ''/'') 64, u_in_use = True\<rparr>;
                          line = map byte_of (build_user_line u 256)
                      in case lufirafs_write (u_fs s1) ino (i_size n) line of (r, fs2) \<Rightarrow>
                           if r < 0 then (- 1, s1\<lparr>u_fs := fs2\<rparr>)
                           else (0, s1\<lparr>u_fs := lufirafs_sync fs2, g_users := (g_users s1)[slot := u]\<rparr>)))))"

fun rewrite_lines :: "lufirafs \<Rightarrow> nat \<Rightarrow> nat \<Rightarrow> user_entry list \<Rightarrow> int \<times> lufirafs" where
  "rewrite_lines fs ino offset [] = (0, lufirafs_sync fs)"
| "rewrite_lines fs ino offset (u # us) =
    (if \<not> u_in_use u then rewrite_lines fs ino offset us
     else let line = map byte_of (build_user_line u 256)
          in case lufirafs_write fs ino offset line of (r, fs1) \<Rightarrow>
               if r < 0 then (- 1, fs1) else rewrite_lines fs1 ino (wrap32 (offset + length line)) us)"

definition rewrite_passwd_file :: "users \<Rightarrow> int \<times> users" where
  "rewrite_passwd_file s =
    (case lufirafs_lookup (u_fs s) (root_inode (sb (u_fs s))) PASSWD_PATH of
       (None, fs1) \<Rightarrow> (- 1, s\<lparr>u_fs := fs1\<rparr>)
     | (Some ino, fs1) \<Rightarrow>
         (case lufirafs_truncate fs1 ino 0 of (r, fs2) \<Rightarrow>
            if r \<noteq> 0 then (- 1, s\<lparr>u_fs := fs2\<rparr>)
            else case rewrite_lines fs2 ino 0 (g_users s) of (r2, fs3) \<Rightarrow> (r2, s\<lparr>u_fs := fs3\<rparr>)))"

definition users_set_password :: "users \<Rightarrow> string \<Rightarrow> string \<Rightarrow> nat \<Rightarrow> int \<times> users" where
  "users_set_password s name new_password now =
    (case first_index (named_user name) (g_users s) of None \<Rightarrow> (- 1, s)
     | Some i \<Rightarrow>
         (case generate_salt s now of (salt, s1) \<Rightarrow>
            let u = (g_users s1 ! i)\<lparr>password_salt := salt,
                       password_hash := salted_password_hash (hash_stack s1) salt new_password\<rparr>
            in rewrite_passwd_file (s1\<lparr>g_users := (g_users s1)[i := u]\<rparr>)))"

definition groups_add :: "users \<Rightarrow> string \<Rightarrow> u32 \<Rightarrow> int \<times> users" where
  "groups_add s name gid =
    (if name = [] then (- 1, s)
     else if groups_lookup_by_name s name \<noteq> None then (- 1, s)
     else case first_index (\<lambda>g. \<not> g_in_use g) (g_groups s) of None \<Rightarrow> (- 1, s)
     | Some slot \<Rightarrow>
         (case lufirafs_lookup (u_fs s) (root_inode (sb (u_fs s))) GROUP_PATH of
            (None, fs1) \<Rightarrow> (- 1, s\<lparr>u_fs := fs1\<rparr>)
          | (Some ino, fs1) \<Rightarrow>
              (case lufirafs_read_inode fs1 ino of None \<Rightarrow> (- 1, s\<lparr>u_fs := fs1\<rparr>)
               | Some n \<Rightarrow>
                   let line = map byte_of (take 79 (cstr name @ [colon] @ format_dec gid @ [newline]))
                   in case lufirafs_write fs1 ino (i_size n) line of (r, fs2) \<Rightarrow>
                        if r < 0 then (- 1, s\<lparr>u_fs := fs2\<rparr>)
                        else (0, s\<lparr>u_fs := lufirafs_sync fs2, g_groups := (g_groups s)[slot :=
                               \<lparr>groupname = copy_bounded name 32, g_gid = gid, g_in_use = True\<rparr>]\<rparr>))))"

section \<open>Free numbers\<close>

text \<open>The search meets distinct numbers, so one more than are taken is enough.\<close>

lemma next_free_spec:
  "next_free taken fuel c = (if \<exists>k<fuel. \<not> taken (c + of_nat k) then Some (c + of_nat (LEAST k. \<not> taken (c + of_nat k))) else None)"
proof (induction fuel arbitrary: c)
  case (Suc fuel)
  show ?case
  proof (cases "taken c")
    case True
    have ex: "(\<exists>k<Suc fuel. \<not> taken (c + of_nat k)) \<longleftrightarrow> (\<exists>k<fuel. \<not> taken (c + 1 + of_nat k))"
    proof
      assume "\<exists>k<Suc fuel. \<not> taken (c + of_nat k)"
      then obtain k where k: "k < Suc fuel" "\<not> taken (c + of_nat k)" by blast
      then have "k \<noteq> 0" using True by (cases k) auto
      then show "\<exists>k<fuel. \<not> taken (c + 1 + of_nat k)" using k by (intro exI [of _ "k - 1"]) (cases k, auto simp: add_ac)
    next
      assume "\<exists>k<fuel. \<not> taken (c + 1 + of_nat k)"
      then obtain k where "k < fuel" "\<not> taken (c + 1 + of_nat k)" by blast
      then show "\<exists>k<Suc fuel. \<not> taken (c + of_nat k)" by (intro exI [of _ "Suc k"]) (auto simp: add_ac)
    qed
    have "(LEAST k. \<not> taken (c + of_nat k)) = Suc (LEAST k. \<not> taken (c + 1 + of_nat k))"
      if "\<not> taken (c + 1 + of_nat k)" for k
      using Least_Suc [of "\<lambda>k. \<not> taken (c + of_nat k)" "Suc k"] that True by (simp add: add_ac)
    then show ?thesis unfolding ex using Suc.IH [of "c + 1"] True by (auto simp: add_ac)
  next
    case False
    then have "(LEAST k. \<not> taken (c + of_nat k)) = 0" by (intro Least_eq_0) simp
    then show ?thesis using False by (auto intro: exI [of _ 0])
  qed
qed simp

lemma next_free_returns:
  assumes "finite T" "\<And>u. taken u \<Longrightarrow> u \<in> T" "card T < fuel" "fuel \<le> 2 ^ 32"
  shows "\<exists>u. next_free taken fuel c = Some u \<and> \<not> taken u"
proof -
  let ?f = "\<lambda>k. c + of_nat k :: u32"
  have "inj_on ?f {..<fuel}"
  proof (rule inj_onI)
    fix x y assume xy: "x \<in> {..<fuel}" "y \<in> {..<fuel}" "c + of_nat x = c + of_nat y"
    then have "unat (of_nat x :: u32) = unat (of_nat y :: u32)" by simp
    then show "x = y" using xy assms(4) by (simp add: unat_of_nat take_bit_eq_mod)
  qed
  then have "card (?f ` {..<fuel}) = fuel" by (simp add: card_image)
  then have "\<not> ?f ` {..<fuel} \<subseteq> T" using assms(1,3) card_mono by (metis leD)
  then obtain k where k: "k < fuel" "\<not> taken (?f k)" using assms(2) by blast
  then show ?thesis using LeastI [of "\<lambda>k. \<not> taken (?f k)" k] by (auto simp: next_free_spec)
qed

lemma users_next_free_uid_returns:
  assumes "length (g_users s) < fuel" "fuel \<le> 2 ^ 32"
  shows "\<exists>u. users_next_free_uid s fuel = Some u \<and> users_lookup_by_uid s u = None"
proof -
  have "card (u_uid ` set (g_users s)) \<le> length (g_users s)" by (meson card_image_le card_length finite_set le_trans)
  then have "\<exists>u. next_free (\<lambda>u. users_lookup_by_uid s u \<noteq> None) fuel 1000 = Some u \<and> \<not> users_lookup_by_uid s u \<noteq> None"
    using assms by (intro next_free_returns [of "u_uid ` set (g_users s)"])
      (auto simp: users_lookup_by_uid_def find_Some_iff dest!: nth_mem)
  then show ?thesis by (simp add: users_next_free_uid_def)
qed

lemma groups_next_free_gid_returns:
  assumes "length (g_groups s) < fuel" "fuel \<le> 2 ^ 32"
  shows "\<exists>g. groups_next_free_gid s fuel = Some g \<and> groups_lookup_by_gid s g = None"
proof -
  have "card (g_gid ` set (g_groups s)) \<le> length (g_groups s)" by (meson card_image_le card_length finite_set le_trans)
  then have "\<exists>g. next_free (\<lambda>g. groups_lookup_by_gid s g \<noteq> None) fuel 1000 = Some g \<and> \<not> groups_lookup_by_gid s g \<noteq> None"
    using assms by (intro next_free_returns [of "g_gid ` set (g_groups s)"])
      (auto simp: groups_lookup_by_gid_def find_Some_iff dest!: nth_mem)
  then show ?thesis by (simp add: groups_next_free_gid_def)
qed

section \<open>Printing and parsing numbers\<close>

lemma hex_char_digit: "d < 16 \<Longrightarrow> hex_digit (hex_char d) = Some (int d)"
proof -
  have "list_all (\<lambda>d. hex_digit (hex_char d) = Some (int d)) [0..<16]" by code_simp
  then show "d < 16 \<Longrightarrow> hex_digit (hex_char d) = Some (int d)" by (simp add: list_all_iff)
qed

lemma unat_low_digit: "unat (v AND 0xF :: 'a :: len word) = unat v mod 16"
proof -
  have "v AND 0xF = take_bit 4 v" by (simp add: take_bit_eq_mask mask_numeral)
  then have "unat (v AND 0xF) = take_bit 4 (unat v)" by (simp only: unsigned_take_bit_eq)
  then show ?thesis by (simp add: take_bit_eq_mod)
qed

lemma unat_drop4: "unat (drop_bit 4 (v :: 'a :: len word)) = unat v div 16"
proof -
  have "unat (drop_bit 4 v) = drop_bit 4 (unat v)" by (simp add: unsigned_drop_bit_eq take_bit_nat_eq_self unsigned_less)
  then show ?thesis by (simp add: drop_bit_eq_div)
qed

lemma format_hex8_value:
  "hex_value a (format_hex8_loop i v out) = hex_value (a * 16 ^ i + unat v mod 16 ^ i) out"
proof (induction i arbitrary: v out)
  case (Suc i)
  have "unat v mod 16 ^ Suc i = 16 * (unat v div 16 mod 16 ^ i) + unat v mod 16"
    by (simp add: mod_mult2_eq)
  then show ?case
    by (simp add: Suc.IH unat_low_digit unat_drop4 hex_char_digit algebra_simps)
qed simp

lemma hex_to_int_format: "word_of_int (hex_to_int (format_hex8 v)) = v"
proof -
  have "hex_value 0 (format_hex8 v) = unat v"
    using unsigned_less [of v, where ?'a = nat] by (simp add: format_hex8_def format_hex8_value)
  then show ?thesis using hex_loop_value [of 0 "format_hex8 v"] by (simp add: hex_to_int_def)
qed

lemma dec_char_digit: "d < 10 \<Longrightarrow> is_digit (dec_char d) \<and> nat (ucode (dec_char d) - 48) = d"
  by (auto simp: dec_char_def is_digit_range ucode_def)

lemma dec_value_append_digit:
  "\<forall>c\<in>set s. is_digit c \<Longrightarrow> dec_value a (s @ t) = dec_value (dec_value a s) t"
  by (induction s arbitrary: a) auto

lemma dec_rev_digits: "c \<in> set (dec_rev v) \<Longrightarrow> is_digit c"
proof (induction v rule: dec_rev.induct)
  case (1 v)
  then show ?case using dec_char_digit [of "v mod 10"] by (subst (asm) dec_rev.simps) (auto split: if_splits)
qed

lemma dec_value_rev: "dec_value 0 (rev (dec_rev v)) = v"
proof (induction v rule: dec_rev.induct)
  case (1 v)
  show ?case
  proof (cases "v = 0")
    case True
    then show ?thesis by (simp add: dec_rev.simps [of 0])
  next
    case False
    have "\<forall>c\<in>set (rev (dec_rev (v div 10))). is_digit c" using dec_rev_digits by auto
    then have "dec_value 0 (rev (dec_rev v)) = dec_value (v div 10) [dec_char (v mod 10)]"
      using False 1 by (simp add: dec_rev.simps [of v] dec_value_append_digit)
    then show ?thesis using dec_char_digit [of "v mod 10"] by simp
  qed
qed

lemma format_dec_digits: "c \<in> set (format_dec v) \<Longrightarrow> is_digit c"
  using dec_rev_digits by (auto simp: format_dec_def is_digit_range split: if_splits)

lemma atoi_format: "word_of_int (atoi (format_dec v)) = v"
proof -
  have val: "dec_value 0 (format_dec v) = unat v"
    by (auto simp: format_dec_def dec_value_rev is_digit_range)
  have "hd0 (format_dec v) \<noteq> CHR ''-''"
    using format_dec_digits [of "CHR ''-''" v] by (cases "format_dec v") (auto simp: is_digit_range)
  then show ?thesis using atoi_loop_value [of 0 "format_dec v"] val by (simp add: atoi_def)
qed

lemma bytes_to_hex_Cons:
  "bytes_to_hex (b # bs) = hex_char (unat (drop_bit 4 b AND 0xF)) # hex_char (unat (b AND 0xF)) # bytes_to_hex bs"
  by (simp add: bytes_to_hex_def)

lemma hex_bytes_round_trip: "hex_to_bytes (bytes_to_hex h) (length h) = h"
proof (induction h)
  case (Cons b h)
  have "unat b div 16 < 16" using unsigned_less [of b, where ?'a = nat] by simp
  moreover have "word_of_int (int (unat b div 16) * 16 + int (unat b mod 16)) = b"
  proof -
    have "int (unat b div 16) * 16 + int (unat b mod 16) = int (unat b)" by (metis of_nat_add of_nat_mult of_nat_numeral div_mult_mod_eq)
    then show ?thesis by simp
  qed
  ultimately show ?case using Cons.IH
    by (simp add: bytes_to_hex_Cons unat_low_digit unat_drop4 hex_char_digit)
qed simp

section \<open>Lines and files\<close>

text \<open>Text without the characters that structure the file.\<close>

definition plain :: "string \<Rightarrow> bool" where
  "plain s \<longleftrightarrow> NUL \<notin> set s \<and> newline \<notin> set s \<and> colon \<notin> set s"

lemma digit_plain: "\<forall>c\<in>set s. is_digit c \<Longrightarrow> plain s"
  by (auto simp: plain_def newline_def colon_def is_digit_range ucode_def)

lemma hex_char_plain: "d < 16 \<Longrightarrow> hex_char d \<noteq> NUL \<and> hex_char d \<noteq> newline \<and> hex_char d \<noteq> colon"
proof -
  have "list_all (\<lambda>d. hex_char d \<noteq> NUL \<and> hex_char d \<noteq> newline \<and> hex_char d \<noteq> colon) [0..<16]" by code_simp
  then show "d < 16 \<Longrightarrow> hex_char d \<noteq> NUL \<and> hex_char d \<noteq> newline \<and> hex_char d \<noteq> colon" by (simp add: list_all_iff)
qed

lemma format_hex8_loop_plain: "plain out \<Longrightarrow> plain (format_hex8_loop i v out)"
proof (induction i arbitrary: v out)
  case (Suc i)
  have "unat (v AND 0xF) < 16" by (simp add: unat_low_digit)
  from hex_char_plain [OF this] have "plain (hex_char (unat (v AND 0xF)) # out)"
    using Suc.prems unfolding plain_def by (metis set_ConsD)
  then show ?case unfolding format_hex8_loop.simps by (rule Suc.IH)
qed simp

lemma format_hex8_loop_length: "length (format_hex8_loop i v out) = i + length out"
  by (induction i arbitrary: v out) simp_all

lemma format_hex8_props: "plain (format_hex8 v)" "length (format_hex8 v) = 8"
  using format_hex8_loop_plain [of "[]" 8 v] format_hex8_loop_length [of 8 v "[]"]
  by (simp_all add: format_hex8_def plain_def)

lemma bytes_to_hex_props: "plain (bytes_to_hex h)" "length (bytes_to_hex h) = 2 * length h"
proof (induction h)
  case (Cons b h)
  case 1
  show ?case
    using Cons hex_char_plain [of "unat b div 16 mod 16"] hex_char_plain [of "unat b mod 16"]
    by (auto simp: bytes_to_hex_Cons plain_def unat_low_digit unat_drop4)
  case 2
  show ?case using Cons by (simp add: bytes_to_hex_Cons)
qed (simp_all add: bytes_to_hex_def plain_def)

lemma length_dec_rev: "v < 10 ^ k \<Longrightarrow> length (dec_rev v) \<le> k"
proof (induction k arbitrary: v)
  case 0
  then show ?case by (simp add: dec_rev.simps [of 0])
next
  case (Suc k)
  then have "v div 10 < 10 ^ k" by (simp add: less_mult_imp_div_less mult.commute)
  then show ?case using Suc.IH [of "v div 10"] by (simp add: dec_rev.simps [of v])
qed

lemma format_dec_props: "plain (format_dec v)" "length (format_dec v) \<le> 10"
proof -
  show "plain (format_dec v)" using format_dec_digits by (intro digit_plain) auto
  have "unat v < 10 ^ 10" using unsigned_less [of v, where ?'a = nat] by simp
  then show "length (format_dec v) \<le> 10" using length_dec_rev [of "unat v" 10] by (simp add: format_dec_def)
qed

lemma split_fields_step:
  "colon \<notin> set a \<Longrightarrow> split_fields (Suc (Suc n)) (a @ colon # rest) = a # split_fields (Suc n) rest"
  by (simp add: dropWhile_append takeWhile_append takeWhile_eq_all_conv [THEN iffD2] dropWhile_eq_Nil_conv [THEN iffD2])

text \<open>A user the file can represent.\<close>

definition storable :: "user_entry \<Rightarrow> bool" where
  "storable u \<longleftrightarrow> plain (username u) \<and> username u \<noteq> [] \<and> hd (username u) \<noteq> CHR ''#'' \<and> length (username u) < 32 \<and>
     NUL \<notin> set (home u) \<and> newline \<notin> set (home u) \<and> home u \<noteq> [] \<and> length (home u) < 64 \<and>
     length (password_hash u) = 32 \<and> u_in_use u"

definition user_line :: "user_entry \<Rightarrow> string" where
  "user_line u = username u @ colon # format_dec (u_uid u) @ colon # format_dec (u_gid u) @ colon #
     format_hex8 (password_salt u) @ colon # bytes_to_hex (password_hash u) @ colon # home u"

lemma build_user_line_eq:
  assumes "storable u"
  shows "build_user_line u 256 = user_line u @ [newline]"
proof -
  have "length (user_line u @ [newline]) \<le> 255"
    using assms format_dec_props(2) [of "u_uid u"] format_dec_props(2) [of "u_gid u"]
    by (simp add: user_line_def storable_def format_hex8_props bytes_to_hex_props)
  then show ?thesis using assms by (simp add: build_user_line_def user_line_def storable_def)
qed

lemma user_line_clean: "storable u \<Longrightarrow> newline \<notin> set (user_line u) \<and> NUL \<notin> set (user_line u)"
  using format_dec_props(1) format_hex8_props(1) bytes_to_hex_props(1)
  by (auto simp: user_line_def storable_def plain_def newline_def colon_def)

lemma copy_bounded_id: "NUL \<notin> set s \<Longrightarrow> length s < n \<Longrightarrow> copy_bounded s n = s"
  by (simp add: copy_bounded_def cstr_id)

lemma parse_user_line_round_trip:
  assumes "storable u"
  shows "parse_user_line (user_line u) = Some u"
proof -
  have c: "colon \<notin> set (username u)" "colon \<notin> set (format_dec v)" "colon \<notin> set (format_hex8 v)" "colon \<notin> set (bytes_to_hex h)" for v h
    using assms format_dec_props(1) format_hex8_props(1) bytes_to_hex_props(1) by (auto simp: storable_def plain_def)
  have f: "split_fields 6 (user_line u) = [username u, format_dec (u_uid u), format_dec (u_gid u),
      format_hex8 (password_salt u), bytes_to_hex (password_hash u), home u]"
    using c by (simp add: user_line_def split_fields_step numeral_eq_Suc del: split_fields.simps) simp
  have "user_line u \<noteq> []" "hd (user_line u) \<noteq> CHR ''#''" using assms by (auto simp: user_line_def storable_def)
  moreover have "hex_to_bytes (bytes_to_hex (password_hash u)) 32 = password_hash u"
    using hex_bytes_round_trip [of "password_hash u"] assms by (simp add: storable_def)
  ultimately show ?thesis
    using assms by (simp add: parse_user_line_def f atoi_format hex_to_int_format copy_bounded_id storable_def plain_def)
qed

lemma parse_lines_line:
  assumes "newline \<notin> set line" "parse line = Some e" "0 < room"
  shows "parse_lines parse room (line @ newline # text) = e # parse_lines parse (room - 1) text"
proof -
  have "takeWhile (\<lambda>c. c \<noteq> newline) (line @ newline # text) = line"
    "dropWhile (\<lambda>c. c \<noteq> newline) (line @ newline # text) = newline # text"
    using assms(1) by (subst takeWhile_append2 dropWhile_append2; auto)+
  then show ?thesis using assms(2,3) by (subst parse_lines.simps) simp
qed

lemma parse_lines_append:
  assumes "xs = [] \<or> last xs = newline"
  shows "parse_lines parse room (xs @ ys) =
    parse_lines parse room xs @ parse_lines parse (room - length (parse_lines parse room xs)) ys"
  using assms
proof (induction xs arbitrary: room rule: length_induct)
  case (1 xs)
  show ?case
  proof (cases "xs = [] \<or> room = 0")
    case True
    then show ?thesis by (auto simp: parse_lines.simps [of parse 0] parse_lines.simps [of parse _ "[]"])
  next
    case False
    let ?P = "\<lambda>c. c \<noteq> newline"
    have nl: "newline \<in> set xs" using False "1.prems" last_in_set by metis
    then have tw: "takeWhile ?P (xs @ ys) = takeWhile ?P xs" "dropWhile ?P (xs @ ys) = dropWhile ?P xs @ ys"
      by (auto intro: takeWhile_append1 dropWhile_append1)
    have dw: "dropWhile ?P xs \<noteq> []" using nl by (auto simp: dropWhile_eq_Nil_conv)
    define rest where "rest = drop 1 (dropWhile ?P xs)"
    have r: "drop 1 (dropWhile ?P (xs @ ys)) = rest @ ys" using dw tw by (cases "dropWhile ?P xs") (auto simp: rest_def)
    have "rest = [] \<or> last rest = newline"
    proof (cases "rest = []")
      case False
      have "xs = takeWhile ?P xs @ dropWhile ?P xs" by simp
      moreover have "dropWhile ?P xs = hd (dropWhile ?P xs) # rest" using dw by (cases "dropWhile ?P xs") (auto simp: rest_def)
      ultimately have "last xs = last rest" using False by (metis last_ConsR last_appendR list.distinct(1))
      then show ?thesis using "1.prems" \<open>\<not> (xs = [] \<or> room = 0)\<close> by simp
    qed simp
    moreover have "length rest < length xs" using parse_rest_shorter False by (auto simp: rest_def)
    ultimately have ih: "parse_lines parse m (rest @ ys) =
        parse_lines parse m rest @ parse_lines parse (m - length (parse_lines parse m rest)) ys" for m
      using "1.IH" by blast
    have s1: "parse_lines parse room (xs @ ys) = (case parse (takeWhile ?P xs) of None \<Rightarrow> parse_lines parse room (rest @ ys)
        | Some e \<Rightarrow> e # parse_lines parse (room - 1) (rest @ ys))"
      using False by (simp only: parse_lines.simps [of parse room "xs @ ys"] Let_def r tw(1)) simp
    have s2: "parse_lines parse room xs = (case parse (takeWhile ?P xs) of None \<Rightarrow> parse_lines parse room rest
        | Some e \<Rightarrow> e # parse_lines parse (room - 1) rest)"
      using False by (simp only: parse_lines.simps [of parse room xs] Let_def rest_def) simp
    show ?thesis unfolding s1 s2 by (simp add: ih split: option.split)
  qed
qed

lemma parse_lines_users:
  "\<forall>u\<in>set us. storable u \<Longrightarrow> length us \<le> room \<Longrightarrow>
   parse_lines parse_user_line room (concat (map (\<lambda>u. build_user_line u 256) us)) = us"
proof (induction us arbitrary: room)
  case Nil
  then show ?case by (simp add: parse_lines.simps)
next
  case (Cons u us)
  have "parse_lines parse_user_line room (user_line u @ newline # concat (map (\<lambda>u. build_user_line u 256) us)) =
      u # parse_lines parse_user_line (room - 1) (concat (map (\<lambda>u. build_user_line u 256) us))"
    using Cons.prems by (intro parse_lines_line) (auto simp: user_line_clean parse_user_line_round_trip)
  then show ?case using Cons by (simp add: build_user_line_eq)
qed

lemma char_at_byte_of [simp]: "char_at (byte_of c) = c"
  by (simp add: char_at_def byte_of_def unat_of_nat take_bit_eq_mod)

lemma map_char_byte [simp]: "map char_at (map byte_of s) = s"
  by (simp add: o_def)

text \<open>C38: The password file is a faithful store. For every table of at most 32 users whose names
  and home directories are free of the separators, the file made of the lines that \<open>build_user_line\<close> prints
  parses back to exactly this table: names, 32-bit numbers, salts, 32-byte digests and home directories.\<close>

theorem passwd_round_trip:
  assumes "\<forall>u\<in>set us. storable u" "length us \<le> MAX_USERS"
  shows "parse_lines parse_user_line MAX_USERS
    (cstr (map char_at (map byte_of (concat (map (\<lambda>u. build_user_line u 256) us))))) = us"
proof -
  have "NUL \<notin> set (concat (map (\<lambda>u. build_user_line u 256) us))"
    using assms(1) user_line_clean by (auto simp: build_user_line_eq newline_def)
  from cstr_id [OF this] show ?thesis using parse_lines_users [OF assms] by (simp only: map_char_byte)
qed

definition demo_user :: user_entry where
  "demo_user = \<lparr>username = ''alice'', u_uid = 4294967295, u_gid = 100, password_salt = 0xDEADBEEF,
     password_hash = replicate 31 0 @ [0xAB], home = ''/home/a:b'', u_in_use = True\<rparr>"

theorem passwd_round_trip_witness:
  "parse_lines parse_user_line MAX_USERS
    (cstr (map char_at (map byte_of (concat (map (\<lambda>u. build_user_line u 256) [demo_user]))))) = [demo_user]"
  by (rule passwd_round_trip)
    (simp_all add: storable_def demo_user_def plain_def newline_def colon_def MAX_USERS_def)

end
