(* ===== verification/Input.thy ===== *)
theory Input
  imports Mailbox
begin

text \<open>
  The console input ring of kernel/drivers/input/input.c: key presses are put
  into a ring of 256 bytes by the keyboard interrupt and taken out by the
  process that reads /dev/console, which sleeps while the ring is empty. The
  start of the ring is not stored, it is computed from head and count. Keyboard
  and mouse events go to the mailbox of the window manager instead while one is
  registered, as packed requests of wm_protocol.h. What a key does to the view
  of the console is an output of its handler.
\<close>

section \<open>The code\<close>

definition CONSOLE_INPUT_BUF_SIZE :: nat where "CONSOLE_INPUT_BUF_SIZE = 256"

record console_input =
  console_input_buf :: bytes
  console_input_head :: nat
  console_input_count :: nat
  console_input_waiter :: "nat option"

text \<open>The process to make ready, if one waits, and the new ring; a full ring drops the byte.\<close>

definition console_input_push :: "console_input \<Rightarrow> u8 \<Rightarrow> nat option \<times> console_input" where
  "console_input_push c b =
    (if console_input_count c \<ge> CONSOLE_INPUT_BUF_SIZE then (None, c)
     else (console_input_waiter c,
           c\<lparr>console_input_buf := (console_input_buf c)[console_input_head c := b],
             console_input_head := (console_input_head c + 1) mod CONSOLE_INPUT_BUF_SIZE,
             console_input_count := console_input_count c + 1,
             console_input_waiter := None\<rparr>))"

definition console_input_has_data :: "console_input \<Rightarrow> bool" where
  "console_input_has_data c \<longleftrightarrow> console_input_count c > 0"

definition input_start :: "console_input \<Rightarrow> nat" where
  "input_start c =
    nat ((int (console_input_head c) - int (console_input_count c) + int CONSOLE_INPUT_BUF_SIZE) mod int CONSOLE_INPUT_BUF_SIZE)"

text \<open>The copy loop, with \<open>n\<close> bytes copied so far.\<close>

function input_copy :: "console_input \<Rightarrow> nat \<Rightarrow> nat \<Rightarrow> nat \<Rightarrow> bytes \<times> console_input" where
  "input_copy c start n limit =
    (if n < limit \<and> console_input_count c > 0
     then case input_copy (c\<lparr>console_input_count := console_input_count c - 1\<rparr>) start (n + 1) limit of
            (bs, c1) \<Rightarrow> (console_input_buf c ! ((start + n) mod CONSOLE_INPUT_BUF_SIZE) # bs, c1)
     else ([], c))"
  by pat_completeness auto
termination
  by (relation "measure (\<lambda>(_, _, n, limit). limit - n)") auto

declare input_copy.simps [simp del]

text \<open>
  A call up to its return or to the point where the caller is marked as blocked
  and gives up the processor (\<open>None\<close>); a process that is woken up enters the loop again.
\<close>

definition console_input_read :: "console_input \<Rightarrow> nat \<Rightarrow> int \<Rightarrow> bytes option \<times> console_input" where
  "console_input_read c me limit =
    (if limit \<le> 0 then (Some [], c)
     else if console_input_count c = 0 then (None, c\<lparr>console_input_waiter := Some me\<rparr>)
     else case input_copy c (input_start c) 0 (nat limit) of (bs, c1) \<Rightarrow> (Some bs, c1))"

section \<open>The code: keyboard and mouse events\<close>

definition KEY_UP_ARROW :: int where "KEY_UP_ARROW = 3"
definition KEY_DOWN_ARROW :: int where "KEY_DOWN_ARROW = 4"
definition KEY_CTRL_C :: int where "KEY_CTRL_C = 5"
definition KEY_DEBOUNCE_TICKS :: u64 where "KEY_DEBOUNCE_TICKS = 1"
definition WM_INPUT_KEY :: int where "WM_INPUT_KEY = 100"
definition WM_INPUT_MOUSE :: int where "WM_INPUT_MOUSE = 101"

datatype scroll = ScrollUp | ScrollDown | ScrollBottom

record input_sys =
  console :: console_input
  input_procs :: procs
  last_key :: int
  last_pressed :: int
  last_key_tick :: u64
  mouse_x :: int
  mouse_y :: int
  mouse_buttons :: u8
  ctrl_c_pending :: bool

definition le32 :: "int \<Rightarrow> bytes" where
  "le32 v = (let w = word_of_int v :: u32 in [ucast w, ucast (drop_bit 8 w), ucast (drop_bit 16 w), ucast (drop_bit 24 w)])"

text \<open>A zeroed request with its operation code and first arguments set: 4 + 24 + 64 bytes.\<close>

definition wm_request :: "int \<Rightarrow> int list \<Rightarrow> bytes" where
  "wm_request opcode args = le32 opcode @ concat (map le32 (take 6 (args @ replicate 6 0))) @ replicate 64 0"

definition push_key :: "input_sys \<Rightarrow> int \<Rightarrow> input_sys" where
  "push_key s key =
    (case console_input_push (console s) (word_of_int key) of (w, c) \<Rightarrow>
       s\<lparr>console := c,
         input_procs := (case w of None \<Rightarrow> input_procs s | Some q \<Rightarrow> (input_procs s)(q := map_option (set_state READY) (input_procs s q)))\<rparr>)"

text \<open>The clock, the window manager (0 for none), the state of the control key and of the view are inputs.\<close>

definition input_keyboard_event_ex ::
  "input_sys \<Rightarrow> u64 \<Rightarrow> nat \<Rightarrow> bool \<Rightarrow> bool \<Rightarrow> int \<Rightarrow> int \<Rightarrow> scroll option \<times> input_sys" where
  "input_keyboard_event_ex s now wm_pid ctrl scrolled key pressed =
    (if key = 0 then (None, s)
     else
       let dup = (key = last_key s \<and> pressed = last_pressed s \<and> now - last_key_tick s < KEY_DEBOUNCE_TICKS);
           s1 = s\<lparr>last_key := key, last_pressed := pressed, last_key_tick := now\<rparr>
       in if dup then (None, s1)
          else if wm_pid \<noteq> 0
          then (None, s1\<lparr>input_procs := snd (mailbox_send (input_procs s1) wm_pid 0 (wm_request WM_INPUT_KEY [key, pressed]))\<rparr>)
          else if pressed = 0 then (None, s1)
          else
            let s2 = (if key = KEY_UP_ARROW \<or> key = KEY_DOWN_ARROW then (if \<not> ctrl then push_key s1 key else s1)
                      else if key = KEY_CTRL_C then s1 else push_key s1 key)
            in if key = KEY_UP_ARROW \<and> ctrl then (Some ScrollUp, s2)
               else if key = KEY_DOWN_ARROW \<and> ctrl then (Some ScrollDown, s2)
               else if key = KEY_CTRL_C then (if scrolled then Some ScrollBottom else None, s2\<lparr>ctrl_c_pending := True\<rparr>)
               else (None, s2))"

definition input_keyboard_event ::
  "input_sys \<Rightarrow> u64 \<Rightarrow> nat \<Rightarrow> bool \<Rightarrow> bool \<Rightarrow> int \<Rightarrow> scroll option \<times> input_sys" where
  "input_keyboard_event s now wm_pid ctrl scrolled key = input_keyboard_event_ex s now wm_pid ctrl scrolled key 1"

definition clamp :: "int \<Rightarrow> int \<Rightarrow> int" where
  "clamp limit v = (let v1 = (if v < 0 then 0 else v) in if limit \<noteq> 0 \<and> v1 \<ge> limit then limit - 1 else v1)"

definition input_mouse_event :: "input_sys \<Rightarrow> int \<Rightarrow> int \<Rightarrow> nat \<Rightarrow> int \<Rightarrow> int \<Rightarrow> u8 \<Rightarrow> input_sys" where
  "input_mouse_event s screen_width screen_height wm_pid dx dy buttons =
    (let s1 = s\<lparr>mouse_x := clamp screen_width (mouse_x s + dx), mouse_y := clamp screen_height (mouse_y s + dy),
                mouse_buttons := buttons\<rparr>
     in if wm_pid \<noteq> 0
        then s1\<lparr>input_procs := snd (mailbox_send (input_procs s1) wm_pid 0
                  (wm_request WM_INPUT_MOUSE [mouse_x s1, mouse_y s1, uint buttons]))\<rparr>
        else s1)"

section \<open>The ring as a queue\<close>

definition input_inv :: "console_input \<Rightarrow> bool" where
  "input_inv c \<longleftrightarrow> length (console_input_buf c) = 256 \<and> console_input_head c < 256 \<and> console_input_count c \<le> 256"

definition input_bytes :: "console_input \<Rightarrow> bytes" where
  "input_bytes c = ring_contents (console_input_buf c) (input_start c) (console_input_count c)"

lemma input_start_eq:
  assumes "input_inv c"
  shows "input_start c = (console_input_head c + (256 - console_input_count c)) mod 256"
proof -
  have "int (console_input_head c) - int (console_input_count c) + 256 = int (console_input_head c + (256 - console_input_count c))"
    using assms by (simp add: input_inv_def of_nat_diff)
  then have "input_start c = nat (int (console_input_head c + (256 - console_input_count c)) mod 256)"
    by (simp only: input_start_def CONSOLE_INPUT_BUF_SIZE_def of_nat_numeral)
  then show ?thesis by (simp add: nat_mod_distrib del: of_nat_add)
qed

lemma input_push_ok:
  assumes inv: "input_inv c" and room: "console_input_count c < 256" and p: "console_input_push c b = (w, c')"
  shows "input_inv c'" "input_bytes c' = input_bytes c @ [b]"
proof -
  let ?h = "console_input_head c" and ?n = "console_input_count c"
  have c': "console_input_buf c' = (console_input_buf c)[?h := b]" "console_input_head c' = (?h + 1) mod 256" "console_input_count c' = ?n + 1"
    using p room by (auto simp: console_input_push_def CONSOLE_INPUT_BUF_SIZE_def)
  show inv': "input_inv c'" using inv room by (simp add: input_inv_def c')
  have "(?h + 1) mod 256 + (256 - (?n + 1)) = (?h + (256 - ?n)) \<or> (?h + 1) mod 256 + (256 - (?n + 1)) + 256 = (?h + (256 - ?n))"
    using inv room by (auto simp: input_inv_def mod_if)
  then have s: "input_start c' = input_start c"
    unfolding input_start_eq [OF inv] input_start_eq [OF inv'] c' by (metis mod_add_self2)
  have "(input_start c + ?n) mod 256 = (?h + (256 - ?n) + ?n) mod 256" unfolding input_start_eq [OF inv] by (simp add: mod_add_left_eq)
  also have "\<dots> = ?h" using inv by (simp add: input_inv_def)
  finally show "input_bytes c' = input_bytes c @ [b]"
    using ring_push [of ?n "console_input_buf c" "input_start c" b] inv room by (simp add: input_bytes_def c' s input_inv_def)
qed

lemma input_copy_spec:
  "input_copy c start n limit = (bs, c') \<Longrightarrow> length (console_input_buf c) = 256 \<Longrightarrow>
   bs = ring_contents (console_input_buf c) (start + n) (min (limit - n) (console_input_count c)) \<and>
   c' = c\<lparr>console_input_count := console_input_count c - (limit - n)\<rparr>"
proof (induction c start n limit arbitrary: bs rule: input_copy.induct)
  case (1 c start n limit)
  show ?case
  proof (cases "n < limit \<and> console_input_count c > 0")
    case True
    let ?c = "c\<lparr>console_input_count := console_input_count c - 1\<rparr>"
    obtain bs1 where r: "input_copy ?c start (n + 1) limit = (bs1, c')"
      and bs: "bs = console_input_buf c ! ((start + n) mod 256) # bs1"
      using "1.prems"(1) True by (auto simp: input_copy.simps [of c] CONSOLE_INPUT_BUF_SIZE_def split: prod.splits)
    have IH: "bs1 = ring_contents (console_input_buf c) (start + (n + 1)) (min (limit - (n + 1)) (console_input_count c - 1))"
      "c' = c\<lparr>console_input_count := console_input_count c - 1 - (limit - (n + 1))\<rparr>"
      using "1.IH" [OF True r] "1.prems"(2) by simp_all
    have "min (limit - n) (console_input_count c) - 1 = min (limit - (n + 1)) (console_input_count c - 1)" using True by auto
    then have "bs = ring_contents (console_input_buf c) (start + n) (min (limit - n) (console_input_count c))"
      using ring_pop [of "min (limit - n) (console_input_count c)" "console_input_buf c" "start + n"] True "1.prems"(2)
        ring_start_mod [of "console_input_buf c" "start + n + 1"]
      by (simp add: bs IH(1))
    then show ?thesis using IH(2) True by (simp add: Suc_diff_Suc)
  next
    case False
    then show ?thesis using "1.prems"(1) by (auto simp: input_copy.simps [of c])
  qed
qed

text \<open>A read that returns takes the oldest bytes, as many as asked for or as there are.\<close>

lemma input_read_ok:
  assumes inv: "input_inv c" and r: "console_input_read c me limit = (Some bs, c')"
  shows "input_inv c'" "input_bytes c = bs @ input_bytes c'" "length bs = min (nat limit) (console_input_count c)"
proof -
  let ?n = "console_input_count c"
  have "input_inv c' \<and> input_bytes c = bs @ input_bytes c' \<and> length bs = min (nat limit) ?n"
  proof (cases "limit \<le> 0")
    case True
    then show ?thesis using r inv by (simp add: console_input_read_def)
  next
    case False
    then have n: "?n > 0" and cp: "input_copy c (input_start c) 0 (nat limit) = (bs, c')"
      using r by (auto simp: console_input_read_def split: if_splits prod.splits)
    define k where "k = min (nat limit) ?n"
    have bs: "bs = ring_contents (console_input_buf c) (input_start c) k" and c': "c' = c\<lparr>console_input_count := ?n - k\<rparr>"
      using input_copy_spec [OF cp] inv by (auto simp: input_inv_def k_def min_def)
    have inv': "input_inv c'" using inv by (auto simp: input_inv_def c')
    have "k \<le> ?n" by (simp add: k_def)
    have "input_start c' = (console_input_head c + (256 - (?n - k))) mod 256" using input_start_eq [OF inv'] by (simp add: c')
    also have "console_input_head c + (256 - (?n - k)) = console_input_head c + (256 - ?n) + k"
      using \<open>k \<le> ?n\<close> inv by (simp add: input_inv_def)
    finally have start: "input_start c' = (input_start c + k) mod 256" unfolding input_start_eq [OF inv] by (simp add: mod_add_left_eq)
    have "input_bytes c = bs @ input_bytes c'"
      unfolding bs input_bytes_def start
      using \<open>k \<le> ?n\<close> inv ring_split [of k ?n "console_input_buf c" "input_start c"] by (simp add: c' input_inv_def)
    then show ?thesis using inv' bs by (simp add: k_def)
  qed
  then show "input_inv c'" "input_bytes c = bs @ input_bytes c'" "length bs = min (nat limit) ?n" by simp_all
qed

section \<open>Events\<close>

text \<open>A request fits a mailbox slot, so that no event of the window manager is refused for its size.\<close>

lemma length_wm_request [simp]: "length (wm_request opcode args) = 92"
proof -
  have "length (concat (map le32 xs)) = 4 * length xs" for xs by (induction xs) (simp_all add: le32_def Let_def)
  then have "length (concat (map le32 (take 6 (args @ replicate 6 0)))) = 4 * length (take 6 (args @ replicate 6 (0 :: int)))" by blast
  also have "\<dots> = 24" by simp
  finally show ?thesis unfolding wm_request_def length_append by (simp only:) (simp add: le32_def Let_def)
qed

text \<open>The pointer stays on a screen that has a size.\<close>

lemma mouse_on_screen:
  assumes "0 < width" "0 < height"
  shows "mouse_x (input_mouse_event s width height wm dx dy b) \<in> {0..<width}"
    "mouse_y (input_mouse_event s width height wm dx dy b) \<in> {0..<height}"
  using assms by (simp_all add: input_mouse_event_def clamp_def Let_def)

text \<open>The same press reported by two buses in one tick is seen once.\<close>

lemma keyboard_duplicate_ignored:
  assumes "key \<noteq> 0" "input_keyboard_event_ex s now wm ctrl scrolled key pressed = (a, s')"
  shows "input_keyboard_event_ex s' now wm ctrl scrolled key pressed = (None, s')"
proof -
  have "last_key s' = key" "last_pressed s' = pressed" "last_key_tick s' = now"
    using assms by (auto simp: input_keyboard_event_ex_def Let_def push_key_def split: if_splits prod.splits)
  then show ?thesis using assms(1) by (simp add: input_keyboard_event_ex_def Let_def KEY_DEBOUNCE_TICKS_def)
qed

section \<open>Properties\<close>

definition type_keys :: "(u64 \<times> int) list \<Rightarrow> input_sys \<Rightarrow> input_sys" where
  "type_keys ks s = fold (\<lambda>(now, key) s. snd (input_keyboard_event s now 0 False False key)) ks s"

definition text_key :: "int \<Rightarrow> bool" where
  "text_key key \<longleftrightarrow> key \<notin> {0, KEY_CTRL_C}"

lemma text_key_pushed:
  assumes "text_key key" "last_key_tick s < now" "input_inv (console s)" "console_input_count (console s) < 256"
    "s' = snd (input_keyboard_event s now 0 False False key)"
  shows "input_inv (console s')" "input_bytes (console s') = input_bytes (console s) @ [word_of_int key]" "last_key_tick s' = now"
proof -
  have "\<not> now - last_key_tick s < 1" using assms(2) by (simp add: word_less_1)
  then obtain t p where c: "console s' = snd (console_input_push (console s) (word_of_int key))" and "last_key_tick s' = now"
    using assms(1,5)
    by (auto simp: text_key_def input_keyboard_event_def input_keyboard_event_ex_def push_key_def Let_def KEY_DEBOUNCE_TICKS_def split: prod.splits)
  then show "last_key_tick s' = now" by simp
  show "input_inv (console s')" "input_bytes (console s') = input_bytes (console s) @ [word_of_int key]"
    using input_push_ok [OF assms(3,4) prod.collapse [symmetric], of "word_of_int key"] c by simp_all
qed

lemma type_keys_bytes:
  "sorted_wrt (<) (last_key_tick s # map fst ks) \<Longrightarrow> \<forall>k\<in>snd ` set ks. text_key k \<Longrightarrow> input_inv (console s) \<Longrightarrow>
   length (input_bytes (console s)) + length ks \<le> 256 \<Longrightarrow>
   input_inv (console (type_keys ks s)) \<and> input_bytes (console (type_keys ks s)) = input_bytes (console s) @ map (word_of_int \<circ> snd) ks"
proof (induction ks arbitrary: s)
  case Nil
  then show ?case by (simp add: type_keys_def)
next
  case (Cons tk ks)
  obtain t k where tk: "tk = (t, k)" by fastforce
  define s1 where "s1 = snd (input_keyboard_event s t 0 False False k)"
  have n: "length (input_bytes (console s)) = console_input_count (console s)" by (simp add: input_bytes_def)
  have 1: "input_inv (console s1)" "input_bytes (console s1) = input_bytes (console s) @ [word_of_int k]" "last_key_tick s1 = t"
    by (rule text_key_pushed [OF _ _ Cons.prems(3) _ s1_def]; use Cons.prems n tk in simp)+
  have "type_keys (tk # ks) s = type_keys ks s1" by (simp add: type_keys_def tk s1_def)
  then show ?case using Cons.IH [of s1] Cons.prems 1 tk by simp
qed

text \<open>C21: What is typed is what is read. With no window manager and room in the
  ring, keys pressed in different ticks are delivered to the next read of the console
  in the order of typing, after what was waiting there, each exactly once; a read takes
  as many bytes as it asked for or as there are and leaves the rest for the next one.
\<close>

theorem typed_keys_read_in_order:
  assumes "sorted_wrt (<) (last_key_tick s # map fst ks)" "\<forall>k\<in>snd ` set ks. text_key k" "input_inv (console s)"
    "length (input_bytes (console s)) + length ks \<le> 256" "ks \<noteq> []" "0 < limit"
  shows "case console_input_read (console (type_keys ks s)) me limit of
    (None, c) \<Rightarrow> False
  | (Some bs, c) \<Rightarrow> bs @ input_bytes c = input_bytes (console s) @ map (word_of_int \<circ> snd) ks \<and>
      length bs = min (nat limit) (length (input_bytes (console s)) + length ks)"
proof -
  define c where "c = console (type_keys ks s)"
  note t = type_keys_bytes [OF assms(1-4), folded c_def]
  have n: "console_input_count c = length (input_bytes (console s)) + length ks"
    using arg_cong [OF conjunct2 [OF t], of length] by (simp add: input_bytes_def)
  obtain o1 c1 where r: "console_input_read c me limit = (o1, c1)" by fastforce
  have "o1 \<noteq> None" using r assms(5,6) n by (auto simp: console_input_read_def split: if_splits prod.splits)
  then obtain bs where bs: "o1 = Some bs" by blast
  show ?thesis using input_read_ok [OF conjunct1 [OF t] r [unfolded bs]] t n by (simp add: r bs c_def [symmetric])
qed

definition demo_input :: input_sys where
  "demo_input = \<lparr>console = \<lparr>console_input_buf = replicate 256 0, console_input_head = 0, console_input_count = 0, console_input_waiter = None\<rparr>,
     input_procs = (\<lambda>_. None), last_key = 0, last_pressed = - 1, last_key_tick = 0, mouse_x = 0, mouse_y = 0, mouse_buttons = 0, ctrl_c_pending = False\<rparr>"

theorem typed_keys_read_in_order_witness:
  "\<exists>c. console_input_read (console (type_keys [(1, 108), (2, 115), (3, 10)] demo_input)) 7 2 = (Some [108, 115], c) \<and> input_bytes c = [10]"
proof -
  obtain o1 c where r: "console_input_read (console (type_keys [(1, 108), (2, 115), (3, 10)] demo_input)) 7 2 = (o1, c)" by fastforce
  have e: "input_bytes (console demo_input) = []" by (simp add: demo_input_def input_bytes_def ring_contents_def)
  have "input_inv (console demo_input)" by (simp add: demo_input_def input_inv_def)
  moreover have "last_key_tick demo_input = 0" by (simp add: demo_input_def)
  ultimately have "case (o1, c) of (None, c) \<Rightarrow> False
    | (Some bs, c) \<Rightarrow> bs @ input_bytes c = [108, 115, 10] \<and> length bs = 2"
    using typed_keys_read_in_order [of demo_input "[(1, 108), (2, 115), (3, 10)]" 2 7] e
    by (cases o1) (simp_all add: r text_key_def KEY_CTRL_C_def)
  then obtain bs where "o1 = Some bs" "bs @ input_bytes c = [108, 115, 10]" "length bs = 2" by (cases o1) auto
  then have "o1 = Some [108, 115] \<and> input_bytes c = [10]" by (cases bs; cases "tl bs") auto
  with r show ?thesis by blast
qed

end
