(* ===== verification/Vfs.thy ===== *)
theory Vfs
  imports Pipe Input Lufirafs
begin

text \<open>
  Open files, kernel/fs/vfs/vfs.c and the LufiraFS side of it,
  kernel/fs/lufirafs/lufirafs_vfs.c: the system table of open files, the table
  of descriptors of each process, reference counts shared by \<open>dup2\<close> and
  \<open>fork\<close>, and the dispatch of reads, writes and seeks to the console, to pipes
  and to LufiraFS. A pointer to an open file is its slot in the system table;
  a pipe has a serial number; processes are numbered, idle being 0, and at most 32
  others exist. Every call of the kernel heap may fail: \<open>alloc_ok\<close> says which.
  Files of the FAT, ext2, exFAT and RAM volumes are not part of the model.
\<close>

section \<open>The code: open files\<close>

definition MAX_FD_PER_PROCESS :: nat where "MAX_FD_PER_PROCESS = 16"
definition MAX_FILES_SYSTEM :: nat where "MAX_FILES_SYSTEM = 256"
definition O_APPEND :: u32 where "O_APPEND = 16"
definition O_TRUNC :: u32 where "O_TRUNC = 8"

definition LUFIRAFS_DEFAULT_FILE_PERM :: nat where "LUFIRAFS_DEFAULT_FILE_PERM = 420"
definition LUFIRAFS_DEFAULT_DIR_PERM :: nat where "LUFIRAFS_DEFAULT_DIR_PERM = 493"

definition flag :: "u32 \<Rightarrow> u32 \<Rightarrow> bool" where "flag flags m \<longleftrightarrow> flags AND m \<noteq> 0"

datatype file_type = FT_REGULAR | FT_DIRECTORY | FT_CHARDEV | FT_BLOCKDEV | FT_PIPE | FT_SYMLINK

text \<open>The operation tables a file can point to, and what the private pointer of an inode can point to.\<close>

datatype file_ops = NoOps | ConsoleOps | PipeReadOps | PipeWriteOps | LfsFileOps | LfsDirOps

datatype private_data = NoData | PipeData nat | LfsData nat bool lufirafs_dir

record inode =
  inode_num :: nat
  inode_type :: file_type
  inode_size :: nat
  ref_count :: nat
  private_data :: private_data

record open_file =
  file_fd :: int
  file_inode :: "inode option"
  file_offset :: nat
  file_flags :: u32
  file_ops :: file_ops

record fd_table =
  files :: "nat option list"
  fd_count :: int

datatype console_cmd = Foreground u8 | Background u8 | CursorTo nat nat | ClearScreen | CursorLeft | CursorRight | PutChar u8

record vfs =
  file_table :: "open_file option list"
  fd_tables :: "fd_table list"
  current_fd_table :: nat
  pipe_heap :: "nat \<Rightarrow> pipe option"
  pipe_serial :: nat
  states :: "nat \<Rightarrow> process_state"
  dev_inode_counter :: nat
  con_input :: console_input
  con_output :: "console_cmd list"
  lfs :: lufirafs
  alloc_ok :: "nat \<Rightarrow> bool"
  allocs :: nat

definition heap_alloc :: "vfs \<Rightarrow> bool \<times> vfs" where
  "heap_alloc s = (alloc_ok s (allocs s), s\<lparr>allocs := allocs s + 1\<rparr>)"

definition zero_file :: open_file where
  "zero_file = \<lparr>file_fd = 0, file_inode = None, file_offset = 0, file_flags = 0, file_ops = NoOps\<rparr>"

definition cur_table :: "vfs \<Rightarrow> fd_table" where
  "cur_table s = fd_tables s ! current_fd_table s"

definition set_table :: "vfs \<Rightarrow> fd_table \<Rightarrow> vfs" where
  "set_table s t = s\<lparr>fd_tables := (fd_tables s)[current_fd_table s := t]\<rparr>"

definition set_file :: "vfs \<Rightarrow> nat \<Rightarrow> open_file \<Rightarrow> vfs" where
  "set_file s i f = s\<lparr>file_table := (file_table s)[i := Some f]\<rparr>"

text \<open>What a pointer to a file leads to; a pointer to a freed file is excluded by the invariant below.\<close>

definition file_at :: "vfs \<Rightarrow> nat \<Rightarrow> open_file" where
  "file_at s i = (case file_table s ! i of Some f \<Rightarrow> f | None \<Rightarrow> zero_file)"

definition alloc_fd :: "vfs \<Rightarrow> nat option" where
  "alloc_fd s = first_index (\<lambda>f. f = None) (files (cur_table s))"

text \<open>If the heap is exhausted for one slot the loop tries the next free one.\<close>

fun alloc_file_loop :: "nat list \<Rightarrow> vfs \<Rightarrow> nat option \<times> vfs" where
  "alloc_file_loop [] s = (None, s)"
| "alloc_file_loop (i # is) s =
    (if file_table s ! i = None then
       (case heap_alloc s of (ok, s1) \<Rightarrow> if ok then (Some i, set_file s1 i zero_file) else alloc_file_loop is s1)
     else alloc_file_loop is s)"

definition alloc_file :: "vfs \<Rightarrow> nat option \<times> vfs" where
  "alloc_file s = alloc_file_loop [0..<MAX_FILES_SYSTEM] s"

definition free_file :: "vfs \<Rightarrow> nat \<Rightarrow> vfs" where
  "free_file s i = s\<lparr>file_table := (file_table s)[i := None]\<rparr>"

definition vfs_create_inode :: "vfs \<Rightarrow> nat \<Rightarrow> file_type \<Rightarrow> private_data \<Rightarrow> inode option \<times> vfs" where
  "vfs_create_inode s ino t d =
    (case heap_alloc s of (ok, s1) \<Rightarrow>
       (if ok then Some \<lparr>inode_num = ino, inode_type = t, inode_size = 0, ref_count = 1, private_data = d\<rparr> else None, s1))"

text \<open>Entering a file into the current table, and a device file with its fresh inode.\<close>

definition install :: "vfs \<Rightarrow> nat \<Rightarrow> nat \<Rightarrow> vfs" where
  "install s fd i = set_table s \<lparr>files = (files (cur_table s))[fd := Some i], fd_count = fd_count (cur_table s) + 1\<rparr>"

definition open_device :: "vfs \<Rightarrow> nat \<Rightarrow> nat \<Rightarrow> file_type \<Rightarrow> private_data \<Rightarrow> u32 \<Rightarrow> file_ops \<Rightarrow> vfs" where
  "open_device s fd i t d flags fops =
    (case vfs_create_inode s (dev_inode_counter s) t d of (n, s1) \<Rightarrow>
       install (set_file (s1\<lparr>dev_inode_counter := wrap32 (dev_inode_counter s + 1)\<rparr>) i
         \<lparr>file_fd = int fd, file_inode = n, file_offset = 0, file_flags = flags, file_ops = fops\<rparr>) fd i)"

definition vfs_open_console :: "vfs \<Rightarrow> u32 \<Rightarrow> int \<times> vfs" where
  "vfs_open_console s flags =
    (case alloc_fd s of None \<Rightarrow> (- 1, s)
     | Some fd \<Rightarrow>
         (case alloc_file s of (None, s1) \<Rightarrow> (- 1, s1)
          | (Some i, s1) \<Rightarrow> (int fd, open_device s1 fd i FT_CHARDEV NoData flags ConsoleOps)))"

section \<open>The code: closing and sharing\<close>

definition pipe_of :: "open_file \<Rightarrow> nat option" where
  "pipe_of f = (case file_inode f of None \<Rightarrow> None
     | Some n \<Rightarrow> (case private_data n of PipeData p \<Rightarrow> Some p | _ \<Rightarrow> None))"

definition on_pipe :: "(pipe_sys \<Rightarrow> 'r \<times> pipe_sys) \<Rightarrow> vfs \<Rightarrow> nat \<Rightarrow> ('r \<times> vfs) option" where
  "on_pipe g s p =
    (case pipe_heap s p of None \<Rightarrow> None
     | Some pp \<Rightarrow>
         (case g \<lparr>the_pipe = pp, proc_states = states s, pipe_freed = False\<rparr> of (r, ps) \<Rightarrow>
            Some (r, s\<lparr>pipe_heap := (pipe_heap s)(p := if pipe_freed ps then None else Some (the_pipe ps)),
                       states := proc_states ps\<rparr>)))"

definition close_pipe :: "(pipe_sys \<Rightarrow> pipe_sys) \<Rightarrow> vfs \<Rightarrow> open_file \<Rightarrow> vfs" where
  "close_pipe g s f =
    (case pipe_of f of None \<Rightarrow> s
     | Some p \<Rightarrow> (case on_pipe (\<lambda>ps. ((), g ps)) s p of None \<Rightarrow> s | Some (_, s1) \<Rightarrow> s1))"

text \<open>The \<open>close\<close> operation of the file. Those of LufiraFS free the private data and clear the pointer.\<close>

definition lufirafs_file_close :: "vfs \<Rightarrow> nat \<Rightarrow> vfs" where
  "lufirafs_file_close s i =
    (let f = file_at s i
     in set_file s i (f\<lparr>file_inode := map_option (private_data_update (\<lambda>_. NoData)) (file_inode f)\<rparr>))"

definition lufirafs_dir_close :: "vfs \<Rightarrow> nat \<Rightarrow> vfs" where
  "lufirafs_dir_close s i =
    (let f = file_at s i
     in set_file s i (f\<lparr>file_inode := map_option (private_data_update (\<lambda>_. NoData)) (file_inode f)\<rparr>))"

definition close_op :: "vfs \<Rightarrow> nat \<Rightarrow> vfs" where
  "close_op s i =
    (let f = file_at s i
     in case file_ops f of
          NoOps \<Rightarrow> s
        | ConsoleOps \<Rightarrow> s
        | PipeReadOps \<Rightarrow> close_pipe pipe_close_read s f
        | PipeWriteOps \<Rightarrow> close_pipe pipe_close_write s f
        | LfsFileOps \<Rightarrow> lufirafs_file_close s i
        | LfsDirOps \<Rightarrow> lufirafs_dir_close s i)"

lemmas close_op_defs = close_op_def lufirafs_file_close_def lufirafs_dir_close_def

definition drop_ref :: "vfs \<Rightarrow> nat \<Rightarrow> vfs" where
  "drop_ref s i =
    (let f = file_at s i
     in case file_inode f of None \<Rightarrow> free_file s i
        | Some n \<Rightarrow>
            (let rc = wrap32 (ref_count n + 2 ^ 32 - 1)
             in if rc = 0 then free_file s i else set_file s i (f\<lparr>file_inode := Some (n\<lparr>ref_count := rc\<rparr>)\<rparr>)))"

definition valid_fd :: "int \<Rightarrow> bool" where
  "valid_fd fd \<longleftrightarrow> \<not> (fd < 0 \<or> fd \<ge> int MAX_FD_PER_PROCESS)"

definition vfs_close :: "vfs \<Rightarrow> int \<Rightarrow> int \<times> vfs" where
  "vfs_close s fd =
    (if \<not> valid_fd fd then (- 1, s)
     else case files (cur_table s) ! nat fd of None \<Rightarrow> (- 1, s)
          | Some i \<Rightarrow>
              (let s1 = drop_ref (close_op s i) i; t = cur_table s1
               in (0, set_table s1 \<lparr>files = (files t)[nat fd := None], fd_count = fd_count t - 1\<rparr>)))"

definition add_pipe_end :: "file_ops \<Rightarrow> pipe \<Rightarrow> pipe" where
  "add_pipe_end fops p =
    (if fops = PipeReadOps then p\<lparr>readers := readers p + 1\<rparr>
     else if fops = PipeWriteOps then p\<lparr>writers := writers p + 1\<rparr> else p)"

definition vfs_dup_fd :: "vfs \<Rightarrow> nat \<Rightarrow> vfs" where
  "vfs_dup_fd s i =
    (let f = file_at s i
     in case file_inode f of None \<Rightarrow> s
        | Some n \<Rightarrow>
            (let s1 = set_file s i (f\<lparr>file_inode := Some (n\<lparr>ref_count := wrap32 (ref_count n + 1)\<rparr>)\<rparr>)
             in case pipe_of f of None \<Rightarrow> s1
                | Some p \<Rightarrow>
                    if inode_type n = FT_PIPE
                    then s1\<lparr>pipe_heap := (pipe_heap s1)(p := map_option (add_pipe_end (file_ops f)) (pipe_heap s1 p))\<rparr>
                    else s1))"

text \<open>The two descriptors of a new pipe. If the second file cannot be had the first is closed again.\<close>

definition pipe_open_ends :: "vfs \<Rightarrow> nat \<Rightarrow> (nat \<times> nat) option \<times> vfs" where
  "pipe_open_ends s p =
    (case alloc_fd s of None \<Rightarrow> (None, s\<lparr>pipe_heap := (pipe_heap s)(p := None)\<rparr>)
     | Some read_fd \<Rightarrow>
         (case alloc_file s of (None, s4) \<Rightarrow> (None, s4\<lparr>pipe_heap := (pipe_heap s4)(p := None)\<rparr>)
          | (Some rfile, s4) \<Rightarrow>
              let s5 = open_device s4 read_fd rfile FT_PIPE (PipeData p) 0 PipeReadOps
              in case (case alloc_fd s5 of None \<Rightarrow> (None, s5)
                       | Some write_fd \<Rightarrow> (case alloc_file s5 of (r, s6) \<Rightarrow> (map_option (Pair write_fd) r, s6))) of
                   (None, s6) \<Rightarrow> (None, snd (vfs_close s6 (int read_fd)))
                 | (Some (write_fd, wfile), s6) \<Rightarrow>
                     (Some (read_fd, write_fd), open_device s6 write_fd wfile FT_PIPE (PipeData p) 1 PipeWriteOps)))"

definition vfs_pipe :: "vfs \<Rightarrow> (nat \<times> nat) option \<times> vfs" where
  "vfs_pipe s =
    (case heap_alloc s of (ok1, s1) \<Rightarrow>
     if \<not> ok1 then (None, s1)
     else case heap_alloc s1 of (ok2, s2) \<Rightarrow>
     if \<not> ok2 then (None, s2)
     else
       let p = pipe_serial s2
       in pipe_open_ends (s2\<lparr>pipe_heap := (pipe_heap s2)(p \<mapsto> new_pipe (replicate PIPE_BUF_SIZE 0)), pipe_serial := p + 1\<rparr>) p)"

definition vfs_dup2 :: "vfs \<Rightarrow> int \<Rightarrow> int \<Rightarrow> int \<times> vfs" where
  "vfs_dup2 s oldfd newfd =
    (if \<not> valid_fd oldfd then (- 1, s)
     else if \<not> valid_fd newfd then (- 1, s)
     else case files (cur_table s) ! nat oldfd of None \<Rightarrow> (- 1, s)
          | Some _ \<Rightarrow>
              if oldfd = newfd then (newfd, s)
              else
                let s1 = (if files (cur_table s) ! nat newfd \<noteq> None then snd (vfs_close s newfd) else s);
                    old = files (cur_table s1) ! nat oldfd;
                    s2 = (case old of None \<Rightarrow> s1 | Some i \<Rightarrow> vfs_dup_fd s1 i); t = cur_table s2
                in (newfd, set_table s2 \<lparr>files = (files t)[nat newfd := old], fd_count = fd_count t + 1\<rparr>))"

text \<open>
  The table of a new process (\<open>vfs_init_fd_table\<close>), the part of \<open>process_fork\<close> that hands the
  descriptors of the current process to a child, and the part of \<open>free_process_resources\<close>
  that closes those of a dying one. Each changes the current table for a while.
\<close>

definition std_file :: "nat \<Rightarrow> u32 \<Rightarrow> vfs \<Rightarrow> nat option \<times> vfs" where
  "std_file k flags s =
    (case alloc_file s of (None, s1) \<Rightarrow> (None, s1)
     | (Some i, s1) \<Rightarrow>
         (case vfs_create_inode s1 (101 + k) FT_CHARDEV NoData of (n, s2) \<Rightarrow>
            (Some i, set_file s2 i ((file_at s2 i)\<lparr>file_fd := int k, file_inode := n, file_flags := flags, file_ops := ConsoleOps\<rparr>))))"

definition vfs_init_fd_table :: "vfs \<Rightarrow> nat \<Rightarrow> vfs" where
  "vfs_init_fd_table s k =
    (case std_file 0 0 s of (f0, s0) \<Rightarrow>
     case std_file 1 1 s0 of (f1, s1) \<Rightarrow>
     case std_file 2 1 s1 of (f2, s2) \<Rightarrow>
       s2\<lparr>fd_tables := (fd_tables s2)[k := \<lparr>files = [f0, f1, f2] @ replicate 13 None, fd_count = 3\<rparr>]\<rparr>)"

definition vfs_init :: "vfs \<Rightarrow> vfs" where
  "vfs_init s = vfs_init_fd_table (s\<lparr>file_table := replicate MAX_FILES_SYSTEM None\<rparr>) (current_fd_table s)"

definition close_if_open :: "nat \<Rightarrow> vfs \<Rightarrow> vfs" where
  "close_if_open i s = (if files (cur_table s) ! i \<noteq> None then snd (vfs_close s (int i)) else s)"

definition close_all :: "nat \<Rightarrow> vfs \<Rightarrow> vfs" where
  "close_all k s =
    (fold close_if_open [0..<MAX_FD_PER_PROCESS]
       (s\<lparr>current_fd_table := k\<rparr>))\<lparr>current_fd_table := current_fd_table s\<rparr>"

definition fork_fds :: "nat \<Rightarrow> vfs \<Rightarrow> vfs" where
  "fork_fds child s =
    (let s1 = close_all child s;
         s2 = s1\<lparr>fd_tables := (fd_tables s1)[child := cur_table s1]\<rparr>
     in fold (\<lambda>i s. case files (fd_tables s ! child) ! i of None \<Rightarrow> s | Some f \<Rightarrow> vfs_dup_fd s f) [0..<MAX_FD_PER_PROCESS] s2)"

section \<open>The code: LufiraFS files\<close>

definition build_inode :: "vfs \<Rightarrow> nat \<Rightarrow> inode option \<times> vfs" where
  "build_inode s ino =
    (case lufirafs_read_inode (lfs s) ino of None \<Rightarrow> (None, s)
     | Some d \<Rightarrow>
         (case heap_alloc s of (ok, s1) \<Rightarrow>
            if \<not> ok then (None, s1)
            else let is_dir = (i_mode d = 2)
                 in case vfs_create_inode s1 ino (if is_dir then FT_DIRECTORY else FT_REGULAR)
                           (LfsData ino is_dir (if is_dir then lufirafs_opendir ino else \<lparr>dir_ino = 0, dir_index = 0\<rparr>)) of
                      (n, s2) \<Rightarrow> (map_option (\<lambda>n. n\<lparr>inode_size := i_size d\<rparr>) n, s2)))"

definition dev_prefix :: "bytes \<Rightarrow> bool" where
  "dev_prefix path \<longleftrightarrow> take 4 path = [47, 100, 101, 118]"

definition vfs_lufirafs_open_at :: "vfs \<Rightarrow> nat \<Rightarrow> bytes \<Rightarrow> u32 \<Rightarrow> int \<times> vfs" where
  "vfs_lufirafs_open_at s base path flags =
    (if path = [] then (- 1, s)
     else if dev_prefix path then (- 1, s)
     else case lufirafs_lookup (lfs s) base path of
       (None, l) \<Rightarrow> (- 1, s\<lparr>lfs := l\<rparr>)
     | (Some ino, l) \<Rightarrow>
         (case alloc_fd (s\<lparr>lfs := l\<rparr>) of None \<Rightarrow> (- 1, s\<lparr>lfs := l\<rparr>)
          | Some fd \<Rightarrow>
              (case build_inode (s\<lparr>lfs := l\<rparr>) ino of
                 (None, s1) \<Rightarrow> (- 1, s1)
               | (Some n, s1) \<Rightarrow>
                   (case alloc_file s1 of
                      (None, s2) \<Rightarrow> (- 1, s2)
                    | (Some i, s2) \<Rightarrow>
                        let dir = (inode_type n = FT_DIRECTORY); trunc = (flag flags O_TRUNC \<and> \<not> dir);
                            f = \<lparr>file_fd = int fd, file_inode = Some (if trunc then n\<lparr>inode_size := 0\<rparr> else n),
                                 file_offset = (if flag flags O_APPEND \<and> \<not> trunc then inode_size n else 0),
                                 file_flags = flags, file_ops = (if dir then LfsDirOps else LfsFileOps)\<rparr>;
                            s3 = (if trunc then s2\<lparr>lfs := snd (lufirafs_truncate (lfs s2) ino 0)\<rparr> else s2)
                        in (int fd, install (set_file s3 i f) fd i)))))"

text \<open>Creating and removing by path, for a user and a group; what succeeds is written to disk at once.\<close>

definition sync_if :: "int \<times> lufirafs \<Rightarrow> int \<times> lufirafs" where
  "sync_if res = (case res of (r, l) \<Rightarrow> (r, if r = 0 then lufirafs_sync l else l))"

definition vfs_lufirafs_create_at :: "lufirafs \<Rightarrow> nat \<Rightarrow> bytes \<Rightarrow> nat \<Rightarrow> nat \<Rightarrow> int \<times> lufirafs" where
  "vfs_lufirafs_create_at l base path uid gid =
    (if path = [] then (- 1, l)
     else case lufirafs_resolve_parent l base path of
       (None, l1) \<Rightarrow> (- 1, l1)
     | (Some (parent, name), l1) \<Rightarrow>
         (case lufirafs_create l1 parent name 1 uid gid LUFIRAFS_DEFAULT_FILE_PERM of (r, _, l2) \<Rightarrow> sync_if (r, l2)))"

definition vfs_lufirafs_mkdir_at :: "lufirafs \<Rightarrow> nat \<Rightarrow> bytes \<Rightarrow> nat \<Rightarrow> nat \<Rightarrow> int \<times> lufirafs" where
  "vfs_lufirafs_mkdir_at l base path uid gid =
    (if path = [] then (- 1, l)
     else if path = [47] then (- 2, l)
     else case lufirafs_resolve_parent l base path of
       (None, l1) \<Rightarrow> (- 1, l1)
     | (Some (parent, name), l1) \<Rightarrow>
         (case lufirafs_create l1 parent name 2 uid gid LUFIRAFS_DEFAULT_DIR_PERM of (r, _, l2) \<Rightarrow> sync_if (r, l2)))"

definition vfs_lufirafs_unlink_at :: "lufirafs \<Rightarrow> nat \<Rightarrow> bytes \<Rightarrow> int \<times> lufirafs" where
  "vfs_lufirafs_unlink_at l base path =
    (if path = [] then (- 1, l)
     else if path = [47] then (- 2, l)
     else case lufirafs_resolve_parent l base path of
       (None, l1) \<Rightarrow> (- 1, l1)
     | (Some (parent, name), l1) \<Rightarrow> sync_if (lufirafs_unlink l1 parent name))"

text \<open>The private data of an open LufiraFS file, unless the pointer is null.\<close>

definition lfs_data :: "open_file \<Rightarrow> (inode \<times> nat \<times> bool \<times> lufirafs_dir) option" where
  "lfs_data f = (case file_inode f of None \<Rightarrow> None
     | Some n \<Rightarrow> (case private_data n of LfsData ino is_dir d \<Rightarrow> Some (n, ino, is_dir, d) | _ \<Rightarrow> None))"

definition lufirafs_file_read :: "vfs \<Rightarrow> nat \<Rightarrow> nat \<Rightarrow> int \<times> bytes \<times> vfs" where
  "lufirafs_file_read s i count =
    (let f = file_at s i
     in case lfs_data f of None \<Rightarrow> (- 1, [], s)
        | Some (n, ino, is_dir, d) \<Rightarrow>
            if is_dir then (- 1, [], s)
            else case lufirafs_read (lfs s) ino (file_offset f) (wrap32 count) of (r, out, l) \<Rightarrow>
              (r, out, set_file (s\<lparr>lfs := l\<rparr>) i
                 (if r > 0 then f\<lparr>file_offset := wrap32 (file_offset f + nat r)\<rparr> else f)))"

definition lufirafs_file_write :: "vfs \<Rightarrow> nat \<Rightarrow> bytes \<Rightarrow> int \<times> vfs" where
  "lufirafs_file_write s i buf =
    (let f = file_at s i
     in case lfs_data f of None \<Rightarrow> (- 1, s)
        | Some (n, ino, is_dir, d) \<Rightarrow>
            if is_dir then (- 1, s)
            else
              let offset = (if flag (file_flags f) O_APPEND then inode_size n else file_offset f)
              in case lufirafs_write (lfs s) ino offset (take (wrap32 (length buf)) buf) of (r, l) \<Rightarrow>
                   if r > 0
                   then (r, set_file (s\<lparr>lfs := lufirafs_sync l\<rparr>) i
                          (f\<lparr>file_offset := wrap32 (offset + nat r),
                             file_inode := Some (case lufirafs_read_inode l ino of None \<Rightarrow> n | Some m \<Rightarrow> n\<lparr>inode_size := i_size m\<rparr>)\<rparr>))
                   else (r, s\<lparr>lfs := l\<rparr>))"

definition lufirafs_file_seek :: "vfs \<Rightarrow> nat \<Rightarrow> int \<Rightarrow> nat \<Rightarrow> int \<times> vfs" where
  "lufirafs_file_seek s i offset whence =
    (let f = file_at s i; off = nat (offset mod 2 ^ 32)
     in case file_inode f of None \<Rightarrow> (- 1, s)
        | Some n \<Rightarrow>
            if whence > 2 then (- 1, s)
            else
              let pos = (if whence = 0 then off else if whence = 1 then wrap32 (file_offset f + off) else wrap32 (inode_size n + off));
                  pos1 = (if pos > inode_size n then inode_size n else pos)
              in (sint (of_nat pos1 :: u32), set_file s i (f\<lparr>file_offset := pos1\<rparr>)))"

section \<open>The code: the console and the dispatch\<close>

text \<open>The escape sequences of a write to the console, as the calls of the screen driver they make.\<close>

function console_parse :: "bytes \<Rightarrow> console_cmd list \<times> nat" where
  "console_parse str =
    (case str of [] \<Rightarrow> ([], 0)
     | c # rest \<Rightarrow>
         if c = 0 then ([], 0)
         else
           let (cmd, n) =
             (if c = 0x1B \<and> length str > 1 then
                (if str ! 1 = 102 \<and> length str > 2 then (Foreground (str ! 2), 3)
                 else if str ! 1 = 98 \<and> length str > 2 then (Background (str ! 2), 3)
                 else if str ! 1 = 112 \<and> length str > 5
                 then (CursorTo (unat (str ! 2) * 256 + unat (str ! 3)) (unat (str ! 4) * 256 + unat (str ! 5)), 6)
                 else if str ! 1 = 99 then (ClearScreen, 2)
                 else if str ! 1 = 108 then (CursorLeft, 2)
                 else if str ! 1 = 114 then (CursorRight, 2)
                 else (PutChar c, 1))
              else (PutChar c, 1))
           in case console_parse (drop n str) of (cmds, w) \<Rightarrow> (cmd # cmds, n + w))"
  by pat_completeness auto
termination
  by (relation "measure length") (auto split: if_splits)

declare console_parse.simps [simp del]

datatype io_result = Returns int bytes | DirEntry int "(nat \<times> file_type \<times> bytes) option" | Blocks

definition vfs_readdir :: "vfs \<Rightarrow> int \<Rightarrow> int \<times> (nat \<times> file_type \<times> bytes) option \<times> vfs" where
  "vfs_readdir s fd =
    (if \<not> valid_fd fd then (- 1, None, s)
     else case files (cur_table s) ! nat fd of None \<Rightarrow> (- 1, None, s)
          | Some i \<Rightarrow>
              (let f = file_at s i
               in case file_inode f of None \<Rightarrow> (- 1, None, s)
                  | Some n \<Rightarrow>
                      if inode_type n \<noteq> FT_DIRECTORY then (- 1, None, s)
                      else case private_data n of LfsData ino True d \<Rightarrow>
                             (case lufirafs_readdir (lfs s) d of
                                (None, d1, l) \<Rightarrow>
                                  (0, None, set_file (s\<lparr>lfs := l\<rparr>) i (f\<lparr>file_inode := Some (n\<lparr>private_data := LfsData ino True d1\<rparr>)\<rparr>))
                              | (Some (e, name), d1, l) \<Rightarrow>
                                  (1, Some (e, if map_option i_mode (lufirafs_read_inode l e) = Some 2 then FT_DIRECTORY else FT_REGULAR, name),
                                   set_file (s\<lparr>lfs := l\<rparr>) i
                                     (f\<lparr>file_inode := Some (n\<lparr>private_data := LfsData ino True d1\<rparr>), file_offset := wrap32 (file_offset f + 1)\<rparr>)))
                           | _ \<Rightarrow> (- 1, None, s)))"

text \<open>
  Reads, writes and seeks of a valid descriptor go to the operation of the file,
  if it has one. \<open>Blocks\<close> is a call that has marked the process as blocked and
  given up the processor; a pipe write then has part of its bytes left.
\<close>

definition pipe_file_read :: "vfs \<Rightarrow> open_file \<Rightarrow> nat \<Rightarrow> io_result \<times> vfs" where
  "pipe_file_read s f count =
    (case pipe_of f of None \<Rightarrow> (Returns (- 1) [], s)
     | Some p \<Rightarrow>
         (case on_pipe (\<lambda>ps. pipe_read ps (current_fd_table s) count) s p of None \<Rightarrow> (Returns (- 1) [], s)
          | Some (ReadDone bs, s1) \<Rightarrow> (Returns (int (length bs)) bs, s1)
          | Some (ReadBlocked, s1) \<Rightarrow> (Blocks, s1)))"

definition pipe_file_write :: "vfs \<Rightarrow> open_file \<Rightarrow> bytes \<Rightarrow> io_result \<times> vfs" where
  "pipe_file_write s f buf =
    (case pipe_of f of None \<Rightarrow> (Returns (- 1) [], s)
     | Some p \<Rightarrow>
         (case on_pipe (\<lambda>ps. pipe_write_loop ps (current_fd_table s) buf 0) s p of None \<Rightarrow> (Returns (- 1) [], s)
          | Some (WriteDone w, s1) \<Rightarrow> (Returns (pipe_write_return w (length buf)) [], s1)
          | Some (WriteBlocked rest w, s1) \<Rightarrow> (Blocks, s1)))"

definition console_file_read :: "vfs \<Rightarrow> nat \<Rightarrow> io_result \<times> vfs" where
  "console_file_read s count =
    (if count = 0 then (Returns 0 [], s)
     else case console_input_read (con_input s) (current_fd_table s) (sint (of_nat count :: u32)) of
            (None, c) \<Rightarrow> (Blocks, s\<lparr>con_input := c, states := (states s)(current_fd_table s := BLOCKED)\<rparr>)
          | (Some bs, c) \<Rightarrow> (Returns (int (length bs)) bs, s\<lparr>con_input := c\<rparr>))"

definition console_file_write :: "vfs \<Rightarrow> bytes \<Rightarrow> io_result \<times> vfs" where
  "console_file_write s buf =
    (case console_parse buf of (cmds, w) \<Rightarrow> (Returns (int w) [], s\<lparr>con_output := con_output s @ cmds\<rparr>))"

definition vfs_read :: "vfs \<Rightarrow> int \<Rightarrow> nat \<Rightarrow> io_result \<times> vfs" where
  "vfs_read s fd count =
    (if \<not> valid_fd fd then (Returns (- 1) [], s)
     else case files (cur_table s) ! nat fd of None \<Rightarrow> (Returns (- 1) [], s)
          | Some i \<Rightarrow>
              (case file_ops (file_at s i) of
                 NoOps \<Rightarrow> (Returns (- 1) [], s)
               | ConsoleOps \<Rightarrow> console_file_read s count
               | PipeReadOps \<Rightarrow> pipe_file_read s (file_at s i) count
               | PipeWriteOps \<Rightarrow> (Returns (- 1) [], s)
               | LfsFileOps \<Rightarrow> (case lufirafs_file_read s i count of (r, out, s1) \<Rightarrow> (Returns r out, s1))
               | LfsDirOps \<Rightarrow>
                   if file_inode (file_at s i) = None then (Returns (- 1) [], s)
                   else (case vfs_readdir s (file_fd (file_at s i)) of (r, e, s1) \<Rightarrow> (DirEntry r e, s1))))"

definition vfs_write :: "vfs \<Rightarrow> int \<Rightarrow> bytes \<Rightarrow> io_result \<times> vfs" where
  "vfs_write s fd buf =
    (if \<not> valid_fd fd then (Returns (- 1) [], s)
     else case files (cur_table s) ! nat fd of None \<Rightarrow> (Returns (- 1) [], s)
          | Some i \<Rightarrow>
              (case file_ops (file_at s i) of
                 ConsoleOps \<Rightarrow> console_file_write s buf
               | PipeWriteOps \<Rightarrow> pipe_file_write s (file_at s i) buf
               | LfsFileOps \<Rightarrow> (case lufirafs_file_write s i buf of (r, s1) \<Rightarrow> (Returns r [], s1))
               | _ \<Rightarrow> (Returns (- 1) [], s)))"

definition vfs_seek :: "vfs \<Rightarrow> int \<Rightarrow> int \<Rightarrow> nat \<Rightarrow> int \<times> vfs" where
  "vfs_seek s fd offset whence =
    (if \<not> valid_fd fd then (- 1, s)
     else case files (cur_table s) ! nat fd of None \<Rightarrow> (- 1, s)
          | Some i \<Rightarrow> (if file_ops (file_at s i) = LfsFileOps then lufirafs_file_seek s i offset whence else (- 1, s)))"

definition vfs_poll_check :: "vfs \<Rightarrow> int \<Rightarrow> bool \<Rightarrow> bool \<Rightarrow> (bool \<times> bool) option" where
  "vfs_poll_check s fd want_in want_out =
    (if \<not> valid_fd fd then None
     else case files (cur_table s) ! nat fd of None \<Rightarrow> None
          | Some i \<Rightarrow>
              (let f = file_at s i; p = Option.bind (pipe_of f) (pipe_heap s)
               in Some (case file_ops f of
                    PipeReadOps \<Rightarrow> (want_in \<and> (case p of None \<Rightarrow> False | Some pp \<Rightarrow> pipe_readable pp), False)
                  | PipeWriteOps \<Rightarrow> (False, want_out \<and> (case p of None \<Rightarrow> False | Some pp \<Rightarrow> pipe_writable pp))
                  | ConsoleOps \<Rightarrow> (want_in \<and> console_input_has_data (con_input s), want_out)
                  | _ \<Rightarrow> (want_in, want_out))))"

section \<open>The ledger of descriptors and references\<close>

text \<open>
  How many descriptors of a table name file \<open>i\<close>, how many of all tables do, and how
  many references the file itself counts; a file without inode counts as one.
\<close>

definition slots :: "fd_table \<Rightarrow> nat \<Rightarrow> int" where
  "slots t i = int (count_list (files t) (Some i))"

definition descriptors :: "vfs \<Rightarrow> nat \<Rightarrow> int" where
  "descriptors s i = (\<Sum>t\<leftarrow>fd_tables s. slots t i)"

definition file_refs :: "open_file option \<Rightarrow> int" where
  "file_refs F = (case F of None \<Rightarrow> 0 | Some f \<Rightarrow> (case file_inode f of None \<Rightarrow> 1 | Some n \<Rightarrow> int (ref_count n)))"

definition file_slot :: "vfs \<Rightarrow> nat \<Rightarrow> open_file option" where
  "file_slot s i = (if i < 256 then file_table s ! i else None)"

text \<open>A file is well typed: its operations, the type of its inode and its private data belong together.\<close>

definition data_typed :: "(nat \<Rightarrow> pipe option) \<Rightarrow> file_ops \<Rightarrow> inode \<Rightarrow> bool" where
  "data_typed h fops n =
    (case fops of
       NoOps \<Rightarrow> False
     | ConsoleOps \<Rightarrow> inode_type n = FT_CHARDEV \<and> private_data n = NoData
     | PipeReadOps \<Rightarrow> inode_type n = FT_PIPE \<and> (\<exists>p. private_data n = PipeData p \<and> h p \<noteq> None)
     | PipeWriteOps \<Rightarrow> inode_type n = FT_PIPE \<and> (\<exists>p. private_data n = PipeData p \<and> h p \<noteq> None)
     | LfsFileOps \<Rightarrow> inode_type n = FT_REGULAR \<and> (private_data n = NoData \<or> (\<exists>ino d. private_data n = LfsData ino False d))
     | LfsDirOps \<Rightarrow> inode_type n = FT_DIRECTORY \<and> (private_data n = NoData \<or> (\<exists>ino d. private_data n = LfsData ino True d)))"

definition file_typed :: "(nat \<Rightarrow> pipe option) \<Rightarrow> open_file \<Rightarrow> bool" where
  "file_typed h f =
    (case file_inode f of None \<Rightarrow> file_ops f \<in> {ConsoleOps, PipeReadOps, PipeWriteOps}
     | Some n \<Rightarrow> 0 < ref_count n \<and> data_typed h (file_ops f) n)"

definition ends_of :: "file_ops \<Rightarrow> nat \<Rightarrow> open_file option \<Rightarrow> int" where
  "ends_of fops p F = (case F of None \<Rightarrow> 0 | Some f \<Rightarrow> if file_ops f = fops \<and> pipe_of f = Some p then file_refs F else 0)"

definition pipe_ends :: "vfs \<Rightarrow> file_ops \<Rightarrow> nat \<Rightarrow> int" where
  "pipe_ends s fops p = (\<Sum>i<256. ends_of fops p (file_table s ! i))"

text \<open>
  The invariant, up to a discrepancy \<open>x\<close> that a call in progress may have. A pipe
  counts at least the references to each of its ends.
\<close>

definition ledger :: "vfs \<Rightarrow> (nat \<Rightarrow> int) \<Rightarrow> bool" where
  "ledger s x \<longleftrightarrow> length (file_table s) = 256 \<and> length (fd_tables s) = 33 \<and> (\<forall>t\<in>set (fd_tables s). length (files t) = 16) \<and>
     current_fd_table s < 33 \<and>
     (\<forall>i. descriptors s i + x i = file_refs (file_slot s i)) \<and>
     (\<forall>i f. file_slot s i = Some f \<longrightarrow> file_typed (pipe_heap s) f) \<and>
     (\<forall>p pp. pipe_heap s p = Some pp \<longrightarrow> pipe_ends s PipeReadOps p \<le> readers pp \<and> pipe_ends s PipeWriteOps p \<le> writers pp) \<and>
     (\<forall>p \<ge> pipe_serial s. pipe_heap s p = None)"

definition vfs_ok :: "vfs \<Rightarrow> bool" where
  "vfs_ok s \<longleftrightarrow> ledger s (\<lambda>_. 0)"

lemma ledgerD:
  assumes "ledger s x"
  shows "length (file_table s) = 256" "length (fd_tables s) = 33" "k < 33 \<Longrightarrow> length (files (fd_tables s ! k)) = 16"
    "current_fd_table s < 33" "descriptors s i + x i = file_refs (file_slot s i)"
    "file_slot s i = Some f \<Longrightarrow> file_typed (pipe_heap s) f"
    "pipe_heap s p = Some pp \<Longrightarrow> pipe_ends s PipeReadOps p \<le> readers pp \<and> pipe_ends s PipeWriteOps p \<le> writers pp"
    "p \<ge> pipe_serial s \<Longrightarrow> pipe_heap s p = None"
  using assms by (auto simp: ledger_def)

lemma pipe_ends_update:
  assumes "length (file_table s) = 256" "i < 256" "file_table s' = (file_table s)[i := F]"
  shows "pipe_ends s' fops p = pipe_ends s fops p - ends_of fops p (file_table s ! i) + ends_of fops p F"
proof -
  have "(\<Sum>j<256. ends_of fops p (file_table s' ! j)) = ends_of fops p F + (\<Sum>j\<in>{..<256} - {i}. ends_of fops p (file_table s ! j))"
    using assms by (subst sum.remove [of _ i]) (auto intro!: sum.cong)
  moreover have "(\<Sum>j<256. ends_of fops p (file_table s ! j)) =
      ends_of fops p (file_table s ! i) + (\<Sum>j\<in>{..<256} - {i}. ends_of fops p (file_table s ! j))"
    using assms(2) by (subst sum.remove [of _ i]) auto
  ultimately show ?thesis by (simp add: pipe_ends_def)
qed

text \<open>Changing one file, and possibly the pipes.\<close>

lemma ledger_file:
  assumes L: "ledger s x" and i: "i < 256"
    and s': "file_table s' = (file_table s)[i := F]" "fd_tables s' = fd_tables s" "current_fd_table s' = current_fd_table s"
      "pipe_serial s' = pipe_serial s"
    and F: "\<And>f. F = Some f \<Longrightarrow> file_typed (pipe_heap s') f"
    and others: "\<And>j f. j \<noteq> i \<Longrightarrow> file_slot s j = Some f \<Longrightarrow> file_typed (pipe_heap s') f"
    and ends: "\<And>p pp. pipe_heap s' p = Some pp \<Longrightarrow>
      pipe_ends s PipeReadOps p - ends_of PipeReadOps p (file_table s ! i) + ends_of PipeReadOps p F \<le> readers pp \<and>
      pipe_ends s PipeWriteOps p - ends_of PipeWriteOps p (file_table s ! i) + ends_of PipeWriteOps p F \<le> writers pp"
    and fresh: "\<And>p. p \<ge> pipe_serial s \<Longrightarrow> pipe_heap s' p = None"
  shows "ledger s' (x(i := x i + file_refs F - file_refs (file_table s ! i)))"
proof -
  note D = ledgerD [OF L]
  have slot: "file_slot s' j = (if j = i then F else file_slot s j)" for j using i D(1) by (auto simp: file_slot_def s'(1))
  have desc: "descriptors s' j = descriptors s j" for j by (simp add: descriptors_def s'(2))
  have "descriptors s' j + (x(i := x i + file_refs F - file_refs (file_table s ! i))) j = file_refs (file_slot s' j)" for j
  proof -
    have "file_slot s i = file_table s ! i" using i by (simp add: file_slot_def)
    then show ?thesis using D(5) [of j] by (auto simp: slot desc)
  qed
  moreover have "file_typed (pipe_heap s') f" if "file_slot s' j = Some f" for j f
    using that F others by (auto simp: slot split: if_splits)
  moreover have "pipe_ends s' PipeReadOps p \<le> readers pp \<and> pipe_ends s' PipeWriteOps p \<le> writers pp" if "pipe_heap s' p = Some pp" for p pp
    using ends [OF that] pipe_ends_update [OF D(1) i s'(1)] by simp
  ultimately show ?thesis using L fresh unfolding ledger_def s'(2-4) by (auto simp: s'(1))
qed

text \<open>Changing one table of descriptors.\<close>

lemma ledger_table:
  assumes L: "ledger s x" and k: "k < 33" and t: "length (files t) = 16"
    and s': "fd_tables s' = (fd_tables s)[k := t]" "file_table s' = file_table s" "current_fd_table s' < 33"
      "pipe_serial s' = pipe_serial s" "pipe_heap s' = pipe_heap s"
  shows "ledger s' (\<lambda>i. x i + slots (fd_tables s ! k) i - slots t i)"
proof -
  note D = ledgerD [OF L]
  have "sum_list (map f (xs[k := t])) = sum_list (map f xs) + f t - f (xs ! k)" if "k < length xs" for f :: "fd_table \<Rightarrow> int" and xs
    using that by (induction xs arbitrary: k) (auto split: nat.splits simp: less_Suc_eq_0_disj)
  then have desc: "descriptors s' j = descriptors s j + slots t j - slots (fd_tables s ! k) j" for j
    using k D(2) by (simp add: descriptors_def s'(1))
  have slot: "file_slot s' j = file_slot s j" for j by (simp add: file_slot_def s'(2))
  have len: "length (files u) = 16" if "u \<in> set (fd_tables s')" for u
    using that t set_update_subset_insert [of "fd_tables s" k t] L by (auto simp: s'(1) ledger_def)
  have ends: "pipe_ends s' fops p = pipe_ends s fops p" for fops p by (simp add: pipe_ends_def s'(2))
  show ?thesis unfolding ledger_def
  proof (intro conjI allI impI ballI)
    fix i show "descriptors s' i + (x i + slots (fd_tables s ! k) i - slots t i) = file_refs (file_slot s' i)"
      using D(5) [of i] by (simp add: desc slot)
  next
    fix p pp assume "pipe_heap s' p = Some pp"
    then have "pipe_heap s p = Some pp" by (simp add: s'(5))
    from D(7) [OF this] show "pipe_ends s' PipeReadOps p \<le> readers pp" "pipe_ends s' PipeWriteOps p \<le> writers pp" by (simp_all add: ends)
  qed (use D len s' in \<open>auto simp: slot\<close>)
qed

text \<open>Nothing but the parts outside the ledger changes.\<close>

lemma ledger_same:
  assumes "ledger s x" "file_table s' = file_table s" "fd_tables s' = fd_tables s" "current_fd_table s' = current_fd_table s"
    "pipe_serial s' = pipe_serial s" "pipe_heap s' = pipe_heap s"
  shows "ledger s' x"
  using assms(1) unfolding ledger_def descriptors_def file_slot_def pipe_ends_def assms(2-6) .

lemma count_list_update:
  "k < length xs \<Longrightarrow> int (count_list (xs[k := v]) a) = int (count_list xs a) - of_bool (xs ! k = a) + of_bool (v = a)"
proof (induction xs arbitrary: k)
  case (Cons y ys)
  then show ?case by (cases k) auto
qed simp

lemma slots_update:
  "fd < length (files t) \<Longrightarrow> slots \<lparr>files = (files t)[fd := v], fd_count = c\<rparr> i =
     slots t i - of_bool (files t ! fd = Some i) + of_bool (v = Some i)"
  unfolding slots_def using count_list_update [of fd "files t" v "Some i"] by (simp only: fd_table.simps)

text \<open>A descriptor names a live file, and no file has more references than there are descriptors.\<close>

lemma slots_pos: "fd < length (files t) \<Longrightarrow> files t ! fd = Some i \<Longrightarrow> 0 < slots t i"
proof -
  assume "fd < length (files t)" "files t ! fd = Some i"
  then have "Some i \<in> set (files t)" using nth_mem by metis
  then have "count_list (files t) (Some i) \<noteq> 0" by (simp add: count_list_0_iff)
  then show "0 < slots t i" unfolding slots_def by linarith
qed

lemma slots_nonneg [simp]: "0 \<le> slots t i"
  by (simp add: slots_def)

lemma descriptors_ge:
  assumes "k < length (fd_tables s)"
  shows "slots (fd_tables s ! k) i \<le> descriptors s i"
proof -
  have le: "f (xs ! k) \<le> sum_list (map f xs)" if "k < length xs" "\<And>y. 0 \<le> f y" for f :: "fd_table \<Rightarrow> int" and xs
    using that(1)
  proof (induction xs arbitrary: k)
    case (Cons y ys)
    have "0 \<le> sum_list (map f ys)" by (rule sum_list_nonneg) (use that(2) in auto)
    moreover have "0 \<le> f y" by (rule that(2))
    ultimately show ?case using Cons by (cases k) (auto intro: add_increasing)
  qed simp
  show ?thesis unfolding descriptors_def by (rule le) (use assms in auto)
qed

lemma descriptors_le:
  assumes "ledger s x"
  shows "descriptors s i \<le> 528"
proof -
  have le: "sum_list (map f xs) \<le> 16 * int (length xs)" if "\<forall>y\<in>set xs. f y \<le> 16" for f :: "fd_table \<Rightarrow> int" and xs
    using that by (induction xs) auto
  have "slots t i \<le> 16" if "t \<in> set (fd_tables s)" for t
    using assms that count_le_length [of "files t" "Some i"] by (auto simp: ledger_def slots_def)
  then have "descriptors s i \<le> 16 * int (length (fd_tables s))" unfolding descriptors_def by (intro le ballI)
  then show ?thesis using ledgerD(2) [OF assms] by simp
qed

lemma live_file:
  assumes "ledger s x" "k < 33" "fd < 16" "files (fd_tables s ! k) ! fd = Some i" "0 \<le> x i"
  obtains f where "i < 256" "file_table s ! i = Some f" "file_at s i = f" "file_typed (pipe_heap s) f"
proof -
  have "0 < slots (fd_tables s ! k) i" by (rule slots_pos [of fd]) (use ledgerD(3) [OF assms(1,2)] assms(3,4) in auto)
  then have "0 < file_refs (file_slot s i)"
    using descriptors_ge [of k s i] ledgerD(2) [OF assms(1)] ledgerD(5) [OF assms(1), of i] assms(2,5) by simp
  then obtain f where f: "file_slot s i = Some f" by (cases "file_slot s i") (auto simp: file_refs_def)
  then have "i < 256" "file_table s ! i = Some f" by (auto simp: file_slot_def split: if_splits)
  then show ?thesis using that ledgerD(6) [OF assms(1) f] by (simp add: file_at_def)
qed

lemma typed_pipe:
  assumes "file_typed h f" "pipe_of f = Some p"
  obtains n where "file_inode f = Some n" "private_data n = PipeData p" "inode_type n = FT_PIPE" "0 < ref_count n" "h p \<noteq> None"
    "file_ops f = PipeReadOps \<or> file_ops f = PipeWriteOps"
  using assms by (auto simp: file_typed_def data_typed_def pipe_of_def split: option.splits private_data.splits file_ops.splits)

text \<open>If no reference to an end of a pipe is left, no file points to the pipe.\<close>

lemma no_ends_no_file:
  assumes "length (file_table s) = 256" "\<And>j f. file_slot s j = Some f \<Longrightarrow> file_typed h f"
    "pipe_ends s PipeReadOps p \<le> 0" "pipe_ends s PipeWriteOps p \<le> 0" "file_slot s j = Some f"
  shows "pipe_of f \<noteq> Some p"
proof
  assume p: "pipe_of f = Some p"
  have t: "file_typed h f" by (rule assms(2) [OF assms(5)])
  obtain n where n: "file_inode f = Some n" "0 < ref_count n" "file_ops f = PipeReadOps \<or> file_ops f = PipeWriteOps"
    by (rule typed_pipe [OF t p]) blast
  have j: "j < 256" "file_table s ! j = Some f" using assms(5) by (auto simp: file_slot_def split: if_splits)
  have nonneg: "0 \<le> ends_of fops p F" for fops F by (auto simp: ends_of_def file_refs_def split: option.splits)
  have "ends_of (file_ops f) p (file_table s ! j) \<le> pipe_ends s (file_ops f) p"
    unfolding pipe_ends_def by (rule member_le_sum) (use j nonneg in auto)
  moreover have "0 < ends_of (file_ops f) p (file_table s ! j)" using j n p by (simp add: ends_of_def file_refs_def)
  ultimately show False using n(3) assms(3,4) by auto
qed

lemma typed_heap_mono:
  assumes "file_typed h f" "\<And>p. pipe_of f = Some p \<Longrightarrow> h' p \<noteq> None"
  shows "file_typed h' f"
  using assms by (auto simp: file_typed_def data_typed_def pipe_of_def split: option.splits file_ops.splits)

text \<open>One more reference to a file that has an inode.\<close>

lemma ledger_dup:
  assumes L: "ledger s x" and x: "x i \<le> 1000" and i: "i < 256" "file_table s ! i = Some f" "file_inode f = Some n"
  shows "ledger (vfs_dup_fd s i) (x(i := x i + 1))"
proof -
  note D = ledgerD [OF L]
  have slot: "file_slot s i = Some f" using i by (simp add: file_slot_def)
  have "int (ref_count n) \<le> 1528" using D(5) [of i] descriptors_le [OF L, of i] x i(3) by (simp add: slot file_refs_def)
  then have w: "wrap32 (ref_count n + 1) = ref_count n + 1" by (simp add: wrap32_id)
  define f' where "f' = f\<lparr>file_inode := Some (n\<lparr>ref_count := ref_count n + 1\<rparr>)\<rparr>"
  have f': "pipe_of f' = pipe_of f" "file_ops f' = file_ops f" "file_refs (Some f') = file_refs (Some f) + 1"
    using i(3) by (simp_all add: f'_def pipe_of_def file_refs_def)
  have t: "file_typed h f' = (file_typed h f \<or> file_typed h f')" for h
    using i(3) by (auto simp: f'_def file_typed_def data_typed_def split: file_ops.splits)
  have typed: "file_typed (pipe_heap s) f" by (rule D(6) [OF slot])
  have dom: "pipe_heap (vfs_dup_fd s i) q = None \<longleftrightarrow> pipe_heap s q = None" for q
    using i by (auto simp: vfs_dup_fd_def file_at_def Let_def set_file_def split: option.splits)
  have "ledger (vfs_dup_fd s i) (x(i := x i + file_refs (Some f') - file_refs (file_table s ! i)))"
  proof (rule ledger_file [OF L i(1)])
    show "file_table (vfs_dup_fd s i) = (file_table s)[i := Some f']" "fd_tables (vfs_dup_fd s i) = fd_tables s"
      "current_fd_table (vfs_dup_fd s i) = current_fd_table s" "pipe_serial (vfs_dup_fd s i) = pipe_serial s"
      using i w by (auto simp: vfs_dup_fd_def file_at_def Let_def set_file_def f'_def split: option.splits)
    show "file_typed (pipe_heap (vfs_dup_fd s i)) g" if "Some f' = Some g" for g
      using that t typed_heap_mono [OF typed] dom typed_pipe [OF typed] by (metis option.inject)
    show "file_typed (pipe_heap (vfs_dup_fd s i)) g" if "file_slot s j = Some g" for j g
      using typed_heap_mono [OF D(6) [OF that]] dom typed_pipe [OF D(6) [OF that]] by metis
    show "pipe_heap (vfs_dup_fd s i) q = None" if "q \<ge> pipe_serial s" for q using D(8) [OF that] dom by simp
  next
    fix q pp assume q: "pipe_heap (vfs_dup_fd s i) q = Some pp"
    show "pipe_ends s PipeReadOps q - ends_of PipeReadOps q (file_table s ! i) + ends_of PipeReadOps q (Some f') \<le> readers pp \<and>
      pipe_ends s PipeWriteOps q - ends_of PipeWriteOps q (file_table s ! i) + ends_of PipeWriteOps q (Some f') \<le> writers pp"
    proof (cases "pipe_of f = Some q")
      case True
      obtain m where m: "file_inode f = Some m" "inode_type m = FT_PIPE" "file_ops f = PipeReadOps \<or> file_ops f = PipeWriteOps"
        by (rule typed_pipe [OF typed True]) blast
      obtain pp0 where "pipe_heap s q = Some pp0" "pp = add_pipe_end (file_ops f) pp0"
        using q True i m by (auto simp: vfs_dup_fd_def file_at_def Let_def set_file_def)
      then show ?thesis using D(7) [of q pp0] m(3) True f' i(2) by (auto simp: ends_of_def add_pipe_end_def)
    next
      case False
      then have "pipe_heap s q = Some pp" using q i by (auto simp: vfs_dup_fd_def file_at_def Let_def set_file_def split: option.splits if_splits)
      then show ?thesis using D(7) [of q pp] False f' i(2) by (auto simp: ends_of_def)
    qed
  qed
  then show ?thesis using f'(3) i(2) by (simp add: add.commute add.assoc)
qed

text \<open>What a close does to the file and to its pipe.\<close>

definition drop_pipe_end :: "file_ops \<Rightarrow> pipe \<Rightarrow> pipe" where
  "drop_pipe_end fops p =
    (if fops = PipeReadOps then p\<lparr>readers := readers p - 1, write_waiter := None\<rparr>
     else p\<lparr>writers := writers p - 1, read_waiter := None\<rparr>)"

lemma close_op_pipe:
  assumes "file_at s i = f" "file_typed (pipe_heap s) f" "pipe_of f = Some p" "pipe_heap s p = Some pp"
  shows "pipe_heap (close_op s i) = (pipe_heap s)(p :=
      (let pp' = drop_pipe_end (file_ops f) pp in if readers pp' = 0 \<and> writers pp' = 0 then None else Some pp'))"
    "file_table (close_op s i) = file_table s" "fd_tables (close_op s i) = fd_tables s"
    "current_fd_table (close_op s i) = current_fd_table s" "pipe_serial (close_op s i) = pipe_serial s"
proof -
  have ops: "file_ops f = PipeReadOps \<or> file_ops f = PipeWriteOps" by (rule typed_pipe [OF assms(2,3)])
  note defs = close_op_defs close_pipe_def on_pipe_def drop_pipe_end_def pipe_close_read_def pipe_close_write_def
    pipe_free_if_orphaned_def wake_reader_def wake_writer_def Let_def
  show "pipe_heap (close_op s i) = (pipe_heap s)(p :=
      (let pp' = drop_pipe_end (file_ops f) pp in if readers pp' = 0 \<and> writers pp' = 0 then None else Some pp'))"
    using ops by (elim disjE) (simp_all add: defs assms(1,3,4))
  show "file_table (close_op s i) = file_table s" "fd_tables (close_op s i) = fd_tables s"
    "current_fd_table (close_op s i) = current_fd_table s" "pipe_serial (close_op s i) = pipe_serial s"
    using ops by (auto simp: defs assms(1,3,4))
qed

lemma close_op_other:
  assumes "i < length (file_table s)" "file_at s i = f" "file_table s ! i = Some f" "pipe_of f = None"
  shows "\<exists>f'. file_table (close_op s i) = (file_table s)[i := Some f'] \<and> file_ops f' = file_ops f \<and> pipe_of f' = None \<and>
      file_refs (Some f') = file_refs (Some f) \<and> (\<forall>h. file_typed h f \<longrightarrow> file_typed h f')"
    "pipe_heap (close_op s i) = pipe_heap s" "fd_tables (close_op s i) = fd_tables s"
    "current_fd_table (close_op s i) = current_fd_table s" "pipe_serial (close_op s i) = pipe_serial s"
proof -
  let ?g = "f\<lparr>file_inode := map_option (private_data_update (\<lambda>_. NoData)) (file_inode f)\<rparr>"
  let ?f = "if file_ops f = LfsFileOps \<or> file_ops f = LfsDirOps then ?g else f"
  have "(file_table s)[i := Some f] = file_table s" using assms(3) by (metis list_update_id)
  then have "file_table (close_op s i) = (file_table s)[i := Some ?f]"
    using assms by (auto simp: close_op_defs close_pipe_def set_file_def Let_def split: file_ops.splits)
  moreover have "file_ops ?f = file_ops f" "pipe_of ?f = None" "file_refs (Some ?f) = file_refs (Some f)"
    using assms(4) by (auto simp: pipe_of_def file_refs_def split: option.splits)
  moreover have "file_typed h ?f" if "file_typed h f" for h
    using that by (auto simp: file_typed_def data_typed_def split: option.splits)
  ultimately show "\<exists>f'. file_table (close_op s i) = (file_table s)[i := Some f'] \<and> file_ops f' = file_ops f \<and> pipe_of f' = None \<and>
      file_refs (Some f') = file_refs (Some f) \<and> (\<forall>h. file_typed h f \<longrightarrow> file_typed h f')" by blast
  show "pipe_heap (close_op s i) = pipe_heap s" "fd_tables (close_op s i) = fd_tables s"
    "current_fd_table (close_op s i) = current_fd_table s" "pipe_serial (close_op s i) = pipe_serial s"
    using assms by (auto simp: close_op_defs close_pipe_def set_file_def Let_def split: file_ops.splits)
qed

lemma drop_ref_shape:
  assumes "i < length (file_table s)" "file_table s ! i = Some f" "file_typed h f" "file_refs (Some f) < 2 ^ 32"
  shows "\<exists>F. file_table (drop_ref s i) = (file_table s)[i := F] \<and> file_refs F = file_refs (Some f) - 1 \<and>
      (\<forall>g. F = Some g \<longrightarrow> file_ops g = file_ops f \<and> pipe_of g = pipe_of f \<and> (\<forall>h. file_typed h f \<longrightarrow> file_typed h g)) \<and> (F = None \<longrightarrow> file_refs (Some f) = 1)"
    "pipe_heap (drop_ref s i) = pipe_heap s" "fd_tables (drop_ref s i) = fd_tables s"
    "current_fd_table (drop_ref s i) = current_fd_table s" "pipe_serial (drop_ref s i) = pipe_serial s"
proof -
  have at: "file_at s i = f" using assms(2) by (simp add: file_at_def)
  show "\<exists>F. file_table (drop_ref s i) = (file_table s)[i := F] \<and> file_refs F = file_refs (Some f) - 1 \<and>
      (\<forall>g. F = Some g \<longrightarrow> file_ops g = file_ops f \<and> pipe_of g = pipe_of f \<and> (\<forall>h. file_typed h f \<longrightarrow> file_typed h g)) \<and> (F = None \<longrightarrow> file_refs (Some f) = 1)"
  proof (cases "file_inode f")
    case None
    then show ?thesis by (intro exI [of _ None]) (auto simp: drop_ref_def at free_file_def file_refs_def)
  next
    case (Some n)
    have rc: "0 < ref_count n" "ref_count n < 2 ^ 32" using assms(3,4) Some by (auto simp: file_typed_def file_refs_def)
    have "wrap32 (ref_count n + 2 ^ 32 - 1) = ref_count n - 1" using rc by (simp add: wrap32_def mod_if)
    moreover have "ref_count n = 1 \<or> 1 < ref_count n" using rc by linarith
    ultimately show ?thesis using Some rc
      by (intro exI [of _ "if ref_count n = 1 then None else Some (f\<lparr>file_inode := Some (n\<lparr>ref_count := ref_count n - 1\<rparr>)\<rparr>)"])
        (auto simp: drop_ref_def at free_file_def set_file_def file_refs_def pipe_of_def file_typed_def data_typed_def Let_def split: file_ops.splits)
  qed
  show "pipe_heap (drop_ref s i) = pipe_heap s" "fd_tables (drop_ref s i) = fd_tables s"
    "current_fd_table (drop_ref s i) = current_fd_table s" "pipe_serial (drop_ref s i) = pipe_serial s"
    by (auto simp: drop_ref_def free_file_def set_file_def Let_def split: option.splits)
qed

lemma ledger_release_pipe:
  assumes L: "ledger s x" and i: "i < 256" "file_table s ! i = Some f" and p: "pipe_of f = Some p" "pipe_heap s p = Some pp"
    and s': "file_table s' = (file_table s)[i := F]" "fd_tables s' = fd_tables s" "current_fd_table s' = current_fd_table s"
      "pipe_serial s' = pipe_serial s"
    and h': "pipe_heap s' = (pipe_heap s)(p :=
      (let pp' = drop_pipe_end (file_ops f) pp in if readers pp' = 0 \<and> writers pp' = 0 then None else Some pp'))"
    and F: "file_refs F = file_refs (Some f) - 1"
      "\<And>g. F = Some g \<Longrightarrow> file_ops g = file_ops f \<and> pipe_of g = pipe_of f \<and> (\<forall>h. file_typed h f \<longrightarrow> file_typed h g)"
      "F = None \<Longrightarrow> file_refs (Some f) = 1"
  shows "ledger s' (x(i := x i - 1))"
proof -
  note D = ledgerD [OF L]
  let ?pp = "drop_pipe_end (file_ops f) pp"
  have slot: "file_slot s i = Some f" using i by (simp add: file_slot_def)
  have typed: "file_typed (pipe_heap s) f" by (rule D(6) [OF slot])
  have ops: "file_ops f = PipeReadOps \<or> file_ops f = PipeWriteOps" by (rule typed_pipe [OF typed p(1)])
  have E: "ends_of fops q F = ends_of fops q (Some f) - of_bool (fops = file_ops f \<and> q = p)" for fops q
    using F p(1) by (cases F) (auto simp: ends_of_def)
  have ends: "pipe_ends s' fops q = pipe_ends s fops q - of_bool (fops = file_ops f \<and> q = p)" for fops q
    using pipe_ends_update [OF D(1) i(1) s'(1), of fops q] E [of fops q] i(2) by simp
  have pp: "pipe_ends s' PipeReadOps p \<le> readers ?pp" "pipe_ends s' PipeWriteOps p \<le> writers ?pp"
    using D(7) [OF p(2)] ops unfolding ends by (auto simp: drop_pipe_end_def)
  have slot': "file_slot s' j = (if j = i then F else file_slot s j)" for j using i D(1) by (auto simp: file_slot_def s'(1))
  have old: "file_typed (pipe_heap s) g" if "file_slot s' j = Some g" for j g
    using that F(2) typed D(6) by (auto simp: slot' split: if_splits)
  have new: "file_typed (pipe_heap s') g" if g: "file_slot s' j = Some g" for j g
  proof (rule typed_heap_mono [OF old [OF g]])
    fix q assume q: "pipe_of g = Some q"
    show "pipe_heap s' q \<noteq> None"
    proof (cases "q = p \<and> readers ?pp = 0 \<and> writers ?pp = 0")
      case True
      have "pipe_of g \<noteq> Some p"
        by (rule no_ends_no_file [OF _ old _ _ g]) (use D(1) s'(1) pp True in auto)
      then show ?thesis using q True by simp
    next
      case False
      have "pipe_heap s q \<noteq> None" by (rule typed_pipe [OF old [OF g] q])
      then show ?thesis using False by (auto simp: h' Let_def)
    qed
  qed
  have "ledger s' (x(i := x i + file_refs F - file_refs (file_table s ! i)))"
  proof (rule ledger_file [OF L i(1) s'])
    show "file_typed (pipe_heap s') g" if "F = Some g" for g using new [of i] that by (simp add: slot')
    show "file_typed (pipe_heap s') g" if "j \<noteq> i" "file_slot s j = Some g" for j g using new [of j] that by (simp add: slot')
    show "pipe_heap s' q = None" if "q \<ge> pipe_serial s" for q using D(8) [OF that] p(2) by (auto simp: h')
    fix q pp' assume q: "pipe_heap s' q = Some pp'"
    have "pipe_ends s' PipeReadOps q \<le> readers pp' \<and> pipe_ends s' PipeWriteOps q \<le> writers pp'"
    proof (cases "q = p")
      case True
      then show ?thesis using q pp by (auto simp: h' Let_def split: if_splits)
    next
      case False
      then show ?thesis using q D(7) [of q pp'] unfolding ends by (simp add: h')
    qed
    then show "pipe_ends s PipeReadOps q - ends_of PipeReadOps q (file_table s ! i) + ends_of PipeReadOps q F \<le> readers pp' \<and>
      pipe_ends s PipeWriteOps q - ends_of PipeWriteOps q (file_table s ! i) + ends_of PipeWriteOps q F \<le> writers pp'"
      unfolding ends E i(2) by simp
  qed
  then show ?thesis using F(1) i(2) by (simp add: algebra_simps)
qed

lemma ledger_release:
  assumes L: "ledger s x" and x: "x i \<le> 1000" and i: "i < 256" "file_table s ! i = Some f"
  shows "ledger (drop_ref (close_op s i) i) (x(i := x i - 1))" "fd_tables (drop_ref (close_op s i) i) = fd_tables s"
    "current_fd_table (drop_ref (close_op s i) i) = current_fd_table s"
proof -
  note D = ledgerD [OF L]
  have slot: "file_slot s i = Some f" and at: "file_at s i = f" using i by (simp_all add: file_slot_def file_at_def)
  have typed: "file_typed (pipe_heap s) f" by (rule D(6) [OF slot])
  have len: "i < length (file_table s)" using i D(1) by simp
  have small: "file_refs (Some f) < 2 ^ 32" using D(5) [of i] descriptors_le [OF L, of i] x slot by simp
  let ?s1 = "close_op s i" and ?s' = "drop_ref (close_op s i) i"
  have "ledger ?s' (x(i := x i - 1)) \<and> fd_tables ?s' = fd_tables s \<and> current_fd_table ?s' = current_fd_table s"
  proof (cases "pipe_of f")
    case None
    note c = close_op_other [OF len at i(2) None]
    obtain f' where f': "file_table ?s1 = (file_table s)[i := Some f']" "pipe_of f' = None" "file_refs (Some f') = file_refs (Some f)"
      "\<And>h. file_typed h f \<Longrightarrow> file_typed h f'" using c(1) by blast
    have at': "i < length (file_table ?s1)" "file_table ?s1 ! i = Some f'" "file_typed (pipe_heap s) f'" "file_refs (Some f') < 2 ^ 32"
      using f' len typed small by simp_all
    note d = drop_ref_shape [OF at']
    obtain F where F: "file_table ?s' = (file_table ?s1)[i := F]" "file_refs F = file_refs (Some f') - 1"
      "\<And>g. F = Some g \<Longrightarrow> pipe_of g = None \<and> file_typed (pipe_heap s) g" using d(1) f'(2) at'(3) by auto
    have "ledger ?s' (x(i := x i + file_refs F - file_refs (file_table s ! i)))"
    proof (rule ledger_file [OF L i(1)])
      show "file_table ?s' = (file_table s)[i := F]" using F(1) f'(1) by simp
      show "file_typed (pipe_heap ?s') g" if "F = Some g" for g using F(3) [OF that] d(2) c(2) by simp
      show "file_typed (pipe_heap ?s') g" if "file_slot s j = Some g" for j g using D(6) [OF that] d(2) c(2) by simp
      show "pipe_heap ?s' q = None" if "q \<ge> pipe_serial s" for q using D(8) [OF that] d(2) c(2) by simp
      fix q pp assume "pipe_heap ?s' q = Some pp"
      then have "pipe_heap s q = Some pp" using d(2) c(2) by simp
      moreover have "ends_of fops q F = 0" "ends_of fops q (file_table s ! i) = 0" for fops
        using F(3) None i(2) by (cases F; simp add: ends_of_def)+
      ultimately show "pipe_ends s PipeReadOps q - ends_of PipeReadOps q (file_table s ! i) + ends_of PipeReadOps q F \<le> readers pp \<and>
          pipe_ends s PipeWriteOps q - ends_of PipeWriteOps q (file_table s ! i) + ends_of PipeWriteOps q F \<le> writers pp"
        using D(7) by simp
    qed (use c d in simp_all)
    then show ?thesis using F(2) f'(3) i(2) c d by (simp add: algebra_simps)
  next
    case (Some p)
    have "pipe_heap s p \<noteq> None" by (rule typed_pipe [OF typed Some])
    then obtain pp where pp: "pipe_heap s p = Some pp" by auto
    note c = close_op_pipe [OF at typed Some pp]
    have at': "i < length (file_table ?s1)" "file_table ?s1 ! i = Some f" using c(2) len i(2) by simp_all
    note d = drop_ref_shape [OF at' typed small]
    obtain F where F: "file_table ?s' = (file_table ?s1)[i := F]" "file_refs F = file_refs (Some f) - 1"
      "\<And>g. F = Some g \<Longrightarrow> file_ops g = file_ops f \<and> pipe_of g = pipe_of f \<and> (\<forall>h. file_typed h f \<longrightarrow> file_typed h g)"
      "F = None \<Longrightarrow> file_refs (Some f) = 1" using d(1) by blast
    have "ledger ?s' (x(i := x i - 1))"
      by (rule ledger_release_pipe [OF L i Some pp _ _ _ _ _ F(2,3,4)]) (use F(1) c d in simp_all)
    then show ?thesis using c d by simp
  qed
  then show "ledger ?s' (x(i := x i - 1))" "fd_tables ?s' = fd_tables s" "current_fd_table ?s' = current_fd_table s" by simp_all
qed

section \<open>Every call keeps the invariant\<close>

lemma cur_ok: "ledger s x \<Longrightarrow> length (files (cur_table s)) = 16"
  using ledgerD(3) [of s x "current_fd_table s"] ledgerD(4) [of s x] by (simp add: cur_table_def)

lemma vfs_okD:
  assumes "vfs_ok s"
  shows "ledger s (\<lambda>_. 0)" "length (file_table s) = 256" "length (files (cur_table s)) = 16"
    "current_fd_table s < length (fd_tables s)" "length (fd_tables s) = 33"
  using assms cur_ok [of s "\<lambda>_. 0"] ledgerD(1,2,4) [of s "\<lambda>_. 0"] by (simp_all add: vfs_ok_def)

lemma ledger_slot:
  assumes L: "ledger s x" and fd: "fd < 16"
  shows "ledger (set_table s \<lparr>files = (files (cur_table s))[fd := v], fd_count = c\<rparr>)
    (\<lambda>i. x i + of_bool (files (cur_table s) ! fd = Some i) - of_bool (v = Some i))"
proof -
  note D = ledgerD [OF L]
  let ?t = "\<lparr>files = (files (cur_table s))[fd := v], fd_count = c\<rparr>"
  have len: "length (files (cur_table s)) = 16" by (rule cur_ok [OF L])
  have "ledger (set_table s ?t) (\<lambda>i. x i + slots (fd_tables s ! current_fd_table s) i - slots ?t i)"
    by (rule ledger_table [OF L D(4)]) (use len D(4) in \<open>simp_all add: set_table_def\<close>)
  moreover have "(\<lambda>i. x i + slots (fd_tables s ! current_fd_table s) i - slots ?t i) =
      (\<lambda>i. x i + of_bool (files (cur_table s) ! fd = Some i) - of_bool (v = Some i))"
    using slots_update [of fd "cur_table s" v c] fd len by (auto simp: fun_eq_iff cur_table_def)
  ultimately show ?thesis by simp
qed

lemma vfs_close_ok:
  assumes ok: "vfs_ok s" and c: "vfs_close s fd = (r, s')"
  shows "vfs_ok s'" "current_fd_table s' = current_fd_table s"
    "\<exists>c. fd_tables s' = (fd_tables s)[current_fd_table s := \<lparr>files = (files (cur_table s))[nat fd := None], fd_count = c\<rparr>] \<and> r = 0 \<and> valid_fd fd \<or>
     r = - 1 \<and> s' = s \<and> (\<not> valid_fd fd \<or> files (cur_table s) ! nat fd = None)"
proof -
  have L: "ledger s (\<lambda>_. 0)" using ok by (simp add: vfs_ok_def)
  have "vfs_ok s' \<and> current_fd_table s' = current_fd_table s \<and>
    (\<exists>c. fd_tables s' = (fd_tables s)[current_fd_table s := \<lparr>files = (files (cur_table s))[nat fd := None], fd_count = c\<rparr>] \<and> r = 0 \<and> valid_fd fd \<or>
     r = - 1 \<and> s' = s \<and> (\<not> valid_fd fd \<or> files (cur_table s) ! nat fd = None))"
  proof (cases "valid_fd fd \<and> files (cur_table s) ! nat fd \<noteq> None")
    case False
    then have "vfs_close s fd = (- 1, s)" by (auto simp: vfs_close_def)
    then show ?thesis using c ok False by auto
  next
    case True
    then obtain i where i: "files (cur_table s) ! nat fd = Some i" by auto
    have fd: "nat fd < 16" using True by (auto simp: valid_fd_def MAX_FD_PER_PROCESS_def)
    obtain f where f: "i < 256" "file_table s ! i = Some f"
      by (rule live_file [OF L ledgerD(4) [OF L] fd]) (use i in \<open>auto simp: cur_table_def\<close>)
    let ?s1 = "drop_ref (close_op s i) i"
    have "(0 :: int) \<le> 1000" by simp
    note rel = ledger_release [OF L this f]
    have cur: "cur_table ?s1 = cur_table s" using rel(2,3) by (simp add: cur_table_def)
    have s': "s' = set_table ?s1 \<lparr>files = (files (cur_table ?s1))[nat fd := None], fd_count = fd_count (cur_table s) - 1\<rparr>" "r = 0"
      using c True i by (auto simp: vfs_close_def Let_def cur)
    have "ledger s' (\<lambda>j. ((\<lambda>_. 0)(i := 0 - 1)) j + of_bool (files (cur_table ?s1) ! nat fd = Some j) - of_bool (None = Some j))"
      unfolding s' by (rule ledger_slot [OF rel(1) fd])
    also have "(\<lambda>j. ((\<lambda>_. 0)(i := 0 - 1)) j + of_bool (files (cur_table ?s1) ! nat fd = Some j) - of_bool (None = Some j)) = (\<lambda>_. 0 :: int)"
      using i by (auto simp: cur fun_eq_iff)
    finally show ?thesis using rel(2,3) cur True by (auto simp: vfs_ok_def s' set_table_def)
  qed
  then show "vfs_ok s'" "current_fd_table s' = current_fd_table s"
    "\<exists>c. fd_tables s' = (fd_tables s)[current_fd_table s := \<lparr>files = (files (cur_table s))[nat fd := None], fd_count = c\<rparr>] \<and> r = 0 \<and> valid_fd fd \<or>
     r = - 1 \<and> s' = s \<and> (\<not> valid_fd fd \<or> files (cur_table s) ! nat fd = None)" by blast+
qed

text \<open>A new file with one reference.\<close>

lemma ledger_new:
  assumes L: "ledger s x" and i: "i < 256" "file_table s ! i = None"
    and s': "file_table s' = (file_table s)[i := Some f]" "fd_tables s' = fd_tables s" "current_fd_table s' = current_fd_table s"
      "pipe_serial s' = pipe_serial s" "pipe_heap s' = pipe_heap s"
    and f: "file_typed (pipe_heap s) f" "file_refs (Some f) = 1"
    and ends: "\<And>p pp. pipe_of f = Some p \<Longrightarrow> pipe_heap s p = Some pp \<Longrightarrow>
      pipe_ends s (file_ops f) p + 1 \<le> (if file_ops f = PipeReadOps then readers pp else writers pp)"
  shows "ledger s' (x(i := x i + 1))"
proof -
  note D = ledgerD [OF L]
  have "ledger s' (x(i := x i + file_refs (Some f) - file_refs (file_table s ! i)))"
  proof (rule ledger_file [OF L i(1) s'(1-4)])
    fix q pp assume q: "pipe_heap s' q = Some pp"
    then have q': "pipe_heap s q = Some pp" by (simp add: s'(5))
    have old: "ends_of fops q (file_table s ! i) = 0" for fops by (simp add: ends_of_def i(2))
    show "pipe_ends s PipeReadOps q - ends_of PipeReadOps q (file_table s ! i) + ends_of PipeReadOps q (Some f) \<le> readers pp \<and>
      pipe_ends s PipeWriteOps q - ends_of PipeWriteOps q (file_table s ! i) + ends_of PipeWriteOps q (Some f) \<le> writers pp"
      unfolding old using D(7) [OF q'] ends [OF _ q'] f(2) by (auto simp: ends_of_def split: if_splits)
  qed (use f D s'(5) in auto)
  then show ?thesis using f(2) i(2) by (simp add: file_refs_def)
qed

lemma alloc_file_spec:
  assumes "alloc_file s = (r, s1)"
  shows "case r of None \<Rightarrow> \<exists>a. s1 = s\<lparr>allocs := a\<rparr>
    | Some i \<Rightarrow> i < 256 \<and> file_table s ! i = None \<and> (\<exists>a. s1 = s\<lparr>allocs := a, file_table := (file_table s)[i := Some zero_file]\<rparr>)"
proof -
  have "alloc_file_loop is s = (r, s1) \<Longrightarrow> set is \<subseteq> {..<256} \<Longrightarrow> case r of None \<Rightarrow> \<exists>a. s1 = s\<lparr>allocs := a\<rparr>
    | Some i \<Rightarrow> i < 256 \<and> file_table s ! i = None \<and> (\<exists>a. s1 = s\<lparr>allocs := a, file_table := (file_table s)[i := Some zero_file]\<rparr>)" for "is"
  proof (induction "is" arbitrary: s)
    case Nil
    then show ?case by (auto intro: exI [of _ "allocs s"])
  next
    case (Cons i "is")
    show ?case
    proof (cases "file_table s ! i = None")
      case True
      let ?s = "s\<lparr>allocs := allocs s + 1\<rparr>"
      show ?thesis
      proof (cases "alloc_ok s (allocs s)")
        case ok: True
        then show ?thesis using Cons.prems True by (auto simp: heap_alloc_def set_file_def)
      next
        case False
        then have "alloc_file_loop is ?s = (r, s1)" using Cons.prems(1) True by (simp add: heap_alloc_def)
        from Cons.IH [OF this] show ?thesis using Cons.prems(2) by (auto split: option.splits)
      qed
    next
      case False
      then have "alloc_file_loop is s = (r, s1)" using Cons.prems(1) by (simp add: False)
      then show ?thesis using Cons.IH Cons.prems(2) by simp
    qed
  qed
  then show ?thesis using assms by (simp add: alloc_file_def MAX_FILES_SYSTEM_def subset_eq)
qed

text \<open>A new file entered into a free slot of the current table.\<close>

lemma vfs_ok_open:
  assumes ok: "vfs_ok s" and i: "i < 256" "file_table s ! i = None" and fd: "alloc_fd s = Some fd"
    and s': "file_table s' = (file_table s)[i := Some f]"
      "fd_tables s' = (fd_tables s)[current_fd_table s := \<lparr>files = (files (cur_table s))[fd := Some i], fd_count = c\<rparr>]"
      "current_fd_table s' = current_fd_table s" "pipe_serial s' = pipe_serial s" "pipe_heap s' = pipe_heap s"
    and f: "file_typed (pipe_heap s) f" "file_refs (Some f) = 1"
    and ends: "\<And>p pp. pipe_of f = Some p \<Longrightarrow> pipe_heap s p = Some pp \<Longrightarrow>
      pipe_ends s (file_ops f) p + 1 \<le> (if file_ops f = PipeReadOps then readers pp else writers pp)"
  shows "vfs_ok s'"
proof -
  let ?m = "s\<lparr>file_table := (file_table s)[i := Some f]\<rparr>"
  have L: "ledger s (\<lambda>_. 0)" using ok by (simp add: vfs_ok_def)
  have free: "fd < 16" "files (cur_table s) ! fd = None"
    using first_index_SomeD [OF fd [unfolded alloc_fd_def]] cur_ok [OF L] by simp_all
  have cur: "cur_table ?m = cur_table s" by (simp add: cur_table_def)
  have "ledger ?m ((\<lambda>_. 0)(i := 0 + 1))" by (rule ledger_new [OF L i _ _ _ _ _ f ends]) simp_all
  from ledger_slot [OF this free(1), of "Some i" c]
  have "ledger (set_table ?m \<lparr>files = (files (cur_table s))[fd := Some i], fd_count = c\<rparr>) (\<lambda>_. 0)"
    unfolding cur free(2) by (rule back_subst [where P = "ledger _"]) (auto simp: fun_eq_iff)
  then have "ledger s' (\<lambda>_. 0)" by (rule ledger_same) (use s' in \<open>simp_all add: set_table_def\<close>)
  then show ?thesis by (simp add: vfs_ok_def)
qed

lemma open_device_ok:
  assumes ok: "vfs_ok s" and fd: "alloc_fd s = Some fd" and a: "alloc_file s = (Some i, s1)"
    and t: "\<And>n. inode_type n = t \<Longrightarrow> private_data n = d \<Longrightarrow> data_typed (pipe_heap s) fops n" "fops \<in> {ConsoleOps, PipeReadOps, PipeWriteOps}"
    and ends: "\<And>p pp. d = PipeData p \<Longrightarrow> pipe_heap s p = Some pp \<Longrightarrow>
      pipe_ends s fops p + 1 \<le> (if fops = PipeReadOps then readers pp else writers pp)"
  shows "vfs_ok (open_device s1 fd i t d flags fops)" "pipe_serial (open_device s1 fd i t d flags fops) = pipe_serial s"
    "pipe_heap (open_device s1 fd i t d flags fops) = pipe_heap s"
    "\<exists>f. file_table (open_device s1 fd i t d flags fops) = (file_table s)[i := Some f] \<and> i < 256 \<and> file_table s ! i = None \<and> file_ops f = fops"
proof -
  let ?s2 = "open_device s1 fd i t d flags fops"
  obtain al where i: "i < 256" "file_table s ! i = None" and s1: "s1 = s\<lparr>allocs := al, file_table := (file_table s)[i := Some zero_file]\<rparr>"
    using alloc_file_spec [OF a] by auto
  obtain n s2 where n: "vfs_create_inode s1 (dev_inode_counter s1) t d = (n, s2)" by fastforce
  have s2: "s2 = s1\<lparr>allocs := al + 1\<rparr>" "n = None \<or> n = Some \<lparr>inode_num = dev_inode_counter s1, inode_type = t, inode_size = 0, ref_count = 1, private_data = d\<rparr>"
    using n by (auto simp: vfs_create_inode_def heap_alloc_def s1 split: if_splits)
  define f where "f = \<lparr>file_fd = int fd, file_inode = n, file_offset = 0, file_flags = flags, file_ops = fops\<rparr>"
  have tab: "file_table ?s2 = (file_table s)[i := Some f]"
    "fd_tables ?s2 = (fd_tables s)[current_fd_table s := \<lparr>files = (files (cur_table s))[fd := Some i], fd_count = fd_count (cur_table s) + 1\<rparr>]"
    "current_fd_table ?s2 = current_fd_table s" "pipe_serial ?s2 = pipe_serial s" "pipe_heap ?s2 = pipe_heap s"
    unfolding open_device_def n prod.case s2(1) by (simp_all add: s1 install_def set_table_def set_file_def cur_table_def f_def)
  show "vfs_ok ?s2"
  proof (rule vfs_ok_open [OF ok i fd tab])
    show "file_typed (pipe_heap s) f" "file_refs (Some f) = 1"
      using s2(2) t by (auto simp: f_def file_typed_def file_refs_def)
    fix p pp assume p: "pipe_of f = Some p" "pipe_heap s p = Some pp"
    then have "d = PipeData p" using s2(2) by (auto simp: f_def pipe_of_def split: private_data.splits)
    from ends [OF this p(2)] show "pipe_ends s (file_ops f) p + 1 \<le> (if file_ops f = PipeReadOps then readers pp else writers pp)"
      by (simp add: f_def)
  qed
  show "pipe_serial ?s2 = pipe_serial s" "pipe_heap ?s2 = pipe_heap s" by (rule tab(4), rule tab(5))
  show "\<exists>f. file_table ?s2 = (file_table s)[i := Some f] \<and> i < 256 \<and> file_table s ! i = None \<and> file_ops f = fops"
    using tab(1) i by (auto simp: f_def)
qed

lemma vfs_open_console_ok:
  assumes "vfs_ok s" "vfs_open_console s flags = (r, s')"
  shows "vfs_ok s'"
proof (cases "alloc_fd s")
  case None
  then show ?thesis using assms by (simp add: vfs_open_console_def)
next
  case (Some fd)
  obtain o1 s1 where a: "alloc_file s = (o1, s1)" by fastforce
  show ?thesis
  proof (cases o1)
    case None
    then obtain al where "s' = s\<lparr>allocs := al\<rparr>" using assms(2) Some a alloc_file_spec [OF a] by (auto simp: vfs_open_console_def)
    then show ?thesis using assms(1) ledger_same [of s _ s'] by (simp add: vfs_ok_def)
  next
    case i: (Some i)
    then have "s' = open_device s1 fd i FT_CHARDEV NoData flags ConsoleOps" using assms(2) Some a by (simp add: vfs_open_console_def)
    then show ?thesis using open_device_ok(1) [OF assms(1) Some a [unfolded i], of FT_CHARDEV NoData ConsoleOps] by (simp add: data_typed_def)
  qed
qed

text \<open>Pipes come and go, and are read and written.\<close>

lemma ledger_heap:
  assumes L: "ledger s x"
    and s': "file_table s' = file_table s" "fd_tables s' = fd_tables s" "current_fd_table s' = current_fd_table s"
    and used: "\<And>j f p. file_slot s j = Some f \<Longrightarrow> pipe_of f = Some p \<Longrightarrow> pipe_heap s' p \<noteq> None"
    and ends: "\<And>p pp. pipe_heap s' p = Some pp \<Longrightarrow> pipe_ends s PipeReadOps p \<le> readers pp \<and> pipe_ends s PipeWriteOps p \<le> writers pp"
    and fresh: "\<And>p. p \<ge> pipe_serial s' \<Longrightarrow> pipe_heap s' p = None"
  shows "ledger s' x"
proof -
  have "file_typed (pipe_heap s') f" if "file_slot s j = Some f" for j f
    using typed_heap_mono [OF ledgerD(6) [OF L that]] used [OF that] by blast
  moreover have "descriptors s' = descriptors s" "file_slot s' = file_slot s" "pipe_ends s' = pipe_ends s"
    using s' by (auto simp: fun_eq_iff descriptors_def file_slot_def pipe_ends_def)
  ultimately show ?thesis using L ends fresh s' unfolding ledger_def by auto
qed

lemma no_pipe_no_ends:
  assumes L: "ledger s x" and p: "pipe_heap s p = None"
  shows "pipe_ends s fops p = 0" "file_slot s j = Some f \<Longrightarrow> pipe_of f \<noteq> Some p"
proof -
  show n: "pipe_of f \<noteq> Some p" if "file_slot s j = Some f" for j f
    using typed_pipe [OF ledgerD(6) [OF L that], of p] p by blast
  have "ends_of fops p (file_table s ! j) = 0" if "j < 256" for j
    using n [of j] that by (auto simp: ends_of_def file_slot_def split: option.splits)
  then show "pipe_ends s fops p = 0" by (simp add: pipe_ends_def)
qed

lemma vfs_ok_allocs: "vfs_ok s \<Longrightarrow> vfs_ok (s\<lparr>allocs := a\<rparr>)"
  unfolding vfs_ok_def by (erule ledger_same) simp_all

lemma new_pipe_ok:
  assumes ok: "vfs_ok s" and p: "p = pipe_serial s"
    and s': "s' = s\<lparr>pipe_heap := (pipe_heap s)(p \<mapsto> new_pipe buf), pipe_serial := p + 1\<rparr>"
  shows "vfs_ok s'" "vfs_ok (s'\<lparr>pipe_heap := (pipe_heap s')(p := None)\<rparr>)" "pipe_ends s' fops p = 0"
proof -
  have L: "ledger s (\<lambda>_. 0)" using ok by (simp add: vfs_ok_def)
  have none: "pipe_heap s p = None" using ledgerD(8) [OF L] p by simp
  note z = no_pipe_no_ends [OF L none]
  have used: "pipe_heap s q \<noteq> None" if "file_slot s j = Some f" "pipe_of f = Some q" for j f q
    using typed_pipe [OF ledgerD(6) [OF L that(1)] that(2)] by blast
  have "ledger s' (\<lambda>_. 0)"
    by (rule ledger_heap [OF L])
      (use used z(1) ledgerD(7) [OF L] ledgerD(8) [OF L] in \<open>auto simp: s' p new_pipe_def split: if_splits\<close>)
  then show "vfs_ok s'" by (simp add: vfs_ok_def)
  have "ledger (s'\<lparr>pipe_heap := (pipe_heap s')(p := None)\<rparr>) (\<lambda>_. 0)"
    by (rule ledger_heap [OF L]) (use used z(2) ledgerD(7) [OF L] ledgerD(8) [OF L] in \<open>auto simp: s' p split: if_splits\<close>)
  then show "vfs_ok (s'\<lparr>pipe_heap := (pipe_heap s')(p := None)\<rparr>)" by (simp add: vfs_ok_def)
  show "pipe_ends s' fops p = 0" using z(1) [of fops] by (simp add: pipe_ends_def s')
qed

lemma second_end_ok:
  assumes ok: "vfs_ok s" and p: "pipe_heap s p = Some pp" "writers pp = 1" "pipe_ends s PipeWriteOps p = 0"
    and d: "alloc_fd s = Some fd" "alloc_file s = (Some i, s1)"
  shows "vfs_ok (open_device s1 fd i FT_PIPE (PipeData p) flags PipeWriteOps)"
  by (rule open_device_ok(1) [OF ok d]) (use p in \<open>auto simp: data_typed_def\<close>)

lemma pipe_open_ends_ok:
  assumes s3: "vfs_ok s3" "vfs_ok (s3\<lparr>pipe_heap := (pipe_heap s3)(p := None)\<rparr>)" "\<And>fops. pipe_ends s3 fops p = 0"
    and h: "pipe_heap s3 p = Some (new_pipe (replicate PIPE_BUF_SIZE 0))" and v: "pipe_open_ends s3 p = (r, s')"
  shows "vfs_ok s'"
proof -
  note v' = v [unfolded pipe_open_ends_def]
  show ?thesis
  proof (cases "alloc_fd s3")
    case None
    then show ?thesis using v' s3(2) by simp
  next
    case fd: (Some rfd)
    obtain ro s4 where a: "alloc_file s3 = (ro, s4)" by fastforce
    show ?thesis
    proof (cases ro)
      case None
      then obtain al where s4: "s4 = s3\<lparr>allocs := al\<rparr>" using alloc_file_spec [OF a] by auto
      have s': "s' = s3\<lparr>allocs := al, pipe_heap := (pipe_heap s3)(p := None)\<rparr>" using v' fd a None by (simp add: s4)
      have "ledger s' (\<lambda>_. 0)" by (rule ledger_same [OF s3(2) [unfolded vfs_ok_def]]) (simp_all add: s')
      then show ?thesis by (simp add: vfs_ok_def)
    next
      case (Some i)
      define s5 where "s5 = open_device s4 rfd i FT_PIPE (PipeData p) 0 PipeReadOps"
      have t5: "data_typed (pipe_heap s3) PipeReadOps n" if "inode_type n = FT_PIPE" "private_data n = PipeData p" for n
        using that h by (simp add: data_typed_def)
      have e5: "pipe_ends s3 PipeReadOps q + 1 \<le> (if PipeReadOps = PipeReadOps then readers pp else writers pp)"
        if "PipeData p = PipeData q" "pipe_heap s3 q = Some pp" for q pp
        using that h s3(3) [of PipeReadOps] by (simp add: new_pipe_def)
      have o5: "vfs_ok s5" "pipe_heap s5 = pipe_heap s3"
        unfolding s5_def by (rule open_device_ok(1,3) [OF s3(1) fd a [unfolded Some]]; use t5 e5 in auto)+
      have "\<exists>f. file_table s5 = (file_table s3)[i := Some f] \<and> i < 256 \<and> file_table s3 ! i = None \<and> file_ops f = PipeReadOps"
        unfolding s5_def by (rule open_device_ok(4) [OF s3(1) fd a [unfolded Some]]) (use t5 e5 in auto)
      then obtain f where f: "file_table s5 = (file_table s3)[i := Some f]" "i < 256" "file_table s3 ! i = None" "file_ops f = PipeReadOps"
        by blast
      have "length (file_table s3) = 256" using s3(1) by (simp add: vfs_ok_def ledger_def)
      then have w5: "pipe_ends s5 PipeWriteOps p = 0"
        using pipe_ends_update [OF _ f(2,1), of PipeWriteOps p] s3(3) [of PipeWriteOps] f(3,4) by (simp add: ends_of_def)
      have ok6: "vfs_ok s'" if "snd (vfs_close (s5\<lparr>allocs := al\<rparr>) (int rfd)) = s'" for al
        using vfs_close_ok(1) [OF vfs_ok_allocs [OF o5(1)]] that prod.collapse by metis
      show ?thesis
      proof (cases "alloc_fd s5")
        case None
        then have "snd (vfs_close s5 (int rfd)) = s'" using v' fd a Some by (simp add: s5_def [symmetric] Let_def)
        then show ?thesis using ok6 [of "allocs s5"] by simp
      next
        case wfd: (Some wfd)
        obtain wo s6 where w: "alloc_file s5 = (wo, s6)" by fastforce
        show ?thesis
        proof (cases wo)
          case None
          then have "snd (vfs_close s6 (int rfd)) = s'" using v' fd a Some wfd w by (simp add: s5_def [symmetric] Let_def)
          then show ?thesis using ok6 alloc_file_spec [OF w] None by auto
        next
          case k: (Some k)
          then have "s' = open_device s6 wfd k FT_PIPE (PipeData p) 1 PipeWriteOps" using v' fd a Some wfd w by (simp add: s5_def [symmetric] Let_def)
          then show ?thesis
            using second_end_ok [OF o5(1) _ _ w5 wfd w [unfolded k]] o5(2) h by (simp add: new_pipe_def)
        qed
      qed
    qed
  qed
qed

lemma vfs_pipe_ok:
  assumes ok: "vfs_ok s" and v: "vfs_pipe s = (r, s')"
  shows "vfs_ok s'"
proof (cases "alloc_ok s (allocs s) \<and> alloc_ok s (allocs s + 1)")
  case False
  then have "s' = s\<lparr>allocs := allocs s + 1\<rparr> \<or> s' = s\<lparr>allocs := allocs s + 2\<rparr>"
    using v by (auto simp: vfs_pipe_def heap_alloc_def split: if_splits)
  then show ?thesis using vfs_ok_allocs [OF ok] by auto
next
  case True
  define p where "p = pipe_serial s"
  define s2 where "s2 = s\<lparr>allocs := allocs s + 2\<rparr>"
  define s3 where "s3 = s2\<lparr>pipe_heap := (pipe_heap s2)(p \<mapsto> new_pipe (replicate PIPE_BUF_SIZE 0)), pipe_serial := p + 1\<rparr>"
  have ok2: "vfs_ok s2" unfolding s2_def by (rule vfs_ok_allocs [OF ok])
  have "p = pipe_serial s2" by (simp add: p_def s2_def)
  note s3 = new_pipe_ok [OF ok2 this s3_def]
  have v': "pipe_open_ends s3 p = (r, s')"
    using v True by (simp add: vfs_pipe_def heap_alloc_def s3_def s2_def p_def Let_def)
  show ?thesis by (rule pipe_open_ends_ok [OF s3 _ v']) (simp add: s3_def)
qed

text \<open>No call takes the inode of a file away.\<close>

definition has_inode :: "vfs \<Rightarrow> nat \<Rightarrow> bool" where
  "has_inode s i \<longleftrightarrow> file_inode (file_at s i) \<noteq> None"

lemma has_inode_set_file:
  "has_inode (set_file s i f) j \<longleftrightarrow> (if j = i \<and> i < length (file_table s) then file_inode f \<noteq> None else has_inode s j)"
  by (cases "i < length (file_table s)"; cases "j = i")
    (simp_all add: has_inode_def file_at_def set_file_def list_update_beyond not_less)

lemma has_inode_close_op: "has_inode (close_op s i) j = has_inode s j"
proof -
  have "has_inode (close_pipe g s f) j = has_inode s j" for g f
    by (auto simp: close_pipe_def on_pipe_def has_inode_def file_at_def split: option.splits prod.splits)
  then show ?thesis by (auto simp: close_op_defs Let_def has_inode_set_file split: file_ops.splits) (auto simp: has_inode_def)
qed

lemma has_inode_drop_ref:
  assumes "has_inode s j" "file_slot (drop_ref s i) j \<noteq> None" "length (file_table s) = 256"
  shows "has_inode (drop_ref s i) j"
proof -
  have free: "has_inode (free_file s i) j" if "file_slot (free_file s i) j \<noteq> None"
  proof (cases "j = i")
    case True
    then show ?thesis using that assms(3) by (auto simp: file_slot_def free_file_def split: if_splits)
  next
    case False
    then show ?thesis using assms(1) by (simp add: has_inode_def file_at_def free_file_def)
  qed
  show ?thesis using assms(1,2) free
    by (auto simp: drop_ref_def Let_def has_inode_set_file split: option.splits if_splits)
qed

lemma has_inode_dup: "has_inode (vfs_dup_fd s i) j = has_inode s j"
proof -
  have "has_inode (s\<lparr>pipe_heap := h\<rparr>) j = has_inode s j" for s h by (simp add: has_inode_def file_at_def)
  then show ?thesis by (auto simp: vfs_dup_fd_def Let_def has_inode_set_file split: option.splits) (auto simp: has_inode_def)
qed

lemma close_length: "length (file_table (close_op s i)) = length (file_table s)"
  by (auto simp: close_op_defs close_pipe_def on_pipe_def set_file_def Let_def split: file_ops.splits option.splits prod.splits)

lemma release_slot: "file_slot (drop_ref (close_op s i) i) j \<noteq> None \<Longrightarrow> j = i \<or> file_slot s j \<noteq> None"
proof -
  have "file_slot (close_op s i) j = file_slot s j" if "j \<noteq> i"
    using that by (auto simp: close_op_defs close_pipe_def on_pipe_def set_file_def file_slot_def Let_def
        split: file_ops.splits option.splits prod.splits)
  moreover have "file_slot (drop_ref s i) j = file_slot s j" if "j \<noteq> i" for s
    using that by (auto simp: drop_ref_def set_file_def free_file_def file_slot_def Let_def split: option.splits)
  ultimately show "file_slot (drop_ref (close_op s i) i) j \<noteq> None \<Longrightarrow> j = i \<or> file_slot s j \<noteq> None" by auto
qed

definition keeps_inodes :: "vfs \<Rightarrow> vfs \<Rightarrow> bool" where
  "keeps_inodes s s' \<longleftrightarrow> (\<forall>j. file_slot s' j \<noteq> None \<longrightarrow> file_slot s j \<noteq> None \<and> (has_inode s j \<longrightarrow> has_inode s' j))"

lemma has_inode_close:
  assumes ok: "vfs_ok s"
  shows "keeps_inodes s (snd (vfs_close s fd))"
proof (cases "valid_fd fd \<and> files (cur_table s) ! nat fd \<noteq> None")
  case False
  then have "snd (vfs_close s fd) = s" by (auto simp: vfs_close_def)
  then show ?thesis by (simp add: keeps_inodes_def)
next
  case True
  then obtain i where i: "files (cur_table s) ! nat fd = Some i" by auto
  have fd: "nat fd < 16" using True by (auto simp: valid_fd_def MAX_FD_PER_PROCESS_def)
  note L = vfs_okD(1) [OF ok]
  obtain f where f: "i < 256" "file_table s ! i = Some f"
    by (rule live_file [OF L ledgerD(4) [OF L] fd]) (use i in \<open>auto simp: cur_table_def\<close>)
  have slot: "file_slot s i = Some f" using f by (simp add: file_slot_def)
  let ?s1 = "drop_ref (close_op s i) i"
  have eq: "file_table (snd (vfs_close s fd)) = file_table ?s1" using True i by (simp add: vfs_close_def Let_def set_table_def)
  have "file_slot s j \<noteq> None \<and> (has_inode s j \<longrightarrow> has_inode ?s1 j)" if "file_slot ?s1 j \<noteq> None" for j
    using that release_slot [OF that] slot has_inode_drop_ref [OF _ that] close_length [of s i] has_inode_close_op [of s i j] vfs_okD(2) [OF ok]
    by auto
  moreover have "file_slot (snd (vfs_close s fd)) = file_slot ?s1" "has_inode (snd (vfs_close s fd)) = has_inode ?s1"
    using eq by (simp_all add: fun_eq_iff has_inode_def file_at_def file_slot_def)
  ultimately show ?thesis by (simp add: keeps_inodes_def)
qed

lemma vfs_dup2_ok:
  assumes ok: "vfs_ok s" and d: "vfs_dup2 s oldfd newfd = (r, s')"
    and inode: "\<And>i. valid_fd oldfd \<Longrightarrow> files (cur_table s) ! nat oldfd = Some i \<Longrightarrow> file_inode (file_at s i) \<noteq> None"
  shows "vfs_ok s'"
proof (cases "valid_fd oldfd \<and> valid_fd newfd \<and> files (cur_table s) ! nat oldfd \<noteq> None \<and> oldfd \<noteq> newfd")
  case False
  then have "s' = s" using d by (auto simp: vfs_dup2_def split: if_splits option.splits)
  then show ?thesis using ok by simp
next
  case True
  then obtain i where i: "files (cur_table s) ! nat oldfd = Some i" by auto
  have fd: "nat oldfd < 16" "nat newfd < 16" "nat oldfd \<noteq> nat newfd" using True by (auto simp: valid_fd_def MAX_FD_PER_PROCESS_def)
  define s1 where "s1 = (if files (cur_table s) ! nat newfd \<noteq> None then snd (vfs_close s newfd) else s)"
  note len = vfs_okD(3,4) [OF ok]
  have s1: "vfs_ok s1" "files (cur_table s1) ! nat oldfd = Some i" "files (cur_table s1) ! nat newfd = None"
  proof -
    obtain r1 c where c: "vfs_close s newfd = (r1, c)" by fastforce
    note v = vfs_close_ok [OF ok c]
    show "vfs_ok s1" using ok v(1) c by (simp add: s1_def)
    show "files (cur_table s1) ! nat oldfd = Some i" "files (cur_table s1) ! nat newfd = None"
      using v(2,3) c True i fd len by (auto simp: s1_def cur_table_def)
  qed
  have L: "ledger s1 (\<lambda>_. 0)" using s1(1) by (simp add: vfs_ok_def)
  obtain f where f: "i < 256" "file_table s1 ! i = Some f" "file_at s1 i = f"
    by (rule live_file [OF L ledgerD(4) [OF L] fd(1)]) (use s1(2) in \<open>auto simp: cur_table_def\<close>)
  have "has_inode s1 i"
    using inode [OF _ i] True has_inode_close [OF ok, of newfd] f by (auto simp: s1_def keeps_inodes_def has_inode_def file_slot_def)
  then obtain n where n: "file_inode f = Some n" using f(3) by (auto simp: has_inode_def)
  have "(0 :: int) \<le> 1000" by simp
  note dup = ledger_dup [OF L this f(1,2) n]
  have same: "fd_tables (vfs_dup_fd s1 i) = fd_tables s1" "current_fd_table (vfs_dup_fd s1 i) = current_fd_table s1"
    by (auto simp: vfs_dup_fd_def set_file_def Let_def split: option.splits)
  then have cur: "cur_table (vfs_dup_fd s1 i) = cur_table s1" by (simp add: cur_table_def)
  have s': "s' = set_table (vfs_dup_fd s1 i) \<lparr>files = (files (cur_table (vfs_dup_fd s1 i)))[nat newfd := Some i], fd_count = fd_count (cur_table s1) + 1\<rparr>"
    using d True unfolding vfs_dup2_def s1_def [symmetric] by (auto simp: i s1(2) Let_def cur)
  have "ledger s' (\<lambda>_. 0)"
    unfolding s' by (rule back_subst [where P = "ledger _", OF ledger_slot [OF dup fd(2)]]) (auto simp: fun_eq_iff cur s1(3))
  then show ?thesis by (simp add: vfs_ok_def)
qed

text \<open>The tables of new and of dying processes.\<close>

lemma std_file_ok:
  assumes L: "ledger s x" and d: "std_file k flags s = (r, s')"
  shows "fd_tables s' = fd_tables s" "current_fd_table s' = current_fd_table s"
    "ledger s' (\<lambda>i. x i + of_bool (r = Some i))"
proof -
  obtain o1 s1 where a: "alloc_file s = (o1, s1)" by fastforce
  have "fd_tables s' = fd_tables s \<and> current_fd_table s' = current_fd_table s \<and> ledger s' (\<lambda>i. x i + of_bool (r = Some i))"
  proof (cases o1)
    case None
    then obtain al where "s' = s\<lparr>allocs := al\<rparr>" "r = None" using d a alloc_file_spec [OF a] by (auto simp: std_file_def)
    then show ?thesis using ledger_same [OF L, of s'] by simp
  next
    case (Some i)
    then obtain al where i: "i < 256" "file_table s ! i = None" and s1: "s1 = s\<lparr>allocs := al, file_table := (file_table s)[i := Some zero_file]\<rparr>"
      using alloc_file_spec [OF a] by auto
    obtain n s2 where n: "vfs_create_inode s1 (101 + k) FT_CHARDEV NoData = (n, s2)" by fastforce
    have s2: "s2 = s1\<lparr>allocs := al + 1\<rparr>" "n = None \<or> n = Some \<lparr>inode_num = 101 + k, inode_type = FT_CHARDEV, inode_size = 0, ref_count = 1, private_data = NoData\<rparr>"
      using n by (auto simp: vfs_create_inode_def heap_alloc_def s1 split: if_splits)
    define f where "f = zero_file\<lparr>file_fd := int k, file_inode := n, file_flags := flags, file_ops := ConsoleOps\<rparr>"
    have "i < length (file_table s)" using i ledgerD(1) [OF L] by simp
    then have s': "s' = set_file s2 i f" "r = Some i" using d a Some n by (auto simp: std_file_def f_def s2(1) s1 file_at_def)
    have "ledger s' (x(i := x i + 1))"
      by (rule ledger_new [OF L i, of _ f])
        (use s2(2) in \<open>auto simp: s' s2(1) s1 set_file_def f_def file_typed_def data_typed_def file_refs_def pipe_of_def\<close>)
    moreover have "x(i := x i + 1) = (\<lambda>j. x j + of_bool (r = Some j))" using s'(2) by auto
    ultimately show ?thesis by (simp add: s' s2(1) s1 set_file_def)
  qed
  then show "fd_tables s' = fd_tables s" "current_fd_table s' = current_fd_table s" "ledger s' (\<lambda>i. x i + of_bool (r = Some i))" by auto
qed

lemma vfs_init_fd_table_ok:
  assumes ok: "vfs_ok s" and k: "k < 33" and empty: "\<And>i. slots (fd_tables s ! k) i = 0"
  shows "vfs_ok (vfs_init_fd_table s k)"
proof -
  obtain f0 s0 where 0: "std_file 0 0 s = (f0, s0)" by fastforce
  obtain f1 s1 where 1: "std_file 1 1 s0 = (f1, s1)" by fastforce
  obtain f2 s2 where 2: "std_file 2 1 s1 = (f2, s2)" by fastforce
  note a = std_file_ok [OF vfs_okD(1) [OF ok] 0]
  note b = std_file_ok [OF a(3) 1]
  note c = std_file_ok [OF b(3) 2]
  let ?t = "\<lparr>files = [f0, f1, f2] @ replicate 13 None, fd_count = 3\<rparr>"
  let ?s = "s2\<lparr>fd_tables := (fd_tables s2)[k := ?t]\<rparr>"
  have s': "vfs_init_fd_table s k = ?s" unfolding vfs_init_fd_table_def 0 prod.case 1 2 ..
  have "slots ?t i = of_bool (f0 = Some i) + of_bool (f1 = Some i) + of_bool (f2 = Some i)" for i
    by (simp add: slots_def numeral_eq_Suc)
  moreover have "fd_tables s2 ! k = fd_tables s ! k" using a b c by simp
  moreover have "ledger ?s (\<lambda>i. 0 + of_bool (f0 = Some i) + of_bool (f1 = Some i) + of_bool (f2 = Some i) + slots (fd_tables s2 ! k) i - slots ?t i)"
    by (rule ledger_table [OF c(3) k]) (use ledgerD(4) [OF c(3)] in simp_all)
  ultimately show ?thesis using empty by (simp add: s' vfs_ok_def)
qed

lemma switch_simps [simp]:
  "file_slot (s\<lparr>current_fd_table := k\<rparr>) = file_slot s" "has_inode (s\<lparr>current_fd_table := k\<rparr>) = has_inode s"
  "file_slot (s\<lparr>fd_tables := ts\<rparr>) = file_slot s" "has_inode (s\<lparr>fd_tables := ts\<rparr>) = has_inode s"
  by (simp_all add: fun_eq_iff has_inode_def file_at_def file_slot_def)

lemma switch_ok:
  assumes "vfs_ok s" "k < 33"
  shows "vfs_ok (s\<lparr>current_fd_table := k\<rparr>)"
proof -
  let ?s = "s\<lparr>current_fd_table := k\<rparr>"
  have "descriptors ?s = descriptors s" "file_slot ?s = file_slot s" "pipe_ends ?s = pipe_ends s"
    by (simp_all add: fun_eq_iff descriptors_def file_slot_def pipe_ends_def)
  then show ?thesis using assms by (simp add: vfs_ok_def ledger_def)
qed

lemma close_slots:
  assumes "vfs_ok s" "n \<le> 16"
  shows "let s' = fold close_if_open [0..<n] s
    in vfs_ok s' \<and> current_fd_table s' = current_fd_table s \<and> (\<forall>k. k \<noteq> current_fd_table s \<longrightarrow> fd_tables s' ! k = fd_tables s ! k) \<and>
       (\<forall>i<n. files (cur_table s') ! i = None) \<and> keeps_inodes s s'"
  using assms(2)
proof (induction n)
  case 0
  then show ?case using assms(1) by (simp add: keeps_inodes_def)
next
  case (Suc n)
  define s1 where "s1 = fold close_if_open [0..<n] s"
  have IH: "vfs_ok s1" "current_fd_table s1 = current_fd_table s" "\<And>k. k \<noteq> current_fd_table s \<Longrightarrow> fd_tables s1 ! k = fd_tables s ! k"
    "\<And>i. i < n \<Longrightarrow> files (cur_table s1) ! i = None" "keeps_inodes s s1"
    using Suc by (auto simp: s1_def [symmetric] Let_def)
  obtain r s2 where c: "vfs_close s1 (int n) = (r, s2)" by fastforce
  note v = vfs_close_ok [OF IH(1) c]
  have fd: "valid_fd (int n)" "n < 16" using Suc.prems by (simp_all add: valid_fd_def MAX_FD_PER_PROCESS_def)
  define s' where "s' = (if files (cur_table s1) ! n \<noteq> None then s2 else s1)"
  have s': "fold close_if_open [0..<Suc n] s = s'"
    by (simp add: s'_def s1_def [symmetric] close_if_open_def c)
  have "keeps_inodes s1 s2" using has_inode_close [OF IH(1), of "int n"] c by simp
  then have "keeps_inodes s s'" using IH(5) by (auto simp: s'_def keeps_inodes_def)
  moreover have "vfs_ok s'" "current_fd_table s' = current_fd_table s" using IH(1,2) v(1,2) by (simp_all add: s'_def)
  moreover have "fd_tables s' ! k = fd_tables s ! k" if "k \<noteq> current_fd_table s" for k
    using that v(3) IH(2,3) by (auto simp: s'_def)
  moreover have "files (cur_table s') ! i = None" if "i < Suc n" for i
    using that v(2,3) IH(4) vfs_okD(3,4) [OF IH(1)] fd by (auto simp: s'_def cur_table_def less_Suc_eq nth_list_update)
  ultimately show ?case unfolding s' Let_def by blast
qed

lemma close_all_ok:
  assumes ok: "vfs_ok s" and k: "k < 33"
  shows "vfs_ok (close_all k s)" "current_fd_table (close_all k s) = current_fd_table s"
    "k' \<noteq> k \<Longrightarrow> fd_tables (close_all k s) ! k' = fd_tables s ! k'" "slots (fd_tables (close_all k s) ! k) i = 0"
    "keeps_inodes s (close_all k s)"
proof -
  define s0 where "s0 = s\<lparr>current_fd_table := k\<rparr>"
  define s1 where "s1 = fold close_if_open [0..<16] s0"
  have ok0: "vfs_ok s0" unfolding s0_def by (rule switch_ok [OF ok k])
  note c = close_slots [OF ok0, of 16, folded s1_def, unfolded Let_def]
  have s1: "vfs_ok s1" "current_fd_table s1 = k" "\<And>k'. k' \<noteq> k \<Longrightarrow> fd_tables s1 ! k' = fd_tables s ! k'"
    "\<And>i. i < 16 \<Longrightarrow> files (cur_table s1) ! i = None" "keeps_inodes s0 s1" using c by (auto simp: s0_def)
  have eq: "close_all k s = s1\<lparr>current_fd_table := current_fd_table s\<rparr>"
    by (simp add: close_all_def s1_def s0_def MAX_FD_PER_PROCESS_def)
  show "vfs_ok (close_all k s)" unfolding eq by (rule switch_ok [OF s1(1)]) (use vfs_okD(4,5) [OF ok] in simp)
  show "current_fd_table (close_all k s) = current_fd_table s" by (simp add: eq)
  show "fd_tables (close_all k s) ! k' = fd_tables s ! k'" if "k' \<noteq> k" using s1(3) [OF that] by (simp add: eq)
  have "files (fd_tables s1 ! k) = replicate 16 None"
    using s1(4) vfs_okD(3) [OF s1(1)] s1(2) by (intro nth_equalityI) (auto simp: cur_table_def)
  then show "slots (fd_tables (close_all k s) ! k) i = 0" by (simp add: eq slots_def count_list_0_iff)
  show "keeps_inodes s (close_all k s)" using s1(5) by (simp add: eq s0_def keeps_inodes_def)
qed

text \<open>The descriptors a child inherits are counted one after the other.\<close>

lemma dup_tables: "fd_tables (vfs_dup_fd s i) = fd_tables s" "current_fd_table (vfs_dup_fd s i) = current_fd_table s"
  by (auto simp: vfs_dup_fd_def set_file_def Let_def split: option.splits)

lemma dup_slot:
  assumes "file_slot s j \<noteq> None"
  shows "file_slot (vfs_dup_fd s i) j \<noteq> None"
proof -
  have set: "file_slot (set_file s i f) j \<noteq> None" for f
    using assms by (cases "i < length (file_table s)"; cases "j = i") (auto simp: file_slot_def set_file_def list_update_beyond not_less split: if_splits)
  have "file_slot (t\<lparr>pipe_heap := h\<rparr>) j = file_slot t j" for t h by (simp add: file_slot_def)
  then show ?thesis using set assms by (simp add: vfs_dup_fd_def Let_def split: option.split)
qed

lemma dup_all:
  assumes L: "ledger s (\<lambda>i. - int (count_list (drop n fs) (Some i)))"
    and fs: "files (fd_tables s ! k) = fs" "length fs = 16" "n \<le> 16"
    and live: "\<And>i. Some i \<in> set fs \<Longrightarrow> file_slot s i \<noteq> None \<and> has_inode s i"
  shows "vfs_ok (fold (\<lambda>i s. case files (fd_tables s ! k) ! i of None \<Rightarrow> s | Some f \<Rightarrow> vfs_dup_fd s f) [n..<16] s)"
  using L fs live
proof (induction "16 - n" arbitrary: n s)
  case 0
  then have "n = 16" by simp
  then show ?case using 0 by (simp add: vfs_ok_def)
next
  case (Suc m)
  then have n: "n < 16" by simp
  then have up: "[n..<16] = n # [Suc n..<16]" by (simp add: upt_conv_Cons)
  have dr: "drop n fs = fs ! n # drop (Suc n) fs" using n Suc.prems(3) by (simp add: Cons_nth_drop_Suc)
  show ?case
  proof (cases "fs ! n")
    case None
    have "vfs_ok (fold (\<lambda>i s. case files (fd_tables s ! k) ! i of None \<Rightarrow> s | Some f \<Rightarrow> vfs_dup_fd s f) [Suc n..<16] s)"
      by (rule Suc.hyps) (use Suc n None dr in auto)
    then show ?thesis using Suc.prems(2) None by (simp add: up)
  next
    case (Some i)
    have "Some i \<in> set fs" using Some n Suc.prems(3) nth_mem by metis
    then have li: "file_slot s i \<noteq> None" "has_inode s i" using Suc.prems(5) by auto
    then obtain f nd where f: "i < 256" "file_table s ! i = Some f" "file_inode f = Some nd"
      by (auto simp: file_slot_def has_inode_def file_at_def split: if_splits)
    let ?x = "\<lambda>i. - int (count_list (drop n fs) (Some i))"
    have "?x i \<le> 1000" by simp
    note d = ledger_dup [OF Suc.prems(1) this f]
    have x: "?x(i := ?x i + 1) = (\<lambda>i. - int (count_list (drop (Suc n) fs) (Some i)))" by (auto simp: dr Some fun_eq_iff)
    have "vfs_ok (fold (\<lambda>i s. case files (fd_tables s ! k) ! i of None \<Rightarrow> s | Some f \<Rightarrow> vfs_dup_fd s f) [Suc n..<16] (vfs_dup_fd s i))"
    proof (rule Suc.hyps)
      show "ledger (vfs_dup_fd s i) (\<lambda>i. - int (count_list (drop (Suc n) fs) (Some i)))" using d unfolding x .
      show "file_slot (vfs_dup_fd s i) j \<noteq> None \<and> has_inode (vfs_dup_fd s i) j" if "Some j \<in> set fs" for j
        using Suc.prems(5) [OF that] dup_slot has_inode_dup by blast
    qed (use Suc n in \<open>auto simp: dup_tables\<close>)
    then show ?thesis using Suc.prems(2) Some by (simp add: up)
  qed
qed

lemma fork_fds_ok:
  assumes ok: "vfs_ok s" and child: "child < 33" "child \<noteq> current_fd_table s"
    and inodes: "\<And>i. Some i \<in> set (files (cur_table s)) \<Longrightarrow> has_inode s i"
  shows "vfs_ok (fork_fds child s)"
proof -
  define s1 where "s1 = close_all child s"
  note c = close_all_ok [OF ok child(1), folded s1_def]
  have cur: "cur_table s1 = cur_table s" using c(2) c(3) [OF child(2) [symmetric]] by (simp add: cur_table_def)
  define s2 where "s2 = s1\<lparr>fd_tables := (fd_tables s1)[child := cur_table s1]\<rparr>"
  let ?fs = "files (cur_table s)"
  note L1 = vfs_okD(1) [OF c(1)]
  have len: "length ?fs = 16" by (rule vfs_okD(3) [OF ok])
  have "ledger s2 (\<lambda>i. 0 + slots (fd_tables s1 ! child) i - slots (cur_table s1) i)"
    by (rule ledger_table [OF L1 child(1)]) (use cur len c(2) vfs_okD(4,5) [OF ok] in \<open>simp_all add: s2_def\<close>)
  then have L2: "ledger s2 (\<lambda>i. - int (count_list (drop 0 ?fs) (Some i)))" using c(4) by (simp add: slots_def cur)
  have "vfs_ok (fold (\<lambda>i s. case files (fd_tables s ! child) ! i of None \<Rightarrow> s | Some f \<Rightarrow> vfs_dup_fd s f) [0..<16] s2)"
  proof (rule dup_all [OF L2 _ len])
    show "files (fd_tables s2 ! child) = ?fs" using child(1) vfs_okD(5) [OF c(1)] by (simp add: s2_def cur)
    fix i assume i: "Some i \<in> set ?fs"
    then obtain fd where fd: "fd < 16" "?fs ! fd = Some i" using len by (auto simp: in_set_conv_nth)
    obtain f where "i < 256" "file_table s1 ! i = Some f"
      by (rule live_file [OF L1 ledgerD(4) [OF L1] fd(1)]) (use fd(2) cur in \<open>auto simp: cur_table_def\<close>)
    then have "file_slot s1 i \<noteq> None" by (simp add: file_slot_def)
    then show "file_slot s2 i \<noteq> None \<and> has_inode s2 i" using c(5) inodes [OF i] by (auto simp: s2_def keeps_inodes_def)
  qed simp
  then show ?thesis by (simp add: fork_fds_def s1_def [symmetric] s2_def MAX_FD_PER_PROCESS_def Let_def)
qed

text \<open>Reading and writing change offsets, sizes and contents only.\<close>

lemma vfs_ok_soft:
  assumes ok: "vfs_ok s" and i: "i < 256" "file_table s ! i = Some f"
    and s': "file_table s' = (file_table s)[i := Some f']" "fd_tables s' = fd_tables s" "current_fd_table s' = current_fd_table s"
      "pipe_serial s' = pipe_serial s" "pipe_heap s' = pipe_heap s"
    and f': "file_ops f' = file_ops f" "pipe_of f' = pipe_of f" "file_refs (Some f') = file_refs (Some f)"
      "file_typed (pipe_heap s) f \<Longrightarrow> file_typed (pipe_heap s) f'"
  shows "vfs_ok s'"
proof -
  note L = vfs_okD(1) [OF ok]
  note D = ledgerD [OF L]
  have slot: "file_slot s i = Some f" using i by (simp add: file_slot_def)
  have "ledger s' ((\<lambda>_. 0)(i := 0 + file_refs (Some f') - file_refs (file_table s ! i)))"
  proof (rule ledger_file [OF L i(1) s'(1-4)])
    fix p pp assume "pipe_heap s' p = Some pp"
    then have "pipe_heap s p = Some pp" by (simp add: s'(5))
    moreover have "ends_of fops p (Some f') = ends_of fops p (file_table s ! i)" for fops using f' i(2) by (simp add: ends_of_def)
    ultimately show "pipe_ends s PipeReadOps p - ends_of PipeReadOps p (file_table s ! i) + ends_of PipeReadOps p (Some f') \<le> readers pp \<and>
      pipe_ends s PipeWriteOps p - ends_of PipeWriteOps p (file_table s ! i) + ends_of PipeWriteOps p (Some f') \<le> writers pp"
      using D(7) by simp
  qed (use f'(4) D(6) [OF slot] D(6) D(8) s'(5) in auto)
  moreover have "((\<lambda>_. 0)(i := 0 + file_refs (Some f') - file_refs (file_table s ! i))) = (\<lambda>_. 0)" using f'(3) i(2) by auto
  ultimately show ?thesis by (simp add: vfs_ok_def)
qed

lemma vfs_ok_same:
  assumes "vfs_ok s" "file_table s' = file_table s" "fd_tables s' = fd_tables s" "current_fd_table s' = current_fd_table s"
    "pipe_serial s' = pipe_serial s" "pipe_heap s' = pipe_heap s"
  shows "vfs_ok s'"
  using assms ledger_same [of s "\<lambda>_. 0" s'] by (simp add: vfs_ok_def)

lemma pipe_read_loop_ends:
  "pipe_read_loop ps me n got = (r, ps') \<Longrightarrow> readers (the_pipe ps') = readers (the_pipe ps) \<and> writers (the_pipe ps') = writers (the_pipe ps) \<and>
     pipe_freed ps' = pipe_freed ps"
  by (induction ps me n got rule: pipe_read_loop.induct)
    (fastforce simp: wake_writer_def pipe_take_def split: if_splits)+

lemma pipe_write_loop_ends:
  "pipe_write_loop ps me bs n = (r, ps') \<Longrightarrow> readers (the_pipe ps') = readers (the_pipe ps) \<and> writers (the_pipe ps') = writers (the_pipe ps) \<and>
     pipe_freed ps' = pipe_freed ps"
  by (induction ps me bs n rule: pipe_write_loop.induct)
    (fastforce simp: wake_reader_def pipe_put_def split: if_splits)+

lemma on_pipe_ok:
  assumes ok: "vfs_ok s" and o: "on_pipe g s p = Some (r, s')"
    and g: "\<And>ps r ps'. g ps = (r, ps') \<Longrightarrow> readers (the_pipe ps') = readers (the_pipe ps) \<and> writers (the_pipe ps') = writers (the_pipe ps) \<and>
     pipe_freed ps' = pipe_freed ps"
  shows "vfs_ok s'"
proof -
  note L = vfs_okD(1) [OF ok]
  obtain pp ps where h: "pipe_heap s p = Some pp" and gp: "g \<lparr>the_pipe = pp, proc_states = states s, pipe_freed = False\<rparr> = (r, ps)"
    and s': "s' = s\<lparr>pipe_heap := (pipe_heap s)(p := if pipe_freed ps then None else Some (the_pipe ps)), states := proc_states ps\<rparr>"
    using o by (auto simp: on_pipe_def split: option.splits prod.splits)
  note e = g [OF gp]
  have used: "pipe_heap s q \<noteq> None" if "file_slot s j = Some f" "pipe_of f = Some q" for j f q
    using typed_pipe [OF ledgerD(6) [OF L that(1)] that(2)] by blast
  have "ledger s' (\<lambda>_. 0)"
  proof (rule ledger_heap [OF L])
    show "pipe_heap s' q = None" if "q \<ge> pipe_serial s'" for q
      using that ledgerD(8) [OF L, of q] h by (auto simp: s')
    fix q pp' assume "pipe_heap s' q = Some pp'"
    then show "pipe_ends s PipeReadOps q \<le> readers pp' \<and> pipe_ends s PipeWriteOps q \<le> writers pp'"
      using e ledgerD(7) [OF L h] ledgerD(7) [OF L, of q pp'] by (auto simp: s' split: if_splits)
  qed (use used e in \<open>auto simp: s'\<close>)
  then show ?thesis by (simp add: vfs_ok_def)
qed

lemma fd_live:
  assumes ok: "vfs_ok s" and fd: "valid_fd fd" "files (cur_table s) ! nat fd = Some i"
  obtains f where "i < 256" "file_table s ! i = Some f" "file_at s i = f" "file_typed (pipe_heap s) f"
proof -
  note L = vfs_okD(1) [OF ok]
  have "nat fd < 16" using fd(1) by (auto simp: valid_fd_def MAX_FD_PER_PROCESS_def)
  then show ?thesis
    by (rule live_file [OF L ledgerD(4) [OF L]]) (use fd(2) that in \<open>auto simp: cur_table_def\<close>)
qed

lemma lfs_data_typed:
  assumes "lfs_data f = Some (n, ino, is_dir, d)"
  shows "file_inode f = Some n" "private_data n = LfsData ino is_dir d" "pipe_of f = None"
  using assms by (auto simp: lfs_data_def pipe_of_def split: option.splits private_data.splits)

lemma vfs_readdir_ok:
  assumes ok: "vfs_ok s" and r: "vfs_readdir s fd = (r, e, s')"
  shows "vfs_ok s'"
proof (cases "valid_fd fd \<and> (\<exists>i. files (cur_table s) ! nat fd = Some i)")
  case False
  then have "s' = s" using r by (auto simp: vfs_readdir_def split: option.splits)
  then show ?thesis using ok by simp
next
  case True
  then obtain i where i: "valid_fd fd" "files (cur_table s) ! nat fd = Some i" by auto
  obtain f where f: "i < 256" "file_table s ! i = Some f" "file_at s i = f" "file_typed (pipe_heap s) f" by (rule fd_live [OF ok i])
  show ?thesis
  proof (cases "\<exists>n ino d. file_inode f = Some n \<and> inode_type n = FT_DIRECTORY \<and> private_data n = LfsData ino True d")
    case False
    then have "s' = s" using r i f(3) by (auto simp: vfs_readdir_def Let_def split: option.splits if_splits private_data.splits bool.splits)
    then show ?thesis using ok by simp
  next
    case T: True
    then obtain n ino d where n: "file_inode f = Some n" "inode_type n = FT_DIRECTORY" "private_data n = LfsData ino True d" by blast
    obtain o1 d1 l where rd: "lufirafs_readdir (lfs s) d = (o1, d1, l)" by (metis prod_cases3)
    obtain off where s': "s' = set_file (s\<lparr>lfs := l\<rparr>) i (f\<lparr>file_inode := Some (n\<lparr>private_data := LfsData ino True d1\<rparr>), file_offset := off\<rparr>)"
      using r i f(3) n rd by (cases o1) (auto simp: vfs_readdir_def Let_def intro: that [of "file_offset f"])
    show ?thesis
      by (rule vfs_ok_soft [OF ok f(1,2), of s' "f\<lparr>file_inode := Some (n\<lparr>private_data := LfsData ino True d1\<rparr>), file_offset := off\<rparr>"])
        (use n in \<open>auto simp: s' set_file_def pipe_of_def file_refs_def file_typed_def data_typed_def split: file_ops.splits\<close>)
  qed
qed

lemma lufirafs_file_ok:
  assumes ok: "vfs_ok s" and i: "i < 256" "file_table s ! i = Some f"
  shows "lufirafs_file_read s i count = (r, out, s') \<Longrightarrow> vfs_ok s'"
    "lufirafs_file_write s i buf = (r, s') \<Longrightarrow> vfs_ok s'"
    "lufirafs_file_seek s i off whence = (r, s') \<Longrightarrow> vfs_ok s'"
proof -
  have at: "file_at s i = f" using i(2) by (simp add: file_at_def)
  have fsoft: "vfs_ok (set_file (s\<lparr>lfs := l\<rparr>) i (f\<lparr>file_offset := o1\<rparr>))" for l o1
    by (rule vfs_ok_soft [OF ok i, of _ "f\<lparr>file_offset := o1\<rparr>"])
      (simp_all add: set_file_def pipe_of_def file_refs_def file_typed_def split: option.splits)
  have fsize: "vfs_ok (set_file (s\<lparr>lfs := l\<rparr>) i (f\<lparr>file_offset := o1, file_inode := Some (n\<lparr>inode_size := z\<rparr>)\<rparr>))"
    if "file_inode f = Some n" for l o1 n z
    by (rule vfs_ok_soft [OF ok i, of _ "f\<lparr>file_offset := o1, file_inode := Some (n\<lparr>inode_size := z\<rparr>)\<rparr>"])
      (use that in \<open>simp_all add: set_file_def pipe_of_def file_refs_def file_typed_def data_typed_def split: file_ops.splits\<close>)
  have plain: "vfs_ok (s\<lparr>lfs := l\<rparr>)" for l by (rule vfs_ok_same [OF ok]) simp_all
  have same: "vfs_ok (set_file (s\<lparr>lfs := l\<rparr>) i f)" for l using fsoft [of l "file_offset f"] by simp
  show "vfs_ok s'" if "lufirafs_file_read s i count = (r, out, s')"
  proof (cases "lfs_data f")
    case None
    then show ?thesis using that ok by (simp add: lufirafs_file_read_def at)
  next
    case (Some q)
    obtain n ino is_dir d where q: "q = (n, ino, is_dir, d)" by (metis prod_cases4)
    obtain r1 out1 l where rd: "lufirafs_read (lfs s) ino (file_offset f) (wrap32 count) = (r1, out1, l)" by (metis prod_cases3)
    show ?thesis using that ok fsoft same Some q rd by (auto simp: lufirafs_file_read_def at split: if_splits)
  qed
  show "vfs_ok s'" if "lufirafs_file_write s i buf = (r, s')"
  proof (cases "lfs_data f")
    case None
    then show ?thesis using that ok by (simp add: lufirafs_file_write_def at)
  next
    case (Some q)
    obtain n ino is_dir d where q: "q = (n, ino, is_dir, d)" by (metis prod_cases4)
    note n = lfs_data_typed(1) [OF Some [unfolded q]]
    define o1 where "o1 = (if flag (file_flags f) O_APPEND then inode_size n else file_offset f)"
    obtain r1 l where wr: "lufirafs_write (lfs s) ino o1 (take (wrap32 (length buf)) buf) = (r1, l)" by fastforce
    have fs0: "vfs_ok (set_file (s\<lparr>lfs := l\<rparr>) i (f\<lparr>file_offset := o1, file_inode := Some n\<rparr>))" for l o1
      using fsize [OF n, where l = l and ?o1.0 = o1 and z = "inode_size n"] by simp
    show ?thesis using that ok plain fsize [OF n] fs0 Some q wr
      by (auto simp: lufirafs_file_write_def at o1_def [symmetric] Let_def split: if_splits option.splits)
  qed
  show "vfs_ok s'" if "lufirafs_file_seek s i off whence = (r, s')"
  proof -
    have "s' = s \<or> (\<exists>o1. s' = set_file s i (f\<lparr>file_offset := o1\<rparr>))"
      using that unfolding lufirafs_file_seek_def at Let_def by (auto split: option.splits if_splits simp del: of_nat_numeral)
    then show ?thesis using ok fsoft [of "lfs s"] by auto
  qed
qed

lemma pipe_file_ok:
  assumes ok: "vfs_ok s"
  shows "pipe_file_read s f count = (r, s') \<Longrightarrow> vfs_ok s'" "pipe_file_write s f buf = (r, s') \<Longrightarrow> vfs_ok s'"
  using ok on_pipe_ok [OF ok _ pipe_read_loop_ends] on_pipe_ok [OF ok _ pipe_write_loop_ends]
  by (auto simp: pipe_file_read_def pipe_file_write_def pipe_read_def split: option.splits read_result.splits write_result.splits)

lemma console_file_ok:
  assumes ok: "vfs_ok s"
  shows "console_file_read s count = (r, s') \<Longrightarrow> vfs_ok s'" "console_file_write s buf = (r, s') \<Longrightarrow> vfs_ok s'"
  using ok by (auto simp: console_file_read_def console_file_write_def intro: vfs_ok_same split: if_splits prod.splits option.splits)

lemma vfs_read_ok:
  assumes ok: "vfs_ok s" and r: "vfs_read s fd count = (r, s')"
  shows "vfs_ok s'"
proof (cases "valid_fd fd \<and> (\<exists>i. files (cur_table s) ! nat fd = Some i)")
  case False
  then have "s' = s" using r by (auto simp: vfs_read_def split: option.splits)
  then show ?thesis using ok by simp
next
  case True
  then obtain i where i: "valid_fd fd" "files (cur_table s) ! nat fd = Some i" by auto
  obtain f where f: "i < 256" "file_table s ! i = Some f" "file_at s i = f" "file_typed (pipe_heap s) f" by (rule fd_live [OF ok i])
  show ?thesis
    using r i f(3) ok console_file_ok(1) [OF ok] pipe_file_ok(1) [OF ok] lufirafs_file_ok(1) [OF ok f(1,2)] vfs_readdir_ok [OF ok]
    by (auto simp: vfs_read_def split: file_ops.splits prod.splits if_splits)
qed

lemma vfs_write_ok:
  assumes ok: "vfs_ok s" and r: "vfs_write s fd buf = (r, s')"
  shows "vfs_ok s'"
proof (cases "valid_fd fd \<and> (\<exists>i. files (cur_table s) ! nat fd = Some i)")
  case False
  then have "s' = s" using r by (auto simp: vfs_write_def split: option.splits)
  then show ?thesis using ok by simp
next
  case True
  then obtain i where i: "valid_fd fd" "files (cur_table s) ! nat fd = Some i" by auto
  obtain f where f: "i < 256" "file_table s ! i = Some f" "file_at s i = f" "file_typed (pipe_heap s) f" by (rule fd_live [OF ok i])
  show ?thesis
    using r i f(3) ok console_file_ok(2) [OF ok] pipe_file_ok(2) [OF ok] lufirafs_file_ok(2) [OF ok f(1,2)]
    by (auto simp: vfs_write_def split: file_ops.splits prod.splits)
qed

lemma vfs_seek_ok:
  assumes ok: "vfs_ok s" and r: "vfs_seek s fd off whence = (r, s')"
  shows "vfs_ok s'"
proof (cases "valid_fd fd \<and> (\<exists>i. files (cur_table s) ! nat fd = Some i)")
  case False
  then have "s' = s" using r by (auto simp: vfs_seek_def split: option.splits)
  then show ?thesis using ok by simp
next
  case True
  then obtain i where i: "valid_fd fd" "files (cur_table s) ! nat fd = Some i" by auto
  obtain f where f: "i < 256" "file_table s ! i = Some f" "file_at s i = f" "file_typed (pipe_heap s) f" by (rule fd_live [OF ok i])
  show ?thesis
    using r i ok lufirafs_file_ok(3) [OF ok f(1,2)] by (auto simp: vfs_seek_def split: if_splits)
qed

lemma build_inode_spec:
  assumes "build_inode s ino = (r, s1)"
  shows "\<exists>a. s1 = s\<lparr>allocs := a\<rparr>"
    "r = Some n \<Longrightarrow> ref_count n = 1 \<and> (\<exists>d. inode_type n = FT_DIRECTORY \<and> private_data n = LfsData ino True d \<or>
       inode_type n = FT_REGULAR \<and> private_data n = LfsData ino False d)"
proof -
  show "\<exists>a. s1 = s\<lparr>allocs := a\<rparr>" using assms
    by (auto simp: build_inode_def heap_alloc_def vfs_create_inode_def Let_def intro: exI [of _ "allocs s"] split: option.splits if_splits)
  show "r = Some n \<Longrightarrow> ref_count n = 1 \<and> (\<exists>d. inode_type n = FT_DIRECTORY \<and> private_data n = LfsData ino True d \<or>
       inode_type n = FT_REGULAR \<and> private_data n = LfsData ino False d)" using assms
    by (auto simp: build_inode_def heap_alloc_def vfs_create_inode_def Let_def split: option.splits if_splits)
qed

lemma vfs_lufirafs_open_at_ok:
  assumes ok: "vfs_ok s" and op: "vfs_lufirafs_open_at s base path flags = (r, s')"
  shows "vfs_ok s'"
proof -
  obtain o1 l where lk: "lufirafs_lookup (lfs s) base path = (o1, l)" by fastforce
  define s0 where "s0 = s\<lparr>lfs := l\<rparr>"
  have ok0: "vfs_ok s0" unfolding s0_def by (rule vfs_ok_same [OF ok]) simp_all
  show ?thesis
  proof (cases "path = [] \<or> dev_prefix path \<or> o1 = None \<or> alloc_fd s0 = None")
    case True
    then have "s' = s \<or> s' = s0"
      using op unfolding vfs_lufirafs_open_at_def lk prod.case s0_def [symmetric] by (auto split: option.splits if_splits)
    then show ?thesis using ok ok0 by auto
  next
    case False
    then obtain ino fd where 1: "path \<noteq> []" "\<not> dev_prefix path" "o1 = Some ino" and fd: "alloc_fd s0 = Some fd" by auto
    obtain o2 s1 where b: "build_inode s0 ino = (o2, s1)" by fastforce
    obtain a where s1: "s1 = s0\<lparr>allocs := a\<rparr>" using build_inode_spec(1) [OF b] by blast
    obtain o3 s2 where al: "alloc_file s1 = (o3, s2)" by fastforce
    note af = alloc_file_spec [OF al]
    note run = op [unfolded vfs_lufirafs_open_at_def lk prod.case s0_def [symmetric] 1(3) option.case fd b]
    show ?thesis
    proof (cases "o2 = None \<or> o3 = None")
      case True
      then obtain a where "s' = s0\<lparr>allocs := a\<rparr>"
        using run 1 s1 al af by (cases o2) (auto split: option.splits)
      then show ?thesis using vfs_ok_allocs [OF ok0] by simp
    next
      case False
      then obtain n i where n: "o2 = Some n" and i: "o3 = Some i" by auto
      note ns = build_inode_spec(2) [OF b n]
      obtain a' where i': "i < 256" "file_table s0 ! i = None" and s2: "s2 = s0\<lparr>allocs := a', file_table := (file_table s0)[i := Some zero_file]\<rparr>"
        using af by (auto simp: i s1)
      obtain l' z o4 where s': "s' = install (set_file (s2\<lparr>lfs := l'\<rparr>) i \<lparr>file_fd = int fd, file_inode = Some (n\<lparr>inode_size := z\<rparr>), file_offset = o4, file_flags = flags,
          file_ops = (if inode_type n = FT_DIRECTORY then LfsDirOps else LfsFileOps)\<rparr>) fd i"
      proof (cases "flag flags O_TRUNC \<and> inode_type n \<noteq> FT_DIRECTORY")
        case True
        then show ?thesis using run 1 n i al by (auto simp: Let_def intro: that)
      next
        case False
        then have "s' = install (set_file (s2\<lparr>lfs := lfs s2\<rparr>) i \<lparr>file_fd = int fd, file_inode = Some (n\<lparr>inode_size := inode_size n\<rparr>),
          file_offset = (if flag flags O_APPEND then inode_size n else 0), file_flags = flags,
          file_ops = (if inode_type n = FT_DIRECTORY then LfsDirOps else LfsFileOps)\<rparr>) fd i"
          using run 1 n i al by (auto simp: Let_def)
        then show ?thesis by (rule that)
      qed
      show ?thesis
        by (rule vfs_ok_open [OF ok0 i' fd, where c = "fd_count (cur_table s0) + 1"])
          (use ns in \<open>auto simp: s' s2 install_def set_table_def set_file_def cur_table_def file_typed_def data_typed_def file_refs_def pipe_of_def\<close>)
    qed
  qed
qed

section \<open>Histories of calls\<close>

text \<open>
  The state after boot, from a zeroed kernel image, and the calls of all processes
  in any order. A process number is free while its table names no file. Copies of a
  descriptor (\<open>dup2\<close>, \<open>fork\<close>) are restricted to files whose inode could be allocated:
  \<open>vfs_dup_fd\<close> does not count a reference to a file without inode.
\<close>

definition vfs_boot :: "lufirafs \<Rightarrow> (nat \<Rightarrow> bool) \<Rightarrow> vfs" where
  "vfs_boot l oks = \<lparr>file_table = replicate MAX_FILES_SYSTEM None,
     fd_tables = replicate 33 \<lparr>files = replicate MAX_FD_PER_PROCESS None, fd_count = 0\<rparr>, current_fd_table = 0,
     pipe_heap = (\<lambda>_. None), pipe_serial = 0, states = (\<lambda>_. READY), dev_inode_counter = 200,
     con_input = \<lparr>console_input_buf = replicate CONSOLE_INPUT_BUF_SIZE 0, console_input_head = 0, console_input_count = 0, console_input_waiter = None\<rparr>,
     con_output = [], lfs = l, alloc_ok = oks, allocs = 0\<rparr>"

inductive vfs_step :: "vfs \<Rightarrow> vfs \<Rightarrow> bool" where
  step_console: "vfs_step s (snd (vfs_open_console s flags))"
| step_open: "vfs_step s (snd (vfs_lufirafs_open_at s base path flags))"
| step_pipe: "vfs_step s (snd (vfs_pipe s))"
| step_dup2: "vfs_step s (snd (vfs_dup2 s oldfd newfd))"
    if "\<And>i. valid_fd oldfd \<Longrightarrow> files (cur_table s) ! nat oldfd = Some i \<Longrightarrow> has_inode s i"
| step_close: "vfs_step s (snd (vfs_close s fd))"
| step_read: "vfs_step s (snd (vfs_read s fd count))"
| step_write: "vfs_step s (snd (vfs_write s fd buf))"
| step_seek: "vfs_step s (snd (vfs_seek s fd off whence))"
| step_readdir: "vfs_step s (snd (snd (vfs_readdir s fd)))"
| step_create: "vfs_step s (s\<lparr>lfs := snd (vfs_lufirafs_create_at (lfs s) base path uid gid)\<rparr>)"
| step_mkdir: "vfs_step s (s\<lparr>lfs := snd (vfs_lufirafs_mkdir_at (lfs s) base path uid gid)\<rparr>)"
| step_unlink: "vfs_step s (s\<lparr>lfs := snd (vfs_lufirafs_unlink_at (lfs s) base path)\<rparr>)"
| step_key: "vfs_step s (s\<lparr>con_input := snd (console_input_push (con_input s) b)\<rparr>)"
| step_spawn: "vfs_step s (vfs_init_fd_table s k)" if "k < 33" "files (fd_tables s ! k) = replicate MAX_FD_PER_PROCESS None"
| step_fork: "vfs_step s (fork_fds child s)"
    if "child < 33" "child \<noteq> current_fd_table s" "\<And>i. Some i \<in> set (files (cur_table s)) \<Longrightarrow> has_inode s i"
| step_exit: "vfs_step s (close_all k s)" if "k < 33"
| step_switch: "vfs_step s (s\<lparr>current_fd_table := k\<rparr>)" if "k < 33"

inductive vfs_reach :: "vfs \<Rightarrow> bool" where
  boot: "vfs_reach (vfs_init (vfs_boot l oks))"
| step: "vfs_reach s \<Longrightarrow> vfs_step s s' \<Longrightarrow> vfs_reach s'"

lemma slots_none: "slots \<lparr>files = replicate n None, fd_count = c\<rparr> i = 0"
  by (simp add: slots_def)

lemma vfs_boot_ok: "vfs_ok (vfs_boot l oks)"
  by (simp add: vfs_ok_def ledger_def vfs_boot_def descriptors_def file_slot_def file_refs_def MAX_FILES_SYSTEM_def MAX_FD_PER_PROCESS_def
      slots_none sum_list_replicate)

lemma vfs_init_ok: "vfs_ok (vfs_init (vfs_boot l oks))"
proof -
  have "vfs_init (vfs_boot l oks) = vfs_init_fd_table (vfs_boot l oks) 0" by (simp add: vfs_init_def vfs_boot_def)
  moreover have "slots (fd_tables (vfs_boot l oks) ! 0) i = 0" for i by (simp add: vfs_boot_def slots_none)
  ultimately show ?thesis using vfs_init_fd_table_ok [OF vfs_boot_ok, of 0] by simp
qed

lemma vfs_step_ok: "vfs_step s s' \<Longrightarrow> vfs_ok s \<Longrightarrow> vfs_ok s'"
proof (induction rule: vfs_step.induct)
  case (step_dup2 oldfd s newfd)
  then show ?case by (auto intro!: vfs_dup2_ok [OF _ prod.collapse [symmetric]] simp: has_inode_def)
next
  case (step_spawn k s)
  then show ?case by (intro vfs_init_fd_table_ok) (auto simp: slots_def)
next
  case (step_fork child s)
  then show ?case by (intro fork_fds_ok) auto
next
  case (step_readdir s fd)
  obtain r e s1 where "vfs_readdir s fd = (r, e, s1)" by (metis prod_cases3)
  then show ?case using vfs_readdir_ok step_readdir by simp
qed (auto intro: vfs_open_console_ok [OF _ prod.collapse [symmetric]] vfs_lufirafs_open_at_ok [OF _ prod.collapse [symmetric]]
      vfs_pipe_ok [OF _ prod.collapse [symmetric]] vfs_close_ok(1) [OF _ prod.collapse [symmetric]]
      vfs_read_ok [OF _ prod.collapse [symmetric]] vfs_write_ok [OF _ prod.collapse [symmetric]]
      vfs_seek_ok [OF _ prod.collapse [symmetric]] close_all_ok(1) switch_ok intro!: vfs_ok_same [where s' = "_\<lparr>lfs := _\<rparr>"]
      vfs_ok_same [where s' = "_\<lparr>con_input := _\<rparr>"])

lemma vfs_reach_ok: "vfs_reach s \<Longrightarrow> vfs_ok s"
  by (induction rule: vfs_reach.induct) (auto intro: vfs_init_ok vfs_step_ok)

section \<open>Properties\<close>


text \<open>After boot: the three console files of the idle process, and a pipe.\<close>

definition demo_piped :: vfs where
  "demo_piped = snd (vfs_pipe (vfs_init (vfs_boot demo_fs (\<lambda>_. True))))"

lemma alloc_file_first:
  assumes "alloc_ok s (allocs s)" "first_index (\<lambda>f. f = None) (file_table s) = Some k" "k < 256"
  shows "alloc_file s = (Some k, set_file (s\<lparr>allocs := allocs s + 1\<rparr>) k zero_file)"
proof -
  have skip: "alloc_file_loop (is @ js) s = alloc_file_loop js s" if "\<forall>i\<in>set is. file_table s ! i \<noteq> None" for "is" js
    using that by (induction "is") auto
  have "[0..<256] = [0..<k] @ k # [k + 1..<256]"
    using assms(3) upt_add_eq_append [of 0 k "256 - k"] by (simp add: upt_conv_Cons)
  moreover have "file_table s ! k = None" "\<forall>i\<in>set [0..<k]. file_table s ! i \<noteq> None"
    using assms(2) by (auto simp: first_index_Some)
  ultimately show ?thesis using assms(1) by (simp add: alloc_file_def MAX_FILES_SYSTEM_def skip heap_alloc_def)
qed

lemma replicate_None:
  "first_index (\<lambda>f. f = None) (replicate (numeral n) None) = Some 0"
  "(replicate (numeral n) None)[0 := y] = y # replicate (pred_numeral n) None"
  by (simp_all add: numeral_eq_Suc)

lemmas demo_simps = vfs_init_def vfs_boot_def vfs_init_fd_table_def std_file_def alloc_file_first vfs_create_inode_def heap_alloc_def
  set_file_def file_at_def zero_file_def replicate_None

lemma vfs_boot_tables:
  "\<exists>a b c. vfs_init (vfs_boot demo_fs (\<lambda>_. True)) = (vfs_boot demo_fs (\<lambda>_. True))\<lparr>file_table := Some a # Some b # Some c # replicate 253 None,
     fd_tables := (replicate 33 \<lparr>files = replicate 16 None, fd_count = 0\<rparr>)[0 := \<lparr>files = [Some 0, Some 1, Some 2] @ replicate 13 None, fd_count = 3\<rparr>],
     allocs := 6\<rparr>"
  by (simp add: demo_simps MAX_FILES_SYSTEM_def MAX_FD_PER_PROCESS_def numeral_2_eq_2)

lemma demo_piped_at: "files (fd_tables demo_piped ! 0) ! 4 = Some 4"
  using vfs_boot_tables
  by (clarsimp simp: demo_piped_def vfs_pipe_def pipe_open_ends_def heap_alloc_def alloc_fd_def cur_table_def vfs_boot_def alloc_file_first replicate_None
    open_device_def vfs_create_inode_def install_def set_table_def set_file_def MAX_FILES_SYSTEM_def MAX_FD_PER_PROCESS_def eval_nat_numeral)

lemma demo_piped_reach: "vfs_reach demo_piped"
  unfolding demo_piped_def by (rule vfs_reach.step [OF vfs_reach.boot step_pipe])


text \<open>C40: Closing one descriptor of a LufiraFS file makes every other descriptor
  of it useless. After \<open>dup2\<close> the file is open under two numbers; closing the old
  one releases the private data of the inode that the new one still needs, because
  the close operation of the file is called for every descriptor and not for the last
  reference only. The new descriptor stays open, and each read and write of it fails.
\<close>

theorem dup2_close_breaks_file:
  assumes ok: "vfs_ok s" and fds: "valid_fd oldfd" "valid_fd newfd" "oldfd \<noteq> newfd"
    and i: "files (cur_table s) ! nat oldfd = Some i" "files (cur_table s) ! nat newfd = None"
    and f: "file_ops (file_at s i) = LfsFileOps" "file_inode (file_at s i) = Some n"
  shows "case vfs_dup2 s oldfd newfd of (r, s1) \<Rightarrow> case vfs_close s1 oldfd of (c, s2) \<Rightarrow>
    r = newfd \<and> c = 0 \<and> vfs_ok s2 \<and> files (cur_table s2) ! nat newfd = Some i \<and>
    vfs_read s2 newfd count = (Returns (- 1) [], s2) \<and> vfs_write s2 newfd buf = (Returns (- 1) [], s2)"
proof -
  note L = vfs_okD(1) [OF ok]
  have fd: "nat oldfd < 16" "nat newfd < 16" "nat oldfd \<noteq> nat newfd" using fds by (auto simp: valid_fd_def MAX_FD_PER_PROCESS_def)
  obtain f0 where f0: "i < 256" "file_table s ! i = Some f0" "file_at s i = f0" by (rule fd_live [OF ok fds(1) i(1)])
  have slot: "file_slot s i = Some f0" using f0 by (simp add: file_slot_def)
  have rc: "0 < ref_count n" "ref_count n \<le> 528"
    using ledgerD(5) [OF L, of i] descriptors_le [OF L, of i] ledgerD(6) [OF L slot] slot f f0(3) by (auto simp: file_refs_def file_typed_def)
  have nopipe: "pipe_of f0 = None" using ledgerD(6) [OF L slot] f f0(3) by (auto simp: file_typed_def data_typed_def pipe_of_def)
  have len: "length (file_table s) = 256" "length (files (cur_table s)) = 16" "current_fd_table s < length (fd_tables s)"
    using ledgerD(1,2) [OF L] vfs_okD(3) [OF ok] ledgerD(4) [OF L] by simp_all
  obtain r s1 where d: "vfs_dup2 s oldfd newfd = (r, s1)" by fastforce
  obtain c s2 where cl: "vfs_close s1 oldfd = (c, s2)" by fastforce
  have ok1: "vfs_ok s1" by (rule vfs_dup2_ok [OF ok d]) (use i(1) f(2) in simp)
  note ok2 = vfs_close_ok(1) [OF ok1 cl]
  define f1 where "f1 = f0\<lparr>file_inode := Some (n\<lparr>ref_count := ref_count n + 1\<rparr>)\<rparr>"
  have s1: "r = newfd" "s1 = set_table (set_file s i f1) \<lparr>files = (files (cur_table s))[nat newfd := Some i], fd_count = fd_count (cur_table s) + 1\<rparr>"
    using d fds i f f0(3) nopipe rc by (auto simp: vfs_dup2_def vfs_dup_fd_def Let_def f1_def wrap32_def cur_table_def set_file_def)
  define f2 where "f2 = f0\<lparr>file_inode := Some (n\<lparr>private_data := NoData\<rparr>)\<rparr>"
  have at1: "file_at s1 i = f1" "files (cur_table s1) ! nat oldfd = Some i" "files (cur_table s1) ! nat newfd = Some i" "length (file_table s1) = 256"
    "length (files (cur_table s1)) = 16" "current_fd_table s1 < length (fd_tables s1)"
    using f0(1) len fd i by (simp_all add: s1(2) set_table_def set_file_def file_at_def cur_table_def)
  have s2: "c = 0" "file_at s2 i = f2" "files (cur_table s2) ! nat newfd = Some i"
    using cl fds at1 f(1) f0(1,3) rc fd
    by (auto simp: vfs_close_def close_op_defs drop_ref_def Let_def f1_def f2_def wrap32_def set_file_def file_at_def set_table_def cur_table_def
        split: if_splits)
  have "lfs_data f2 = None" by (simp add: lfs_data_def f2_def)
  moreover have "file_ops f2 = LfsFileOps" using f(1) f0(3) by (simp add: f2_def)
  ultimately show ?thesis
    using ok2 s2 s1(1) fds by (simp add: d cl vfs_read_def vfs_write_def lufirafs_file_read_def lufirafs_file_write_def)
qed

text \<open>The idle process with one LufiraFS file, inode 2, open at descriptor 0.\<close>

definition demo_file :: open_file where
  "demo_file = \<lparr>file_fd = 0, file_inode = Some \<lparr>inode_num = 2, inode_type = FT_REGULAR, inode_size = 0, ref_count = 1,
     private_data = LfsData 2 False \<lparr>dir_ino = 0, dir_index = 0\<rparr>\<rparr>, file_offset = 0, file_flags = 0, file_ops = LfsFileOps\<rparr>"

definition demo_opened :: vfs where
  "demo_opened = install (set_file (vfs_boot demo_fs (\<lambda>_. True)) 0 demo_file) 0 0"

lemma demo_opened_ok: "vfs_ok demo_opened"
proof (rule vfs_ok_open [OF vfs_boot_ok, of 0 demo_fs "\<lambda>_. True" 0 _ demo_file])
  show "alloc_fd (vfs_boot demo_fs (\<lambda>_. True)) = Some 0"
    by (simp add: alloc_fd_def cur_table_def vfs_boot_def MAX_FD_PER_PROCESS_def replicate_None)
qed (auto simp: demo_opened_def install_def set_table_def set_file_def cur_table_def vfs_boot_def MAX_FILES_SYSTEM_def
      demo_file_def file_typed_def data_typed_def file_refs_def pipe_of_def)

theorem dup2_close_breaks_file_witness:
  "vfs_ok demo_opened \<and> files (cur_table demo_opened) ! 0 = Some 0 \<and>
   (case vfs_dup2 demo_opened 0 5 of (r, s1) \<Rightarrow> case vfs_close s1 0 of (c, s2) \<Rightarrow>
      files (cur_table s2) ! 5 = Some 0 \<and> vfs_read s2 5 100 = (Returns (- 1) [], s2) \<and> vfs_write s2 5 [1] = (Returns (- 1) [], s2))"
proof -
  have "valid_fd 0" "valid_fd 5" "(0 :: int) \<noteq> 5" by (simp_all add: valid_fd_def MAX_FD_PER_PROCESS_def)
  moreover have a: "files (cur_table demo_opened) ! 0 = Some 0" "files (cur_table demo_opened) ! 5 = None" "file_at demo_opened 0 = demo_file"
    by (simp_all add: demo_opened_def install_def set_table_def set_file_def cur_table_def vfs_boot_def file_at_def MAX_FD_PER_PROCESS_def
        MAX_FILES_SYSTEM_def)
  ultimately have "case vfs_dup2 demo_opened 0 5 of (r, s1) \<Rightarrow> case vfs_close s1 0 of (c, s2) \<Rightarrow>
    r = 5 \<and> c = 0 \<and> vfs_ok s2 \<and> files (cur_table s2) ! nat 5 = Some 0 \<and>
    vfs_read s2 5 100 = (Returns (- 1) [], s2) \<and> vfs_write s2 5 [1] = (Returns (- 1) [], s2)"
    by (intro dup2_close_breaks_file [OF demo_opened_ok]) (simp_all add: demo_file_def)
  with a demo_opened_ok show ?thesis by (auto split: prod.splits)
qed

end
