(* ===== verification/Process.thy ===== *)
theory Process
  imports Driver Input "HOL-Library.Monad_Syntax"
begin

text \<open>
  Processes, kernel/system/process/process.c, with the switch of register contexts
  of switch.S and the timer interrupt of kernel/system/timer/pit.c: the circular
  list of processes, the scheduler, creation, exit, waiting, signals and sleep. A
  pointer to a process is the address of its node, 0 the null pointer; loops that
  follow the list are \<open>partial_function\<close>s, \<open>None\<close> being a list that never comes back
  to its start. A call runs up to its return or to the point where the processor
  goes to another process. The memory a process owns (address space, kernel stack,
  descriptors) is taken and given back by other components: creation gets the
  outcome as an input, and \<open>released\<close> records whose memory has been given back.
\<close>

section \<open>The code: data\<close>

record process_context =
  rax :: u64
  rbx :: u64
  rcx :: u64
  rdx :: u64
  rsi :: u64
  rdi :: u64
  rbp :: u64
  r8 :: u64
  r9 :: u64
  r10 :: u64
  r11 :: u64
  r12 :: u64
  r13 :: u64
  r14 :: u64
  r15 :: u64
  rsp :: u64
  rip :: u64
  rflags :: u64
  cr3 :: u64

record syscall_frame =
  f_r9 :: u64
  f_r8 :: u64
  f_r10 :: u64
  f_rdx :: u64
  f_rsi :: u64
  f_rdi :: u64
  f_rax :: u64
  f_r15 :: u64
  f_r14 :: u64
  f_r13 :: u64
  f_r12 :: u64
  f_rbp :: u64
  f_rbx :: u64
  f_rflags :: u64
  f_rip :: u64
  align_pad :: u64
  user_rsp :: u64

record process =
  pid :: nat
  ppid :: nat
  p_name :: string
  p_state :: process_state
  wakeup_tick :: nat
  exit_code :: int
  wait_target_pid :: nat
  p_context :: process_context
  stack_base :: u64
  ring0_stack :: u64
  uid :: nat
  gid :: nat
  is_shell :: bool
  signal_handlers :: "u64 list"
  pending_signal :: nat
  in_signal_handler :: bool
  saved_signal_context :: process_context
  sig_stack_top :: u64
  alarm_tick :: nat
  first_run :: bool
  cpu_ticks :: nat
  p_mailbox :: mailbox
  fpu_state :: bytes
  p_next :: nat

text \<open>What the allocations of a new process yield, and the outcomes of starting a shell again.\<close>

record proc_mem =
  mem_pml4 :: u64
  mem_ring0 :: u64
  mem_stack :: u64
  mem_sig :: u64

datatype spawn = NoImage | Spawn bool "proc_mem option" "(u64 \<times> u64 \<times> u64 \<times> u64) option"

type_synonym nodes = "nat \<Rightarrow> process"

record kernel =
  nodes :: nodes
  next_node :: nat
  process_list :: nat
  current_process :: nat
  idle_process :: nat
  next_pid :: nat
  process_count :: nat
  foreground_pid :: nat
  g_wm_pid :: nat
  g_netd_pid :: nat
  g_soundd_pid :: nat
  shell_spawner :: bool
  spawns :: "nat \<Rightarrow> spawn"
  spawned :: nat
  current_kernel_rsp :: u64
  tss_rsp0 :: "u64 option"
  cpu :: process_context
  ring3 :: bool
  fpu :: bytes
  fpu_init_template :: bytes
  drivers :: driver
  g_sound_ring_head :: nat
  g_sound_ring_tail :: nat
  g_sound_ring_count :: nat
  released :: "nat list"
  pit_ticks :: nat
  total_ticks :: nat
  idle_ticks :: nat
  preempt_countdown :: nat
  ctrl_c :: bool

definition MAX_PROCESSES :: nat where "MAX_PROCESSES = 32"
definition WAIT_ANY_PID :: nat where "WAIT_ANY_PID = 2 ^ 32 - 1"
definition SIGINT :: nat where "SIGINT = 2"
definition SIGKILL :: nat where "SIGKILL = 9"
definition SIGALRM :: nat where "SIGALRM = 14"
definition SIGTERM :: nat where "SIGTERM = 15"
definition SIGCONT :: nat where "SIGCONT = 18"
definition SIGSTOP :: nat where "SIGSTOP = 19"
definition MAX_SIGNUM :: nat where "MAX_SIGNUM = 32"
definition PREEMPT_TIMESLICE_TICKS :: nat where "PREEMPT_TIMESLICE_TICKS = 5"
definition WM_NOTIFY_PROCESS_EXIT :: int where "WM_NOTIFY_PROCESS_EXIT = 102"

definition zero_context :: process_context where
  "zero_context = \<lparr>rax = 0, rbx = 0, rcx = 0, rdx = 0, rsi = 0, rdi = 0, rbp = 0, r8 = 0, r9 = 0, r10 = 0, r11 = 0,
     r12 = 0, r13 = 0, r14 = 0, r15 = 0, rsp = 0, rip = 0, rflags = 0, cr3 = 0\<rparr>"

definition node :: "kernel \<Rightarrow> nat \<Rightarrow> process" where
  "node s p = nodes s p"

definition set_node :: "nat \<Rightarrow> (process \<Rightarrow> process) \<Rightarrow> kernel \<Rightarrow> kernel" where
  "set_node p f s = s\<lparr>nodes := (nodes s)(p := f (nodes s p))\<rparr>"

definition set_pstate :: "process_state \<Rightarrow> nat \<Rightarrow> kernel \<Rightarrow> kernel" where
  "set_pstate st p = set_node p (\<lambda>x. x\<lparr>p_state := st\<rparr>)"

section \<open>The code: the list of processes\<close>

text \<open>The searches that start at the head of the list; 0 if no process satisfies the condition.\<close>

partial_function (option) ring_find :: "nodes \<Rightarrow> (process \<Rightarrow> bool) \<Rightarrow> nat \<Rightarrow> nat \<Rightarrow> nat option" where
  "ring_find h P start p =
    (if P (h p) then Some p
     else if p_next (h p) = 0 \<or> p_next (h p) = start then Some 0
     else ring_find h P start (p_next (h p)))"

definition list_find :: "kernel \<Rightarrow> (process \<Rightarrow> bool) \<Rightarrow> nat option" where
  "list_find s P = (if process_list s = 0 then Some 0 else ring_find (nodes s) P (process_list s) (process_list s))"

definition process_find_by_pid :: "kernel \<Rightarrow> nat \<Rightarrow> nat option" where
  "process_find_by_pid s n = list_find s (\<lambda>p. pid p = n)"

definition find_waiting_parent :: "kernel \<Rightarrow> nat \<Rightarrow> nat option" where
  "find_waiting_parent s child =
    (if ppid (node s child) = 0 then Some 0
     else list_find s (\<lambda>p. pid p = ppid (node s child) \<and> p_state p = BLOCKED \<and>
            (wait_target_pid p = pid (node s child) \<or> wait_target_pid p = WAIT_ANY_PID)))"

definition wake_waiting_parent :: "kernel \<Rightarrow> nat \<Rightarrow> (nat \<times> kernel) option" where
  "wake_waiting_parent s child =
    do { w \<leftarrow> find_waiting_parent s child;
         Some (w, if w = 0 then s else set_node w (\<lambda>x. x\<lparr>wait_target_pid := 0, p_state := READY\<rparr>) s) }"

text \<open>The last node before the head, and the node before \<open>target\<close>.\<close>

partial_function (option) find_last :: "nodes \<Rightarrow> nat \<Rightarrow> nat \<Rightarrow> nat option" where
  "find_last h start p =
    (if p_next (h p) \<noteq> 0 \<and> p_next (h p) \<noteq> start then find_last h start (p_next (h p)) else Some p)"

partial_function (option) find_before :: "nodes \<Rightarrow> nat \<Rightarrow> nat \<Rightarrow> nat \<Rightarrow> nat option" where
  "find_before h target start p =
    (if p_next (h p) \<noteq> target \<and> p_next (h p) \<noteq> start then find_before h target start (p_next (h p)) else Some p)"

definition free_process_resources :: "nat \<Rightarrow> kernel \<Rightarrow> kernel" where
  "free_process_resources p s = s\<lparr>released := released s @ [p]\<rparr>"

definition drop_process :: "nat \<Rightarrow> kernel \<Rightarrow> kernel" where
  "drop_process p s =
    (let s1 = free_process_resources p s in s1\<lparr>process_count := wrap32 (process_count s1 + 2 ^ 32 - 1)\<rparr>)"

definition process_remove_from_list :: "kernel \<Rightarrow> nat \<Rightarrow> kernel option" where
  "process_remove_from_list s target =
    (if process_list s = 0 \<or> target = 0 then Some s
     else if p_next (node s target) = target
     then Some (drop_process target (if process_list s = target then s\<lparr>process_list := 0\<rparr> else s))
     else if process_list s = target
     then do { last \<leftarrow> find_before (nodes s) target target target;
               Some (drop_process target
                 (set_node last (\<lambda>x. x\<lparr>p_next := p_next (node s target)\<rparr>) (s\<lparr>process_list := p_next (node s target)\<rparr>))) }
     else do { prev \<leftarrow> find_before (nodes s) target (process_list s) (process_list s);
               Some (drop_process target
                 (if p_next (node s prev) = target then set_node prev (\<lambda>x. x\<lparr>p_next := p_next (node s target)\<rparr>) s else s)) })"

definition process_discard :: "kernel \<Rightarrow> nat \<Rightarrow> kernel option" where
  "process_discard s p = (if p = 0 then Some s else process_remove_from_list (set_pstate TERMINATED p s) p)"

section \<open>The code: switching\<close>

text \<open>
  The registers at the call of \<open>context_switch\<close>: \<open>rip\<close> is the address behind the
  call and \<open>rsp\<close> the stack without it. The switch jumps through \<open>r11\<close>; a process
  that has never run is entered in ring 3 with all its registers.
\<close>

definition context_switch :: "process_context \<Rightarrow> process_context" where
  "context_switch new = new\<lparr>r11 := rip new\<rparr>"

definition context_enter_ring3 :: "process_context \<Rightarrow> process_context" where
  "context_enter_ring3 new = new"

text \<open>
  The restore behind the switch is run by a process that is resumed, not by one that is
  entered. \<open>tss_rsp0\<close> is \<open>None\<close> for the stack the kernel keeps for a process without one.
\<close>

definition switch_to_process :: "kernel \<Rightarrow> nat \<Rightarrow> kernel" where
  "switch_to_process s next =
    (if next = 0 then s
     else
       let prev = current_process s;
           s1 = (if prev \<noteq> 0 \<and> p_state (node s prev) = RUNNING then set_pstate READY prev s else s);
           s2 = (set_pstate RUNNING next s1)\<lparr>current_process := next, current_kernel_rsp := ring0_stack (node s next),
                  tss_rsp0 := (if ring0_stack (node s next) > 0 then Some (ring0_stack (node s next)) else None)\<rparr>;
           owner = (if prev \<noteq> 0 \<and> prev \<noteq> next then prev else idle_process s);
           s3 = set_node owner (\<lambda>x. x\<lparr>fpu_state := fpu s, p_context := cpu s\<rparr>) s2
       in if first_run (node s3 next)
          then (set_node next (\<lambda>x. x\<lparr>first_run := False\<rparr>) s3)\<lparr>cpu := context_enter_ring3 (p_context (node s3 next)), ring3 := True\<rparr>
          else s3\<lparr>cpu := context_switch (p_context (node s3 next)), ring3 := False, fpu := fpu_state (node s3 next)\<rparr>)"

text \<open>The search of the scheduler: the node it stops at and the number of steps.\<close>

function sched_scan :: "nodes \<Rightarrow> nat \<Rightarrow> nat \<Rightarrow> nat \<Rightarrow> nat \<Rightarrow> nat \<times> nat" where
  "sched_scan h idle cur next tries =
    (if next \<noteq> 0 \<and> (p_state (h next) \<noteq> READY \<or> next = idle) \<and> tries < 100
     then (if p_next (h next) = cur then (p_next (h next), tries + 1)
           else sched_scan h idle cur (p_next (h next)) (tries + 1))
     else (next, tries))"
  by pat_completeness auto
termination
  by (relation "measure (\<lambda>(_, _, _, _, tries). 100 - tries)") auto

declare sched_scan.simps [simp del]

definition schedule :: "kernel \<Rightarrow> kernel" where
  "schedule s0 =
    (let s = (if current_process s0 = 0 \<and> process_list s0 \<noteq> 0 then s0\<lparr>current_process := process_list s0\<rparr> else s0);
         cur = current_process s
     in if cur = 0 then s
        else case sched_scan (nodes s) (idle_process s) cur (p_next (node s cur)) 0 of (next, tries) \<Rightarrow>
          if next = 0 \<or> p_state (node s next) \<noteq> READY \<or> next = idle_process s \<or> tries \<ge> 100
          then (if p_state (node s cur) = RUNNING then s
                else if idle_process s \<noteq> 0 \<and> idle_process s \<noteq> cur then switch_to_process s (idle_process s) else s)
          else if next = cur then s else switch_to_process s next)"

definition process_sleep :: "kernel \<Rightarrow> nat \<Rightarrow> kernel" where
  "process_sleep s milliseconds =
    (if current_process s = 0 \<or> milliseconds = 0 then s
     else schedule (set_node (current_process s)
            (\<lambda>x. x\<lparr>wakeup_tick := wrap64 (pit_ticks s + wrap64 (milliseconds + 9) div 10), p_state := SLEEPING\<rparr>) s))"

section \<open>The code: creation and exit\<close>

text \<open>
  The start of the process manager: \<open>ok\<close> and \<open>fpu_ok\<close> are the outcomes of its two calls of
  \<open>kmalloc\<close>, which returns memory as it finds it. \<open>fpu s\<close> is the state \<open>fninit\<close> has left.
\<close>

definition process_init :: "kernel \<Rightarrow> bool \<Rightarrow> bool \<Rightarrow> kernel" where
  "process_init s0 ok fpu_ok =
    (let s = s0\<lparr>fpu_init_template := fpu s0\<rparr>; i = next_node s
     in if \<not> ok then s
        else if \<not> fpu_ok then s\<lparr>next_node := i + 1\<rparr>
        else (set_node i (\<lambda>x. x\<lparr>pid := 0, ppid := 0, exit_code := 0, wait_target_pid := 0, p_state := READY, stack_base := 0,
                 ring0_stack := 0, is_shell := False, first_run := False, signal_handlers := replicate MAX_SIGNUM 0,
                 pending_signal := 0, in_signal_handler := False, alarm_tick := 0, sig_stack_top := 0, uid := 0, gid := 0,
                 cpu_ticks := 0, fpu_state := fpu_init_template s, p_name := ''idle'', p_next := i\<rparr>) s)
               \<lparr>next_node := i + 1, idle_process := i, process_list := i, current_process := i\<rparr>)"

text \<open>\<open>ok\<close> tells whether \<open>kmalloc\<close> has memory for the process; every node has an address of its own.\<close>

definition process_create :: "kernel \<Rightarrow> string \<Rightarrow> u64 \<Rightarrow> bool \<Rightarrow> proc_mem option \<Rightarrow> (nat \<times> kernel) option" where
  "process_create s nm entry ok mem =
    (if process_count s \<ge> MAX_PROCESSES then Some (0, s)
     else if \<not> ok then Some (0, s)
     else
       let s1 = s\<lparr>next_pid := wrap32 (next_pid s + 1), next_node := next_node s + 1\<rparr>; cur = current_process s; proc = next_node s
       in case mem of None \<Rightarrow> Some (0, s1)
          | Some m \<Rightarrow>
              let p = (nodes s proc)\<lparr>pid := next_pid s, ppid := (if cur \<noteq> 0 then pid (node s cur) else 0), exit_code := 0,
                        wait_target_pid := 0, p_state := READY, is_shell := False, first_run := (entry = 0),
                        signal_handlers := replicate MAX_SIGNUM 0, pending_signal := 0, in_signal_handler := False, alarm_tick := 0,
                        uid := (if cur \<noteq> 0 then uid (node s cur) else 0), gid := (if cur \<noteq> 0 then gid (node s cur) else 0),
                        cpu_ticks := 0, p_mailbox := mailbox_init (p_mailbox (nodes s proc)), p_name := take 31 (cstr nm),
                        ring0_stack := mem_ring0 m, stack_base := mem_stack m, sig_stack_top := mem_sig m,
                        fpu_state := fpu_init_template s,
                        p_context := zero_context\<lparr>rsp := mem_stack m - 24, rip := entry, rflags := 0x202, cr3 := mem_pml4 m\<rparr>\<rparr>
              in if process_list s = 0
                 then Some (proc, (set_node proc (\<lambda>_. p\<lparr>p_next := proc\<rparr>) s1)\<lparr>process_list := proc, process_count := process_count s + 1\<rparr>)
                 else do { last \<leftarrow> find_last (nodes s) (process_list s) (process_list s);
                           Some (proc, (set_node proc (\<lambda>_. p\<lparr>p_next := process_list s\<rparr>)
                                  (set_node last (\<lambda>x. x\<lparr>p_next := proc\<rparr>) s1))\<lparr>process_count := process_count s + 1\<rparr>) })"

definition spawn_shell_process :: "kernel \<Rightarrow> spawn \<Rightarrow> (nat \<times> kernel) option" where
  "spawn_shell_process s sp =
    (case sp of NoImage \<Rightarrow> Some (0, s)
     | Spawn ok mem load \<Rightarrow>
         do { (p, s1) \<leftarrow> process_create s ''shell'' 0 ok mem;
              if p = 0 then Some (0, s1)
              else case load of None \<Rightarrow> Some (0, set_pstate TERMINATED p s1)
                   | Some (entry, new_rsp, argv, envp) \<Rightarrow>
                       Some (p, set_node p (\<lambda>x. x\<lparr>p_context := (p_context x)\<lparr>rip := entry, rsp := new_rsp, rdi := 0, rsi := argv, rdx := envp\<rparr>,
                                                 is_shell := True\<rparr>) s1) })"

definition respawn_shell_if_needed :: "kernel \<Rightarrow> nat \<Rightarrow> kernel option" where
  "respawn_shell_if_needed s dying =
    (if \<not> is_shell (node s dying) \<or> \<not> shell_spawner s then Some s
     else do { (p, s1) \<leftarrow> spawn_shell_process (s\<lparr>spawned := spawned s + 1\<rparr>) (spawns s (spawned s)); Some s1 })"

definition sound_ring_clear :: "kernel \<Rightarrow> kernel" where
  "sound_ring_clear s = s\<lparr>g_sound_ring_head := 0, g_sound_ring_tail := 0, g_sound_ring_count := 0\<rparr>"

text \<open>
  \<open>mailbox_send\<close> on the table of processes; the waiter of a mailbox is its owner. The
  kernel sends with the sender number 0.
\<close>

definition process_send :: "kernel \<Rightarrow> nat \<Rightarrow> nat \<Rightarrow> bytes \<Rightarrow> (int \<times> kernel) option" where
  "process_send s dest sender data =
    do { d \<leftarrow> process_find_by_pid s dest;
         Some (if d = 0 then (- 1, s)
               else case mailbox_send [dest \<mapsto> \<lparr>ip_mailbox = p_mailbox (node s d), ip_state = p_state (node s d)\<rparr>] dest (of_nat sender) data of
                 (r, m) \<Rightarrow> (r, case m dest of None \<Rightarrow> s
                                | Some q \<Rightarrow> set_node d (\<lambda>x. x\<lparr>p_mailbox := ip_mailbox q, p_state := ip_state q\<rparr>) s)) }"

definition kernel_send :: "kernel \<Rightarrow> nat \<Rightarrow> bytes \<Rightarrow> kernel option" where
  "kernel_send s dest data = do { (r, s1) \<leftarrow> process_send s dest 0 data; Some s1 }"

text \<open>What the rest of the system forgets about a process that has just terminated.\<close>

definition retire :: "kernel \<Rightarrow> nat \<Rightarrow> kernel option" where
  "retire s p =
    (let n = pid (node s p);
         s1 = s\<lparr>drivers := driver_release_process (drivers s) n\<rparr>;
         s2 = (if n = foreground_pid s1 then s1\<lparr>foreground_pid := 0\<rparr> else s1)
     in do { s3 \<leftarrow> (if n = g_wm_pid s2 then Some (s2\<lparr>g_wm_pid := 0\<rparr>)
                    else if g_wm_pid s2 \<noteq> 0 then kernel_send s2 (g_wm_pid s2) (wm_request WM_NOTIFY_PROCESS_EXIT [int n])
                    else Some s2);
             let s4 = (if n = g_netd_pid s3 then s3\<lparr>g_netd_pid := 0\<rparr> else s3);
                 s5 = (if n = g_soundd_pid s4 then sound_ring_clear (s4\<lparr>g_soundd_pid := 0\<rparr>) else s4)
             in respawn_shell_if_needed s5 p })"

definition process_exit :: "kernel \<Rightarrow> int \<Rightarrow> kernel option" where
  "process_exit s code =
    (let p = current_process s
     in if p = 0 then Some s
        else do { s1 \<leftarrow> retire (set_node p (\<lambda>x. x\<lparr>exit_code := code, p_state := TERMINATED\<rparr>) s) p;
                  (w, s2) \<leftarrow> wake_waiting_parent s1 p;
                  Some (if w \<noteq> 0 then switch_to_process s2 w else schedule s2) })"

datatype wait_result = WaitDone nat int | WaitFail | WaitBlocks

text \<open>One pass of the loop of \<open>process_wait\<close>; after a wake-up the target is cleared and the next pass begins.\<close>

definition wanted_child :: "nat \<Rightarrow> nat \<Rightarrow> process \<Rightarrow> bool" where
  "wanted_child caller target p \<longleftrightarrow> ppid p = caller \<and> (target = WAIT_ANY_PID \<or> pid p = target)"

definition process_wait_pass :: "kernel \<Rightarrow> nat \<Rightarrow> (wait_result \<times> kernel) option" where
  "process_wait_pass s n =
    (let cur = current_process s; caller = pid (node s cur); target = (if n = 0 then WAIT_ANY_PID else n)
     in if cur = 0 then Some (WaitFail, s)
        else do { zombie \<leftarrow> list_find s (\<lambda>p. wanted_child caller target p \<and> p_state p = TERMINATED);
                  child \<leftarrow> list_find s (wanted_child caller target);
                  if zombie \<noteq> 0
                  then do { s1 \<leftarrow> process_remove_from_list s zombie;
                            Some (WaitDone (pid (node s zombie)) (exit_code (node s zombie)), s1) }
                  else if child = 0 then Some (WaitFail, s)
                  else Some (WaitBlocks, schedule (set_node cur (\<lambda>x. x\<lparr>wait_target_pid := target, p_state := BLOCKED\<rparr>) s)) })"

definition process_wait_resume :: "kernel \<Rightarrow> nat \<Rightarrow> (wait_result \<times> kernel) option" where
  "process_wait_resume s n = process_wait_pass (set_node (current_process s) (\<lambda>x. x\<lparr>wait_target_pid := 0\<rparr>) s) n"

text \<open>
  The collection of terminated processes, with the two counters that bound its loops.
  A pass of the loop yields the next pair of nodes to look at, or ends the loop.
\<close>

fun reap_before :: "nat \<Rightarrow> nodes \<Rightarrow> nat \<Rightarrow> nat \<Rightarrow> nat" where
  "reap_before 0 h p q = q"
| "reap_before (Suc n) h p q = (if p_next (h q) \<noteq> p then reap_before n h p (p_next (h q)) else q)"

definition reap_step :: "kernel \<Rightarrow> nat \<Rightarrow> nat \<Rightarrow> nat \<Rightarrow> (nat \<times> nat) option \<times> kernel" where
  "reap_step s start prev p =
    (if p = 0 then (None, s)
     else if p_next (node s p) = p \<and> p \<noteq> idle_process s then (None, s)
     else if p_state (node s p) = TERMINATED \<and> p \<noteq> idle_process s
     then (if prev = 0
           then (if p_next (node s p) = p
                 then let s1 = (if idle_process s \<noteq> 0
                                then set_node (idle_process s) (\<lambda>x. x\<lparr>p_next := idle_process s\<rparr>) (s\<lparr>process_list := idle_process s\<rparr>)
                                else s\<lparr>process_list := 0\<rparr>)
                      in (Some (0, process_list s1), drop_process p s1)
                 else let last = reap_before 10000 (nodes s) p p
                      in if last \<noteq> 0 \<and> p_next (node s last) = p
                         then let s1 = set_node last (\<lambda>x. x\<lparr>p_next := p_next (node s p)\<rparr>) (s\<lparr>process_list := p_next (node s p)\<rparr>)
                              in (Some (0, process_list s1), drop_process p s1)
                         else (None, s))
           else let s1 = set_node prev (\<lambda>x. x\<lparr>p_next := p_next (node s p)\<rparr>) s
                in (Some (prev, p_next (node s1 prev)), drop_process p s1))
     else if p_next (node s p) = start \<or> p_next (node s p) = 0 then (None, s)
     else (Some (p, p_next (node s p)), s))"

fun reap_loop :: "nat \<Rightarrow> kernel \<Rightarrow> nat \<Rightarrow> nat \<Rightarrow> nat \<Rightarrow> kernel" where
  "reap_loop 0 s start prev p = s"
| "reap_loop (Suc n) s start prev p =
    (case reap_step s start prev p of (None, s1) \<Rightarrow> s1 | (Some (prev1, p1), s1) \<Rightarrow> reap_loop n s1 start prev1 p1)"

definition process_reap :: "kernel \<Rightarrow> kernel" where
  "process_reap s = (if process_list s = 0 then s else reap_loop 10000 s (process_list s) 0 (process_list s))"

section \<open>The code: signals\<close>

text \<open>A call returns a value, or the processor has gone to another process and the caller will not run again.\<close>

datatype ctl = Done int | Leaves

definition terminate_process_by_signal :: "kernel \<Rightarrow> nat \<Rightarrow> nat \<Rightarrow> (ctl \<times> kernel) option" where
  "terminate_process_by_signal s p sig =
    (if p_state (node s p) = TERMINATED then Some (Done 0, s)
     else do { s1 \<leftarrow> retire (set_node p (\<lambda>x. x\<lparr>exit_code := 128 + int sig, p_state := TERMINATED\<rparr>) s) p;
               (w, s2) \<leftarrow> wake_waiting_parent s1 p;
               Some (if p = current_process s2 then (Leaves, if w \<noteq> 0 then switch_to_process s2 w else schedule s2)
                     else (Done 0, s2)) })"

definition process_signal :: "kernel \<Rightarrow> nat \<Rightarrow> nat \<Rightarrow> (ctl \<times> kernel) option" where
  "process_signal s n sig =
    do { p \<leftarrow> process_find_by_pid s n;
         if p = 0 then Some (Done (- 1), s)
         else if p = idle_process s then Some (Done (- 1), s)
         else if sig \<in> {SIGINT, SIGTERM, SIGALRM} \<and> signal_handlers (node s p) ! sig \<noteq> 0 \<and> \<not> in_signal_handler (node s p)
         then Some (Done 0, set_node p (\<lambda>x. x\<lparr>pending_signal := sig,
                p_state := (if p_state x = BLOCKED \<or> p_state x = SLEEPING then READY else p_state x)\<rparr>) s)
         else if sig \<in> {SIGINT, SIGKILL, SIGTERM, SIGALRM} then terminate_process_by_signal s p sig
         else if sig = SIGSTOP
         then (if p_state (node s p) = TERMINATED then Some (Done 0, s)
               else let s1 = set_pstate STOPPED p s in Some (Done 0, if p = current_process s1 then schedule s1 else s1))
         else if sig = SIGCONT
         then Some (Done 0, if p_state (node s p) = STOPPED then set_pstate READY p s else s)
         else Some (Done (- 1), s) }"

definition process_kill :: "kernel \<Rightarrow> nat \<Rightarrow> (ctl \<times> kernel) option" where
  "process_kill s n = process_signal s n SIGKILL"

definition process_deliver_pending_signal :: "kernel \<Rightarrow> syscall_frame \<Rightarrow> syscall_frame \<times> kernel" where
  "process_deliver_pending_signal s frame =
    (let p = node s (current_process s); sig = pending_signal p
     in if current_process s = 0 then (frame, s)
        else if sig = 0 \<or> signal_handlers p ! sig = 0 \<or> in_signal_handler p \<or> sig_stack_top p = 0 then (frame, s)
        else (frame\<lparr>f_rip := signal_handlers p ! sig, user_rsp := sig_stack_top p, f_rdi := of_nat sig\<rparr>,
              set_node (current_process s)
                (\<lambda>x. x\<lparr>pending_signal := 0, in_signal_handler := True,
                      saved_signal_context := (saved_signal_context x)\<lparr>rax := f_rax frame, rbx := f_rbx frame, rdx := f_rdx frame,
                        rsi := f_rsi frame, rdi := f_rdi frame, rbp := f_rbp frame, r8 := f_r8 frame, r9 := f_r9 frame, r10 := f_r10 frame,
                        r12 := f_r12 frame, r13 := f_r13 frame, r14 := f_r14 frame, r15 := f_r15 frame,
                        rsp := user_rsp frame, rip := f_rip frame, rflags := f_rflags frame\<rparr>\<rparr>) s))"

definition process_sigreturn :: "kernel \<Rightarrow> syscall_frame \<Rightarrow> u64 \<times> syscall_frame \<times> kernel" where
  "process_sigreturn s frame =
    (let saved = saved_signal_context (node s (current_process s))
     in if current_process s = 0 then (- 1, frame, s)
        else (rax saved,
              frame\<lparr>f_rbx := rbx saved, f_rdx := rdx saved, f_rsi := rsi saved, f_rdi := rdi saved, f_rbp := rbp saved,
                    f_r8 := r8 saved, f_r9 := r9 saved, f_r10 := r10 saved, f_r12 := r12 saved, f_r13 := r13 saved,
                    f_r14 := r14 saved, f_r15 := r15 saved, f_rflags := rflags saved, f_rip := rip saved, user_rsp := rsp saved\<rparr>,
              set_node (current_process s) (\<lambda>x. x\<lparr>in_signal_handler := False\<rparr>) s))"

section \<open>The code: fork and exec\<close>

text \<open>The parts of \<open>fork\<close> and \<open>exec\<close> that are not about memory or descriptors; \<open>new_pml4\<close> is 0 if the copy failed.\<close>

definition fork_context :: "syscall_frame \<Rightarrow> u64 \<Rightarrow> process_context" where
  "fork_context frame new_pml4 =
    zero_context\<lparr>rip := f_rip frame, rsp := user_rsp frame, rflags := f_rflags frame, rbx := f_rbx frame, rbp := f_rbp frame,
      r12 := f_r12 frame, r13 := f_r13 frame, r14 := f_r14 frame, r15 := f_r15 frame, rax := 0, cr3 := new_pml4\<rparr>"

definition process_fork :: "kernel \<Rightarrow> syscall_frame \<Rightarrow> bool \<Rightarrow> proc_mem option \<Rightarrow> u64 \<Rightarrow> (int \<times> kernel) option" where
  "process_fork s frame ok mem new_pml4 =
    (let parent = node s (current_process s)
     in if current_process s = 0 then Some (- 1, s)
        else do { (child, s1) \<leftarrow> process_create s (p_name parent) 0 ok mem;
                  if child = 0 then Some (- 1, s1)
                  else if new_pml4 = 0 then do { s2 \<leftarrow> process_discard s1 child; Some (- 1, s2) }
                  else Some (int (pid (node s1 child)),
                    set_node child (\<lambda>x. x\<lparr>stack_base := stack_base parent, signal_handlers := signal_handlers parent, pending_signal := 0,
                      in_signal_handler := False, alarm_tick := 0, sig_stack_top := sig_stack_top parent, uid := uid parent,
                      gid := gid parent, cpu_ticks := 0, fpu_state := fpu s1, p_context := fork_context frame new_pml4, p_state := READY\<rparr>) s1) })"

definition process_commit_exec :: "kernel \<Rightarrow> nat \<Rightarrow> u64 \<Rightarrow> u64 \<Rightarrow> string \<Rightarrow> int \<times> kernel" where
  "process_commit_exec s proc new_stack sig_top nm =
    (if proc = 0 then (- 1, s)
     else (0, set_node proc (\<lambda>x. x\<lparr>stack_base := new_stack, sig_stack_top := sig_top, signal_handlers := replicate MAX_SIGNUM 0,
                 pending_signal := 0, in_signal_handler := False, alarm_tick := 0, p_name := take 31 (cstr nm)\<rparr>) s))"

section \<open>The code: the timer\<close>

definition tick_node :: "kernel \<Rightarrow> nat \<Rightarrow> kernel" where
  "tick_node s p =
    (if p_state (node s p) = SLEEPING \<and> pit_ticks s \<ge> wakeup_tick (node s p) then set_pstate READY p s else s)"

partial_function (option) timer_scan :: "kernel \<Rightarrow> nat \<Rightarrow> nat \<Rightarrow> (ctl \<times> kernel) option" where
  "timer_scan s start p =
    do { (c, s2) \<leftarrow>
           (let s1 = tick_node s p
            in if alarm_tick (node s1 p) \<noteq> 0 \<and> pit_ticks s1 \<ge> alarm_tick (node s1 p)
               then process_signal (set_node p (\<lambda>x. x\<lparr>alarm_tick := 0\<rparr>) s1) (pid (node s1 p)) SIGALRM
               else Some (Done 0, s1));
         if c = Leaves then Some (c, s2)
         else if p_next (node s2 p) = 0 \<or> p_next (node s2 p) = start then Some (Done 0, s2)
         else timer_scan s2 start (p_next (node s2 p)) }"

definition count_tick :: "kernel \<Rightarrow> kernel" where
  "count_tick s =
    (let s1 = s\<lparr>pit_ticks := wrap64 (pit_ticks s + 1), total_ticks := wrap64 (total_ticks s + 1),
                idle_ticks := (if current_process s = idle_process s then wrap64 (idle_ticks s + 1) else idle_ticks s)\<rparr>
     in if current_process s = 0 then s1 else set_node (current_process s) (\<lambda>x. x\<lparr>cpu_ticks := wrap64 (cpu_ticks x + 1)\<rparr>) s1)"

text \<open>The wait in the handler of Ctrl+C runs in whatever process the interrupt hit; if it blocks, the handler goes on later.\<close>

definition shell_handle_ctrl_c :: "kernel \<Rightarrow> (ctl \<times> kernel) option" where
  "shell_handle_ctrl_c s =
    (if foreground_pid s = 0 then Some (Done 0, s)
     else do { (c, s1) \<leftarrow> process_signal s (foreground_pid s) SIGINT;
               if c = Leaves then Some (c, s1)
               else do { (r, s2) \<leftarrow> process_wait_pass s1 (foreground_pid s);
                         Some (if r = WaitBlocks then Leaves else Done 0, s2) } })"

definition preempt :: "kernel \<Rightarrow> bool \<Rightarrow> kernel" where
  "preempt s user =
    (if user \<and> current_process s \<noteq> 0
     then (let c = wrap32 (preempt_countdown s + 2 ^ 32 - 1)
           in if c = 0 then schedule (s\<lparr>preempt_countdown := PREEMPT_TIMESLICE_TICKS\<rparr>) else s\<lparr>preempt_countdown := c\<rparr>)
     else s)"

definition timer_irq_handler :: "kernel \<Rightarrow> bool \<Rightarrow> kernel option" where
  "timer_irq_handler s user =
    do { (c, s1) \<leftarrow> (if process_list s = 0 then Some (Done 0, count_tick s)
                     else timer_scan (count_tick s) (process_list s) (process_list s));
         if c = Leaves then Some s1
         else let s2 = process_reap s1
              in do { (c1, s3) \<leftarrow> (if ctrl_c s2 then shell_handle_ctrl_c (s2\<lparr>ctrl_c := False\<rparr>) else Some (Done 0, s2));
                      Some (if c1 = Leaves then s3 else preempt s3 user) } }"

section \<open>The code: registrations and system calls\<close>

definition process_wm_register :: "kernel \<Rightarrow> nat \<Rightarrow> int \<times> kernel" where
  "process_wm_register s n = (if g_wm_pid s \<noteq> 0 then (- 1, s) else (0, s\<lparr>g_wm_pid := n\<rparr>))"

definition process_wm_unregister :: "kernel \<Rightarrow> nat \<Rightarrow> int \<times> kernel" where
  "process_wm_unregister s n = (if g_wm_pid s \<noteq> n then (- 1, s) else (0, s\<lparr>g_wm_pid := 0\<rparr>))"

definition process_netd_register :: "kernel \<Rightarrow> nat \<Rightarrow> int \<times> kernel" where
  "process_netd_register s n = (if g_netd_pid s \<noteq> 0 then (- 1, s) else (0, s\<lparr>g_netd_pid := n\<rparr>))"

definition process_netd_unregister :: "kernel \<Rightarrow> nat \<Rightarrow> int \<times> kernel" where
  "process_netd_unregister s n = (if g_netd_pid s \<noteq> n then (- 1, s) else (0, s\<lparr>g_netd_pid := 0\<rparr>))"

definition process_soundd_register :: "kernel \<Rightarrow> nat \<Rightarrow> int \<times> kernel" where
  "process_soundd_register s n = (if g_soundd_pid s \<noteq> 0 then (- 1, s) else (0, s\<lparr>g_soundd_pid := n\<rparr>))"

definition process_soundd_unregister :: "kernel \<Rightarrow> nat \<Rightarrow> int \<times> kernel" where
  "process_soundd_unregister s n = (if g_soundd_pid s \<noteq> n then (- 1, s) else (0, s\<lparr>g_soundd_pid := 0\<rparr>))"

text \<open>The walk up the chain of parents, \<open>depth\<close> steps of it left.\<close>

fun is_ancestor :: "nat \<Rightarrow> kernel \<Rightarrow> nat \<Rightarrow> nat \<Rightarrow> bool option" where
  "is_ancestor 0 s caller walk = Some False"
| "is_ancestor (Suc depth) s caller walk =
    (if walk = 0 then Some False
     else if walk = caller then Some True
     else do { parent \<leftarrow> process_find_by_pid s walk;
               if parent = 0 then Some False else is_ancestor depth s caller (ppid (node s parent)) })"

definition process_set_foreground :: "kernel \<Rightarrow> nat \<Rightarrow> nat \<Rightarrow> (int \<times> kernel) option" where
  "process_set_foreground s caller target =
    (if target = 0 then Some (0, s\<lparr>foreground_pid := 0\<rparr>)
     else do { t \<leftarrow> process_find_by_pid s target;
               if t = 0 then Some (- 1, s)
               else do { a \<leftarrow> is_ancestor MAX_PROCESSES s caller (ppid (node s t));
                         Some (if a then (0, s\<lparr>foreground_pid := target\<rparr>) else (- 1, s)) } })"

definition sys_kill :: "kernel \<Rightarrow> nat \<Rightarrow> nat \<Rightarrow> (ctl \<times> kernel) option" where
  "sys_kill s n sig =
    (if current_process s = 0 then Some (Done (- 14), s)
     else if n = 0 then Some (Done (- 1), s)
     else do { target \<leftarrow> process_find_by_pid s (wrap32 n);
               if target = 0 then Some (Done (- 1), s)
               else if uid (node s (current_process s)) \<noteq> 0 \<and> uid (node s (current_process s)) \<noteq> uid (node s target) then Some (Done (- 1), s)
               else process_signal s (wrap32 n) (if sig \<noteq> 0 then wrap32 sig else SIGTERM) })"

definition sys_sigaction :: "kernel \<Rightarrow> nat \<Rightarrow> u64 \<Rightarrow> int \<times> kernel" where
  "sys_sigaction s sig handler =
    (if current_process s = 0 then (- 14, s)
     else if sig \<notin> {SIGINT, SIGTERM, SIGALRM} then (- 22, s)
     else (0, set_node (current_process s) (\<lambda>x. x\<lparr>signal_handlers := (signal_handlers x)[sig := handler]\<rparr>) s))"

definition sys_alarm :: "kernel \<Rightarrow> nat \<Rightarrow> int \<times> kernel" where
  "sys_alarm s milliseconds =
    (if current_process s = 0 then (- 14, s)
     else (0, set_node (current_process s) (\<lambda>x. x\<lparr>alarm_tick :=
            (if milliseconds = 0 then 0 else wrap64 (pit_ticks s + wrap64 (milliseconds + 9) div 10))\<rparr>) s))"

text \<open>The message calls; \<open>valid\<close> is the check of the user's buffer. A receive without a time limit blocks on an empty mailbox.\<close>

definition sys_ipc_send :: "kernel \<Rightarrow> nat \<Rightarrow> bytes \<Rightarrow> bool \<Rightarrow> (int \<times> kernel) option" where
  "sys_ipc_send s dest_pid data valid =
    (if current_process s = 0 then Some (- 14, s)
     else if length data > 96 then Some (- 22, s)
     else if length data > 0 \<and> \<not> valid then Some (- 14, s)
     else do { (r, s1) \<leftarrow> process_send s (wrap32 dest_pid) (pid (node s (current_process s))) data;
               Some (if r = 0 then 0 else if r = - 2 then - 11 else - 22, s1) })"

definition mailbox_block :: "kernel \<Rightarrow> kernel" where
  "mailbox_block s = schedule (set_node (current_process s)
     (\<lambda>x. x\<lparr>p_mailbox := (p_mailbox x)\<lparr>mb_waiter := Some (pid x)\<rparr>, p_state := BLOCKED\<rparr>) s)"

end
