(* ===== verification/Process_Inv.thy ===== *)
theory Process_Inv
  imports Process
begin

text \<open>
  The processes of kernel/system/process/process.c (model in Process) as a system:
  the pointers form one ring that starts with the idle process, at most one process
  runs, and every call and interrupt kept it so. From the invariant follow the order
  in which the scheduler serves processes and what a process finds again when it is
  resumed.
\<close>

section \<open>The list of processes as a ring\<close>

fun linked :: "nodes \<Rightarrow> nat list \<Rightarrow> bool" where
  "linked h (x # y # zs) \<longleftrightarrow> p_next (h x) = y \<and> linked h (y # zs)"
| "linked h _ \<longleftrightarrow> True"

definition ring :: "nodes \<Rightarrow> nat list \<Rightarrow> bool" where
  "ring h ps \<longleftrightarrow> ps \<noteq> [] \<and> distinct ps \<and> 0 \<notin> set ps \<and> linked h (ps @ [hd ps])"

definition first_node :: "nodes \<Rightarrow> (process \<Rightarrow> bool) \<Rightarrow> nat list \<Rightarrow> nat" where
  "first_node h P ps = (case List.find (\<lambda>x. P (h x)) ps of None \<Rightarrow> 0 | Some q \<Rightarrow> q)"

lemma linked_append: "linked h (xs @ y # zs) \<longleftrightarrow> linked h (xs @ [y]) \<and> linked h (y # zs)"
proof (induction xs)
  case (Cons a xs)
  then show ?case by (cases xs) auto
qed (cases zs, auto)

lemma linked_cong: "(\<And>x. x \<in> set (butlast xs) \<Longrightarrow> p_next (h x) = p_next (h' x)) \<Longrightarrow> linked h xs = linked h' xs"
  by (induction h xs rule: linked.induct) auto

lemma ring_next:
  assumes "ring h (us @ p # vs)"
  shows "p_next (h p) = (if vs = [] then hd (us @ [p]) else hd vs)" "p \<noteq> 0"
proof -
  let ?e = "hd (us @ [p])"
  have "hd (us @ p # vs) = ?e" by (cases us) auto
  then have "linked h (us @ p # vs @ [?e])" using assms by (simp add: ring_def)
  then have "linked h (p # vs @ [?e])" using linked_append [of h us p "vs @ [?e]"] by simp
  then show "p_next (h p) = (if vs = [] then ?e else hd vs)" by (cases vs) auto
  show "p \<noteq> 0" using assms by (auto simp: ring_def)
qed

lemma first_node_simps [simp]:
  "first_node h P [] = 0" "first_node h P (p # ps) = (if P (h p) then p else first_node h P ps)"
  by (simp_all add: first_node_def)

lemma first_node_0: "0 \<notin> set ps \<Longrightarrow> first_node h P ps = 0 \<longleftrightarrow> (\<forall>p\<in>set ps. \<not> P (h p))"
  by (induction ps) auto

lemma first_node_in: "first_node h P ps \<noteq> 0 \<Longrightarrow> first_node h P ps \<in> set ps \<and> P (h (first_node h P ps))"
  by (induction ps) (auto split: if_splits)

lemma ring_find_spec:
  "ring h (us @ p # vs) \<Longrightarrow> start = hd (us @ [p]) \<Longrightarrow> ring_find h P start p = Some (first_node h P (p # vs))"
proof (induction vs arbitrary: us p)
  case Nil
  show ?case unfolding ring_find.simps [of h P start p] using ring_next [OF Nil.prems(1)] Nil.prems(2) by simp
next
  case (Cons v vs)
  note n = ring_next [OF Cons.prems(1)]
  have d: "distinct (us @ p # v # vs)" "v \<noteq> 0" using Cons.prems(1) by (auto simp: ring_def)
  have "v \<noteq> start" using d Cons.prems(2) by (cases us) auto
  moreover have "ring_find h P start v = Some (first_node h P (v # vs))"
    using Cons.IH [of "us @ [p]" v] Cons.prems by (cases us) auto
  ultimately show ?case unfolding ring_find.simps [of h P start p] using n d by simp
qed

lemma list_find_spec:
  assumes "ring (nodes s) ps" "hd ps = process_list s"
  shows "list_find s P = Some (first_node (nodes s) P ps)"
proof -
  obtain p vs where ps: "ps = p # vs" using assms(1) by (cases ps) (auto simp: ring_def)
  then show ?thesis
    using ring_find_spec [of "nodes s" "[]" p vs p P] assms by (auto simp: list_find_def ring_def)
qed

lemma find_last_spec:
  "ring h (us @ p # vs) \<Longrightarrow> start = hd (us @ [p]) \<Longrightarrow> find_last h start p = Some (last (p # vs))"
proof (induction vs arbitrary: us p)
  case Nil
  show ?case unfolding find_last.simps [of h start p] using ring_next [OF Nil.prems(1)] Nil.prems(2) by simp
next
  case (Cons v vs)
  note n = ring_next [OF Cons.prems(1)]
  have d: "distinct (us @ p # v # vs)" "v \<noteq> 0" using Cons.prems(1) by (auto simp: ring_def)
  have "v \<noteq> start" using d Cons.prems(2) by (cases us) auto
  moreover have "find_last h start v = Some (last (v # vs))"
    using Cons.IH [of "us @ [p]" v] Cons.prems by (cases us) auto
  ultimately show ?case unfolding find_last.simps [of h start p] using n d by simp
qed

lemma find_before_spec:
  "ring h (us @ ws @ prev # target # vs) \<Longrightarrow> start = hd (us @ ws @ [prev]) \<Longrightarrow>
   find_before h target start (hd (ws @ [prev])) = Some prev"
proof (induction ws arbitrary: us)
  case Nil
  have "find_before h target start prev = Some prev"
    unfolding find_before.simps [of h target start prev] using Nil ring_next [of h us prev "target # vs"] by simp
  then show ?case by simp
next
  case (Cons w ws)
  have r: "ring h (us @ w # (ws @ prev # target # vs))" using Cons.prems(1) by simp
  note n = ring_next [OF r]
  have "hd (ws @ prev # target # vs) = hd (ws @ [prev])" by (cases ws) auto
  moreover have "hd (ws @ [prev]) \<noteq> target" "hd (ws @ [prev]) \<noteq> start"
    using Cons.prems by (cases us; cases ws; auto simp: ring_def)+
  ultimately have "find_before h target start w = Some prev"
    unfolding find_before.simps [of h target start w] using n Cons.IH [of "us @ [w]"] Cons.prems by simp
  then show ?case by simp
qed

text \<open>Appending a node before the head, and cutting a node out.\<close>

lemma ring_append:
  assumes "ring h ps" "p \<noteq> 0" "p \<notin> set ps" "p_next (h' p) = hd ps" "p_next (h' (last ps)) = p"
    "\<And>q. q \<in> set ps \<Longrightarrow> q \<noteq> last ps \<Longrightarrow> p_next (h' q) = p_next (h q)"
  shows "ring h' (ps @ [p])"
proof -
  obtain us l where ps: "ps = us @ [l]" using assms(1) by (cases ps rule: rev_cases) (auto simp: ring_def)
  have d: "distinct (us @ [l])" using assms(1) by (simp add: ring_def ps)
  have "linked h ((us @ [l]) @ [hd ps])" using assms(1) by (simp add: ring_def ps)
  then have "linked h (us @ [l])" using linked_append [of h us l "[hd ps]"] by simp
  then have "linked h' (us @ [l])"
    using linked_cong [of "us @ [l]" h' h] assms(6) d by (auto simp: ps)
  then have "linked h' (us @ l # [p, hd ps])"
    using linked_append [of h' us l "[p, hd ps]"] assms(4,5) by (simp add: ps)
  moreover have "hd (ps @ [p]) = hd ps" by (cases us) (simp_all add: ps)
  ultimately show ?thesis using assms(1-3) by (auto simp: ring_def ps)
qed

lemma ring_cut:
  assumes "ring h (us @ prev # t # vs)" "p_next (h' prev) = p_next (h t)"
    "\<And>q. q \<in> set (us @ vs) \<Longrightarrow> p_next (h' q) = p_next (h q)"
  shows "ring h' (us @ prev # vs)"
proof -
  let ?e = "hd (us @ [prev])"
  have e: "hd (us @ prev # t # vs) = ?e" "hd (us @ prev # vs) = ?e" by (cases us; simp)+
  have d: "distinct (us @ prev # t # vs)" using assms(1) by (simp add: ring_def)
  have l: "linked h (us @ prev # t # vs @ [?e])" using assms(1) e by (simp add: ring_def)
  have 1: "linked h (us @ [prev])" and 2: "linked h (t # vs @ [?e])"
    using l linked_append [of h us prev "t # vs @ [?e]"] linked_append [of h "us @ [prev]" t "vs @ [?e]"] by auto
  have "linked h' (us @ [prev])" using 1 linked_cong [of "us @ [prev]" h' h] assms(3) d by (auto simp: butlast_append)
  moreover have "linked h' (prev # vs @ [?e])"
  proof (cases vs)
    case Nil
    then show ?thesis using 2 assms(2) by simp
  next
    case (Cons v vs')
    then have "linked h (v # vs' @ [?e])" "p_next (h t) = v" using 2 by auto
    moreover have "linked h' (v # vs' @ [?e]) = linked h (v # vs' @ [?e])"
      using Cons assms(3) d by (intro linked_cong) (auto simp: butlast_append)
    ultimately show ?thesis using Cons assms(2) by simp
  qed
  ultimately have "linked h' (us @ prev # vs @ [?e])" using linked_append [of h' us prev "vs @ [?e]"] by simp
  then show ?thesis using assms(1) e by (auto simp: ring_def)
qed

section \<open>The invariant\<close>

text \<open>
  \<open>table_ok\<close> is about the list, \<open>run_ok\<close> about the scheduling states,
  \<open>mem_ok\<close> about the memory given back. Numbers are given out in the order of the nodes,
  starting with the idle process.
\<close>

definition table_ok :: "kernel \<Rightarrow> nat list \<Rightarrow> bool" where
  "table_ok s ps \<longleftrightarrow> ring (nodes s) ps \<and> hd ps = process_list s \<and> process_list s = idle_process s \<and> idle_process s = 1 \<and>
     (\<forall>p\<in>set ps. p < next_node s \<and> pid (nodes s p) = wrap32 (p - 1)) \<and> next_pid s = wrap32 (next_node s - 1) \<and>
     process_count s = length ps - 1 \<and> length ps \<le> 33"

definition run_ok :: "kernel \<Rightarrow> nat list \<Rightarrow> bool" where
  "run_ok s ps \<longleftrightarrow> current_process s \<in> set ps \<and> (\<forall>p\<in>set ps. p_state (nodes s p) = RUNNING \<longrightarrow> p = current_process s) \<and>
     p_state (nodes s (idle_process s)) \<noteq> TERMINATED"

definition mem_ok :: "kernel \<Rightarrow> nat list \<Rightarrow> bool" where
  "mem_ok s ps \<longleftrightarrow> distinct (released s) \<and> set ps \<inter> set (released s) = {} \<and> (\<forall>p\<in>set (released s). p < next_node s)"

definition proc_ok :: "kernel \<Rightarrow> nat list \<Rightarrow> bool" where
  "proc_ok s ps \<longleftrightarrow> table_ok s ps \<and> run_ok s ps \<and> mem_ok s ps"

definition alive :: "kernel \<Rightarrow> bool" where
  "alive s \<longleftrightarrow> p_state (nodes s (current_process s)) \<in> {READY, RUNNING} \<or>
     current_process s = idle_process s \<and> p_state (nodes s (idle_process s)) \<noteq> TERMINATED"

lemma set_node_simps [simp]:
  "nodes (set_node p f s) = (nodes s)(p := f (nodes s p))" "next_node (set_node p f s) = next_node s"
  "process_list (set_node p f s) = process_list s" "current_process (set_node p f s) = current_process s"
  "idle_process (set_node p f s) = idle_process s" "next_pid (set_node p f s) = next_pid s"
  "process_count (set_node p f s) = process_count s" "released (set_node p f s) = released s"
  by (simp_all add: set_node_def)

lemma ring_links:
  assumes "\<And>q. q \<in> set ps \<Longrightarrow> p_next (h' q) = p_next (h q)"
  shows "ring h' ps = ring h ps"
proof -
  have "linked h' (ps @ [hd ps]) = linked h (ps @ [hd ps])" by (rule linked_cong) (use assms in \<open>simp add: butlast_append\<close>)
  then show ?thesis by (simp add: ring_def)
qed

lemma table_ok_nodes:
  assumes "table_ok s ps" "\<And>q. q \<in> set ps \<Longrightarrow> p_next (nodes s' q) = p_next (nodes s q) \<and> pid (nodes s' q) = pid (nodes s q)"
    "next_node s' = next_node s" "process_list s' = process_list s" "idle_process s' = idle_process s" "next_pid s' = next_pid s"
    "process_count s' = process_count s"
  shows "table_ok s' ps"
  using assms ring_links [of ps "nodes s'" "nodes s"] by (auto simp: table_ok_def)

lemma proc_ok_set:
  assumes ok: "proc_ok s ps" and f: "\<And>x. p_next (f x) = p_next x" "\<And>x. pid (f x) = pid x"
    and st: "p_state (f (nodes s p)) \<noteq> RUNNING \<or> p_state (f (nodes s p)) = p_state (nodes s p)"
    and idle: "p = idle_process s \<Longrightarrow> p_state (f (nodes s p)) \<noteq> TERMINATED"
  shows "proc_ok (set_node p f s) ps"
proof -
  have "table_ok (set_node p f s) ps" by (rule table_ok_nodes [of s]) (use ok f in \<open>auto simp: proc_ok_def\<close>)
  moreover have "run_ok (set_node p f s) ps" using ok st idle by (fastforce simp: proc_ok_def run_ok_def)
  ultimately show ?thesis using ok by (simp add: proc_ok_def mem_ok_def)
qed

lemma proc_ok_same:
  assumes "proc_ok s ps" "nodes s' = nodes s" "next_node s' = next_node s" "process_list s' = process_list s"
    "idle_process s' = idle_process s" "next_pid s' = next_pid s" "process_count s' = process_count s" "current_process s' = current_process s"
    "released s' = released s"
  shows "proc_ok s' ps"
  using assms unfolding proc_ok_def table_ok_def run_ok_def mem_ok_def by auto

lemma proc_ok_idle:
  assumes "proc_ok s ps"
  shows "idle_process s \<in> set ps" "idle_process s \<noteq> 0" "current_process s \<in> set ps" "current_process s \<noteq> 0" "0 \<notin> set ps"
    "p_state (nodes s (idle_process s)) \<noteq> TERMINATED" "process_list s \<noteq> 0" "idle_process s = process_list s"
proof -
  have r: "ring (nodes s) ps" "hd ps = idle_process s" "idle_process s = process_list s" and c: "run_ok s ps"
    using assms by (auto simp: proc_ok_def table_ok_def)
  show z: "0 \<notin> set ps" and i: "idle_process s \<in> set ps" using r hd_in_set [of ps] by (auto simp: ring_def)
  show "current_process s \<in> set ps" "p_state (nodes s (idle_process s)) \<noteq> TERMINATED" using c by (auto simp: run_ok_def)
  then show "current_process s \<noteq> 0" "idle_process s \<noteq> 0" "process_list s \<noteq> 0" using z i r by metis+
  show "idle_process s = process_list s" by (rule r(3))
qed

lemma switch_ok_nodes:
  assumes "next \<noteq> 0"
  shows "current_process (switch_to_process s next) = next"
    "p_next (nodes (switch_to_process s next) q) = p_next (nodes s q)" "pid (nodes (switch_to_process s next) q) = pid (nodes s q)"
    "p_state (nodes (switch_to_process s next) q) =
       (if q = next then RUNNING else if q = current_process s \<and> q \<noteq> 0 \<and> p_state (nodes s q) = RUNNING then READY else p_state (nodes s q))"
    "alarm_tick (nodes (switch_to_process s next) q) = alarm_tick (nodes s q)"
    "next_node (switch_to_process s next) = next_node s" "process_list (switch_to_process s next) = process_list s"
    "idle_process (switch_to_process s next) = idle_process s" "next_pid (switch_to_process s next) = next_pid s"
    "process_count (switch_to_process s next) = process_count s" "released (switch_to_process s next) = released s"
  using assms by (auto simp: switch_to_process_def Let_def node_def set_pstate_def)

lemma switch_to_process_ok:
  assumes ok: "proc_ok s ps" and n: "next \<in> set ps"
  shows "proc_ok (switch_to_process s next) ps" "alive (switch_to_process s next)"
proof -
  have n0: "next \<noteq> 0" using n proc_ok_idle(5) [OF ok] by metis
  note w = switch_ok_nodes [OF n0]
  have "table_ok (switch_to_process s next) ps" by (rule table_ok_nodes [of s]) (use ok w in \<open>auto simp: proc_ok_def\<close>)
  moreover have "run_ok (switch_to_process s next) ps"
  proof -
    have r: "\<forall>p\<in>set ps. p_state (nodes s p) = RUNNING \<longrightarrow> p = current_process s" using ok by (simp add: proc_ok_def run_ok_def)
    have "p = next" if "p \<in> set ps" "p_state (nodes (switch_to_process s next) p) = RUNNING" for p
    proof (rule ccontr)
      assume "p \<noteq> next"
      then have "p_state (nodes s p) = RUNNING \<and> p \<noteq> current_process s"
        using that(2) proc_ok_idle(4) [OF ok] unfolding w(4) by (cases "p = current_process s") (simp_all split: if_splits)
      then show False using r that(1) by blast
    qed
    moreover have "p_state (nodes (switch_to_process s next) (idle_process s)) \<noteq> TERMINATED"
      using proc_ok_idle(6) [OF ok] unfolding w(4) by simp
    ultimately show ?thesis using n unfolding run_ok_def w(1,8) by blast
  qed
  ultimately show "proc_ok (switch_to_process s next) ps" using ok by (simp add: proc_ok_def mem_ok_def w)
  show "alive (switch_to_process s next)" by (simp add: alive_def w)
qed

text \<open>The scheduler looks at the processes behind the current one in the order of the ring.\<close>

lemma sched_scan_spec:
  "linked h (rs @ [cur]) \<Longrightarrow> rs \<noteq> [] \<Longrightarrow> cur \<notin> set rs \<Longrightarrow> 0 \<notin> set rs \<Longrightarrow> tries + length rs < 100 \<Longrightarrow>
   \<exists>t<100. sched_scan h idle cur (hd rs) tries =
     (case List.find (\<lambda>q. p_state (h q) = READY \<and> q \<noteq> idle) rs of None \<Rightarrow> cur | Some q \<Rightarrow> q, t)"
proof (induction rs arbitrary: tries)
  case (Cons r rs)
  have r0: "r \<noteq> 0" using Cons.prems(4) by auto
  show ?case
  proof (cases "p_state (h r) = READY \<and> r \<noteq> idle")
    case True
    then show ?thesis using Cons.prems(5) by (auto simp: sched_scan.simps [of h idle cur r])
  next
    case F: False
    show ?thesis
    proof (cases rs)
      case Nil
      then have "p_next (h r) = cur" using Cons.prems(1) by simp
      then show ?thesis using F Nil r0 Cons.prems(5) by (auto simp: sched_scan.simps [of h idle cur r])
    next
      case (Cons r' rs')
      then have "p_next (h r) = r'" "linked h (rs @ [cur])" "r' \<noteq> cur" using Cons.prems by auto
      moreover have "\<exists>t<100. sched_scan h idle cur (hd rs) (tries + 1) =
         (case List.find (\<lambda>q. p_state (h q) = READY \<and> q \<noteq> idle) rs of None \<Rightarrow> cur | Some q \<Rightarrow> q, t)"
        using Cons.IH [of "tries + 1"] calculation Cons.prems Cons by simp
      ultimately show ?thesis using F r0 Cons Cons.prems(5) by (auto simp: sched_scan.simps [of h idle cur r])
    qed
  qed
qed simp

lemma ring_rotate:
  assumes "ring h (us @ c # vs)"
  shows "linked h (c # vs @ us @ [c])"
proof (cases us)
  case Nil
  then show ?thesis using assms by (simp add: ring_def)
next
  case (Cons e us')
  have "linked h ((e # us') @ c # (vs @ [e]))" using assms Cons by (simp add: ring_def)
  then have "linked h (e # us' @ [c])" "linked h ((c # vs) @ [e])"
    using linked_append [of h "e # us'" c "vs @ [e]"] by simp_all
  then show ?thesis using linked_append [of h "c # vs" e "us' @ [c]"] Cons by simp
qed

definition next_ready :: "kernel \<Rightarrow> nat list \<Rightarrow> nat option" where
  "next_ready s order = List.find (\<lambda>q. p_state (nodes s q) = READY \<and> q \<noteq> idle_process s) order"

lemma next_ready_Some: "next_ready s order = Some q \<Longrightarrow> q \<in> set order \<and> p_state (nodes s q) = READY \<and> q \<noteq> idle_process s"
  by (auto simp: next_ready_def find_Some_iff)

lemma schedule_spec:
  assumes ok: "proc_ok s (us @ c # vs)" and c: "c = current_process s"
  shows "schedule s =
    (case next_ready s (vs @ us) of Some q \<Rightarrow> switch_to_process s q
     | None \<Rightarrow> if p_state (nodes s c) = RUNNING \<or> p_state (nodes s c) = READY \<or> c = idle_process s then s
               else switch_to_process s (idle_process s))"
proof -
  let ?find = "List.find (\<lambda>q. p_state (nodes s q) = READY \<and> q \<noteq> idle_process s) (vs @ us)"
  have r: "ring (nodes s) (us @ c # vs)" and len: "length (us @ c # vs) \<le> 33" using ok by (simp_all add: proc_ok_def table_ok_def)
  have d: "distinct (us @ c # vs)" "0 \<notin> set (us @ c # vs)" using r by (simp_all add: ring_def)
  have c0: "current_process s \<noteq> 0" by (rule proc_ok_idle(4) [OF ok])
  have i0: "idle_process s \<noteq> 0" by (rule proc_ok_idle(2) [OF ok])
  have l: "linked (nodes s) (c # vs @ us @ [c])" by (rule ring_rotate [OF r])
  obtain t where t: "t < 100" "sched_scan (nodes s) (idle_process s) c (p_next (nodes s c)) 0 = (case ?find of None \<Rightarrow> c | Some q \<Rightarrow> q, t)"
  proof (cases "vs @ us = []")
    case True
    then have i: "idle_process s = c" and n: "p_next (nodes s c) = c"
      using proc_ok_idle(1) [OF ok] l by simp_all
    have "sched_scan (nodes s) c c c 0 = (c, 1)"
      unfolding sched_scan.simps [of "nodes s" c c c 0] n using c0 c by simp
    then have "sched_scan (nodes s) (idle_process s) c (p_next (nodes s c)) 0 = (case ?find of None \<Rightarrow> c | Some q \<Rightarrow> q, 1)"
      unfolding True i n by simp
    then show ?thesis by (intro that [of 1]) simp_all
  next
    case False
    then obtain x xs where x: "vs @ us = x # xs" by (cases "vs @ us") auto
    have "linked (nodes s) (c # (vs @ us) @ [c])" using l by simp
    then have m: "linked (nodes s) ((vs @ us) @ [c])" and n: "p_next (nodes s c) = hd (vs @ us)" unfolding x by simp_all
    have "\<exists>t<100. sched_scan (nodes s) (idle_process s) c (hd (vs @ us)) 0 = (case ?find of None \<Rightarrow> c | Some q \<Rightarrow> q, t)"
      by (rule sched_scan_spec [OF m False]) (use d len in auto)
    then obtain t where t: "t < 100" "sched_scan (nodes s) (idle_process s) c (hd (vs @ us)) 0 = (case ?find of None \<Rightarrow> c | Some q \<Rightarrow> q, t)"
      by (elim exE conjE)
    show ?thesis by (rule that [OF t(1)]) (unfold n, rule t(2))
  qed
  have eq: "schedule s = (case sched_scan (nodes s) (idle_process s) c (p_next (nodes s c)) 0 of (next, tries) \<Rightarrow>
          if next = 0 \<or> p_state (node s next) \<noteq> READY \<or> next = idle_process s \<or> tries \<ge> 100
          then (if p_state (node s c) = RUNNING then s
                else if idle_process s \<noteq> 0 \<and> idle_process s \<noteq> c then switch_to_process s (idle_process s) else s)
          else if next = c then s else switch_to_process s next)"
    using c0 unfolding schedule_def Let_def node_def c by (simp only: simp_thms if_False)
  show ?thesis
  proof (cases ?find)
    case None
    then show ?thesis using t(1) i0 c0 [folded c] unfolding eq t(2) next_ready_def by (cases "p_state (nodes s c)") (simp_all add: node_def)
  next
    case (Some q)
    then have q: "q \<in> set (vs @ us)" "p_state (nodes s q) = READY" "q \<noteq> idle_process s"
      using next_ready_Some [of s "vs @ us" q] by (auto simp: next_ready_def)
    then have "q \<noteq> 0" "q \<noteq> c" using d by auto
    then show ?thesis using t Some q unfolding eq next_ready_def by (simp add: node_def)
  qed
qed

lemma schedule_ok:
  assumes ok: "proc_ok s ps"
  shows "proc_ok (schedule s) ps" "alive (schedule s)"
proof -
  obtain us vs where ps: "ps = us @ current_process s # vs" using proc_ok_idle(3) [OF ok] by (meson split_list)
  note sp = schedule_spec [OF ok [unfolded ps] refl]
  have "proc_ok (schedule s) ps \<and> alive (schedule s)"
  proof (cases "next_ready s (vs @ us)")
    case None
    then show ?thesis
      using sp ok switch_to_process_ok [OF ok proc_ok_idle(1) [OF ok]] proc_ok_idle(6) [OF ok] by (auto simp: alive_def)
  next
    case (Some q)
    then have "q \<in> set ps" using next_ready_Some [OF Some] by (auto simp: ps)
    then show ?thesis using sp Some switch_to_process_ok [OF ok] by simp
  qed
  then show "proc_ok (schedule s) ps" "alive (schedule s)" by simp_all
qed

section \<open>The calls keep the invariant\<close>

text \<open>At most one process is added, at the end of the ring, with no alarm set; alarms of the others stay.\<close>

definition extends :: "kernel \<Rightarrow> nat list \<Rightarrow> kernel \<Rightarrow> nat list \<Rightarrow> bool" where
  "extends s ps s' ps' \<longleftrightarrow>
     (\<exists>ns. ps' = ps @ ns \<and> length ns \<le> 1 \<and> (\<forall>q\<in>set ns. alarm_tick (nodes s' q) = 0)) \<and>
     (\<forall>q\<in>set ps. alarm_tick (nodes s' q) = alarm_tick (nodes s q))"

lemma extends_same: "(\<And>q. q \<in> set ps \<Longrightarrow> alarm_tick (nodes s' q) = alarm_tick (nodes s q)) \<Longrightarrow> extends s ps s' ps"
  by (simp add: extends_def)

lemma extends_before:
  "(\<And>q. q \<in> set ps \<Longrightarrow> alarm_tick (nodes s q) = alarm_tick (nodes t q)) \<Longrightarrow> extends s ps s' ps' \<Longrightarrow> extends t ps s' ps'"
  by (auto simp: extends_def)

lemma extends_after:
  "extends s ps s' ps' \<Longrightarrow> (\<And>q. q \<in> set ps' \<Longrightarrow> alarm_tick (nodes t q) = alarm_tick (nodes s' q)) \<Longrightarrow> extends s ps t ps'"
  by (auto simp: extends_def)

lemma next_pid_step: "0 < n \<Longrightarrow> wrap32 (wrap32 (n - 1) + 1) = wrap32 n"
  by (simp add: wrap32_def mod_Suc_eq)

lemma process_create_none:
  assumes ok: "proc_ok s ps" and no: "process_count s \<ge> MAX_PROCESSES \<or> \<not> k \<or> mem = None"
  obtains s' where "process_create s nm entry k mem = Some (0, s')" "proc_ok s' ps" "nodes s' = nodes s" "current_process s' = current_process s"
proof -
  have T: "table_ok s ps" "run_ok s ps" "mem_ok s ps" using ok by (simp_all add: proc_ok_def)
  have "0 < next_node s" using T(1) proc_ok_idle(1) [OF ok] by (auto simp: table_ok_def)
  then have pid1: "wrap32 (next_pid s + 1) = wrap32 (next_node s)" using T(1) next_pid_step by (simp add: table_ok_def)
  obtain s' where s': "process_create s nm entry k mem = Some (0, s')"
    "s' = s \<or> s' = s\<lparr>next_pid := wrap32 (next_pid s + 1), next_node := next_node s + 1\<rparr>"
    using no by (cases "process_count s \<ge> MAX_PROCESSES \<or> \<not> k") (auto simp: process_create_def Let_def)
  have "table_ok s' ps"
    using s'(2) T(1) pid1 unfolding table_ok_def by (elim disjE) (simp_all add: less_Suc_eq)
  moreover have "run_ok s' ps" "nodes s' = nodes s" "current_process s' = current_process s" using s'(2) T(2) by (auto simp: run_ok_def)
  moreover have "mem_ok s' ps" using s'(2) T(3) by (auto simp: mem_ok_def less_Suc_eq)
  ultimately show ?thesis using s'(1) by (intro that [of s']) (auto simp: proc_ok_def)
qed

text \<open>A ready process linked in behind the last one.\<close>

lemma append_process_ok:
  assumes ok: "proc_ok s ps" and count: "process_count s < 32" and p: "pid p = next_pid s" "p_state p = READY"
    and s1: "nodes s1 = (nodes s)(last ps := (nodes s (last ps))\<lparr>p_next := next_node s\<rparr>, next_node s := p\<lparr>p_next := process_list s\<rparr>)"
      "next_node s1 = next_node s + 1" "next_pid s1 = wrap32 (next_pid s + 1)" "process_list s1 = process_list s"
      "idle_process s1 = idle_process s" "process_count s1 = process_count s + 1" "current_process s1 = current_process s"
      "released s1 = released s"
  shows "proc_ok s1 (ps @ [next_node s])" "next_node s \<notin> set ps"
proof -
  let ?n = "next_node s"
  have T: "ring (nodes s) ps" "hd ps = process_list s" "process_list s = idle_process s" "idle_process s = 1"
    "\<forall>p\<in>set ps. p < ?n \<and> pid (nodes s p) = wrap32 (p - 1)" "next_pid s = wrap32 (?n - 1)" "process_count s = length ps - 1" "length ps \<le> 33"
    and R: "run_ok s ps" "mem_ok s ps" using ok by (simp_all add: proc_ok_def table_ok_def)
  note I = proc_ok_idle [OF ok]
  show n: "?n \<notin> set ps" using T(5) by auto
  have n0: "0 < ?n" using T(5) I(1) by auto
  have l: "last ps \<in> set ps" using T(1) by (simp add: ring_def)
  then have l': "last ps \<noteq> ?n" using n by metis
  have "ring (nodes s1) (ps @ [?n])" by (rule ring_append [OF T(1)]) (use n n0 l l' T(2) in \<open>auto simp: s1\<close>)
  moreover have "hd (ps @ [?n]) = process_list s" using T(1,2) by (simp add: ring_def)
  moreover have "\<forall>q\<in>set (ps @ [?n]). q < ?n + 1 \<and> pid (nodes s1 q) = wrap32 (q - 1)" using T(5,6) n p by (auto simp: s1)
  moreover have "process_count s + 1 = length (ps @ [?n]) - 1" "length (ps @ [?n]) \<le> 33"
    using T(1,7) count by (cases ps; auto simp: ring_def)+
  moreover have "next_pid s1 = wrap32 (next_node s1 - 1)" using next_pid_step [OF n0] T(6) by (simp add: s1)
  ultimately have "table_ok s1 (ps @ [?n])" using T(3,4) by (simp add: table_ok_def s1)
  moreover have "run_ok s1 (ps @ [?n])" using R(1) n l l' p I(1) by (auto simp: run_ok_def s1)
  moreover have "mem_ok s1 (ps @ [?n])" using R(2) by (auto simp: mem_ok_def s1 less_Suc_eq)
  ultimately show "proc_ok s1 (ps @ [?n])" by (simp add: proc_ok_def)
qed

lemma process_create_ok:
  assumes ok: "proc_ok s ps"
  obtains (fail) s' where "process_create s nm entry k mem = Some (0, s')" "proc_ok s' ps" "nodes s' = nodes s"
      "current_process s' = current_process s"
  | (new) s' where "process_create s nm entry k mem = Some (next_node s, s')" "proc_ok s' (ps @ [next_node s])" "next_node s \<notin> set ps"
      "extends s ps s' (ps @ [next_node s])" "current_process s' = current_process s"
      "\<And>q. q \<in> set ps \<Longrightarrow> p_state (nodes s' q) = p_state (nodes s q)"
proof (cases "process_count s \<ge> MAX_PROCESSES \<or> \<not> k \<or> mem = None")
  case True
  then show ?thesis by (rule process_create_none [OF ok]) (rule fail)
next
  case False
  then obtain m where m: "mem = Some m" "k" "process_count s < 32" by (auto simp: MAX_PROCESSES_def)
  have T: "ring (nodes s) ps" "hd ps = process_list s" using ok by (simp_all add: proc_ok_def table_ok_def)
  obtain q vs where ps: "ps = q # vs" using T(1) by (cases ps) (auto simp: ring_def)
  have last: "find_last (nodes s) (process_list s) (process_list s) = Some (last ps)"
    using find_last_spec [of "nodes s" "[]" q vs q] T ps by simp
  obtain p where s': "process_create s nm entry k mem = Some (next_node s,
      (set_node (next_node s) (\<lambda>_. p\<lparr>p_next := process_list s\<rparr>) (set_node (last ps) (\<lambda>x. x\<lparr>p_next := next_node s\<rparr>)
        (s\<lparr>next_pid := wrap32 (next_pid s + 1), next_node := next_node s + 1\<rparr>)))\<lparr>process_count := process_count s + 1\<rparr>)"
    (is "_ = Some (_, ?s1)") and p: "pid p = next_pid s" "p_state p = READY" "alarm_tick p = 0"
    using False m proc_ok_idle(7) [OF ok] last by (auto simp: process_create_def Let_def)
  have s1: "nodes ?s1 = (nodes s)(last ps := (nodes s (last ps))\<lparr>p_next := next_node s\<rparr>, next_node s := p\<lparr>p_next := process_list s\<rparr>)" by simp
  have ok1: "proc_ok ?s1 (ps @ [next_node s])" "next_node s \<notin> set ps"
    by (rule append_process_ok [OF ok m(3) p(1,2) s1]; simp)+
  show ?thesis
    by (rule new [OF s' ok1]) (use ok1(2) p in \<open>auto simp: extends_def s1\<close>)
qed

lemma drop_process_simps [simp]:
  "nodes (drop_process p s) = nodes s" "next_node (drop_process p s) = next_node s" "process_list (drop_process p s) = process_list s"
  "current_process (drop_process p s) = current_process s" "idle_process (drop_process p s) = idle_process s"
  "next_pid (drop_process p s) = next_pid s" "process_count (drop_process p s) = wrap32 (process_count s + 2 ^ 32 - 1)"
  "released (drop_process p s) = released s @ [p]"
  by (simp_all add: drop_process_def free_process_resources_def Let_def)

text \<open>A process cut out of the ring.\<close>

lemma cut_process_ok:
  assumes ok: "proc_ok s (us @ prev # t # vs)" and t: "t \<noteq> current_process s"
    and s1: "s1 = drop_process t (set_node prev (\<lambda>x. x\<lparr>p_next := p_next (nodes s t)\<rparr>) s)"
  shows "proc_ok s1 (us @ prev # vs)"
proof -
  let ?ps = "us @ prev # t # vs"
  have T: "ring (nodes s) ?ps" "hd ?ps = process_list s" "process_list s = idle_process s" "idle_process s = 1"
    "\<forall>p\<in>set ?ps. p < next_node s \<and> pid (nodes s p) = wrap32 (p - 1)" "next_pid s = wrap32 (next_node s - 1)"
    "process_count s = length ?ps - 1" "length ?ps \<le> 33"
    and R: "run_ok s ?ps" "mem_ok s ?ps" using ok by (simp_all add: proc_ok_def table_ok_def)
  have d: "distinct ?ps" using T(1) by (simp add: ring_def)
  have "ring (nodes s1) (us @ prev # vs)" by (rule ring_cut [OF T(1)]) (use d in \<open>auto simp: s1\<close>)
  moreover have "hd (us @ prev # vs) = process_list s" using T(2) by (cases us) auto
  moreover have "wrap32 (process_count s + 2 ^ 32 - 1) = length (us @ prev # vs) - 1"
    using T(7,8) by (simp add: wrap32_def mod_if)
  moreover have "\<forall>p\<in>set (us @ prev # vs). p < next_node s \<and> pid (nodes s1 p) = wrap32 (p - 1)" using T(5) by (auto simp: s1)
  ultimately have "table_ok s1 (us @ prev # vs)" using T(3,4,6,8) by (simp add: table_ok_def s1)
  moreover have "run_ok s1 (us @ prev # vs)" using R(1) t by (auto simp: run_ok_def s1)
  moreover have "mem_ok s1 (us @ prev # vs)" using R(2) T(5) d by (auto simp: mem_ok_def s1)
  ultimately show ?thesis by (simp add: proc_ok_def)
qed

lemma split_before:
  assumes "t \<in> set ps" "t \<noteq> hd ps"
  obtains us prev vs where "ps = us @ prev # t # vs"
proof -
  obtain xs vs where ps: "ps = xs @ t # vs" using assms(1) by (meson split_list)
  then have "xs \<noteq> []" using assms(2) by auto
  then obtain us prev where "xs = us @ [prev]" by (cases xs rule: rev_cases) auto
  then show ?thesis using ps by (intro that [of us prev vs]) simp
qed

lemma process_remove_ok:
  assumes ok: "proc_ok s ps" and t: "t \<in> set ps" "t \<noteq> idle_process s" "t \<noteq> current_process s"
  obtains s' where "process_remove_from_list s t = Some s'" "proc_ok s' (remove1 t ps)" "current_process s' = current_process s"
    "\<And>q. p_state (nodes s' q) = p_state (nodes s q)" "\<And>q. ppid (nodes s' q) = ppid (nodes s q)" "\<And>q. pid (nodes s' q) = pid (nodes s q)"
proof -
  have T: "ring (nodes s) ps" "hd ps = process_list s" "process_list s = idle_process s" using ok by (simp_all add: proc_ok_def table_ok_def)
  obtain us prev vs where ps: "ps = us @ prev # t # vs" by (rule split_before [OF t(1)]) (use t(2) T in simp)
  have d: "distinct ps" using T(1) by (simp add: ring_def)
  have nx: "p_next (nodes s prev) = t" using ring_next(1) [of "nodes s" us prev "t # vs"] T(1) ps by simp
  have t': "p_next (nodes s t) \<noteq> t"
    using ring_next(1) [of "nodes s" "us @ [prev]" t vs] T(1) d ps by (cases us; cases vs; auto)
  have "hd (us @ [prev]) = process_list s" using T(2) ps by (cases us) auto
  then have f: "find_before (nodes s) t (process_list s) (process_list s) = Some prev"
    using find_before_spec [of "nodes s" "[]" us prev t vs "process_list s"] T(1) ps by simp
  have eq: "process_remove_from_list s t = Some (drop_process t (set_node prev (\<lambda>x. x\<lparr>p_next := p_next (nodes s t)\<rparr>) s))"
    using t(1,2) T(3) t' nx f proc_ok_idle(5,7) [OF ok] by (auto simp: process_remove_from_list_def node_def)
  have "remove1 t ps = us @ prev # vs" using d ps by (auto simp: remove1_append)
  then show ?thesis using cut_process_ok [OF ok [unfolded ps] t(3) refl] by (intro that [OF eq]) simp_all
qed

lemma list_find_ok: "proc_ok s ps \<Longrightarrow> list_find s P = Some (first_node (nodes s) P ps)"
  by (intro list_find_spec) (auto simp: proc_ok_def table_ok_def)

text \<open>What a call does that does not switch: states only change to ready.\<close>

definition kept :: "kernel \<Rightarrow> nat list \<Rightarrow> kernel \<Rightarrow> nat list \<Rightarrow> bool" where
  "kept s ps s' ps' \<longleftrightarrow> proc_ok s' ps' \<and> extends s ps s' ps' \<and> current_process s' = current_process s \<and>
     (\<forall>q\<in>set ps. p_state (nodes s' q) \<in> {READY, p_state (nodes s q)})"

lemma kept_trans: "kept s ps s1 ps \<Longrightarrow> kept s1 ps s2 ps' \<Longrightarrow> kept s ps s2 ps'"
  unfolding kept_def extends_def by (auto; metis)

lemma kept_then:
  assumes a: "kept s ps s1 ps'" and b: "kept s1 ps' s2 ps'"
  shows "kept s ps s2 ps'"
proof -
  obtain ns where ns: "ps' = ps @ ns" "length ns \<le> 1" "\<forall>q\<in>set ns. alarm_tick (nodes s1 q) = 0"
    "\<forall>q\<in>set ps. alarm_tick (nodes s1 q) = alarm_tick (nodes s q)" using a by (auto simp: kept_def extends_def)
  have al: "\<forall>q\<in>set ps'. alarm_tick (nodes s2 q) = alarm_tick (nodes s1 q)" using b by (simp add: kept_def extends_def)
  have "p_state (nodes s2 q) \<in> {READY, p_state (nodes s q)}" if "q \<in> set ps" for q
  proof -
    have "p_state (nodes s1 q) \<in> {READY, p_state (nodes s q)}" using a that by (simp add: kept_def)
    moreover have "p_state (nodes s2 q) \<in> {READY, p_state (nodes s1 q)}" using b that ns(1) by (simp add: kept_def)
    ultimately show ?thesis by auto
  qed
  moreover have "extends s ps s2 ps'" using ns al by (auto simp: extends_def)
  ultimately show ?thesis using a b by (simp add: kept_def)
qed

lemma kept_same:
  assumes "proc_ok s ps" "nodes s' = nodes s" "next_node s' = next_node s" "process_list s' = process_list s"
    "idle_process s' = idle_process s" "next_pid s' = next_pid s" "process_count s' = process_count s" "current_process s' = current_process s"
    "released s' = released s"
  shows "kept s ps s' ps"
  using proc_ok_same [OF assms] assms(2,8) by (simp add: kept_def extends_def)

lemma kept_set:
  assumes "proc_ok s ps" "\<And>x. p_next (f x) = p_next x" "\<And>x. pid (f x) = pid x" "\<And>x. alarm_tick (f x) = alarm_tick x"
    "p_state (f (nodes s p)) \<in> {READY, p_state (nodes s p)}"
  shows "kept s ps (set_node p f s) ps"
proof -
  have "proc_ok (set_node p f s) ps"
    by (rule proc_ok_set [OF assms(1-3)]) (use assms(5) proc_ok_idle(6) [OF assms(1)] in auto)
  then show ?thesis using assms(4,5) by (simp add: kept_def extends_def)
qed

lemma kept_alive:
  assumes k: "kept s ps s' ps'" and ok: "proc_ok s ps" and al: "alive s"
  shows "alive s'"
proof -
  have "current_process s' = current_process s" "p_state (nodes s' (current_process s)) \<in> {READY, p_state (nodes s (current_process s))}"
    "idle_process s' = idle_process s" using k ok proc_ok_idle(3) [OF ok] by (auto simp: kept_def proc_ok_def table_ok_def)
  then show ?thesis using al by (auto simp: alive_def)
qed

lemma process_send_ok:
  assumes ok: "proc_ok s ps"
  obtains r s' where "process_send s dest sender data = Some (r, s')" "kept s ps s' ps"
proof -
  define d where "d = first_node (nodes s) (\<lambda>p. pid p = dest) ps"
  have find: "process_find_by_pid s dest = Some d" using list_find_ok [OF ok] by (simp add: process_find_by_pid_def d_def)
  let ?m = "[dest \<mapsto> \<lparr>ip_mailbox = p_mailbox (nodes s d), ip_state = p_state (nodes s d)\<rparr>]"
  have "\<exists>r m q. mailbox_send ?m dest (of_nat sender) data = (r, m) \<and> m dest = Some q \<and> ip_state q \<in> {READY, p_state (nodes s d)}"
    by (cases "mb_waiter (p_mailbox (nodes s d))") (auto simp: mailbox_send_def Let_def set_state_def)
  then obtain r m q where q: "mailbox_send ?m dest (of_nat sender) data = (r, m)" "m dest = Some q" "ip_state q \<in> {READY, p_state (nodes s d)}"
    by blast
  let ?s = "set_node d (\<lambda>x. x\<lparr>p_mailbox := ip_mailbox q, p_state := ip_state q\<rparr>) s"
  have "kept s ps ?s ps" by (rule kept_set [OF ok]) (use q(3) in simp_all)
  moreover have "kept s ps s ps" by (rule kept_same [OF ok]) simp_all
  ultimately show ?thesis
    by (intro that [of "if d = 0 then - 1 else r" "if d = 0 then s else ?s"]) (simp_all add: process_send_def find node_def q(1,2))
qed

lemma kernel_send_ok:
  assumes ok: "proc_ok s ps"
  obtains s' where "kernel_send s dest data = Some s'" "kept s ps s' ps"
proof -
  obtain r s' where "process_send s dest 0 data = Some (r, s')" "kept s ps s' ps" by (rule process_send_ok [OF ok])
  then show ?thesis by (intro that [of s']) (simp_all add: kernel_send_def)
qed

lemma spawn_shell_process_ok:
  assumes ok: "proc_ok s ps"
  obtains p s' ps' where "spawn_shell_process s sp = Some (p, s')" "kept s ps s' ps'"
proof (cases sp)
  case NoImage
  then show ?thesis using kept_same [OF ok, of s] by (intro that [of 0 s ps]) (simp_all add: spawn_shell_process_def)
next
  case (Spawn k mem load)
  show ?thesis
  proof (rule process_create_ok [OF ok, of "''shell''" 0 k mem], goal_cases)
    case (1 s1)
    then have "kept s ps s1 ps" by (simp add: kept_def extends_def)
    then show ?thesis using 1(1) Spawn by (intro that [of 0 s1 ps]) (simp_all add: spawn_shell_process_def)
  next
    case (2 s1)
    let ?n = "next_node s"
    have k: "kept s ps s1 (ps @ [?n])" using 2 by (simp add: kept_def)
    have n0: "?n \<noteq> 0" "?n \<noteq> idle_process s1"
      using proc_ok_idle(5) [OF 2(2)] 2(3) proc_ok_idle(1,2) [OF ok] ok 2(2) by (auto simp: proc_ok_def table_ok_def)
    show ?thesis
    proof (cases load)
      case None
      let ?s = "set_pstate TERMINATED ?n s1"
      have "proc_ok ?s (ps @ [?n])" unfolding set_pstate_def by (rule proc_ok_set [OF 2(2)]) (use n0 in simp_all)
      then have "kept s ps ?s (ps @ [?n])" using k 2(3) by (auto simp: kept_def extends_def set_pstate_def)
      then show ?thesis using 2(1) n0 Spawn None by (intro that [of 0 ?s "ps @ [?n]"]) (simp_all add: spawn_shell_process_def)
    next
      case (Some ld)
      obtain e r a v where ld: "ld = (e, r, a, v)" by (metis prod_cases4)
      let ?s = "set_node ?n (\<lambda>x. x\<lparr>p_context := (p_context x)\<lparr>rip := e, rsp := r, rdi := 0, rsi := a, rdx := v\<rparr>, is_shell := True\<rparr>) s1"
      have "kept s1 (ps @ [?n]) ?s (ps @ [?n])" by (rule kept_set [OF 2(2)]) simp_all
      from kept_then [OF k this] show ?thesis
        using 2(1) n0 Spawn Some ld by (intro that [of ?n ?s "ps @ [?n]"]) (simp_all add: spawn_shell_process_def)
    qed
  qed
qed

lemma respawn_ok:
  assumes ok: "proc_ok s ps"
  obtains s' ps' where "respawn_shell_if_needed s p = Some s'" "kept s ps s' ps'"
proof (cases "\<not> is_shell (node s p) \<or> \<not> shell_spawner s")
  case True
  then show ?thesis using kept_same [OF ok, of s] by (intro that [of s ps]) (simp_all add: respawn_shell_if_needed_def)
next
  case False
  let ?s = "s\<lparr>spawned := spawned s + 1\<rparr>"
  have k: "kept s ps ?s ps" by (rule kept_same [OF ok]) simp_all
  then have "proc_ok ?s ps" by (simp add: kept_def)
  then obtain q s' ps' where "spawn_shell_process ?s (spawns s (spawned s)) = Some (q, s')" "kept ?s ps s' ps'"
    by (rule spawn_shell_process_ok)
  then show ?thesis using False kept_trans [OF k] by (intro that [of s' ps']) (simp_all add: respawn_shell_if_needed_def)
qed

lemma retire_ok:
  assumes ok: "proc_ok s ps"
  obtains s' ps' where "retire s p = Some s'" "kept s ps s' ps'"
proof -
  let ?n = "pid (node s p)"
  define s1 where "s1 = s\<lparr>drivers := driver_release_process (drivers s) ?n\<rparr>"
  define s2 where "s2 = (if ?n = foreground_pid s1 then s1\<lparr>foreground_pid := 0\<rparr> else s1)"
  have k2: "kept s ps s2 ps" by (rule kept_same [OF ok]) (simp_all add: s1_def s2_def)
  then have ok2: "proc_ok s2 ps" by (simp add: kept_def)
  obtain s3 where s3: "(if ?n = g_wm_pid s2 then Some (s2\<lparr>g_wm_pid := 0\<rparr>)
      else if g_wm_pid s2 \<noteq> 0 then kernel_send s2 (g_wm_pid s2) (wm_request WM_NOTIFY_PROCESS_EXIT [int ?n]) else Some s2) = Some s3"
    and k3: "kept s2 ps s3 ps"
  proof (cases "?n \<noteq> g_wm_pid s2 \<and> g_wm_pid s2 \<noteq> 0")
    case True
    obtain s3 where "kernel_send s2 (g_wm_pid s2) (wm_request WM_NOTIFY_PROCESS_EXIT [int ?n]) = Some s3" "kept s2 ps s3 ps"
      by (rule kernel_send_ok [OF ok2])
    then show ?thesis using True by (intro that [of s3]) simp_all
  next
    case False
    then show ?thesis
      using kept_same [OF ok2, of s2] kept_same [OF ok2, of "s2\<lparr>g_wm_pid := 0\<rparr>"] that [of s2] that [of "s2\<lparr>g_wm_pid := 0\<rparr>"]
      by (cases "?n = g_wm_pid s2") simp_all
  qed
  define s4 where "s4 = (if ?n = g_netd_pid s3 then s3\<lparr>g_netd_pid := 0\<rparr> else s3)"
  define s5 where "s5 = (if ?n = g_soundd_pid s4 then sound_ring_clear (s4\<lparr>g_soundd_pid := 0\<rparr>) else s4)"
  have ok3: "proc_ok s3 ps" using k3 by (simp add: kept_def)
  have k5: "kept s3 ps s5 ps" by (rule kept_same [OF ok3]) (simp_all add: s4_def s5_def sound_ring_clear_def)
  then have ok5: "proc_ok s5 ps" by (simp add: kept_def)
  obtain s' ps' where r: "respawn_shell_if_needed s5 p = Some s'" "kept s5 ps s' ps'" by (rule respawn_ok [OF ok5])
  have "retire s p = Some s'"
    unfolding retire_def Let_def s1_def [symmetric] s2_def [symmetric] s3 bind.bind_lunit s4_def [symmetric] s5_def [symmetric] r(1) ..
  moreover have "kept s ps s' ps'" by (rule kept_trans [OF k2 kept_trans [OF k3 kept_trans [OF k5 r(2)]]])
  ultimately show ?thesis by (rule that)
qed

lemma wake_ok:
  assumes ok: "proc_ok s ps"
  obtains w s' where "wake_waiting_parent s c = Some (w, s')" "kept s ps s' ps" "w \<noteq> 0 \<longrightarrow> w \<in> set ps"
proof -
  define w where "w = (if ppid (node s c) = 0 then 0 else first_node (nodes s) (\<lambda>p. pid p = ppid (node s c) \<and> p_state p = BLOCKED \<and>
            (wait_target_pid p = pid (node s c) \<or> wait_target_pid p = WAIT_ANY_PID)) ps)"
  have "find_waiting_parent s c = Some w" using list_find_ok [OF ok] by (simp add: find_waiting_parent_def w_def)
  moreover have "w \<in> set ps" if "w \<noteq> 0" using that first_node_in unfolding w_def by (metis (no_types, lifting))
  moreover have "kept s ps (set_node w (\<lambda>x. x\<lparr>wait_target_pid := 0, p_state := READY\<rparr>) s) ps" by (rule kept_set [OF ok]) simp_all
  moreover have "kept s ps s ps" by (rule kept_same [OF ok]) simp_all
  ultimately show ?thesis
    by (intro that [of w "if w = 0 then s else set_node w (\<lambda>x. x\<lparr>wait_target_pid := 0, p_state := READY\<rparr>) s"])
      (simp_all add: wake_waiting_parent_def)
qed

text \<open>A terminated process and the processor: the waiting parent runs, or whoever is next.\<close>

lemma leave_ok:
  assumes "proc_ok s ps" "w \<noteq> 0 \<longrightarrow> w \<in> set ps"
  shows "proc_ok (if w \<noteq> 0 then switch_to_process s w else schedule s) ps" "alive (if w \<noteq> 0 then switch_to_process s w else schedule s)"
  using assms switch_to_process_ok schedule_ok by auto

lemma process_exit_ok:
  assumes ok: "proc_ok s ps" and c: "current_process s \<noteq> idle_process s"
  obtains s' ps' where "process_exit s code = Some s'" "proc_ok s' ps'" "alive s'"
proof -
  let ?p = "current_process s"
  let ?s = "set_node ?p (\<lambda>x. x\<lparr>exit_code := code, p_state := TERMINATED\<rparr>) s"
  have "proc_ok ?s ps" by (rule proc_ok_set [OF ok]) (use c in simp_all)
  then obtain s1 ps1 where r: "retire ?s ?p = Some s1" "kept ?s ps s1 ps1" by (rule retire_ok [where p = ?p])
  then have "proc_ok s1 ps1" by (simp add: kept_def)
  then obtain w s2 where w: "wake_waiting_parent s1 ?p = Some (w, s2)" "kept s1 ps1 s2 ps1" "w \<noteq> 0 \<longrightarrow> w \<in> set ps1"
    by (rule wake_ok [where c = ?p])
  have ok2: "proc_ok s2 ps1" using w(2) by (simp add: kept_def)
  have "process_exit s code = Some (if w \<noteq> 0 then switch_to_process s2 w else schedule s2)"
    using proc_ok_idle(4) [OF ok] r(1) w(1) by (simp add: process_exit_def Let_def)
  then show ?thesis using leave_ok [OF ok2 w(3)] by (rule that)
qed

lemma terminate_ok:
  assumes ok: "proc_ok s ps" and p: "p \<in> set ps" "p \<noteq> idle_process s" and al: "alive s"
  obtains c s' ps' where "terminate_process_by_signal s p sig = Some (c, s')" "proc_ok s' ps'" "alive s'"
    "c \<noteq> Leaves \<longrightarrow> extends s ps s' ps'"
proof (cases "p_state (node s p) = TERMINATED")
  case True
  then show ?thesis using ok al by (intro that [of "Done 0" s ps]) (simp_all add: terminate_process_by_signal_def extends_def)
next
  case False
  let ?s = "set_node p (\<lambda>x. x\<lparr>exit_code := 128 + int sig, p_state := TERMINATED\<rparr>) s"
  have ok0: "proc_ok ?s ps" by (rule proc_ok_set [OF ok]) (use p in simp_all)
  then obtain s1 ps1 where r: "retire ?s p = Some s1" "kept ?s ps s1 ps1" by (rule retire_ok [where p = p])
  then have "proc_ok s1 ps1" by (simp add: kept_def)
  then obtain w s2 where w: "wake_waiting_parent s1 p = Some (w, s2)" "kept s1 ps1 s2 ps1" "w \<noteq> 0 \<longrightarrow> w \<in> set ps1"
    by (rule wake_ok [where c = p])
  have k: "kept ?s ps s2 ps1" by (rule kept_then [OF r(2) w(2)])
  then have ok2: "proc_ok s2 ps1" and c2: "current_process s2 = current_process s" by (simp_all add: kept_def)
  have e: "extends s ps s2 ps1" by (rule extends_before [of ps ?s]) (use k in \<open>simp_all add: kept_def\<close>)
  have eq: "terminate_process_by_signal s p sig = Some (if p = current_process s2 then (Leaves, if w \<noteq> 0 then switch_to_process s2 w else schedule s2)
       else (Done 0, s2))"
    using False r(1) w(1) by (simp add: terminate_process_by_signal_def)
  show ?thesis
  proof (cases "p = current_process s2")
    case True
    show ?thesis using True eq leave_ok [OF ok2 w(3)] by (intro that [of Leaves "if w \<noteq> 0 then switch_to_process s2 w else schedule s2" ps1]) simp_all
  next
    case F: False
    have "alive ?s" using al F c2 by (auto simp: alive_def)
    then have "alive s2" using kept_alive [OF k ok0] by simp
    then show ?thesis using eq F ok2 e c2 by (intro that [of "Done 0" s2 ps1]) simp_all
  qed
qed

lemma schedule_alarm:
  assumes ok: "proc_ok s ps"
  shows "alarm_tick (nodes (schedule s) q) = alarm_tick (nodes s q)"
proof -
  obtain us vs where ps: "ps = us @ current_process s # vs" using proc_ok_idle(3) [OF ok] by (meson split_list)
  have "r \<noteq> 0" if "next_ready s (vs @ us) = Some r" for r
  proof -
    have "r \<in> set ps" using next_ready_Some [OF that] by (auto simp: ps)
    then show ?thesis using proc_ok_idle(5) [OF ok] by metis
  qed
  then show ?thesis
    using schedule_spec [OF ok [unfolded ps] refl] switch_ok_nodes(5) proc_ok_idle(2) [OF ok] by (cases "next_ready s (vs @ us)") auto
qed

lemma signal_other_ok:
  assumes ok: "proc_ok s ps" and al: "alive s" and p: "p \<in> set ps" "p \<noteq> idle_process s" "p \<noteq> 0"
    and find: "process_find_by_pid s n = Some p" and other: "sig \<notin> {SIGINT, SIGKILL, SIGTERM, SIGALRM}"
  obtains c s' ps' where "process_signal s n sig = Some (c, s')" "proc_ok s' ps'" "alive s'" "c \<noteq> Leaves \<longrightarrow> extends s ps s' ps'"
proof -
  note sig = process_signal_def [of s n sig, unfolded find bind.bind_lunit]
  have self: "proc_ok s ps" "extends s ps s ps" using ok by (simp_all add: extends_def)
  have upd: "proc_ok (set_pstate st p s) ps" "extends s ps (set_pstate st p s) ps" if "st \<noteq> RUNNING" for st
    unfolding set_pstate_def by (rule proc_ok_set [OF ok]) (use that p in \<open>simp_all add: extends_def\<close>)
  let ?st = "set_pstate STOPPED p s"
  have st: "proc_ok ?st ps" "extends s ps ?st ps" using upd [of STOPPED] by simp_all
  have sch: "extends s ps (schedule ?st) ps"
    by (rule extends_after [OF st(2)]) (simp add: schedule_alarm [OF st(1)])
  have stop: "alive ?st" if "p \<noteq> current_process ?st" using al that by (auto simp: alive_def set_pstate_def)
  have cont: "alive (set_pstate READY p s)" using al by (auto simp: alive_def set_pstate_def)
  have "process_signal s n sig = (if sig = SIGSTOP
     then (if p_state (node s p) = TERMINATED then Some (Done 0, s) else Some (Done 0, if p = current_process ?st then schedule ?st else ?st))
     else if sig = SIGCONT then Some (Done 0, if p_state (node s p) = STOPPED then set_pstate READY p s else s) else Some (Done (- 1), s))"
    unfolding sig using p other by (auto simp: Let_def)
  then show ?thesis
    using self al st sch stop cont upd [of READY] schedule_ok [OF st(1)]
    by (cases "sig = SIGSTOP"; cases "sig = SIGCONT"; cases "p_state (node s p) = TERMINATED"; cases "p_state (node s p) = STOPPED";
        cases "p = current_process ?st") (auto intro: that)
qed

lemma process_signal_ok:
  assumes ok: "proc_ok s ps" and al: "alive s"
  obtains c s' ps' where "process_signal s n sig = Some (c, s')" "proc_ok s' ps'" "alive s'" "c \<noteq> Leaves \<longrightarrow> extends s ps s' ps'"
proof -
  define p where "p = first_node (nodes s) (\<lambda>p. pid p = n) ps"
  have find: "process_find_by_pid s n = Some p" using list_find_ok [OF ok] by (simp add: process_find_by_pid_def p_def)
  have self: "proc_ok s ps" "extends s ps s ps" using ok by (simp_all add: extends_def)
  note sig = process_signal_def [of s n sig, unfolded find bind.bind_lunit]
  show ?thesis
  proof (cases "p = 0 \<or> p = idle_process s")
    case True
    then show ?thesis using sig self al by (intro that [of "Done (- 1)" s ps]) auto
  next
    case False
    then have p: "p \<in> set ps" "p \<noteq> idle_process s" "p \<noteq> 0" using first_node_in unfolding p_def by metis+
    let ?pend = "set_node p (\<lambda>x. x\<lparr>pending_signal := sig, p_state := (if p_state x = BLOCKED \<or> p_state x = SLEEPING then READY else p_state x)\<rparr>) s"
    have pend: "kept s ps ?pend ps" by (rule kept_set [OF ok]) simp_all
    consider (handler) "sig \<in> {SIGINT, SIGTERM, SIGALRM} \<and> signal_handlers (node s p) ! sig \<noteq> 0 \<and> \<not> in_signal_handler (node s p)"
      | (kill) "\<not> (sig \<in> {SIGINT, SIGTERM, SIGALRM} \<and> signal_handlers (node s p) ! sig \<noteq> 0 \<and> \<not> in_signal_handler (node s p))"
          "sig \<in> {SIGINT, SIGKILL, SIGTERM, SIGALRM}"
      | (other) "sig \<notin> {SIGINT, SIGKILL, SIGTERM, SIGALRM}" by blast
    then show ?thesis
    proof cases
      case handler
      then have "process_signal s n sig = Some (Done 0, ?pend)" unfolding sig using p by simp
      then show ?thesis using pend kept_alive [OF pend ok al] by (intro that [of "Done 0" ?pend ps]) (auto simp: kept_def)
    next
      case kill
      obtain c s' ps' where t: "terminate_process_by_signal s p sig = Some (c, s')" "proc_ok s' ps'" "alive s'" "c \<noteq> Leaves \<longrightarrow> extends s ps s' ps'"
        by (rule terminate_ok [OF ok p(1,2) al])
      have "process_signal s n sig = Some (c, s')" unfolding sig using kill p(2,3) t(1) by auto
      then show ?thesis using t(2-4) by (rule that)
    next
      case other
      show ?thesis by (rule signal_other_ok [OF ok al p find other]) (rule that)
    qed
  qed
qed

text \<open>The collection removes the terminated processes and no other; a second round finds nothing.\<close>

definition unreaped :: "kernel \<Rightarrow> nat \<Rightarrow> bool" where
  "unreaped s q \<longleftrightarrow> p_state (nodes s q) \<noteq> TERMINATED \<or> q = idle_process s"

lemma reap_step_keep:
  assumes ok: "proc_ok s (us @ p # vs)" and k: "unreaped s p"
  shows "reap_step s (process_list s) prev p = (if vs = [] then None else Some (p, hd vs), s)"
proof -
  let ?ps = "us @ p # vs"
  have r: "ring (nodes s) ?ps" and h: "hd ?ps = process_list s" "process_list s = idle_process s"
    using ok by (simp_all add: proc_ok_def table_ok_def)
  have d: "distinct ?ps" "0 \<notin> set ?ps" using r by (simp_all add: ring_def)
  have hd: "hd (us @ [p]) = process_list s" using h(1) by (cases us) auto
  note n = ring_next [OF r]
  show ?thesis
  proof (cases vs)
    case Nil
    then have nx: "p_next (nodes s p) = process_list s" using n(1) hd by simp
    have "\<not> (p_next (nodes s p) = p \<and> p \<noteq> idle_process s)" using nx h(2) by simp
    then show ?thesis using Nil k n(2) nx by (auto simp: reap_step_def node_def unreaped_def)
  next
    case (Cons v vs')
    then have nx: "p_next (nodes s p) = v" using n(1) by simp
    have "v \<noteq> p" "v \<noteq> 0" using d Cons by auto
    moreover have "v \<noteq> process_list s" using d Cons hd by (cases us) auto
    ultimately show ?thesis using Cons k n(2) nx by (auto simp: reap_step_def node_def unreaped_def)
  qed
qed

lemma reap_step_drop:
  assumes ok: "proc_ok s (us @ prev # p # vs)" and k: "\<not> unreaped s p"
  shows "reap_step s (process_list s) prev p =
    (Some (prev, if vs = [] then process_list s else hd vs), drop_process p (set_node prev (\<lambda>x. x\<lparr>p_next := p_next (nodes s p)\<rparr>) s))"
proof -
  have r: "ring (nodes s) (us @ prev # p # vs)" and h: "hd (us @ prev # p # vs) = process_list s"
    using ok by (simp_all add: proc_ok_def table_ok_def)
  have d: "distinct (us @ prev # p # vs)" "0 \<notin> set (us @ prev # p # vs)" using r by (simp_all add: ring_def)
  have n: "p_next (nodes s p) = (if vs = [] then hd (us @ [prev]) else hd vs)"
    using ring_next(1) [of "nodes s" "us @ [prev]" p vs] r by (cases us) auto
  have hd: "hd (us @ [prev]) = process_list s" using h by (cases us) auto
  have "hd (us @ [prev]) \<noteq> p" "vs \<noteq> [] \<Longrightarrow> hd vs \<noteq> p" using d by (cases us; cases vs; auto)+
  then have "p_next (nodes s p) \<noteq> p" using n by auto
  then show ?thesis using k d n hd by (auto simp: reap_step_def node_def unreaped_def Let_def)
qed

lemma reap_again:
  "proc_ok s (us @ p # vs) \<Longrightarrow> \<forall>q\<in>set (p # vs). unreaped s q \<Longrightarrow> reap_loop n s (process_list s) prev p = s"
proof (induction n arbitrary: us p vs prev)
  case (Suc n)
  show ?case
  proof (cases vs)
    case (Cons v vs')
    then show ?thesis using Suc.IH [of "us @ [p]" v vs'] reap_step_keep [OF Suc.prems(1)] Suc.prems by simp
  qed (use reap_step_keep [OF Suc.prems(1)] Suc.prems(2) in simp)
qed simp

lemma reap_loop_ok:
  "proc_ok s (us @ p # vs) \<Longrightarrow> \<forall>q\<in>set us. unreaped s q \<Longrightarrow> prev = (if us = [] then 0 else last us) \<Longrightarrow> length (p # vs) \<le> n \<Longrightarrow>
   unreaped s (current_process s) \<Longrightarrow>
   \<exists>s'. reap_loop n s (process_list s) prev p = s' \<and> proc_ok s' (us @ filter (unreaped s) (p # vs)) \<and> current_process s' = current_process s \<and>
     (\<forall>q. p_state (nodes s' q) = p_state (nodes s q))"
proof (induction n arbitrary: s us p vs prev)
  case (Suc n)
  show ?case
  proof (cases "unreaped s p")
    case True
    note step = reap_step_keep [OF Suc.prems(1) True, of prev]
    show ?thesis
    proof (cases vs)
      case (Cons v vs')
      have "\<exists>s'. reap_loop n s (process_list s) p v = s' \<and> proc_ok s' ((us @ [p]) @ filter (unreaped s) (v # vs')) \<and>
          current_process s' = current_process s \<and> (\<forall>q. p_state (nodes s' q) = p_state (nodes s q))"
        by (rule Suc.IH) (use Suc.prems(1,2,4,5) True Cons in simp_all)
      then show ?thesis using step True Cons by simp
    qed (use step Suc.prems(1) True in simp)
  next
    case False
    have "p \<noteq> hd (us @ p # vs)" using False Suc.prems(1) by (auto simp: unreaped_def proc_ok_def table_ok_def)
    then obtain us' where us: "us = us' @ [prev]" using Suc.prems(3) by (cases us rule: rev_cases) auto
    let ?s = "drop_process p (set_node prev (\<lambda>x. x\<lparr>p_next := p_next (nodes s p)\<rparr>) s)"
    have ok: "proc_ok s (us' @ prev # p # vs)" using Suc.prems(1) us by simp
    note step = reap_step_drop [OF ok False]
    have "p \<noteq> current_process s" using False Suc.prems(5) by auto
    then have ok1: "proc_ok ?s (us' @ prev # vs)" by (rule cut_process_ok [OF ok _ refl])
    have un: "unreaped ?s = unreaped s" by (auto simp: unreaped_def fun_eq_iff)
    show ?thesis
    proof (cases vs)
      case Nil
      have "reap_loop n ?s (process_list ?s) prev (process_list ?s) = ?s"
      proof (cases "us' @ [prev]")
        case (Cons a as)
        then have "proc_ok ?s ([] @ a # as)" "process_list ?s = a" using ok1 Nil by (auto simp: proc_ok_def table_ok_def)
        then show ?thesis using reap_again [of ?s "[]" a as n prev] Suc.prems(2) Cons us un by auto
      qed simp
      then have "reap_loop (Suc n) s (process_list s) prev p = ?s" using step Nil by simp
      then show ?thesis using Nil ok1 False us by simp
    next
      case (Cons v vs')
      have "\<exists>s'. reap_loop n ?s (process_list ?s) prev v = s' \<and> proc_ok s' ((us' @ [prev]) @ filter (unreaped ?s) (v # vs')) \<and>
          current_process s' = current_process ?s \<and> (\<forall>q. p_state (nodes s' q) = p_state (nodes ?s q))"
      proof (rule Suc.IH)
        show "proc_ok ?s ((us' @ [prev]) @ v # vs')" using ok1 Cons by simp
        show "\<forall>q\<in>set (us' @ [prev]). unreaped ?s q" using Suc.prems(2) unfolding us un .
        show "unreaped ?s (current_process ?s)" using Suc.prems(5) unfolding un by simp
      qed (use Suc.prems(4) Cons in simp_all)
      then have "\<exists>s'. reap_loop n ?s (process_list s) prev v = s' \<and> proc_ok s' (us @ filter (unreaped s) (p # vs)) \<and>
          current_process s' = current_process s \<and> (\<forall>q. p_state (nodes s' q) = p_state (nodes s q))"
        unfolding un us using Cons False by simp
      then show ?thesis using step Cons by simp
    qed
  qed
qed simp

lemma process_reap_ok:
  assumes ok: "proc_ok s ps" and al: "alive s"
  shows "proc_ok (process_reap s) (filter (unreaped s) ps)" "alive (process_reap s)"
    "p_state (nodes (process_reap s) q) = p_state (nodes s q)" "current_process (process_reap s) = current_process s"
proof -
  obtain p vs where ps: "ps = p # vs" using ok by (cases ps) (auto simp: proc_ok_def table_ok_def ring_def)
  have pl: "process_list s = p" "length ps \<le> 33" using ok by (auto simp: proc_ok_def table_ok_def ps)
  have c: "unreaped s (current_process s)" using al by (auto simp: unreaped_def alive_def)
  obtain s' where s': "reap_loop 10000 s (process_list s) 0 p = s'" "proc_ok s' (filter (unreaped s) ps)"
    "current_process s' = current_process s" "\<And>q. p_state (nodes s' q) = p_state (nodes s q)"
    using reap_loop_ok [of s "[]" p vs 0 10000] ok c pl ps by auto
  have eq: "process_reap s = s'" using s'(1) proc_ok_idle(7) [OF ok] pl(1) by (simp add: process_reap_def)
  show "proc_ok (process_reap s) (filter (unreaped s) ps)" "p_state (nodes (process_reap s) q) = p_state (nodes s q)"
    "current_process (process_reap s) = current_process s" unfolding eq by (rule s'(2), rule s'(4), rule s'(3))
  then show "alive (process_reap s)" using al s'(3,4) ok by (auto simp: alive_def eq proc_ok_def table_ok_def)
qed

text \<open>
  The scan of the timer ends: each alarm rings once, and the ring grows only by a shell
  that replaces one an alarm has terminated.
\<close>

definition alarms :: "kernel \<Rightarrow> nat list \<Rightarrow> nat" where
  "alarms s ps = length (filter (\<lambda>q. alarm_tick (nodes s q) \<noteq> 0) ps)"

lemma alive_set:
  assumes "alive s" "\<And>x. p_state (f x) = p_state x"
  shows "alive (set_node p f s)"
proof -
  have "p_state (nodes (set_node p f s) q) = p_state (nodes s q)" for q using assms(2) by (cases "q = p") simp_all
  then show ?thesis using assms(1) by (simp add: alive_def del: set_node_simps(1)) 
qed

lemma tick_node_ok:
  assumes ok: "proc_ok s ps"
  shows "kept s ps (tick_node s p) ps" "alarm_tick (nodes (tick_node s p) q) = alarm_tick (nodes s q)"
  using kept_same [OF ok, of s] kept_set [OF ok, of "\<lambda>x. x\<lparr>p_state := READY\<rparr>" p]
  by (simp_all add: tick_node_def set_pstate_def)

lemma timer_scan_ok:
  "proc_ok s (us @ p # vs) \<Longrightarrow> alive s \<Longrightarrow> start = hd (us @ [p]) \<Longrightarrow>
   \<exists>c s' ps'. timer_scan s start p = Some (c, s') \<and> proc_ok s' ps' \<and> alive s'"
proof (induction "2 * alarms s (p # vs) + length vs" arbitrary: s us p vs rule: less_induct)
  case less
  let ?ps = "us @ p # vs" and ?s1 = "tick_node s p"
  note ok = less.prems(1)
  note k1 = tick_node_ok [OF ok, of p]
  have ok1: "proc_ok ?s1 ?ps" and al1: "alive ?s1"
    using k1(1) kept_alive [OF k1(1) ok less.prems(2)] by (simp_all add: kept_def)
  define body where "body = (if alarm_tick (node ?s1 p) \<noteq> 0 \<and> pit_ticks ?s1 \<ge> alarm_tick (node ?s1 p)
    then process_signal (set_node p (\<lambda>x. x\<lparr>alarm_tick := 0\<rparr>) ?s1) (pid (node ?s1 p)) SIGALRM else Some (Done 0, ?s1))"
  have "\<exists>c s2 ns. body = Some (c, s2) \<and> alive s2 \<and> (c = Leaves \<and> (\<exists>ps'. proc_ok s2 ps') \<or> c \<noteq> Leaves \<and> proc_ok s2 (?ps @ ns) \<and>
      2 * alarms s2 (vs @ ns) + length (vs @ ns) \<le> 2 * alarms s (p # vs) + length vs)"
  proof (cases "alarm_tick (node ?s1 p) \<noteq> 0 \<and> pit_ticks ?s1 \<ge> alarm_tick (node ?s1 p)")
    case False
    then have "body = Some (Done 0, ?s1)" unfolding body_def by (simp only: if_False)
    moreover have "alarms ?s1 vs \<le> alarms s (p # vs)" by (simp add: alarms_def k1(2))
    ultimately show ?thesis using ok1 al1 by (intro exI [of _ "Done 0"] exI [of _ ?s1] exI [of _ "[]"]) simp
  next
    case True
    let ?s2 = "set_node p (\<lambda>x. x\<lparr>alarm_tick := 0\<rparr>) ?s1"
    have ok2: "proc_ok ?s2 ?ps" by (rule proc_ok_set [OF ok1]) (use proc_ok_idle(6) [OF ok1] in simp_all)
    have al2: "alive ?s2" by (rule alive_set [OF al1]) simp
    obtain c s3 ps3 where sg: "process_signal ?s2 (pid (node ?s1 p)) SIGALRM = Some (c, s3)" "proc_ok s3 ps3" "alive s3"
      "c \<noteq> Leaves \<longrightarrow> extends ?s2 ?ps s3 ps3" by (rule process_signal_ok [OF ok2 al2])
    have b: "body = Some (c, s3)" unfolding body_def using True sg(1) by simp
    show ?thesis
    proof (cases "c = Leaves")
      case F: False
      then obtain ns where ns: "ps3 = ?ps @ ns" "length ns \<le> 1" "\<forall>q\<in>set ns. alarm_tick (nodes s3 q) = 0"
        "\<forall>q\<in>set ?ps. alarm_tick (nodes s3 q) = alarm_tick (nodes ?s2 q)" using sg(4) unfolding extends_def by blast
      have "p \<notin> set vs" using ok by (auto simp: proc_ok_def table_ok_def ring_def)
      then have "filter (\<lambda>q. alarm_tick (nodes s3 q) \<noteq> 0) vs = filter (\<lambda>q. alarm_tick (nodes s q) \<noteq> 0) vs"
        using ns(4) k1(2) by (intro filter_cong) auto
      then have "alarms s3 (vs @ ns) = alarms s vs" using ns(3) by (simp add: alarms_def)
      moreover have "alarms s (p # vs) = 1 + alarms s vs" using True k1(2) by (simp add: alarms_def node_def)
      ultimately show ?thesis using b sg(2,3) F ns(1,2) by (intro exI [of _ c] exI [of _ s3] exI [of _ ns]) simp
    qed (use b sg(2,3) in blast)
  qed
  then obtain c s2 ns where b: "body = Some (c, s2)" "alive s2"
    and r: "c = Leaves \<and> (\<exists>ps'. proc_ok s2 ps') \<or> c \<noteq> Leaves \<and> proc_ok s2 (?ps @ ns) \<and>
      2 * alarms s2 (vs @ ns) + length (vs @ ns) \<le> 2 * alarms s (p # vs) + length vs" by blast
  have eq: "timer_scan s start p = (if c = Leaves then Some (c, s2)
         else if p_next (nodes s2 p) = 0 \<or> p_next (nodes s2 p) = start then Some (Done 0, s2)
         else timer_scan s2 start (p_next (nodes s2 p)))"
    unfolding timer_scan.simps [of s start p] Let_def body_def [symmetric] b(1) by (simp add: node_def)
  show ?case
  proof (cases "c = Leaves")
    case True
    then show ?thesis using eq b(2) r by auto
  next
    case F: False
    then have ok2: "proc_ok s2 (us @ p # (vs @ ns))" and le: "2 * alarms s2 (vs @ ns) + length (vs @ ns) \<le> 2 * alarms s (p # vs) + length vs"
      using r by simp_all
    have ring2: "ring (nodes s2) (us @ p # (vs @ ns))" using ok2 by (simp add: proc_ok_def table_ok_def)
    note n = ring_next [OF ring2]
    show ?thesis
    proof (cases "vs @ ns")
      case Nil
      then show ?thesis using eq F n(1) less.prems(3) b(2) ok2 by auto
    next
      case (Cons v rest)
      have d: "distinct (us @ p # v # rest)" "v \<noteq> 0" using ring2 unfolding Cons by (auto simp: ring_def)
      have "v \<noteq> start" using d less.prems(3) by (cases us) auto
      then have eq2: "timer_scan s start p = timer_scan s2 start v" using eq F n(1) d(2) unfolding Cons by simp
      have "\<exists>c s' ps'. timer_scan s2 start v = Some (c, s') \<and> proc_ok s' ps' \<and> alive s'"
      proof (rule less.hyps)
        show "2 * alarms s2 (v # rest) + length rest < 2 * alarms s (p # vs) + length vs" using le unfolding Cons by simp
        show "proc_ok s2 ((us @ [p]) @ v # rest)" using ok2 unfolding Cons by simp
        show "start = hd ((us @ [p]) @ [v])" using less.prems(3) by (cases us) auto
      qed (rule b(2))
      then show ?thesis unfolding eq2 .
    qed
  qed
qed

end
