(* ===== verification/Process_Steps.thy ===== *)
theory Process_Steps
  imports Process_Inv
begin

text \<open>
  The process table through every history of system calls and interrupts: the
  remaining operations keep the invariant, the step relation and the states it reaches,
  and what follows for scheduling, signals and the end of processes.
\<close>

section \<open>Waiting, the interrupt and fork\<close>

lemma alive_same:
  assumes "proc_ok s ps" "proc_ok s' ps'" "alive s" "current_process s' = current_process s" "\<And>q. p_state (nodes s' q) = p_state (nodes s q)"
  shows "alive s'"
  using assms by (auto simp: alive_def proc_ok_def table_ok_def)

lemma zombie_away:
  assumes "proc_ok s ps" "alive s" "p_state (nodes s z) = TERMINATED"
  shows "z \<noteq> idle_process s" "z \<noteq> current_process s"
  using assms by (auto simp: proc_ok_def run_ok_def alive_def)

lemma process_wait_ok:
  assumes ok: "proc_ok s ps" and al: "alive s"
  obtains r s' ps' where "process_wait_pass s n = Some (r, s')" "proc_ok s' ps'" "alive s'"
proof -
  let ?cur = "current_process s" and ?t = "if n = 0 then WAIT_ANY_PID else n"
  let ?P = "wanted_child (pid (nodes s ?cur)) ?t"
  define z where "z = first_node (nodes s) (\<lambda>p. ?P p \<and> p_state p = TERMINATED) ps"
  define ch where "ch = first_node (nodes s) ?P ps"
  note find = list_find_ok [OF ok, of "\<lambda>p. ?P p \<and> p_state p = TERMINATED", folded z_def] list_find_ok [OF ok, of ?P, folded ch_def]
  note w = process_wait_pass_def [of s n, unfolded Let_def node_def find bind.bind_lunit]
  consider (zombie) "z \<noteq> 0" | (none) "z = 0" "ch = 0" | (block) "z = 0" "ch \<noteq> 0" by blast
  then show ?thesis
  proof cases
    case zombie
    then have z: "z \<in> set ps" "p_state (nodes s z) = TERMINATED"
      using first_node_in [OF zombie [unfolded z_def], folded z_def] by simp_all
    obtain s' where s': "process_remove_from_list s z = Some s'" "proc_ok s' (remove1 z ps)" "current_process s' = ?cur"
      "\<And>q. p_state (nodes s' q) = p_state (nodes s q)"
      by (rule process_remove_ok [OF ok z(1) zombie_away [OF ok al z(2)]]) blast
    then show ?thesis
      using zombie proc_ok_idle(4) [OF ok] alive_same [OF ok s'(2) al s'(3,4)]
      by (intro that [of "WaitDone (pid (nodes s z)) (exit_code (nodes s z))" s' "remove1 z ps"]) (simp_all add: w)
  next
    case none
    then show ?thesis using ok al proc_ok_idle(4) [OF ok] by (intro that [of WaitFail s ps]) (simp_all add: w)
  next
    case block
    let ?s = "set_node ?cur (\<lambda>x. x\<lparr>wait_target_pid := ?t, p_state := BLOCKED\<rparr>) s"
    have "proc_ok ?s ps" by (rule proc_ok_set [OF ok]) simp_all
    then show ?thesis using block schedule_ok [of ?s ps] proc_ok_idle(4) [OF ok] by (intro that [of WaitBlocks "schedule ?s" ps]) (simp_all add: w)
  qed
qed

lemma shell_handle_ctrl_c_ok:
  assumes ok: "proc_ok s ps" and al: "alive s"
  obtains c s' ps' where "shell_handle_ctrl_c s = Some (c, s')" "proc_ok s' ps'" "alive s'"
proof (cases "foreground_pid s = 0")
  case True
  then show ?thesis using ok al by (intro that [of "Done 0" s ps]) (simp_all add: shell_handle_ctrl_c_def)
next
  case F: False
  obtain c s1 ps1 where sg: "process_signal s (foreground_pid s) SIGINT = Some (c, s1)" "proc_ok s1 ps1" "alive s1"
    by (rule process_signal_ok [OF ok al])
  obtain r s2 ps2 where w: "process_wait_pass s1 (foreground_pid s) = Some (r, s2)" "proc_ok s2 ps2" "alive s2"
    by (rule process_wait_ok [OF sg(2,3)])
  show ?thesis
  proof (cases "c = Leaves")
    case True
    then show ?thesis using F sg by (intro that [of c s1 ps1]) (simp_all add: shell_handle_ctrl_c_def)
  next
    case False
    then show ?thesis using F sg(1) w
      by (intro that [of "if r = WaitBlocks then Leaves else Done 0" s2 ps2]) (simp_all add: shell_handle_ctrl_c_def)
  qed
qed

lemma preempt_ok:
  assumes ok: "proc_ok s ps" and al: "alive s"
  shows "proc_ok (preempt s user) ps" "alive (preempt s user)"
proof -
  have 1: "proc_ok (s\<lparr>preempt_countdown := n\<rparr>) ps" for n by (rule proc_ok_same [OF ok]) simp_all
  have 2: "alive (s\<lparr>preempt_countdown := n\<rparr>)" for n using al by (simp add: alive_def)
  show "proc_ok (preempt s user) ps" "alive (preempt s user)"
    using ok al 1 2 schedule_ok [OF 1] by (simp_all add: preempt_def Let_def)
qed

lemma timer_irq_ok:
  assumes ok: "proc_ok s ps" and al: "alive s"
  obtains s' ps' where "timer_irq_handler s user = Some s'" "proc_ok s' ps'" "alive s'"
proof -
  obtain p vs where ps: "ps = p # vs" using ok by (cases ps) (auto simp: proc_ok_def table_ok_def ring_def)
  have pl: "process_list s = p" using ok by (auto simp: proc_ok_def table_ok_def ps)
  let ?s = "count_tick s"
  have eq: "?s = set_node (current_process s) (\<lambda>x. x\<lparr>cpu_ticks := wrap64 (cpu_ticks x + 1)\<rparr>) (s\<lparr>pit_ticks := wrap64 (pit_ticks s + 1),
      total_ticks := wrap64 (total_ticks s + 1), idle_ticks := (if current_process s = idle_process s then wrap64 (idle_ticks s + 1) else idle_ticks s)\<rparr>)"
    using proc_ok_idle(4) [OF ok] by (simp add: count_tick_def)
  have "proc_ok ?s ps" unfolding eq
    by (rule proc_ok_set, rule proc_ok_same [OF ok]) (use proc_ok_idle(6) [OF ok] in simp_all)
  moreover have "alive ?s" unfolding eq by (rule alive_set) (use al in \<open>simp_all add: alive_def\<close>)
  ultimately obtain c s1 ps1 where t: "timer_scan ?s p p = Some (c, s1)" "proc_ok s1 ps1" "alive s1"
    using timer_scan_ok [of ?s "[]" p vs p] ps by auto
  let ?s2 = "process_reap s1"
  let ?s2' = "?s2\<lparr>ctrl_c := False\<rparr>"
  note r = process_reap_ok(1,2) [OF t(2,3)]
  have 2: "proc_ok ?s2' (filter (unreaped s1) ps1)" "alive ?s2'" using proc_ok_same [OF r(1), of ?s2'] r(2) by (simp_all add: alive_def)
  obtain c1 s3 ps3 where h: "(if ctrl_c ?s2 then shell_handle_ctrl_c ?s2' else Some (Done 0, ?s2)) = Some (c1, s3)" "proc_ok s3 ps3" "alive s3"
  proof (cases "ctrl_c ?s2")
    case True
    show ?thesis by (rule shell_handle_ctrl_c_ok [OF 2]) (use True in \<open>auto intro: that\<close>)
  next
    case False
    then show ?thesis using r by (intro that [of "Done 0" ?s2]) simp_all
  qed
  have "timer_irq_handler s user = Some (if c = Leaves then s1 else if c1 = Leaves then s3 else preempt s3 user)"
    using proc_ok_idle(7) [OF ok] t(1) h(1) pl by (simp add: timer_irq_handler_def Let_def)
  then show ?thesis using t(2,3) h(2,3) preempt_ok [OF h(2,3), of user] that [of s1 ps1] that [of s3 ps3] that [of "preempt s3 user" ps3]
    by (cases "c = Leaves"; cases "c1 = Leaves") simp_all
qed

lemma process_fork_ok:
  assumes ok: "proc_ok s ps" and al: "alive s"
  obtains r s' ps' where "process_fork s frame k mem new_pml4 = Some (r, s')" "proc_ok s' ps'" "alive s'"
proof -
  show ?thesis
  proof (rule process_create_ok [OF ok, of "p_name (nodes s (current_process s))" 0 k mem], goal_cases)
    case (1 s1)
    then show ?thesis using proc_ok_idle(4) [OF ok] alive_same [OF ok 1(2) al]
      by (intro that [of "- 1" s1 ps]) (simp_all add: process_fork_def node_def)
  next
    case (2 s1)
    let ?n = "next_node s" and ?ps = "ps @ [next_node s]"
    have n: "?n \<in> set ?ps" "?n \<noteq> 0" "?n \<noteq> idle_process s1" "?n \<noteq> current_process s1"
      using proc_ok_idle(5) [OF 2(2)] 2(3,5) proc_ok_idle(1,3) [OF ok] ok 2(2) by (auto simp: proc_ok_def table_ok_def)
    have al1: "alive s1" using al 2(5,6) proc_ok_idle(1,3) [OF ok] ok 2(2) by (auto simp: alive_def proc_ok_def table_ok_def)
    let ?t = "set_pstate TERMINATED ?n s1"
    have okt: "proc_ok ?t ?ps" unfolding set_pstate_def by (rule proc_ok_set [OF 2(2)]) (use n in simp_all)
    have alt: "alive ?t" using al1 n by (auto simp: alive_def set_pstate_def)
    obtain s2 where s2: "process_remove_from_list ?t ?n = Some s2" "proc_ok s2 (remove1 ?n ?ps)" "current_process s2 = current_process ?t"
      "\<And>q. p_state (nodes s2 q) = p_state (nodes ?t q)"
      by (rule process_remove_ok [OF okt n(1)]) (use n in \<open>simp_all add: set_pstate_def\<close>)
    define s3 where "s3 = set_node ?n (\<lambda>x. x\<lparr>stack_base := stack_base (nodes s (current_process s)),
        signal_handlers := signal_handlers (nodes s (current_process s)), pending_signal := 0, in_signal_handler := False, alarm_tick := 0,
        sig_stack_top := sig_stack_top (nodes s (current_process s)), uid := uid (nodes s (current_process s)),
        gid := gid (nodes s (current_process s)), cpu_ticks := 0, fpu_state := fpu s1, p_context := fork_context frame new_pml4, p_state := READY\<rparr>) s1"
    have ok3: "proc_ok s3 ?ps" unfolding s3_def by (rule proc_ok_set [OF 2(2)]) simp_all
    have al3: "alive s3" using al1 n by (auto simp: s3_def alive_def)
    have "process_fork s frame k mem new_pml4 = Some (if new_pml4 = 0 then (- 1, s2) else (int (pid (nodes s1 ?n)), s3))"
      using proc_ok_idle(4) [OF ok] 2(1) n s2(1) by (simp add: process_fork_def node_def process_discard_def s3_def Let_def)
    then show ?thesis
      using s2(2) alive_same [OF okt s2(2) alt s2(3,4)] ok3 al3 by (cases "new_pml4 = 0") (simp_all add: that)
  qed
qed

section \<open>Every history\<close>

text \<open>
  A step is an interrupt, a system call of the current process, or what another
  component does to a process: start it, put the current one to sleep, wake one.
\<close>

inductive proc_step :: "kernel \<Rightarrow> kernel \<Rightarrow> bool" where
  timer: "timer_irq_handler s user = Some s' \<Longrightarrow> proc_step s s'"
| key: "proc_step s (s\<lparr>ctrl_c := True\<rparr>)"
| create: "process_create s nm entry ok mem = Some (p, s') \<Longrightarrow> proc_step s s'"
| shell: "spawn_shell_process s sp = Some (p, s') \<Longrightarrow> proc_step s s'"
| fork: "process_fork s frame ok mem new_pml4 = Some (r, s') \<Longrightarrow> proc_step s s'"
| exec: "process_commit_exec s (current_process s) new_stack sig_top nm = (r, s') \<Longrightarrow> proc_step s s'"
| exit: "current_process s \<noteq> idle_process s \<Longrightarrow> process_exit s code = Some s' \<Longrightarrow> proc_step s s'"
| wait: "process_wait_pass s n = Some (w, s') \<Longrightarrow> proc_step s s'"
| wait_again: "process_wait_resume s n = Some (w, s') \<Longrightarrow> proc_step s s'"
| yield: "proc_step s (schedule s)"
| sleep: "proc_step s (process_sleep s milliseconds)"
| kill: "sys_kill s n sig = Some (c, s') \<Longrightarrow> proc_step s s'"
| action: "sys_sigaction s sig handler = (r, s') \<Longrightarrow> proc_step s s'"
| deliver: "process_deliver_pending_signal s frame = (frame', s') \<Longrightarrow> proc_step s s'"
| sigreturn: "process_sigreturn s frame = (v, frame', s') \<Longrightarrow> proc_step s s'"
| alarm: "sys_alarm s milliseconds = (r, s') \<Longrightarrow> proc_step s s'"
| foreground: "process_set_foreground s (pid (node s (current_process s))) target = Some (r, s') \<Longrightarrow> proc_step s s'"
| send: "sys_ipc_send s dest data valid = Some (r, s') \<Longrightarrow> proc_step s s'"
| receive: "proc_step s (mailbox_block s)"
| block: "proc_step s (schedule (set_pstate BLOCKED (current_process s) s))"
| wake: "proc_step s (set_pstate READY p s)"
| wm: "process_wm_register s n = (r, s') \<or> process_wm_unregister s n = (r, s') \<Longrightarrow> proc_step s s'"
| netd: "process_netd_register s n = (r, s') \<or> process_netd_unregister s n = (r, s') \<Longrightarrow> proc_step s s'"
| soundd: "process_soundd_register s n = (r, s') \<or> process_soundd_unregister s n = (r, s') \<Longrightarrow> proc_step s s'"

text \<open>The variables of the kernel as the loader leaves them.\<close>

definition loaded :: "kernel \<Rightarrow> bool" where
  "loaded s \<longleftrightarrow> process_list s = 0 \<and> current_process s = 0 \<and> idle_process s = 0 \<and> next_pid s = 1 \<and> process_count s = 0 \<and>
     next_node s = 1 \<and> released s = []"

inductive proc_reach :: "kernel \<Rightarrow> bool" where
  start: "loaded s \<Longrightarrow> proc_reach (process_init s True True)"
| step: "proc_reach s \<Longrightarrow> proc_step s s' \<Longrightarrow> proc_reach s'"

definition steady :: "kernel \<Rightarrow> bool" where
  "steady s \<longleftrightarrow> (\<exists>ps. proc_ok s ps \<and> alive s)"

lemma steadyI: "proc_ok s ps \<Longrightarrow> alive s \<Longrightarrow> steady s"
  by (auto simp: steady_def)

lemma steady_init: "loaded s \<Longrightarrow> steady (process_init s True True)"
  by (rule steadyI [of _ "[1]"])
    (simp_all add: loaded_def process_init_def proc_ok_def table_ok_def run_ok_def mem_ok_def alive_def ring_def wrap32_def)

lemma steady_set:
  assumes "steady s" "\<And>x. p_next (f x) = p_next x" "\<And>x. pid (f x) = pid x" "\<And>x. p_state (f x) = p_state x"
  shows "steady (set_node p f s)"
proof -
  obtain ps where ok: "proc_ok s ps" "alive s" using assms(1) by (auto simp: steady_def)
  show ?thesis
    by (rule steadyI [OF proc_ok_set [OF ok(1) assms(2,3)] alive_set [OF ok(2) assms(4)]]) (use assms(4) proc_ok_idle(6) [OF ok(1)] in auto)
qed

lemma steady_same:
  assumes "steady s" "nodes s' = nodes s" "next_node s' = next_node s" "process_list s' = process_list s"
    "idle_process s' = idle_process s" "next_pid s' = next_pid s" "process_count s' = process_count s" "current_process s' = current_process s"
    "released s' = released s"
  shows "steady s'"
proof -
  obtain ps where ok: "proc_ok s ps" "alive s" using assms(1) by (auto simp: steady_def)
  show ?thesis by (rule steadyI [OF proc_ok_same [OF ok(1) assms(2-)]]) (use ok(2) assms(2,5,8) in \<open>simp add: alive_def\<close>)
qed

lemma steady_kept: "proc_ok s ps \<Longrightarrow> alive s \<Longrightarrow> kept s ps s' ps' \<Longrightarrow> steady s'"
  by (rule steadyI [of _ ps']) (auto simp: kept_def intro: kept_alive)

lemma steady_block:
  assumes "steady s" "\<And>x. p_next (f x) = p_next x" "\<And>x. pid (f x) = pid x" "\<And>x. p_state (f x) \<notin> {RUNNING, TERMINATED}"
  shows "steady (schedule (set_node p f s))"
proof -
  obtain ps where ok: "proc_ok s ps" using assms(1) by (auto simp: steady_def)
  have "proc_ok (set_node p f s) ps" by (rule proc_ok_set [OF ok assms(2,3)]) (use assms(4) in auto)
  from steadyI [OF schedule_ok [OF this]] show ?thesis .
qed

lemma created_steady:
  assumes ok: "proc_ok s ps" "alive s" and c: "process_create s nm entry k mem = Some (p, s')"
  shows "steady s'"
proof -
  have "\<exists>ps1. kept s ps s' ps1"
    by (rule process_create_ok [OF ok(1), of nm entry k mem]) (use c in \<open>auto simp: kept_def extends_def\<close>)
  then show ?thesis using steady_kept [OF ok] by blast
qed

lemma sys_kill_steady:
  assumes st: "steady s" and k: "sys_kill s n sig = Some (c, s')"
  shows "steady s'"
proof -
  obtain ps where ok: "proc_ok s ps" "alive s" using st by (auto simp: steady_def)
  let ?g = "if sig \<noteq> 0 then wrap32 sig else SIGTERM"
  obtain c1 s1 ps1 where sg: "process_signal s (wrap32 n) ?g = Some (c1, s1)" "proc_ok s1 ps1" "alive s1"
    by (rule process_signal_ok [OF ok])
  have "s' = s \<or> s' = s1" using k list_find_ok [OF ok(1)] sg(1) by (auto simp: sys_kill_def process_find_by_pid_def split: if_splits)
  then show ?thesis using st steadyI [OF sg(2,3)] by blast
qed

lemma proc_step_steady:
  assumes st: "steady s" and step: "proc_step s s'"
  shows "steady s'"
proof -
  obtain ps where ok: "proc_ok s ps" "alive s" using st by (auto simp: steady_def)
  note cur = proc_ok_idle(4) [OF ok(1)]
  from step show ?thesis
  proof cases
    case (timer user)
    then show ?thesis using timer_irq_ok [OF ok, of user] by (metis option.inject steadyI)
  next
    case key
    show ?thesis unfolding key by (rule steady_same [OF st]) simp_all
  next
    case (create nm entry k mem p)
    then show ?thesis using created_steady [OF ok] by blast
  next
    case (shell sp p)
    obtain q s1 ps1 where "spawn_shell_process s sp = Some (q, s1)" "kept s ps s1 ps1" by (rule spawn_shell_process_ok [OF ok(1)])
    then show ?thesis using shell steady_kept [OF ok] by simp
  next
    case (fork frame k mem new_pml4 r)
    then show ?thesis using process_fork_ok [OF ok, of frame k mem new_pml4] by (metis option.inject prod.inject steadyI)
  next
    case (exec new_stack sig_top nm r)
    then have "s' = set_node (current_process s) (\<lambda>x. x\<lparr>stack_base := new_stack, sig_stack_top := sig_top,
      signal_handlers := replicate MAX_SIGNUM 0, pending_signal := 0, in_signal_handler := False, alarm_tick := 0, p_name := take 31 (cstr nm)\<rparr>) s"
      using cur by (simp add: process_commit_exec_def)
    then show ?thesis using steady_set [OF st] by simp
  next
    case (exit code)
    then show ?thesis using process_exit_ok [OF ok(1) exit(1), of code] by (metis option.inject steadyI)
  next
    case (wait n w)
    then show ?thesis using process_wait_ok [OF ok, of n] by (metis option.inject prod.inject steadyI)
  next
    case (wait_again n w)
    let ?s = "set_node (current_process s) (\<lambda>x. x\<lparr>wait_target_pid := 0\<rparr>) s"
    have "steady ?s" by (rule steady_set [OF st]) simp_all
    then obtain ps1 where "proc_ok ?s ps1" "alive ?s" by (auto simp: steady_def)
    then show ?thesis using process_wait_ok [of ?s ps1 n] wait_again by (metis option.inject prod.inject steadyI process_wait_resume_def)
  next
    case yield
    then show ?thesis using steadyI [OF schedule_ok [OF ok(1)]] by simp
  next
    case (sleep ms)
    then show ?thesis using st steady_block [OF st, of "\<lambda>x. x\<lparr>wakeup_tick := wrap64 (pit_ticks s + wrap64 (ms + 9) div 10), p_state := SLEEPING\<rparr>"]
      by (simp add: process_sleep_def)
  next
    case (kill n sig c)
    then show ?thesis using sys_kill_steady [OF st] by blast
  next
    case (action sig handler r)
    then show ?thesis using cur st steady_set [OF st] by (auto simp: sys_sigaction_def split: if_splits)
  next
    case (deliver frame frame')
    then show ?thesis using st steady_set [OF st] by (auto simp: process_deliver_pending_signal_def Let_def split: if_splits)
  next
    case (sigreturn frame v frame')
    then show ?thesis using st steady_set [OF st] by (auto simp: process_sigreturn_def Let_def split: if_splits)
  next
    case (alarm ms r)
    then show ?thesis using st steady_set [OF st] by (auto simp: sys_alarm_def split: if_splits)
  next
    case (foreground target r)
    then show ?thesis using st steady_same [OF st] by (auto simp: process_set_foreground_def split: if_splits bind_splits)
  next
    case (send dest data valid r)
    obtain r1 s1 where "process_send s (wrap32 dest) (pid (node s (current_process s))) data = Some (r1, s1)" "kept s ps s1 ps"
      by (rule process_send_ok [OF ok(1)])
    then show ?thesis using send st steady_kept [OF ok] by (auto simp: sys_ipc_send_def split: if_splits)
  next
    case receive
    show ?thesis unfolding receive mailbox_block_def by (rule steady_block [OF st]) simp_all
  next
    case block
    show ?thesis unfolding block set_pstate_def by (rule steady_block [OF st]) simp_all
  next
    case (wake p)
    have "kept s ps (set_pstate READY p s) ps" unfolding set_pstate_def by (rule kept_set [OF ok(1)]) simp_all
    then show ?thesis unfolding wake using steady_kept [OF ok] by blast
  qed (use st steady_same [OF st] in \<open>auto simp: process_wm_register_def process_wm_unregister_def process_netd_register_def
      process_netd_unregister_def process_soundd_register_def process_soundd_unregister_def split: if_splits\<close>)
qed

lemma proc_reach_steady: "proc_reach s \<Longrightarrow> steady s"
  by (induction rule: proc_reach.induct) (auto intro: steady_init proc_step_steady)

end
