(* ===== verification/Spec2Isabelle.thy ===== *)
theory Spec2Isabelle
  imports KString Sha256 Sha256_Vectors Pmm Kheap Mailbox Pipe Pci Driver Lufirafs Lufirafs_Dir Shm Paging Mmap Users Input Vfs Process_Steps
begin

text \<open>
  LufiraOS is a 64-bit operating system in C. Its kernel (src/kernel) runs
  processes with separate address spaces on one processor; it owns physical
  memory, a heap, page tables, message boxes, pipes, shared memory, a native file
  system and the PCI bus, and lets user-space drivers claim devices. This
  development models these parts and proves what they promise to each other and to
  programs.

  \<^bold>\<open>How the code is modelled.\<close> Each theory translates one component: its structs
  are records, its enumerations datatypes, each C function is one definition of the
  same name, and each loop a recursion of its own. State that C keeps in globals or
  behind pointers is passed and returned. Failure codes are the returned values, a
  null pointer is \<open>None\<close>. Numbers are words or naturals with the wrap-around written
  out (\<open>wrap32\<close>, \<open>wrap64\<close>) wherever the code computes with a value it has not
  bounded. A call that puts its process to sleep ends with a value that says so, and
  the wake-up starts the next pass of its loop. What the code cannot determine is an
  input: the outcome of \<open>kmalloc\<close> where a component only calls it, disk transfers
  that fail, the registers of devices, the clock.

  \<^bold>\<open>Prelude, Interfaces, Ring, Bytes\<close> hold what components share: machine types, C
  strings, the loop over table slots, the contracts of a page allocator and of a heap
  (locales \<open>page_allocator\<close> and \<open>region_allocator\<close>, with what every client may
  conclude from them), rings and the contract of a bounded queue (\<open>bounded_fifo\<close>),
  little-endian fields in byte buffers.

  \<^bold>\<open>Pmm\<close> (system/mm/pmm.c) has the page bitmap, its set-up from the firmware's memory
  map and the three allocation calls. It interprets \<open>page_allocator\<close>: pages held by
  clients are distinct, usable and never handed out twice; an allocation fails only if
  no page is free. \<^bold>\<open>Kheap\<close> (system/mm/heap.c) has the block list of the heap and
  interprets \<open>region_allocator\<close>: through any history regions are disjoint and inside
  the heap. It refines first fit on the list of blocks, and no two free blocks are
  adjacent after a release. \<^bold>\<open>Paging\<close> (system/mm/paging.c) has the four levels of tables
  in a map from physical addresses; mapping a page changes the translation of this
  page alone, splitting 2 MB pages included, and the check of user pointers decides
  exactly whether a range is mapped for the user. \<^bold>\<open>Shm\<close> (system/mm/shm.c) counts
  references to shared pages; \<^bold>\<open>Mmap\<close> (the memory calls of system/syscall/syscall.c and
  the address spaces of system/process/process.c) composes the three: the virtual
  ranges of a process stay disjoint through every history of calls, and what \<open>mmap\<close>
  returns passes the kernel's own pointer check.

  \<^bold>\<open>Mailbox\<close> (system/ipc/mailbox.c) and \<^bold>\<open>Pipe\<close> (the pipe part of fs/vfs/vfs.c)
  interpret \<open>bounded_fifo\<close>: messages and bytes arrive in order and once, sleepers are
  woken, with one exception that is proved (two readers of one pipe). \<^bold>\<open>Input\<close>
  (drivers/input/input.c) is the third ring: typed keys reach the reader in order.

  \<^bold>\<open>Process\<close> (system/process/process.c and switch.S, the interrupt of
  system/timer/pit.c, the signal calls of system/syscall/syscall.c) has the circular list
  of processes as a map of nodes with next pointers, the scheduler, creation, fork, exit,
  wait, the collection of terminated processes, signals and the timer interrupt.
  \<^bold>\<open>Process_Inv\<close> shows that the list stays a ring through these operations, that the
  walks along it return, and that no process runs but the current one.

  \<^bold>\<open>Lufirafs\<close> (fs/lufirafs/lufirafs.c) has the native file system down to the bytes of
  its metadata image and its disk: block map with single and double indirection,
  allocation, reading, writing, truncation, directories, mounting and writing back.
  A write changes exactly the bytes asked for and no other file, on a volume in which
  no block is shared; what was written is there after a remount. \<^bold>\<open>Lufirafs_Dir\<close>
  relates directories to finite maps from names. \<^bold>\<open>Vfs\<close> (fs/vfs/vfs.c and
  fs/lufirafs/lufirafs_vfs.c, with what fork and exit of system/process/process.c do
  to descriptors) has the tables of open files of all processes: in every reachable
  state descriptors name live files of the right type and reference counts are exact.
  \<^bold>\<open>Users\<close> (system/users/users.c) parses and writes the user database; a database
  survives being saved and loaded.

  \<^bold>\<open>Pci\<close> (drivers/pci/pci.c) models the configuration ports with the registers behind
  them: the scan finds every function, and sizing a base address register leaves it as
  it was. \<^bold>\<open>Driver\<close> (system/driver/driver.c) has the claims of user-space drivers: a
  device has one owner, and a mapping a claim permits stays inside the device's
  memory, up to the gap that is proved. \<^bold>\<open>KString\<close> and \<^bold>\<open>Sha256\<close> (lib/string.c,
  lib/sha256.c) verify the kernel's library against plain definitions;
  \<^bold>\<open>Sha256_Vectors\<close> evaluates the hash on a published vector.

  \<^bold>\<open>Bounds and fuel.\<close> A loop is a structural recursion or one with a measure. The walks
  of the heap and of the process list follow pointers and are \<open>partial_function\<close>s whose value is \<open>None\<close> on a
  cyclic chain; on a well-formed heap or list they are shown to return. The scheduler
  gives up after 100 nodes and the collection of processes after 10000, as in the code. A receive from a
  mailbox runs through as many passes as its timeout has intervals of ten milliseconds,
  with the other processes acting in between. The search for a free user number has
  fuel, and one more candidate than the table has entries is shown to be enough; the
  path of a directory is cut off at 32 levels as in the code. The process table of
  \<open>Vfs\<close> has the 33 entries of the kernel's (32 and idle).

  \<^bold>\<open>Not modelled.\<close> Code that only drives hardware or prints (console, serial line, disk
  controllers, USB, timers, interrupt controllers, descriptor tables, ACPI, the boot
  loaders, the shell's commands) has no state beyond device registers that a theorem
  could be about without a model of the device. The foreign file systems (FAT,
  ext2, exFAT), the file system in memory, the program loader and the dynamic linker,
  and the remaining system calls are not modelled, nor is the C library of user programs
  and the host tools. The manifest lists each with its reason.
\<close>

end
